(* ===== verification/Prelude.thy ===== *)
theory Prelude imports Main "HOL-Library.Sublist" "HOL-Library.Multiset" "HOL-Library.AList" begin

text \<open>
  The shared base of the development: the collections of simplification rules that the
  component theories fill, the byte constants the sources write as character literals, and
  generic facts on lists, options and folds that more than one component uses.

  A Go \<open>string\<close> and a Go \<open>[]byte\<close> are both sequences of bytes, so both are modelled by
  HOL's \<open>string\<close>, a list of 8-bit characters.  An error result is the left injection of a
  sum type; a Go \<open>(value, bool)\<close> pair is an option.
\<close>

section \<open>Collections\<close>

named_theorems gostr "facts about the model of Go's package strings"
named_theorems gopath "facts about the model of Go's package path"
named_theorems inv_intros "introduction rules for component invariants"

section \<open>Bytes\<close>

abbreviation NL :: char where "NL \<equiv> CHR 0x0A"
abbreviation CR :: char where "CR \<equiv> CHR 0x0D"
abbreviation TAB :: char where "TAB \<equiv> CHR 0x09"
abbreviation SP :: char where "SP \<equiv> CHR 0x20"
abbreviation DQ :: char where "DQ \<equiv> CHR 0x22"
abbreviation SQ :: char where "SQ \<equiv> CHR 0x27"
abbreviation BSL :: char where "BSL \<equiv> CHR 0x5C"
abbreviation SL :: char where "SL \<equiv> CHR 0x2F"
abbreviation BQ :: char where "BQ \<equiv> CHR 0x60"

definition is_digit :: "char \<Rightarrow> bool" where
  "is_digit c \<longleftrightarrow> c \<in> set ''0123456789''"

definition is_lower :: "char \<Rightarrow> bool" where
  "is_lower c \<longleftrightarrow> c \<in> set ''abcdefghijklmnopqrstuvwxyz''"

definition is_upper :: "char \<Rightarrow> bool" where
  "is_upper c \<longleftrightarrow> c \<in> set ''ABCDEFGHIJKLMNOPQRSTUVWXYZ''"

definition is_high :: "char \<Rightarrow> bool" where
  \<comment> \<open>a byte of 0x80 or more: part of a multi-byte UTF-8 sequence\<close>
  "is_high c \<longleftrightarrow> 128 \<le> (of_char c :: nat)"

lemma is_high_code [code]: "is_high c = digit7 c"
  by (cases c) (auto simp: is_high_def of_char_def)

section \<open>Lists\<close>

lemma count_list_append_single [simp]:
  "count_list (xs @ [x]) y = count_list xs y + (if x = y then 1 else 0)"
  by simp

lemma takeWhile_append_stop:
  "\<forall>x \<in> set xs. P x \<Longrightarrow> \<not> P y \<Longrightarrow> takeWhile P (xs @ y # ys) = xs"
  by (simp add: takeWhile_append2)

lemma filter_nth_split:
  "i < length xs \<Longrightarrow> xs = take i xs @ xs ! i # drop (Suc i) xs"
  by (simp add: id_take_nth_drop)

lemma prefix_drop_append: "prefix p s \<Longrightarrow> p @ drop (length p) s = s"
  by (auto simp: prefix_def)

lemma suffix_take_append: "suffix p s \<Longrightarrow> take (length s - length p) s @ p = s"
  by (auto simp: suffix_def)

lemma find_Some_first:
  "find P xs = Some x \<Longrightarrow> x \<in> set xs \<and> P x"
  by (auto simp: find_Some_iff)

text \<open>A fold that keeps an invariant at every step keeps it to the end.\<close>

lemma fold_invariant:
  assumes "I s" and "\<And>x s. x \<in> set xs \<Longrightarrow> I s \<Longrightarrow> I (f x s)"
  shows "I (fold f xs s)"
  using assms by (induction xs arbitrary: s) auto

lemma foldl_invariant:
  assumes "I s" and "\<And>x s. x \<in> set xs \<Longrightarrow> I s \<Longrightarrow> I (f s x)"
  shows "I (foldl f s xs)"
  using assms by (induction xs arbitrary: s) auto

text \<open>Cutting a list into the classes of a function loses and repeats nothing.\<close>

lemma mset_concat_classes:
  "distinct ks \<Longrightarrow>
     mset (concat (map (\<lambda>k. filter (\<lambda>x. f x = k) xs) ks)) = filter_mset (\<lambda>x. f x \<in> set ks) (mset xs)"
proof (induction ks)
  case (Cons k ks)
  then have "k \<notin> set ks" by simp
  then have "filter_mset (\<lambda>x. f x = k) M + filter_mset (\<lambda>x. f x \<in> set ks) M =
      filter_mset (\<lambda>x. f x \<in> set (k # ks)) M" for M
    by (induction M) auto
  with Cons show ?case by simp
qed simp

lemma set_map_filter: "set (List.map_filter f xs) = {y. \<exists>x \<in> set xs. f x = Some y}"
  by (induction xs) (auto simp: List.map_filter_simps split: option.splits)

lemma set_update_subset: "set (AList.update k v xs) \<subseteq> insert (k, v) (set xs)"
  by (induction xs) auto

lemma sublist_singleton: "sublist [c] s \<longleftrightarrow> c \<in> set s"
  by (auto simp: sublist_def in_set_conv_decomp)

end
