(* ===== verification/GoStrings.thy ===== *)
theory GoStrings imports Prelude begin

text \<open>
  The functions of Go's packages \<open>strings\<close> and \<open>bytes\<close> that the sources call, on byte
  strings, with the lemmas the component theories use.  \<open>HasPrefix\<close>, \<open>HasSuffix\<close> and
  \<open>Contains\<close> are the prefix, suffix and sublist orders of the library.  \<open>TrimSpace\<close> works
  on UTF-8: it removes every rune of the Unicode property White_Space, each given here by its
  byte sequence.
\<close>

section \<open>Prefixes and suffixes\<close>

abbreviation has_prefix :: "string \<Rightarrow> string \<Rightarrow> bool" where
  "has_prefix s p \<equiv> prefix p s"

abbreviation has_suffix :: "string \<Rightarrow> string \<Rightarrow> bool" where
  "has_suffix s p \<equiv> suffix p s"

abbreviation contains_str :: "string \<Rightarrow> string \<Rightarrow> bool" where
  "contains_str s p \<equiv> sublist p s"

definition trim_prefix :: "string \<Rightarrow> string \<Rightarrow> string" where
  "trim_prefix s p = (if has_prefix s p then drop (length p) s else s)"

definition trim_suffix :: "string \<Rightarrow> string \<Rightarrow> string" where
  "trim_suffix s p = (if has_suffix s p then take (length s - length p) s else s)"

definition cut_prefix :: "string \<Rightarrow> string \<Rightarrow> string option" where
  "cut_prefix s p = (if has_prefix s p then Some (drop (length p) s) else None)"

definition cut_suffix :: "string \<Rightarrow> string \<Rightarrow> string option" where
  "cut_suffix s p = (if has_suffix s p then Some (take (length s - length p) s) else None)"

definition contains_any :: "string \<Rightarrow> string \<Rightarrow> bool" where
  "contains_any s cs \<longleftrightarrow> list_ex (\<lambda>c. c \<in> set cs) s"

lemma cut_prefix_Some [gostr]: "cut_prefix s p = Some r \<longleftrightarrow> s = p @ r"
  by (auto simp: cut_prefix_def prefix_def)

lemma cut_prefix_None [gostr]: "cut_prefix s p = None \<longleftrightarrow> \<not> has_prefix s p"
  by (auto simp: cut_prefix_def)

lemma cut_suffix_Some [gostr]: "cut_suffix s p = Some r \<longleftrightarrow> s = r @ p"
  by (auto simp: cut_suffix_def suffix_def)

lemma trim_prefix_append [gostr]: "trim_prefix (p @ s) p = s"
  by (simp add: trim_prefix_def)

lemma trim_suffix_append [gostr]: "trim_suffix (s @ p) p = s"
  by (simp add: trim_suffix_def suffix_def)

section \<open>Searching\<close>

fun str_index :: "string \<Rightarrow> string \<Rightarrow> nat option" where
  "str_index [] sub = (if sub = [] then Some 0 else None)"
| "str_index (c # cs) sub =
     (if has_prefix (c # cs) sub then Some 0 else map_option Suc (str_index cs sub))"

fun str_last_index :: "string \<Rightarrow> string \<Rightarrow> nat option" where
  "str_last_index [] sub = (if sub = [] then Some 0 else None)"
| "str_last_index (c # cs) sub =
     (case str_last_index cs sub of
        Some i \<Rightarrow> Some (Suc i)
      | None \<Rightarrow> if has_prefix (c # cs) sub then Some 0 else None)"

definition cut_at :: "string \<Rightarrow> string \<Rightarrow> string \<times> string \<times> bool" where
  \<comment> \<open>\<open>strings.Cut\<close>: the text before and after the first separator, and whether there is one\<close>
  "cut_at s sep =
     (case str_index s sep of
        None \<Rightarrow> (s, [], False)
      | Some i \<Rightarrow> (take i s, drop (i + length sep) s, True))"

lemma str_index_Some: "str_index s sub = Some i \<Longrightarrow> \<exists>b. s = take i s @ sub @ b \<and> i + length sub \<le> length s"
proof (induction s sub arbitrary: i rule: str_index.induct)
  case (2 c cs sub)
  show ?case
  proof (cases "has_prefix (c # cs) sub")
    case True
    then obtain zs where z: "c # cs = sub @ zs" by (auto simp: prefix_def)
    from True "2.prems" have "i = 0" by simp
    then show ?thesis using z by (metis append_Nil length_append le_add1 plus_nat.add_0 take0)
  next
    case False
    with "2.prems" obtain j where "i = Suc j" "str_index cs sub = Some j" by auto
    with "2.IH"[OF False] show ?thesis by auto
  qed
qed (auto split: if_splits)

lemma str_index_char: "c \<notin> set a \<Longrightarrow> str_index (a @ c # b) [c] = Some (length a)"
  by (induction a) auto

lemma str_index_None: "str_index s sub = None \<longleftrightarrow> \<not> sublist sub s"
  by (induction s sub rule: str_index.induct) (auto simp: sublist_Cons_right)

lemma str_last_index_None: "str_last_index s sub = None \<longleftrightarrow> \<not> sublist sub s"
  by (induction s sub rule: str_last_index.induct)
    (auto simp: sublist_Cons_right split: option.splits)

lemma str_last_index_Some:
  "str_last_index s sub = Some i \<Longrightarrow> \<exists>b. s = take i s @ sub @ b \<and> i + length sub \<le> length s"
proof (induction s sub arbitrary: i rule: str_last_index.induct)
  case (2 c cs sub)
  show ?case
  proof (cases "str_last_index cs sub")
    case None
    with "2.prems" have p: "has_prefix (c # cs) sub" and i: "i = 0" by (auto split: if_splits)
    from p obtain zs where z: "c # cs = sub @ zs" by (auto simp: prefix_def)
    show ?thesis using z i by (metis append_Nil length_append le_add1 plus_nat.add_0 take0)
  next
    case (Some j)
    with "2.prems" have "i = Suc j" by simp
    with "2.IH"[OF Some] show ?thesis by auto
  qed
qed (auto split: if_splits)

lemma str_last_index_append: "c \<notin> set b \<Longrightarrow> str_last_index (a @ c # b) [c] = Some (length a)"
proof -
  assume c: "c \<notin> set b"
  have n: "str_last_index b [c] = None" using c by (auto simp: str_last_index_None sublist_def)
  show ?thesis by (induction a) (auto simp: n)
qed

lemma str_last_index_rest: "str_last_index s [c] = Some i \<Longrightarrow> c \<notin> set (drop (i + 1) s)"
proof (induction s arbitrary: i)
  case (Cons d s)
  show ?case
  proof (cases "str_last_index s [c]")
    case None
    then have "c \<notin> set s" using sublist_singleton[of c s] str_last_index_None[of s "[c]"] by simp
    then show ?thesis using Cons.prems None by (auto dest: in_set_dropD split: if_splits)
  next
    case (Some j)
    then show ?thesis using Cons.IH[of j] Cons.prems by auto
  qed
qed simp

section \<open>Splitting and joining\<close>

fun split_on :: "char \<Rightarrow> string \<Rightarrow> string list" where
  "split_on c [] = [[]]"
| "split_on c (x # xs) =
     (if x = c then [] # split_on c xs
      else case split_on c xs of
        [] \<Rightarrow> [[x]]
      | l # ls \<Rightarrow> (x # l) # ls)"

fun join_on :: "string \<Rightarrow> string list \<Rightarrow> string" where
  "join_on sep [] = []"
| "join_on sep [x] = x"
| "join_on sep (x # y # ys) = x @ sep @ join_on sep (y # ys)"

text \<open>\<open>strings.SplitN(s, c, n)\<close> for a positive \<open>n\<close>: at most \<open>n\<close> parts, the last one unsplit.\<close>

definition split_n :: "char \<Rightarrow> nat \<Rightarrow> string \<Rightarrow> string list" where
  "split_n c n s =
     (let ps = split_on c s
      in if length ps \<le> n then ps else take (n - 1) ps @ [join_on [c] (drop (n - 1) ps)])"

definition lines_of :: "string \<Rightarrow> string list" where
  "lines_of s = split_on NL s"

definition unlines :: "string list \<Rightarrow> string" where
  "unlines ls = join_on [NL] ls"

lemma split_on_neq_Nil [simp]: "split_on c s \<noteq> []"
  by (cases s) (auto split: list.split)

lemma split_on_Cons:
  "split_on c (x # xs) =
     (if x = c then [] # split_on c xs else (x # hd (split_on c xs)) # tl (split_on c xs))"
  by (cases "split_on c xs") auto

text \<open>The head and tail form suits proofs, the case form evaluates faster.\<close>

declare split_on.simps(2) [simp del] split_on_Cons [simp]

lemma join_on_Cons: "ys \<noteq> [] \<Longrightarrow> join_on sep (x # ys) = x @ sep @ join_on sep ys"
  by (cases ys) auto

lemma join_on_Cons_head: "join_on sep ((a # x) # ys) = a # join_on sep (x # ys)"
  by (cases ys) auto

lemma join_split [gostr]: "join_on [c] (split_on c s) = s"
  by (induction s) (auto simp: join_on_Cons join_on_Cons_head)

lemma split_on_no_sep [gostr]: "l \<in> set (split_on c s) \<Longrightarrow> c \<notin> set l"
proof (induction s arbitrary: l)
  case (Cons x xs)
  show ?case
  proof (cases "x = c")
    case True
    with Cons show ?thesis by auto
  next
    case False
    with Cons.prems have "l = x # hd (split_on c xs) \<or> l \<in> set (tl (split_on c xs))" by simp
    then show ?thesis
      using Cons.IH False by (metis hd_in_set list.set_sel(2) set_ConsD split_on_neq_Nil)
  qed
qed simp

lemma split_on_append_sep: "split_on c (a @ c # b) = split_on c a @ split_on c b"
  by (induction a) auto

lemma split_on_plain [gostr]: "c \<notin> set l \<Longrightarrow> split_on c l = [l]"
  by (induction l) auto

lemma split_join [gostr]:
  "ls \<noteq> [] \<Longrightarrow> \<forall>l \<in> set ls. c \<notin> set l \<Longrightarrow> split_on c (join_on [c] ls) = ls"
  by (induction "[c]" ls rule: join_on.induct)
    (auto simp: split_on_plain split_on_append_sep)

lemma length_split_on: "length (split_on c s) = Suc (count_list s c)"
  by (induction s) auto

lemma split_n_join: "0 < n \<Longrightarrow> join_on [c] (split_n c n s) = s"
proof -
  assume n: "0 < n"
  have app: "ys \<noteq> [] \<Longrightarrow> join_on [c] (xs @ [join_on [c] ys]) = join_on [c] (xs @ ys)"
    for xs ys :: "string list"
    by (induction xs) (auto simp: join_on_Cons)
  show ?thesis
    using n app[of "drop (n - 1) (split_on c s)" "take (n - 1) (split_on c s)"]
    by (auto simp: split_n_def Let_def join_split)
qed

lemma lines_unlines [gostr]: "unlines (lines_of s) = s"
  by (simp add: lines_of_def unlines_def join_split)

lemma unlines_lines [gostr]:
  "ls \<noteq> [] \<Longrightarrow> \<forall>l \<in> set ls. NL \<notin> set l \<Longrightarrow> lines_of (unlines ls) = ls"
  by (simp add: lines_of_def unlines_def split_join)

lemma lines_of_neq_Nil [simp]: "lines_of s \<noteq> []"
  by (simp add: lines_of_def)

lemma lines_of_no_NL: "l \<in> set (lines_of s) \<Longrightarrow> NL \<notin> set l"
  by (simp add: lines_of_def split_on_no_sep)

declare split_on_Cons [simp del] split_on.simps(2) [simp]

text \<open>\<open>strings.Split\<close> at a separator of more than one byte.\<close>

function split_str :: "string \<Rightarrow> string \<Rightarrow> string list" where
  "split_str sep s =
     (case (if sep = [] then None else str_index s sep) of
        None \<Rightarrow> [s]
      | Some i \<Rightarrow> take i s # split_str sep (drop (i + length sep) s))"
  by pat_completeness auto
termination
proof (relation "measure (\<lambda>(sep, s). length s)")
  fix sep s :: string and i
  assume "(if sep = [] then None else str_index s sep) = Some i"
  then have "sep \<noteq> []" "str_index s sep = Some i" by (auto split: if_splits)
  then show "((sep, drop (i + length sep) s), sep, s) \<in> measure (\<lambda>(sep, s). length s)"
    using str_index_Some[of s sep i] by (cases sep) auto
qed simp

declare split_str.simps [simp del]

section \<open>Trimming\<close>

text \<open>The White_Space runes of Unicode, each in UTF-8.\<close>

definition space_runes :: "string list" where
  "space_runes =
     [[CHR 0x09], [CHR 0x0A], [CHR 0x0B], [CHR 0x0C], [CHR 0x0D], [CHR 0x20],
      [CHR 0xC2, CHR 0x85], [CHR 0xC2, CHR 0xA0], [CHR 0xE1, CHR 0x9A, CHR 0x80],
      [CHR 0xE2, CHR 0x80, CHR 0x80], [CHR 0xE2, CHR 0x80, CHR 0x81],
      [CHR 0xE2, CHR 0x80, CHR 0x82], [CHR 0xE2, CHR 0x80, CHR 0x83],
      [CHR 0xE2, CHR 0x80, CHR 0x84], [CHR 0xE2, CHR 0x80, CHR 0x85],
      [CHR 0xE2, CHR 0x80, CHR 0x86], [CHR 0xE2, CHR 0x80, CHR 0x87],
      [CHR 0xE2, CHR 0x80, CHR 0x88], [CHR 0xE2, CHR 0x80, CHR 0x89],
      [CHR 0xE2, CHR 0x80, CHR 0x8A], [CHR 0xE2, CHR 0x80, CHR 0xA8],
      [CHR 0xE2, CHR 0x80, CHR 0xA9], [CHR 0xE2, CHR 0x80, CHR 0xAF],
      [CHR 0xE2, CHR 0x81, CHR 0x9F], [CHR 0xE3, CHR 0x80, CHR 0x80]]"

lemma space_runes_neq_Nil: "r \<in> set space_runes \<Longrightarrow> r \<noteq> []"
  by (auto simp: space_runes_def)

text \<open>Remove the listed runes from the front for as long as one of them is there.\<close>

function strip_front :: "string list \<Rightarrow> string \<Rightarrow> string" where
  "strip_front rs s =
     (case find (\<lambda>r. r \<noteq> [] \<and> has_prefix s r) rs of
        None \<Rightarrow> s
      | Some r \<Rightarrow> strip_front rs (drop (length r) s))"
  by pat_completeness auto
termination
  by (relation "measure (\<lambda>(rs, s). length s)")
    (auto dest!: find_Some_first simp: prefix_def)

declare strip_front.simps [simp del]

definition trim_left_space :: "string \<Rightarrow> string" where
  "trim_left_space s = strip_front space_runes s"

definition trim_space :: "string \<Rightarrow> string" where
  "trim_space s =
     rev (strip_front (map rev space_runes) (rev (strip_front space_runes s)))"

definition trim_left_cut :: "string \<Rightarrow> string \<Rightarrow> string" where
  "trim_left_cut s cutset = dropWhile (\<lambda>c. c \<in> set cutset) s"

definition trim_right_cut :: "string \<Rightarrow> string \<Rightarrow> string" where
  "trim_right_cut s cutset = rev (dropWhile (\<lambda>c. c \<in> set cutset) (rev s))"

definition trim_cut :: "string \<Rightarrow> string \<Rightarrow> string" where
  "trim_cut s cutset = trim_right_cut (trim_left_cut s cutset) cutset"

lemma strip_front_suffix: "suffix (strip_front rs s) s"
proof (induction rs s rule: strip_front.induct)
  case (1 rs s)
  show ?case
  proof (cases "find (\<lambda>r. r \<noteq> [] \<and> has_prefix s r) rs")
    case None
    then show ?thesis by (simp add: strip_front.simps[of rs s])
  next
    case (Some r)
    with "1.IH"[OF Some] have "suffix (strip_front rs (drop (length r) s)) s"
      using suffix_drop suffix_order.order_trans by blast
    with Some show ?thesis by (simp add: strip_front.simps[of rs s])
  qed
qed

lemma strip_front_sublist: "sublist (strip_front rs s) s"
  by (simp add: strip_front_suffix suffix_imp_sublist)

lemma trim_space_sublist: "sublist (trim_space s) s"
proof -
  have "sublist (trim_space s) (strip_front space_runes s)"
    unfolding trim_space_def
    using strip_front_sublist by (metis rev_rev_ident sublist_rev)
  then show ?thesis
    using strip_front_sublist sublist_order.order_trans by blast
qed

lemma set_trim_space: "set (trim_space s) \<subseteq> set s"
  using set_mono_sublist trim_space_sublist by blast

lemma strip_front_stops:
  "r \<in> set rs \<Longrightarrow> r \<noteq> [] \<Longrightarrow> \<not> prefix r (strip_front rs s)"
proof (induction rs s rule: strip_front.induct)
  case (1 rs s)
  show ?case
  proof (cases "find (\<lambda>r. r \<noteq> [] \<and> has_prefix s r) rs")
    case None
    then have "strip_front rs s = s" by (simp add: strip_front.simps[of rs s])
    with None "1.prems" show ?thesis by (auto simp: find_None_iff)
  next
    case (Some r')
    with "1.IH"[OF Some] "1.prems" show ?thesis by (simp add: strip_front.simps[of rs s])
  qed
qed

lemma strip_front_Nil [simp]: "strip_front rs [] = []"
  using strip_front_suffix[of rs "[]"] by simp

lemma trim_space_Nil [simp]: "trim_space [] = []"
  by (simp add: trim_space_def)

lemma strip_front_id:
  "(\<And>r. r \<in> set rs \<Longrightarrow> r \<noteq> [] \<Longrightarrow> \<not> prefix r s) \<Longrightarrow> strip_front rs s = s"
  by (subst strip_front.simps) (auto simp: find_None_iff split: option.splits dest!: find_Some_first)

lemma strip_front_idem [simp]: "strip_front rs (strip_front rs s) = strip_front rs s"
  by (rule strip_front_id) (rule strip_front_stops)

section \<open>Replacing, counting, case\<close>

function replace_all :: "string \<Rightarrow> string \<Rightarrow> string \<Rightarrow> string" where
  \<comment> \<open>\<open>strings.ReplaceAll\<close> for a non-empty \<open>old\<close>\<close>
  "replace_all s old new =
     (if s = [] \<or> old = [] then s
      else if has_prefix s old then new @ replace_all (drop (length old) s) old new
      else hd s # replace_all (tl s) old new)"
  by pat_completeness auto
termination
  by (relation "measure (\<lambda>(s, old, new). length s)") auto

declare replace_all.simps [simp del]

definition to_lower_byte :: "char \<Rightarrow> char" where
  "to_lower_byte c = (if is_upper c then char_of ((of_char c :: nat) + 32) else c)"

text \<open>
  \<open>strings.ToLower\<close> on ASCII.  A non-ASCII rune is kept here; Go maps it to its lower case.
  The sources compare the result with ASCII words without \<open>i\<close> and \<open>k\<close>, the only ASCII
  letters that are the lower case of a non-ASCII rune (U+0130 and U+212A), so every comparison
  has the same outcome.
\<close>

definition to_lower :: "string \<Rightarrow> string" where
  "to_lower s = map to_lower_byte s"

text \<open>\<open>strings.Compare\<close> is the order on byte values; \<open>sort.Strings\<close> sorts by it.\<close>

fun bytes_le :: "string \<Rightarrow> string \<Rightarrow> bool" where
  "bytes_le [] ys = True"
| "bytes_le (x # xs) [] = False"
| "bytes_le (x # xs) (y # ys) =
     (if x = y then bytes_le xs ys else (of_char x :: nat) < of_char y)"

lemma bytes_le_refl [simp]: "bytes_le s s"
  by (induction s) auto

lemma bytes_le_antisym: "bytes_le a b \<Longrightarrow> bytes_le b a \<Longrightarrow> a = b"
  by (induction a b rule: bytes_le.induct) (auto split: if_splits elim: bytes_le.elims)

lemma bytes_le_trans: "bytes_le a b \<Longrightarrow> bytes_le b c \<Longrightarrow> bytes_le a c"
proof (induction a b arbitrary: c rule: bytes_le.induct)
  case (3 x xs y ys)
  then show ?case by (cases c) (auto split: if_splits)
qed auto

lemma bytes_le_total: "bytes_le a b \<or> bytes_le b a"
proof (induction a b rule: bytes_le.induct)
  case (3 x xs y ys)
  have "(of_char x :: nat) = of_char y \<Longrightarrow> x = y"
    by (metis char_of_char)
  with 3 show ?case by (cases "(of_char x :: nat)" "of_char y :: nat" rule: linorder_cases) auto
qed auto

fun insert_sorted :: "string \<Rightarrow> string list \<Rightarrow> string list" where
  "insert_sorted x [] = [x]"
| "insert_sorted x (y # ys) = (if bytes_le x y then x # y # ys else y # insert_sorted x ys)"

definition sort_strings :: "string list \<Rightarrow> string list" where
  "sort_strings xs = foldr insert_sorted xs []"

abbreviation sorted_strings :: "string list \<Rightarrow> bool" where
  "sorted_strings \<equiv> sorted_wrt bytes_le"

lemma set_insert_sorted [simp]: "set (insert_sorted x ys) = insert x (set ys)"
  by (induction ys) auto

lemma length_insert_sorted [simp]: "length (insert_sorted x ys) = Suc (length ys)"
  by (induction ys) auto

lemma sorted_insert_sorted: "sorted_strings ys \<Longrightarrow> sorted_strings (insert_sorted x ys)"
proof (induction ys)
  case (Cons y ys)
  then show ?case using bytes_le_total[of x y] by (auto intro: bytes_le_trans)
qed simp

lemma sorted_sort_strings [simp]: "sorted_strings (sort_strings xs)"
  by (induction xs) (auto simp: sort_strings_def sorted_insert_sorted)

lemma set_sort_strings [simp]: "set (sort_strings xs) = set xs"
  by (induction xs) (auto simp: sort_strings_def)

lemma length_sort_strings [simp]: "length (sort_strings xs) = length xs"
  by (induction xs) (auto simp: sort_strings_def)

lemma distinct_insert_sorted: "x \<notin> set ys \<Longrightarrow> distinct ys \<Longrightarrow> distinct (insert_sorted x ys)"
  by (induction ys) auto

lemma distinct_sort_strings [simp]: "distinct (sort_strings xs) \<longleftrightarrow> distinct xs"
  by (metis card_distinct distinct_card length_sort_strings set_sort_strings)

text \<open>A sorted list without duplicates is determined by its elements.\<close>

lemma sorted_strings_unique:
  "sorted_strings xs \<Longrightarrow> sorted_strings ys \<Longrightarrow> distinct xs \<Longrightarrow> distinct ys \<Longrightarrow> set xs = set ys
    \<Longrightarrow> xs = ys"
proof (induction xs arbitrary: ys)
  case (Cons x xs)
  then obtain y ys' where ys: "ys = y # ys'" by (cases ys) auto
  have "bytes_le x y" using Cons.prems ys by (cases "x = y") auto
  moreover have "bytes_le y x" using Cons.prems ys by (cases "x = y") auto
  ultimately have xy: "x = y" by (rule bytes_le_antisym)
  with Cons.prems ys have "set xs = set ys'" by auto
  with Cons ys xy show ?case by auto
qed auto

section \<open>Decimal integers\<close>

text \<open>\<open>strconv.Atoi\<close>: an optional sign and decimal digits, refused out of the range of a
  64-bit int.\<close>

definition digit_val :: "char \<Rightarrow> int" where
  "digit_val c = int (of_char c) - 48"

definition digits_val :: "string \<Rightarrow> int" where
  "digits_val ds = foldl (\<lambda>n c. 10 * n + digit_val c) 0 ds"

definition atoi :: "string \<Rightarrow> int option" where
  "atoi s =
     (let neg = has_prefix s ''-'';
          ds = (if neg \<or> has_prefix s ''+'' then tl s else s);
          v = (if neg then - digits_val ds else digits_val ds)
      in if ds \<noteq> [] \<and> list_all is_digit ds \<and> - (2 ^ 63) \<le> v \<and> v < 2 ^ 63 then Some v else None)"

end
