(* ===== verification/Jsonc.thy ===== *)
theory Jsonc imports GoStrings begin

text \<open>
  \<open>ts/tools/jsonc\<close>: the reader of JSON with comments and trailing commas.  \<open>strip\<close> is the
  byte loop of \<open>Strip\<close>, with the bytes from the index on as its argument and the buffer
  \<open>out\<close> as its accumulator; \<open>drop_trailing_comma\<close> walks the buffer from its end.  The lemmas
  show that no line moves (\<open>nl_subseq\<close>) and that the one-pass loop is the composition of two
  plain passes, \<open>remove_comments\<close> and \<open>drop_commas\<close>.
\<close>

section \<open>The model\<close>

definition json_ws :: "char \<Rightarrow> bool" where
  "json_ws c \<longleftrightarrow> c = SP \<or> c = TAB \<or> c = CR \<or> c = NL"

text \<open>The loop over \<open>end\<close>; the second argument is \<open>end\<close>.\<close>

fun drop_comma_at :: "string \<Rightarrow> nat \<Rightarrow> string" where
  "drop_comma_at out 0 = out"
| "drop_comma_at out (Suc e) =
     (if json_ws (out ! e) then drop_comma_at out e
      else if out ! e = CHR '','' then take e out @ drop (Suc e) out
      else out)"

definition drop_trailing_comma :: "string \<Rightarrow> string" where
  "drop_trailing_comma out = drop_comma_at out (length out)"

text \<open>The inner loop of a block comment: the bytes from the index on, and the buffer.\<close>

fun block_skip :: "string \<Rightarrow> string \<Rightarrow> string \<times> string" where
  "block_skip (x # y # r) out =
     (if x = CHR ''*'' \<and> y = SL then (x # y # r, out)
      else block_skip (y # r) (if x = NL then out @ [NL] else out))"
| "block_skip r out = (r, out)"

definition block_end :: "string \<times> string \<Rightarrow> string \<times> string" where
  \<comment> \<open>the newline an unterminated comment may end in, then past the closing pair\<close>
  "block_end ro =
     (case ro of (r, out) \<Rightarrow>
        (drop 2 r, if r \<noteq> [] \<and> hd r = NL then out @ [NL] else out))"

lemma length_block_skip: "length (fst (block_skip r out)) \<le> length r"
  by (induction r out rule: block_skip.induct) auto

lemma length_block_end: "length (fst (block_end (block_skip r out))) \<le> length r"
  using length_block_skip[of r out] by (auto simp: block_end_def split: prod.splits)

lemma dropWhile_Cons_shorter: "dropWhile P xs = n # r \<Longrightarrow> length r < length xs"
  by (metis Suc_le_lessD length_Cons length_dropWhile_le)

function strip_loop :: "bool \<Rightarrow> string \<Rightarrow> string \<Rightarrow> string" where
  "strip_loop ins [] out = out"
| "strip_loop True (c # cs) out =
     (if c = BSL then
        (case cs of
           [] \<Rightarrow> strip_loop True [] (out @ [c])
         | d # ds \<Rightarrow> strip_loop True ds (out @ [c, d]))
      else if c = DQ then strip_loop False cs (out @ [c])
      else strip_loop True cs (out @ [c]))"
| "strip_loop False (c # cs) out =
     (if c = DQ then strip_loop True cs (out @ [c])
      else if c = SL \<and> has_prefix cs [SL] then
        (case dropWhile (\<lambda>b. b \<noteq> NL) (c # cs) of
           [] \<Rightarrow> strip_loop False [] out
         | n # r \<Rightarrow> strip_loop False r (out @ [NL]))
      else if c = SL \<and> has_prefix cs ''*'' then
        strip_loop False (fst (block_end (block_skip (tl cs) out)))
          (snd (block_end (block_skip (tl cs) out)))
      else if c = CHR ''}'' \<or> c = CHR '']'' then strip_loop False cs (drop_trailing_comma out @ [c])
      else strip_loop False cs (out @ [c]))"
  by pat_completeness auto

termination
proof (relation "measure (\<lambda>(ins, s, out). length s)")
  fix c :: char and cs out n r
  assume "dropWhile (\<lambda>b. b \<noteq> NL) (c # cs) = n # r"
  then have "length r < length (c # cs)" by (rule dropWhile_Cons_shorter)
  then show "((False, r, out @ [NL]), False, c # cs, out) \<in> measure (\<lambda>(ins, s, out). length s)"
    by simp
next
  fix c :: char and cs out
  have "length (fst (block_end (block_skip (tl cs) out))) \<le> length cs"
    using length_block_end[of "tl cs" out] by (cases cs) auto
  then show "((False, fst (block_end (block_skip (tl cs) out)), snd (block_end (block_skip (tl cs) out))),
      False, c # cs, out) \<in> measure (\<lambda>(ins, s, out). length s)"
    by (simp add: case_prod_beta)
qed auto

definition strip :: "string \<Rightarrow> string" where
  "strip data = strip_loop False data []"

text \<open>\<open>Unmarshal\<close> over the decoder of \<open>encoding/json\<close>, a parameter.\<close>

definition unmarshal :: "(string \<Rightarrow> 'v) \<Rightarrow> string \<Rightarrow> 'v" where
  "unmarshal decode data = decode (strip data)"

section \<open>The reference: two passes\<close>

text \<open>A block comment's body, up to its closing pair or to the end, and the text after it.\<close>

fun comment_body :: "string \<Rightarrow> string \<times> string" where
  "comment_body [] = ([], [])"
| "comment_body (x # r) =
     (if x = CHR ''*'' \<and> has_prefix r [SL] then ([], tl r)
      else (x # fst (comment_body r), snd (comment_body r)))"

lemma length_comment_body: "length (snd (comment_body r)) \<le> length r"
  by (induction r rule: comment_body.induct) auto

text \<open>A comment leaves only the newlines in it; a string is copied.\<close>

function remove_comments :: "bool \<Rightarrow> string \<Rightarrow> string" where
  "remove_comments ins [] = []"
| "remove_comments True (c # cs) =
     (if c = BSL then (case cs of [] \<Rightarrow> [c] | d # ds \<Rightarrow> c # d # remove_comments True ds)
      else c # remove_comments (c \<noteq> DQ) cs)"
| "remove_comments False (c # cs) =
     (if c = SL \<and> has_prefix cs [SL] then
        (case dropWhile (\<lambda>b. b \<noteq> NL) cs of [] \<Rightarrow> [] | n # r \<Rightarrow> NL # remove_comments False r)
      else if c = SL \<and> has_prefix cs ''*'' then
        filter (\<lambda>b. b = NL) (fst (comment_body (tl cs)))
          @ remove_comments False (snd (comment_body (tl cs)))
      else c # remove_comments (c = DQ) cs)"
  by pat_completeness auto
termination
proof (relation "measure (\<lambda>(ins, s). length s)")
  fix c :: char and cs n r
  assume "dropWhile (\<lambda>b. b \<noteq> NL) cs = n # r"
  then have "length r < length cs" by (rule dropWhile_Cons_shorter)
  then show "((False, r), False, c # cs) \<in> measure (\<lambda>(ins, s). length s)" by simp
next
  fix c :: char and cs
  have "length (snd (comment_body (tl cs))) \<le> length cs"
    using length_comment_body[of "tl cs"] by (cases cs) auto
  then show "((False, snd (comment_body (tl cs))), False, c # cs) \<in> measure (\<lambda>(ins, s). length s)"
    by simp
qed auto

definition closer :: "char \<Rightarrow> bool" where
  "closer c \<longleftrightarrow> c = CHR ''}'' \<or> c = CHR '']''"

definition closes :: "string \<Rightarrow> bool" where
  \<comment> \<open>the first byte that is not white space closes an object or array\<close>
  "closes s = (case dropWhile json_ws s of [] \<Rightarrow> False | c # _ \<Rightarrow> closer c)"

fun drop_commas :: "bool \<Rightarrow> string \<Rightarrow> string" where
  "drop_commas ins [] = []"
| "drop_commas True [c] = [c]"
| "drop_commas True (c # d # ds) =
     (if c = BSL then c # d # drop_commas True ds else c # drop_commas (c \<noteq> DQ) (d # ds))"
| "drop_commas False (c # cs) =
     (if c = CHR '','' \<and> closes cs then drop_commas False cs
      else c # drop_commas (c = DQ) cs)"

text \<open>The comma handling of the loop alone, on a text without comments.\<close>

fun comma_loop :: "bool \<Rightarrow> string \<Rightarrow> string \<Rightarrow> string" where
  "comma_loop ins [] out = out"
| "comma_loop True [c] out = out @ [c]"
| "comma_loop True (c # d # ds) out =
     (if c = BSL then comma_loop True ds (out @ [c, d])
      else comma_loop (c \<noteq> DQ) (d # ds) (out @ [c]))"
| "comma_loop False (c # cs) out =
     comma_loop (c = DQ) cs (if closer c then drop_trailing_comma out @ [c] else out @ [c])"

lemma block_skip_spec:
  "block_end (block_skip r out) =
     (snd (comment_body r), out @ filter (\<lambda>b. b = NL) (fst (comment_body r)))"
proof (induction r out rule: block_skip.induct)
  case (1 x y r out)
  then show ?case by (auto simp: block_end_def)
qed (auto simp: block_end_def)

lemma comma_loop_nls:
  "\<forall>b \<in> set nls. b = NL \<Longrightarrow> comma_loop False (nls @ t) out = comma_loop False t (out @ nls)"
  by (induction nls arbitrary: out) (auto simp: closer_def)

lemma strip_loop_comments: "strip_loop ins s out = comma_loop ins (remove_comments ins s) out"
proof (induction ins s out rule: strip_loop.induct)
  case (2 c cs out)
  show ?case
  proof (cases "c = BSL")
    case True
    then show ?thesis using 2(1,2) by (auto split: list.splits)
  next
    case False
    then show ?thesis
      using 2(3,4) by (cases "remove_comments (c \<noteq> DQ) cs") auto
  qed
next
  case (3 c cs out)
  consider (str) "c = DQ" | (line) "c = SL" "has_prefix cs [SL]"
    | (block) "c = SL" "has_prefix cs ''*''" "\<not> has_prefix cs [SL]"
    | (close) "closer c" | (other) "c \<noteq> DQ" "\<not> closer c"
        "\<not> (c = SL \<and> (has_prefix cs [SL] \<or> has_prefix cs ''*''))"
    by blast
  then show ?case
  proof cases
    case line
    then show ?thesis using 3(2,3)
      by (cases "dropWhile (\<lambda>b. b \<noteq> NL) cs") (simp_all add: closer_def del: dropWhile_eq_Nil_conv)
  next
    case block
    then show ?thesis using 3(4) by (simp add: block_skip_spec comma_loop_nls)
  qed (use 3 in \<open>auto simp: closer_def\<close>)
qed simp

subsection \<open>Looking back for a comma is looking ahead for a closer\<close>

lemma dtc_ws: "json_ws c \<Longrightarrow> drop_trailing_comma (out @ [c]) = drop_trailing_comma out @ [c]"
proof -
  assume ws: "json_ws c"
  have "e \<le> length out \<Longrightarrow> drop_comma_at (out @ [c]) e = drop_comma_at out e @ [c]" for e
    by (induction out e rule: drop_comma_at.induct) (auto simp: nth_append)
  with ws show ?thesis by (simp add: drop_trailing_comma_def)
qed

lemma dtc_comma: "drop_trailing_comma (out @ [CHR '','']) = out"
  by (simp add: drop_trailing_comma_def json_ws_def)

lemma dtc_other:
  "\<not> json_ws c \<Longrightarrow> c \<noteq> CHR '','' \<Longrightarrow> drop_trailing_comma (out @ [c]) = out @ [c]"
  by (simp add: drop_trailing_comma_def)

lemma closes_Cons: "closes (c # s) = (if json_ws c then closes s else closer c)"
  by (simp add: closes_def)

lemma comma_loop_spec:
  "comma_loop ins t out =
     (if \<not> ins \<and> closes t then drop_trailing_comma out else out) @ drop_commas ins t"
proof (induction ins t out rule: comma_loop.induct)
  case (1 ins out)
  then show ?case by (simp add: closes_def)
next
  case (3 c d ds out)
  then show ?case by (cases "c = DQ") (auto simp: dtc_other json_ws_def)
next
  case (4 c cs out)
  consider (ws) "json_ws c" | (close) "closer c" | (comma) "c = CHR '',''" | (str) "c = DQ"
    | (other) "\<not> json_ws c" "\<not> closer c" "c \<noteq> CHR '',''" "c \<noteq> DQ" by blast
  then show ?case
  proof cases
    case ws
    then show ?thesis using 4 by (auto simp: closes_Cons dtc_ws json_ws_def closer_def)
  next
    case close
    then show ?thesis using 4 by (auto simp: closes_Cons dtc_other json_ws_def closer_def)
  next
    case comma
    then show ?thesis using 4 by (auto simp: closes_Cons dtc_comma json_ws_def closer_def)
  next
    case str
    then show ?thesis using 4 by (auto simp: closes_Cons json_ws_def closer_def)
  next
    case other
    then show ?thesis using 4 by (auto simp: closes_Cons dtc_other)
  qed
qed simp

lemma strip_two_passes: "strip d = drop_commas False (remove_comments False d)"
  by (simp add: strip_def strip_loop_comments comma_loop_spec)
     (simp add: drop_trailing_comma_def)

section \<open>Lines stay where they are\<close>

text \<open>\<open>nl_subseq xs ys\<close>: \<open>xs\<close> is \<open>ys\<close> with some bytes deleted, none of them a newline.\<close>

inductive nl_subseq :: "string \<Rightarrow> string \<Rightarrow> bool" where
  ns_nil [inv_intros]: "nl_subseq [] []"
| ns_keep [inv_intros]: "nl_subseq xs ys \<Longrightarrow> nl_subseq (c # xs) (c # ys)"
| ns_drop: "c \<noteq> NL \<Longrightarrow> nl_subseq xs ys \<Longrightarrow> nl_subseq xs (c # ys)"

inductive_cases nl_subseq_ConsE: "nl_subseq xs (c # ys)"

lemma nl_subseq_refl [simp]: "nl_subseq xs xs"
  by (induction xs) (auto intro: nl_subseq.intros)

lemma nl_subseq_append: "nl_subseq a b \<Longrightarrow> nl_subseq c d \<Longrightarrow> nl_subseq (a @ c) (b @ d)"
  by (induction rule: nl_subseq.induct) (auto intro: nl_subseq.intros)

lemma nl_subseq_trans: "nl_subseq b c \<Longrightarrow> nl_subseq a b \<Longrightarrow> nl_subseq a c"
proof (induction arbitrary: a rule: nl_subseq.induct)
  case (ns_keep xs ys c)
  from ns_keep.prems show ?case
    by (rule nl_subseq_ConsE) (auto intro: nl_subseq.intros ns_keep.IH)
qed (auto intro: nl_subseq.intros)

lemma nl_subseq_delete: "NL \<notin> set ys \<Longrightarrow> nl_subseq [] ys"
  by (induction ys) (auto intro: nl_subseq.intros)

lemma nl_subseq_append_drop: "NL \<notin> set d \<Longrightarrow> nl_subseq a b \<Longrightarrow> nl_subseq a (b @ d)"
  using nl_subseq_append[of a b "[]" d] nl_subseq_delete by simp

lemma nl_subseq_lines:
  "nl_subseq xs ys \<Longrightarrow> list_all2 subseq (lines_of xs) (lines_of ys)"
proof (induction rule: nl_subseq.induct)
  case (ns_keep xs ys c)
  then have "list_all2 subseq (split_on NL xs) (split_on NL ys)" by (simp add: lines_of_def)
  then show ?case
    by (cases "split_on NL xs"; cases "split_on NL ys") (auto simp: lines_of_def)
next
  case (ns_drop c xs ys)
  then have "list_all2 subseq (split_on NL xs) (split_on NL ys)" by (simp add: lines_of_def)
  with ns_drop(1) show ?case
    by (cases "split_on NL xs"; cases "split_on NL ys") (auto simp: lines_of_def)
qed (simp add: lines_of_def)

lemma nl_subseq_dropWhile:
  "nl_subseq [] (takeWhile (\<lambda>b. b \<noteq> NL) s)"
  by (rule nl_subseq_delete) (auto dest: set_takeWhileD)

lemma comment_body_split:
  "r = fst (comment_body r) @ snd (comment_body r) \<or>
   r = fst (comment_body r) @ ''*'' @ [SL] @ snd (comment_body r)"
  by (induction r rule: comment_body.induct) (auto simp: prefix_def)

lemma nl_subseq_filter: "nl_subseq (filter (\<lambda>b. b = NL) s) s"
  by (induction s) (auto intro: nl_subseq.intros)

lemma nl_subseq_comments: "nl_subseq (remove_comments ins s) s"
proof (induction ins s rule: remove_comments.induct)
  case (2 c cs)
  then show ?case by (auto intro: nl_subseq.intros split: list.splits)
next
  case (3 c cs)
  show ?case
  proof (cases "c = SL \<and> has_prefix cs [SL]")
    case True
    have cs: "cs = takeWhile (\<lambda>b. b \<noteq> NL) cs @ dropWhile (\<lambda>b. b \<noteq> NL) cs" by simp
    have "nl_subseq (remove_comments False (c # cs)) (dropWhile (\<lambda>b. b \<noteq> NL) cs)"
    proof (cases "dropWhile (\<lambda>b. b \<noteq> NL) cs")
      case Nil
      then show ?thesis using True by (simp add: ns_nil del: dropWhile_eq_Nil_conv)
    next
      case (Cons n r)
      then have "n = NL" using hd_dropWhile[of "\<lambda>b. b \<noteq> NL" cs] by simp
      then show ?thesis using Cons True 3(1)[OF True Cons] by (simp add: ns_keep)
    qed
    then have "nl_subseq ([] @ remove_comments False (c # cs)) cs"
      using nl_subseq_append[OF nl_subseq_dropWhile] cs by metis
    then show ?thesis using True by (auto intro: ns_drop)
  next
    case nl: False
    show ?thesis
    proof (cases "c = SL \<and> has_prefix cs ''*''")
      case True
      let ?b = "fst (comment_body (tl cs))" and ?r = "snd (comment_body (tl cs))"
      have body: "nl_subseq (filter (\<lambda>b. b = NL) ?b @ remove_comments False ?r) (?b @ ?r)"
        using 3(2)[OF nl True] by (intro nl_subseq_append nl_subseq_filter)
      have close: "nl_subseq (?b @ ?r) (?b @ ''*'' @ [SL] @ ?r)"
        by (intro nl_subseq_append nl_subseq_refl) (auto intro!: ns_drop)
      let ?out = "filter (\<lambda>b. b = NL) ?b @ remove_comments False ?r"
      have "nl_subseq ?out (tl cs)"
        using comment_body_split[of "tl cs"] body nl_subseq_trans[OF close body] by metis
      then have "nl_subseq ?out (SL # CHR ''*'' # tl cs)"
        by (intro ns_drop) simp_all
      moreover have "c # cs = SL # CHR ''*'' # tl cs" using True by (cases cs) auto
      moreover have "remove_comments False (c # cs) = ?out" using nl True by simp
      ultimately show ?thesis by metis
    next
      case False
      with nl 3(3) show ?thesis by (auto intro: ns_keep)
    qed
  qed
qed (auto intro: nl_subseq.intros)

lemma nl_subseq_commas: "nl_subseq (drop_commas ins s) s"
  by (induction ins s rule: drop_commas.induct) (auto intro: nl_subseq.intros)

lemma nl_subseq_strip: "nl_subseq (strip d) d"
  unfolding strip_two_passes
  by (rule nl_subseq_trans[OF nl_subseq_comments nl_subseq_commas])

section \<open>Text that needs no stripping\<close>

text \<open>No comment opens outside a string and no comma stands before a closer.\<close>

fun standard :: "bool \<Rightarrow> string \<Rightarrow> bool" where
  "standard ins [] = True"
| "standard True [c] = True"
| "standard True (c # d # ds) = (if c = BSL then standard True ds else standard (c \<noteq> DQ) (d # ds))"
| "standard False (c # cs) =
     (\<not> (c = SL \<and> (has_prefix cs [SL] \<or> has_prefix cs ''*'')) \<and>
      \<not> (c = CHR '','' \<and> closes cs) \<and> standard (c = DQ) cs)"

lemma standard_comments: "standard ins d \<Longrightarrow> remove_comments ins d = d"
  by (induction ins d rule: standard.induct) auto

lemma standard_commas: "standard ins d \<Longrightarrow> drop_commas ins d = d"
  by (induction ins d rule: standard.induct) auto

section \<open>Properties\<close>

text \<open>C25. The byte loop of \<open>Strip\<close> equals the composition of a pass that deletes comments,
  keeping their newlines, and a pass that deletes each comma standing before a closer; both
  leave string literals, escapes included, as they are.\<close>

theorem strip_is_two_passes: "strip data = drop_commas False (remove_comments False data)"
  by (rule strip_two_passes)

text \<open>\<open>Strip\<close> keeps every line where it is: the output has the lines of the input, each
  with bytes deleted only, so a parse error's line number is the source's.\<close>

theorem strip_keeps_lines: "list_all2 subseq (lines_of (strip data)) (lines_of data)"
  by (rule nl_subseq_lines) (rule nl_subseq_strip)

text \<open>A text with no comment outside a string and no trailing comma, standard JSON in
  particular, comes through \<open>Strip\<close> byte for byte.\<close>

theorem strip_standard: "standard False data \<Longrightarrow> strip data = data"
  by (simp add: strip_two_passes standard_comments standard_commas)

theorem strip_standard_witness:
  "strip (''{'' @ [DQ] @ ''a//b,}'' @ [DQ] @ '':[1,2]}'') = ''{'' @ [DQ] @ ''a//b,}'' @ [DQ] @ '':[1,2]}''"
  by (rule strip_standard) (simp add: closes_def closer_def json_ws_def)

end
