(* ===== verification/GoPath.thy ===== *)
theory GoPath imports GoStrings begin

text \<open>
  Go's package \<open>path\<close> (and \<open>path/filepath\<close> on Unix, where the two agree on what is used
  here): \<open>Clean\<close>, \<open>Join\<close>, \<open>Dir\<close>, \<open>Base\<close>, \<open>Ext\<close>, \<open>IsAbs\<close>.  \<open>Clean\<close> is the
  lexical normal form: drop empty and \<open>.\<close> elements, let \<open>..\<close> remove the element before it,
  drop \<open>..\<close> at a root, and read an empty result as \<open>.\<close>.
\<close>

definition is_abs :: "string \<Rightarrow> bool" where
  "is_abs p \<longleftrightarrow> (case p of [] \<Rightarrow> False | c # _ \<Rightarrow> c = SL)"

text \<open>One element of the path against the stack of elements kept so far (last one first).\<close>

definition clean_step :: "bool \<Rightarrow> string list \<Rightarrow> string \<Rightarrow> string list" where
  "clean_step rooted st e =
     (if e = [] \<or> e = ''.'' then st
      else if e = ''..'' then
        (case st of
           [] \<Rightarrow> if rooted then [] else [''..'']
         | t # ts \<Rightarrow> if t = ''..'' then ''..'' # st else ts)
      else e # st)"

definition clean_elems :: "bool \<Rightarrow> string list \<Rightarrow> string list" where
  "clean_elems rooted es = rev (foldl (clean_step rooted) [] es)"

definition path_clean :: "string \<Rightarrow> string" where
  "path_clean p =
     (let body = join_on [SL] (clean_elems (is_abs p) (split_on SL p))
      in if is_abs p then SL # body else if body = [] then ''.'' else body)"

definition path_join :: "string list \<Rightarrow> string" where
  "path_join es =
     (let ne = filter (\<lambda>e. e \<noteq> []) es
      in if ne = [] then [] else path_clean (join_on [SL] ne))"

text \<open>The text up to and including the last slash, and the text after it.\<close>

definition path_split :: "string \<Rightarrow> string \<times> string" where
  "path_split p =
     (rev (dropWhile (\<lambda>c. c \<noteq> SL) (rev p)), rev (takeWhile (\<lambda>c. c \<noteq> SL) (rev p)))"

definition path_dir :: "string \<Rightarrow> string" where
  "path_dir p = path_clean (fst (path_split p))"

definition path_base :: "string \<Rightarrow> string" where
  "path_base p =
     (if p = [] then ''.''
      else let q = rev (dropWhile (\<lambda>c. c = SL) (rev p))
           in if q = [] then [SL] else snd (path_split q))"

text \<open>The suffix from the last dot of the last element; empty when it has none.\<close>

definition path_ext :: "string \<Rightarrow> string" where
  "path_ext p =
     (let b = snd (path_split p); e = rev (takeWhile (\<lambda>c. c \<noteq> CHR ''.'') (rev b))
      in if length e = length b then [] else CHR ''.'' # e)"

section \<open>Clean\<close>

text \<open>The elements a clean path can have.\<close>

definition clean_stack :: "bool \<Rightarrow> string list \<Rightarrow> bool" where
  "clean_stack rooted st \<longleftrightarrow>
     (\<forall>e \<in> set st. e \<noteq> [] \<and> e \<noteq> ''.'' \<and> SL \<notin> set e) \<and>
     (\<exists>n xs. st = xs @ replicate n ''..'' \<and> ''..'' \<notin> set xs \<and> (rooted \<longrightarrow> n = 0))"

lemma clean_stackI:
  "st = xs @ replicate n ''..'' \<Longrightarrow> ''..'' \<notin> set xs \<Longrightarrow> rooted \<longrightarrow> n = 0 \<Longrightarrow>
     \<forall>e \<in> set st. e \<noteq> [] \<and> e \<noteq> ''.'' \<and> SL \<notin> set e \<Longrightarrow> clean_stack rooted st"
  unfolding clean_stack_def by blast

lemma clean_stack_Nil [simp]: "clean_stack rooted []"
  unfolding clean_stack_def by (auto intro: exI[of _ 0])

lemma clean_stack_step:
  assumes "clean_stack rooted st" and "SL \<notin> set e"
  shows "clean_stack rooted (clean_step rooted st e)"
proof -
  from assms(1) obtain n xs where st: "st = xs @ replicate n ''..''" "''..'' \<notin> set xs"
      "rooted \<longrightarrow> n = 0" and el: "\<forall>e \<in> set st. e \<noteq> [] \<and> e \<noteq> ''.'' \<and> SL \<notin> set e"
    by (auto simp: clean_stack_def)
  consider (skip) "e = [] \<or> e = ''.''" | (up) "e = ''..''" | (plain) "e \<noteq> []" "e \<noteq> ''.''" "e \<noteq> ''..''"
    by blast
  then show ?thesis
  proof cases
    case skip
    then show ?thesis using assms(1) by (simp add: clean_step_def)
  next
    case up
    show ?thesis
    proof (cases xs)
      case Nil
      show ?thesis
      proof (cases rooted)
        case True
        with Nil st up show ?thesis by (simp add: clean_step_def)
      next
        case False
        have "clean_step rooted st e = [] @ replicate (Suc n) ''..''"
          using Nil st(1) up False by (cases n) (simp_all add: clean_step_def)
        then show ?thesis
          by (rule clean_stackI[of _ "[]" "Suc n"])
             (use False \<open>clean_step rooted st e = [] @ replicate (Suc n) ''..''\<close> in auto)
      qed
    next
      case (Cons y ys)
      then have "clean_step rooted st e = ys @ replicate n ''..''" and "''..'' \<notin> set ys"
        using st up by (auto simp: clean_step_def)
      then show ?thesis
        using st(3) el Cons st(1) unfolding clean_stack_def by auto
    qed
  next
    case plain
    then have "clean_step rooted st e = (e # xs) @ replicate n ''..''" and "''..'' \<notin> set (e # xs)"
      using st by (auto simp: clean_step_def)
    moreover have "\<forall>x \<in> set (e # st). x \<noteq> [] \<and> x \<noteq> ''.'' \<and> SL \<notin> set x"
      using el plain assms(2) by auto
    ultimately show ?thesis
      using st(1,3) unfolding clean_stack_def by (metis append_Cons)
  qed
qed

lemma clean_stack_foldl:
  "clean_stack rooted st \<Longrightarrow> \<forall>e \<in> set es. SL \<notin> set e \<Longrightarrow>
     clean_stack rooted (foldl (clean_step rooted) st es)"
  by (rule foldl_invariant) (auto intro: clean_stack_step)

lemma clean_stack_split: "clean_stack rooted (foldl (clean_step rooted) [] (split_on SL p))"
  by (rule clean_stack_foldl) (auto simp: split_on_no_sep)

text \<open>On the elements of a clean path, \<open>Clean\<close> changes nothing.\<close>

lemma foldl_clean_plain:
  "\<forall>e \<in> set es. e \<noteq> [] \<and> e \<noteq> ''.'' \<and> e \<noteq> ''..'' \<Longrightarrow>
     foldl (clean_step rooted) st es = rev es @ st"
  by (induction es arbitrary: st) (auto simp: clean_step_def)

lemma foldl_clean_ups:
  "\<not> rooted \<Longrightarrow> foldl (clean_step rooted) (replicate m ''..'') (replicate n ''..'') =
     replicate (m + n) ''..''"
proof (induction n arbitrary: m)
  case (Suc n)
  then have "clean_step rooted (replicate m ''..'') ''..'' = replicate (Suc m) ''..''"
    by (cases m) (auto simp: clean_step_def)
  with Suc Suc.IH[of "Suc m"] show ?case by simp
qed simp

lemma clean_elems_stack:
  assumes "clean_stack rooted st"
  shows "clean_elems rooted (rev st) = rev st"
proof -
  from assms obtain n xs where st: "st = xs @ replicate n ''..''" "''..'' \<notin> set xs"
      "rooted \<longrightarrow> n = 0" and el: "\<forall>e \<in> set st. e \<noteq> [] \<and> e \<noteq> ''.'' \<and> SL \<notin> set e"
    by (auto simp: clean_stack_def)
  have "foldl (clean_step rooted) [] (replicate n ''..'') = replicate n ''..''"
    using st(3) foldl_clean_ups[of rooted 0 n] by (cases n) auto
  moreover have "\<forall>e \<in> set (rev xs). e \<noteq> [] \<and> e \<noteq> ''.'' \<and> e \<noteq> ''..''"
    using st(1,2) el by auto
  ultimately show ?thesis
    using st(1) by (simp add: clean_elems_def foldl_clean_plain)
qed

lemma join_elems_Nil_iff:
  "\<forall>e \<in> set es. e \<noteq> [] \<Longrightarrow> join_on [SL] es = [] \<longleftrightarrow> es = []"
  by (induction "[SL]" es rule: join_on.induct) auto

lemma hd_join_elems:
  "es \<noteq> [] \<Longrightarrow> hd es \<noteq> [] \<Longrightarrow> hd (join_on [SL] es) = hd (hd es)"
  by (cases es; cases "tl es") auto

lemma clean_elems_mem:
  "e \<in> set (clean_elems r (split_on SL p)) \<Longrightarrow> e \<noteq> [] \<and> e \<noteq> ''.'' \<and> SL \<notin> set e"
  using clean_stack_split[of r p] by (auto simp: clean_elems_def clean_stack_def)

lemma is_abs_path_clean [simp]: "is_abs (path_clean p) = is_abs p"
proof -
  let ?es = "clean_elems (is_abs p) (split_on SL p)"
  have ne: "\<forall>e \<in> set ?es. e \<noteq> [] \<and> SL \<notin> set e"
    using clean_elems_mem by blast
  show ?thesis
  proof (cases "is_abs p \<or> ?es = []")
    case True
    then show ?thesis by (auto simp: path_clean_def Let_def is_abs_def)
  next
    case False
    then have h: "hd (join_on [SL] ?es) = hd (hd ?es)" "join_on [SL] ?es \<noteq> []" "hd ?es \<in> set ?es"
      using ne by (auto simp: hd_join_elems join_elems_Nil_iff)
    then have "hd (join_on [SL] ?es) \<noteq> SL"
      using ne by (metis hd_in_set)
    with h(2) False show ?thesis
      by (auto simp: path_clean_def Let_def is_abs_def split: list.splits)
  qed
qed

lemma split_on_Cons_sep: "split_on c (c # s) = [] # split_on c s"
  by simp

theorem path_clean_idem [gopath, simp]: "path_clean (path_clean p) = path_clean p"
proof -
  let ?st = "foldl (clean_step (is_abs p)) [] (split_on SL p)"
  let ?es = "clean_elems (is_abs p) (split_on SL p)"
  have st: "clean_stack (is_abs p) ?st" by (rule clean_stack_split)
  have es: "?es = rev ?st" by (simp add: clean_elems_def)
  have fix_es: "clean_elems (is_abs p) ?es = ?es"
    using clean_elems_stack[OF st] by (simp add: es)
  have ne: "\<forall>e \<in> set ?es. SL \<notin> set e"
    using clean_elems_mem by blast
  have skip: "clean_elems r [] = []" "clean_elems r ([] # xs) = clean_elems r xs" "clean_elems r [''.''] = []"
      "clean_elems r [[]] = []" for r xs
    by (auto simp: clean_elems_def clean_step_def)
  have "clean_elems (is_abs p) (split_on SL (path_clean p)) = ?es"
  proof (cases "?es = []")
    case True
    then show ?thesis
      by (auto simp: path_clean_def Let_def skip)
  next
    case False
    then have "split_on SL (join_on [SL] ?es) = ?es"
      using ne by (simp add: split_join)
    moreover have "join_on [SL] ?es \<noteq> []"
      using False clean_elems_mem by (metis join_elems_Nil_iff)
    ultimately show ?thesis
      using fix_es by (auto simp: path_clean_def Let_def skip)
  qed
  then show ?thesis by (simp add: path_clean_def[of "path_clean p"]) (simp add: path_clean_def Let_def)
qed

lemma path_clean_neq_Nil [simp]: "path_clean p \<noteq> []"
  by (auto simp: path_clean_def Let_def)

subsection \<open>Lengths: a parent is shorter\<close>

lemma length_join_on: "length (join_on [c] es) = (\<Sum>e\<leftarrow>es. length e) + (length es - 1)"
  by (induction "[c]" es rule: join_on.induct) auto

abbreviation elems_weight :: "string list \<Rightarrow> nat" where
  "elems_weight es \<equiv> (\<Sum>e\<leftarrow>es. Suc (length e))"

lemma elems_weight_alt: "elems_weight es = (\<Sum>e\<leftarrow>es. length e) + length es"
  by (induction es) auto

lemma length_join_weight: "es \<noteq> [] \<Longrightarrow> Suc (length (join_on [c] es)) = elems_weight es"
  by (cases es) (auto simp: length_join_on elems_weight_alt)

lemma clean_step_weight: "elems_weight (clean_step r st e) \<le> elems_weight st + Suc (length e)"
  by (auto simp: clean_step_def split: list.splits)

lemma foldl_clean_weight:
  "elems_weight (foldl (clean_step r) st es) \<le> elems_weight st + elems_weight es"
proof (induction es arbitrary: st)
  case (Cons e es)
  have "elems_weight (foldl (clean_step r) (clean_step r st e) es)
      \<le> elems_weight (clean_step r st e) + elems_weight es" by (rule Cons.IH)
  then show ?case using clean_step_weight[of r st e] by simp
qed simp

lemma clean_elems_weight: "elems_weight (clean_elems r es) \<le> elems_weight es"
proof -
  have "elems_weight (rev st) = elems_weight st" for st
    by (simp add: rev_map sum_list_rev flip: rev_map)
  then show ?thesis using foldl_clean_weight[of r "[]" es] by (simp add: clean_elems_def)
qed

lemma weight_split_on: "elems_weight (split_on c s) = Suc (length s)"
  using length_join_weight[of "split_on c s" c] by (simp add: join_split)

section \<open>Parents\<close>

lemma path_split_append: "fst (path_split p) @ snd (path_split p) = p"
  by (simp add: path_split_def) (metis rev_append rev_rev_ident takeWhile_dropWhile_id)

lemma path_split_base_no_slash: "SL \<notin> set (snd (path_split p))"
  by (auto simp: path_split_def Let_def dest: set_takeWhileD)

lemma path_split_dir: "fst (path_split p) = [] \<or> (\<exists>q. fst (path_split p) = q @ [SL])"
proof -
  let ?d = "dropWhile (\<lambda>c. c \<noteq> SL) (rev p)"
  have "?d = [] \<or> hd ?d = SL" using hd_dropWhile by blast
  then show ?thesis by (cases ?d) (auto simp: path_split_def)
qed

lemma clean_elems_trailing: "clean_elems r (es @ [[]]) = clean_elems r es"
  by (simp add: clean_elems_def clean_step_def)

lemma clean_elems_leading: "clean_elems r ([] # es) = clean_elems r es"
  by (simp add: clean_elems_def clean_step_def)

lemma length_join_clean:
  "elems_weight es \<le> Suc n \<Longrightarrow> length (join_on [SL] (clean_elems r es)) \<le> n"
  using length_join_weight[of "clean_elems r es" SL] clean_elems_weight[of r es]
  by (cases "clean_elems r es = []") auto

lemma length_path_clean_dir:
  "length (path_clean (q @ [SL])) \<le> max 1 (length q)"
proof -
  have sp: "split_on SL (q @ [SL]) = split_on SL q @ [[]]"
    using split_on_append_sep[of SL q "[]"] by simp
  show ?thesis
  proof (cases q)
    case Nil
    then show ?thesis by (simp add: path_clean_def is_abs_def clean_elems_def clean_step_def)
  next
    case (Cons c q')
    show ?thesis
    proof (cases "c = SL")
      case True
      have "length (join_on [SL] (clean_elems True (split_on SL q'))) \<le> length q'"
        by (rule length_join_clean) (simp add: weight_split_on)
      moreover have "clean_elems True (split_on SL (q @ [SL])) = clean_elems True (split_on SL q')"
        using Cons True sp by (simp add: clean_elems_leading clean_elems_trailing)
      ultimately show ?thesis using Cons True by (simp add: path_clean_def is_abs_def Let_def)
    next
      case False
      have "length (join_on [SL] (clean_elems False (split_on SL q))) \<le> length q"
        by (rule length_join_clean) (simp add: weight_split_on)
      moreover have "clean_elems False (split_on SL (q @ [SL])) = clean_elems False (split_on SL q)"
        by (simp add: sp clean_elems_trailing)
      moreover have "\<not> is_abs (q @ [SL])" "1 \<le> length q" using Cons False by (auto simp: is_abs_def)
      ultimately show ?thesis
        unfolding path_clean_def Let_def by simp
    qed
  qed
qed

lemma path_dir_shorter:
  assumes "p \<noteq> [SL]" and "path_dir p \<noteq> ''.''"
  shows "length (path_dir p) < length p"
proof -
  have app: "length (fst (path_split p)) + length (snd (path_split p)) = length p"
    using path_split_append by (metis length_append)
  have "fst (path_split p) \<noteq> []"
    using assms(2) by (auto simp: path_dir_def path_clean_def is_abs_def clean_elems_def clean_step_def)
  then obtain q where q: "fst (path_split p) = q @ [SL]" using path_split_dir by blast
  have le: "length (path_dir p) \<le> max 1 (length q)"
    using length_path_clean_dir[of q] by (simp add: path_dir_def q)
  show ?thesis
  proof (cases q)
    case Nil
    with q assms(1) have "snd (path_split p) \<noteq> []"
      using path_split_append[of p] by auto
    with Nil le app q show ?thesis by (cases "snd (path_split p)") auto
  next
    case Cons
    with le app q show ?thesis by auto
  qed
qed

lemma is_abs_append: "is_abs (a @ b) \<longleftrightarrow> (if a = [] then is_abs b else is_abs a)"
  by (cases a) (auto simp: is_abs_def)

lemma is_abs_path_dir: "is_abs (path_dir p) \<Longrightarrow> is_abs p"
  using path_split_append[of p] is_abs_append[of "fst (path_split p)" "snd (path_split p)"]
    is_abs_path_clean[of "fst (path_split p)"]
  by (auto simp: path_dir_def is_abs_def[of "[]"] simp del: is_abs_path_clean split: if_splits)

lemma path_dir_idem [simp]: "path_clean (path_dir p) = path_dir p"
  by (simp add: path_dir_def)

end
