(* ===== verification/Layering.thy ===== *)
theory Layering imports Prelude begin

text \<open>
  The contract of layered settings: a later layer is merged over an earlier one, merging is
  associative and an empty layer changes nothing.  Clients fold layers in order; the laws let a
  nested fold be flattened.  \<open>last_set\<close> is the last layer that sets a key, the value such a
  fold ends with.
\<close>

locale layering =
  fixes merge :: "'l \<Rightarrow> 'l \<Rightarrow> 'l" and unit :: 'l
  assumes merge_assoc: "merge a (merge b c) = merge (merge a b) c"
    and merge_unit: "merge a unit = a"
begin

lemma merge_foldl: "merge a (foldl merge b ls) = foldl merge (merge a b) ls"
  by (induction ls arbitrary: b) (simp_all add: merge_assoc)

lemma flatten: "merge a (foldl merge unit ls) = foldl merge a ls"
  by (simp add: merge_foldl merge_unit)

lemma flatten_append:
  "merge (foldl merge a ks) (foldl merge unit ls) = foldl merge a (ks @ ls)"
  by (simp add: flatten)

end

definition last_set :: "('a \<Rightarrow> 'b option) \<Rightarrow> 'a list \<Rightarrow> 'b option" where
  "last_set f xs = foldl (\<lambda>acc x. case f x of None \<Rightarrow> acc | Some y \<Rightarrow> Some y) None xs"

lemma last_set_Nil [simp]: "last_set f [] = None"
  by (simp add: last_set_def)

lemma last_set_snoc [simp]:
  "last_set f (xs @ [x]) = (case f x of None \<Rightarrow> last_set f xs | Some y \<Rightarrow> Some y)"
  by (simp add: last_set_def split: option.split)

lemma last_set_Some_iff:
  "last_set f xs = Some y \<longleftrightarrow>
     (\<exists>as x bs. xs = as @ x # bs \<and> f x = Some y \<and> (\<forall>b \<in> set bs. f b = None))"
proof (induction xs rule: rev_induct)
  case (snoc x xs)
  show ?case
  proof (cases "f x")
    case None
    show ?thesis (is "?l = ?r")
    proof
      assume ?l
      with None snoc.IH obtain as z bs where
        "xs = as @ z # bs" "f z = Some y" "\<forall>b \<in> set bs. f b = None" by auto
      then show ?r using None by (intro exI[of _ as] exI[of _ z] exI[of _ "bs @ [x]"]) auto
    next
      assume ?r
      then obtain as z bs where zs: "xs @ [x] = as @ z # bs" "f z = Some y" "\<forall>b \<in> set bs. f b = None"
        by blast
      then have "bs \<noteq> []" using None by auto
      then obtain bs' where "bs = bs' @ [x]" "xs = as @ z # bs'"
        using zs(1) by (metis append_butlast_last_id append_is_Nil_conv butlast_append butlast_snoc
            last_appendR last_snoc list.simps(3) last_ConsR butlast.simps(2))
      then have "last_set f xs = Some y" using zs snoc.IH by auto
      then show ?l using None by simp
    qed
  next
    case (Some w)
    show ?thesis (is "?l = ?r")
    proof
      assume ?l
      then show ?r using Some by (intro exI[of _ xs] exI[of _ x] exI[of _ "[]"]) auto
    next
      assume ?r
      then obtain as z bs where zs: "xs @ [x] = as @ z # bs" "f z = Some y" "\<forall>b \<in> set bs. f b = None"
        by blast
      have "bs = []"
        using zs Some by (metis last.simps last_appendR last_in_set last_snoc list.distinct(1) option.distinct(1))
      then show ?l using zs Some by auto
    qed
  qed
qed simp

end
