(* ===== verification/Tsconfig.thy ===== *)
theory Tsconfig imports GoPath Layering begin

text \<open>
  \<open>ts/tools/tsconfig\<close>: the part of a tsconfig.json the ruleset reads, its \<open>paths\<close> map in
  authored order, and the flattening of an \<open>extends\<close> chain.

  The disk is a finite association list from clean paths to decoded files (\<open>Read\<close> is
  \<open>os.ReadFile\<close> and the JSON decoder); a path it lacks is a read error.  \<open>resolve\<close> and
  \<open>resolve_bases\<close> are the recursion of \<open>resolve\<close> and its loop over the bases; the ancestors
  are an argument, because \<open>defer delete\<close> restores them on return.  The recursion ends because
  every config on it is on the disk and none of its ancestors is visited again.
\<close>

section \<open>Data\<close>

type_synonym paths = "(string \<times> string list) list"

record compiler_options =
  baseURL :: string
  co_paths :: "paths option"
  co_types :: "string list option"
  co_jsx :: string
  co_jsxImportSource :: string
  co_module :: string

record tsfile =
  f_extends :: "string list"
  f_include :: "string list option"
  f_exclude :: "string list option"
  f_files :: "string list option"
  compilerOptions :: compiler_options

record resolved =
  r_extends :: "string list"
  configs :: "string list"
  r_baseURL :: string
  r_baseURLDir :: string
  r_paths :: "paths option"
  r_pathsDir :: string
  r_types :: "string list option"
  r_jsx :: string
  r_jsxImportSource :: string
  r_module :: string
  r_files :: "string list option"
  r_include :: "string list option"
  r_exclude :: "string list option"
  r_filesDir :: string
  r_includeDir :: string
  r_excludeDir :: string

section \<open>Paths\<close>

text \<open>A nil pointer is None; \<open>Index\<close> answers -1 as None.\<close>

fun index_from :: "nat \<Rightarrow> paths \<Rightarrow> string \<Rightarrow> nat option" where
  "index_from i [] key = None"
| "index_from i (e # es) key = (if fst e = key then Some i else index_from (Suc i) es key)"

definition paths_index :: "paths option \<Rightarrow> string \<Rightarrow> nat option" where
  "paths_index p key = (case p of None \<Rightarrow> None | Some es \<Rightarrow> index_from 0 es key)"

definition paths_get :: "paths option \<Rightarrow> string \<Rightarrow> string list" where
  "paths_get p key =
     (case (p, paths_index p key) of
        (Some es, Some i) \<Rightarrow> snd (es ! i)
      | _ \<Rightarrow> [])"

definition paths_set :: "paths \<Rightarrow> string \<Rightarrow> string list \<Rightarrow> paths" where
  "paths_set es key values =
     (case paths_index (Some es) key of
        Some i \<Rightarrow> es[i := (fst (es ! i), values)]
      | None \<Rightarrow> es @ [(key, values)])"

text \<open>A decoded JSON document, an object's members in the order written.\<close>

datatype json = JNull | JBool bool | JNum string | JStr string | JArr "json list"
  | JObj "(string \<times> json) list"

text \<open>\<open>encoding/json\<close> into a \<open>[]string\<close>: null is the nil slice, a null element the empty
  string, any other type an error.\<close>

fun decode_string_elem :: "json \<Rightarrow> string option" where
  "decode_string_elem (JStr s) = Some s"
| "decode_string_elem JNull = Some []"
| "decode_string_elem _ = None"

fun decode_strings :: "json \<Rightarrow> string list option" where
  "decode_strings JNull = Some []"
| "decode_strings (JArr vs) = those (map decode_string_elem vs)"
| "decode_strings _ = None"

fun decode_members :: "paths \<Rightarrow> (string \<times> json) list \<Rightarrow> paths option" where
  "decode_members acc [] = Some acc"
| "decode_members acc ((key, v) # ms) =
     (case decode_strings v of
        None \<Rightarrow> None
      | Some values \<Rightarrow> decode_members (paths_set acc key values) ms)"

definition unmarshal_paths :: "json \<Rightarrow> paths option" where
  "unmarshal_paths j = (case j of JObj ms \<Rightarrow> decode_members [] ms | _ \<Rightarrow> None)"

definition marshal_paths :: "paths \<Rightarrow> json" where
  "marshal_paths p = JObj (map (\<lambda>e. (fst e, JArr (map JStr (snd e)))) p)"

text \<open>A single specifier, or an array of them; null decodes as one empty specifier.\<close>

definition unmarshal_extends :: "json \<Rightarrow> string list option" where
  "unmarshal_extends j =
     (case decode_string_elem j of
        Some single \<Rightarrow> Some [single]
      | None \<Rightarrow> decode_strings j)"

section \<open>Flattening the chain\<close>

definition override :: "resolved \<Rightarrow> resolved \<Rightarrow> resolved" where
  "override r other =
     \<lparr>r_extends = r_extends r,
      configs = configs r @ configs other,
      r_baseURL = (if r_baseURL other \<noteq> [] then r_baseURL other else r_baseURL r),
      r_baseURLDir = (if r_baseURL other \<noteq> [] then r_baseURLDir other else r_baseURLDir r),
      r_paths = (if r_paths other \<noteq> None then r_paths other else r_paths r),
      r_pathsDir = (if r_paths other \<noteq> None then r_pathsDir other else r_pathsDir r),
      r_types = (if r_types other \<noteq> None then r_types other else r_types r),
      r_jsx = (if r_jsx other \<noteq> [] then r_jsx other else r_jsx r),
      r_jsxImportSource =
        (if r_jsxImportSource other \<noteq> [] then r_jsxImportSource other else r_jsxImportSource r),
      r_module = (if r_module other \<noteq> [] then r_module other else r_module r),
      r_files = (if r_files other \<noteq> None then r_files other else r_files r),
      r_include = (if r_include other \<noteq> None then r_include other else r_include r),
      r_exclude = (if r_exclude other \<noteq> None then r_exclude other else r_exclude r),
      r_filesDir = (if r_files other \<noteq> None then r_filesDir other else r_filesDir r),
      r_includeDir = (if r_include other \<noteq> None then r_includeDir other else r_includeDir r),
      r_excludeDir = (if r_exclude other \<noteq> None then r_excludeDir other else r_excludeDir r)\<rparr>"

definition empty_resolved :: "string list \<Rightarrow> resolved" where
  "empty_resolved ext =
     \<lparr>r_extends = ext, configs = [], r_baseURL = [], r_baseURLDir = [], r_paths = None,
      r_pathsDir = [], r_types = None, r_jsx = [], r_jsxImportSource = [], r_module = [],
      r_files = None, r_include = None, r_exclude = None, r_filesDir = [], r_includeDir = [],
      r_excludeDir = []\<rparr>"

text \<open>What one file of the chain sets, each relative value with the file's directory.\<close>

definition own_layer :: "string \<Rightarrow> tsfile \<Rightarrow> resolved" where
  "own_layer path f =
     (let dir = path_dir path; co = compilerOptions f in
      \<lparr>r_extends = [], configs = [path], r_baseURL = baseURL co, r_baseURLDir = dir,
       r_paths = co_paths co, r_pathsDir = dir, r_types = co_types co, r_jsx = co_jsx co,
       r_jsxImportSource = co_jsxImportSource co, r_module = co_module co,
       r_files = f_files f, r_include = f_include f, r_exclude = f_exclude f,
       r_filesDir = dir, r_includeDir = dir, r_excludeDir = dir\<rparr>)"

definition inputs :: "resolved \<Rightarrow> bool" where
  "inputs r \<longleftrightarrow> r_include r \<noteq> None \<or> r_files r \<noteq> None"

text \<open>An extends value as a path on disk; a bare specifier resolves through node_modules and
  is skipped.\<close>

definition resolve_extends :: "string \<Rightarrow> string \<Rightarrow> string option" where
  "resolve_extends dir spec =
     (let relative = has_prefix spec ''./'' \<or> has_prefix spec ''../'';
          spec' = (if has_suffix spec ''.json'' then spec else spec @ ''.json'')
      in if spec = [] then None
         else if \<not> relative \<and> \<not> is_abs spec then None
         else if \<not> relative then Some spec'
         else Some (path_join [dir, spec']))"

datatype cfg_error = ExtendsCycle | ErrAdmission string | ReadError string

type_synonym disk = "(string \<times> tsfile) list"

abbreviation disk_left :: "disk \<Rightarrow> string list \<Rightarrow> nat" where
  "disk_left fs anc \<equiv> card (fst ` set fs - set anc)"

lemma disk_left_decreases:
  assumes "map_of fs p = Some f" and "p \<notin> set anc"
  shows "disk_left fs (p # anc) < disk_left fs anc"
proof -
  have "p \<in> fst ` set fs - set anc"
    using assms by (metis DiffI domI dom_map_of_conv_image_fst)
  moreover have "fst ` set fs - set (p # anc) = (fst ` set fs - set anc) - {p}" by auto
  ultimately show ?thesis by (metis card_Diff1_less finite_Diff finite_imageI finite_set)
qed

function (sequential)
    resolve :: "(string \<Rightarrow> bool) \<Rightarrow> disk \<Rightarrow> string list \<Rightarrow> string \<Rightarrow> cfg_error + resolved"
and resolve_bases ::
    "(string \<Rightarrow> bool) \<Rightarrow> disk \<Rightarrow> string list \<Rightarrow> string \<Rightarrow> string list \<Rightarrow> resolved \<Rightarrow> cfg_error + resolved"
where
  "resolve admit fs anc path =
     (let p = path_clean path in
      if p \<in> set anc then Inl ExtendsCycle
      else if \<not> admit p then Inl (ErrAdmission p)
      else case map_of fs p of
        None \<Rightarrow> Inl (ReadError p)
      | Some f \<Rightarrow>
          (case resolve_bases admit fs (p # anc) (path_dir p) (f_extends f)
                  (empty_resolved (f_extends f)) of
             Inl e \<Rightarrow> Inl e
           | Inr r \<Rightarrow> Inr (override r (own_layer p f))))"
| "resolve_bases admit fs anc dir [] r = Inr r"
| "resolve_bases admit fs anc dir (spec # specs) r =
     (case resolve_extends dir spec of
        None \<Rightarrow> resolve_bases admit fs anc dir specs r
      | Some basePath \<Rightarrow>
          (case resolve admit fs anc basePath of
             Inl (ErrAdmission q) \<Rightarrow> Inl (ErrAdmission q)
           | Inl _ \<Rightarrow> resolve_bases admit fs anc dir specs r
           | Inr base \<Rightarrow> resolve_bases admit fs anc dir specs (override r base)))"
  by pat_completeness auto
termination
  by (relation "measures
       [\<lambda>x. case x of Inl (a, fs, anc, p) \<Rightarrow> disk_left fs anc | Inr (a, fs, anc, d, ss, r) \<Rightarrow> disk_left fs anc,
        \<lambda>x. case x of Inl _ \<Rightarrow> 0 | Inr (a, fs, anc, d, ss, r) \<Rightarrow> length ss]")
     (auto dest: disk_left_decreases)

declare resolve.simps [simp del]

text \<open>\<open>ResolveWithAdmission\<close>; \<open>Resolve\<close> admits every path.\<close>

definition resolve_with_admission :: "(string \<Rightarrow> bool) \<Rightarrow> disk \<Rightarrow> string \<Rightarrow> cfg_error + resolved" where
  "resolve_with_admission admit fs path = resolve admit fs [] path"

definition resolve_config :: "disk \<Rightarrow> string \<Rightarrow> cfg_error + resolved" where
  "resolve_config fs path = resolve_with_admission (\<lambda>_. True) fs path"

section \<open>Module kinds\<close>

definition oxc_emits :: "string \<Rightarrow> bool" where
  "oxc_emits module =
     (let m = to_lower module in m = ''preserve'' \<or> has_prefix m ''es'')"

definition top_level_await :: "string \<Rightarrow> string \<Rightarrow> bool" where
  "top_level_await module target =
     (if to_lower module \<notin> set [''es2022'', ''esnext'', ''system'', ''node16'', ''node18'', ''node20'',
           ''nodenext'', ''preserve''] then False
      else let t = to_lower target in
        if t = ''esnext'' then True
        else case atoi (trim_prefix t ''es'') of None \<Rightarrow> False | Some year \<Rightarrow> 2017 \<le> year)"

section \<open>The chain is a fold of layers\<close>

interpretation lay: layering override "empty_resolved []"
proof
  fix a b c :: resolved
  show "override a (override b c) = override (override a b) c"
    by (rule resolved.equality) (simp_all add: override_def)
  show "override a (empty_resolved []) = a"
    by (simp add: override_def empty_resolved_def)
qed

lemma override_empty [simp]: "override r (empty_resolved ext) = r"
  by (simp add: override_def empty_resolved_def)

lemma override_foldl_empty:
  "override a (foldl override (empty_resolved ext) ls) = foldl override a ls"
  by (simp add: lay.merge_foldl)

definition layer_of :: "disk \<Rightarrow> string \<Rightarrow> resolved" where
  "layer_of fs c = own_layer c (the (map_of fs c))"

lemma configs_layer [simp]: "configs (layer_of fs c) = [c]"
  by (simp add: layer_of_def own_layer_def Let_def)

lemma configs_fold: "configs (foldl override r (map (layer_of fs) cs)) = configs r @ cs"
  by (induction cs arbitrary: r) (auto simp: override_def)

lemma configs_empty [simp]: "configs (empty_resolved ext) = []"
  by (simp add: empty_resolved_def)

lemma extends_fold: "r_extends (foldl override r ls) = r_extends r"
  by (induction ls arbitrary: r) (auto simp: override_def)

text \<open>A config the chain read: on the disk, admitted, and none of the ancestors.\<close>

definition readable :: "(string \<Rightarrow> bool) \<Rightarrow> disk \<Rightarrow> string list \<Rightarrow> string \<Rightarrow> bool" where
  "readable admit fs anc c \<longleftrightarrow> map_of fs c \<noteq> None \<and> admit c \<and> c \<notin> set anc"

lemma readable_weaken: "readable admit fs (p # anc) c \<Longrightarrow> readable admit fs anc c"
  by (simp add: readable_def)

lemma resolve_Inr_step:
  assumes "resolve admit fs anc path = Inr r"
  obtains f b where "path_clean path \<notin> set anc" "admit (path_clean path)"
    "map_of fs (path_clean path) = Some f"
    "resolve_bases admit fs (path_clean path # anc) (path_dir (path_clean path)) (f_extends f)
       (empty_resolved (f_extends f)) = Inr b"
    "r = override b (own_layer (path_clean path) f)"
  using assms by (auto simp: resolve.simps Let_def split: if_splits option.splits sum.splits)

lemma resolve_layers:
  "resolve admit fs anc path = Inr r \<Longrightarrow>
     \<exists>f cs. map_of fs (path_clean path) = Some f \<and>
       r = foldl override (empty_resolved (f_extends f)) (map (layer_of fs) (cs @ [path_clean path])) \<and>
       (\<forall>c \<in> set (cs @ [path_clean path]). readable admit fs anc c)"
  "resolve_bases admit fs anc dir specs r0 = Inr r \<Longrightarrow>
     \<exists>cs. r = foldl override r0 (map (layer_of fs) cs) \<and> (\<forall>c \<in> set cs. readable admit fs anc c)"
proof (induction admit fs anc path and admit fs anc dir specs r0
    arbitrary: r and r rule: resolve_resolve_bases.induct)
  case (1 admit fs anc path)
  let ?p = "path_clean path"
  from resolve_Inr_step[OF "1.prems"] obtain f b where
    f: "?p \<notin> set anc" "admit ?p" "map_of fs ?p = Some f" and
    b: "resolve_bases admit fs (?p # anc) (path_dir ?p) (f_extends f) (empty_resolved (f_extends f)) = Inr b"
    and r: "r = override b (own_layer ?p f)" by blast
  from "1.IH"[OF refl f(1) _ f(3) b] f(2) obtain cs where
    cs: "b = foldl override (empty_resolved (f_extends f)) (map (layer_of fs) cs)"
      "\<forall>c \<in> set cs. readable admit fs (?p # anc) c" by auto
  have "r = foldl override (empty_resolved (f_extends f)) (map (layer_of fs) (cs @ [?p]))"
    using r cs(1) f(3) by (simp add: layer_of_def)
  moreover have "\<forall>c \<in> set (cs @ [?p]). readable admit fs anc c"
    using cs(2) f by (auto simp: readable_def)
  ultimately show ?case using f(3) by blast
next
  case (2 admit fs anc dir r0)
  then show ?case by (auto intro: exI[of _ "[]"])
next
  case (3 admit fs anc dir spec specs r0)
  show ?case
  proof (cases "resolve_extends dir spec")
    case None
    with 3 show ?thesis by simp
  next
    case (Some bp)
    show ?thesis
    proof (cases "resolve admit fs anc bp")
      case (Inl e)
      with Some 3 show ?thesis by (cases e) auto
    next
      case (Inr base)
      from "3.IH"(2)[OF Some Inr] obtain f :: tsfile and cs where
        "base = foldl override (empty_resolved (f_extends f)) (map (layer_of fs) (cs @ [path_clean bp]))"
        and ok: "\<forall>c \<in> set (cs @ [path_clean bp]). readable admit fs anc c" by blast
      then have ov: "override r0 base = foldl override r0 (map (layer_of fs) (cs @ [path_clean bp]))"
        by (simp only: override_foldl_empty)
      have "resolve_bases admit fs anc dir specs (override r0 base) = Inr r"
        using "3.prems" Some Inr by simp
      from "3.IH"(5)[OF Some Inr this] obtain ds where
        "r = foldl override (override r0 base) (map (layer_of fs) ds)"
        "\<forall>c \<in> set ds. readable admit fs anc c" by blast
      with ov ok show ?thesis
        by (intro exI[of _ "(cs @ [path_clean bp]) @ ds"]) auto
    qed
  qed
qed

text \<open>Only an admission error escapes a base, and only for a path that was not admitted.\<close>

lemma resolve_errors:
  "resolve admit fs anc path = Inl e \<Longrightarrow>
     (e = ExtendsCycle \<and> path_clean path \<in> set anc) \<or>
     (e = ReadError (path_clean path) \<and> map_of fs (path_clean path) = None) \<or>
     (\<exists>q. e = ErrAdmission q \<and> \<not> admit q)"
  "resolve_bases admit fs anc dir specs r0 = Inl e \<Longrightarrow> \<exists>q. e = ErrAdmission q \<and> \<not> admit q"
proof (induction admit fs anc path and admit fs anc dir specs r0
    arbitrary: e and e rule: resolve_resolve_bases.induct)
  case (1 admit fs anc path)
  then show ?case
    by (auto simp: resolve.simps[of admit fs anc path] Let_def split: if_splits option.splits sum.splits)
next
  case (3 admit fs anc dir spec specs r0)
  show ?case
  proof (cases "resolve_extends dir spec")
    case None
    with 3 show ?thesis by simp
  next
    case (Some bp)
    show ?thesis
    proof (cases "resolve admit fs anc bp")
      case (Inl e')
      with "3.IH"(2)[OF Some Inl] "3.IH"(3,4)[OF Some Inl] "3.prems" Some show ?thesis
        by (cases e') auto
    next
      case (Inr base)
      with "3.IH"(5)[OF Some Inr] "3.prems" Some show ?thesis by simp
    qed
  qed
qed simp

text \<open>What a fold of layers ends with, key by key.\<close>

lemma fold_layers_value:
  assumes "\<And>r l. val (override r l) = (case sets l of None \<Rightarrow> val r | Some v \<Rightarrow> v)"
  shows "val (foldl override r ls) = (case last_set sets ls of None \<Rightarrow> val r | Some v \<Rightarrow> v)"
proof (induction ls rule: rev_induct)
  case (snoc l ls)
  then show ?case by (simp add: assms split: option.split)
qed simp

lemma last_set_map: "last_set f (map g xs) = last_set (\<lambda>x. f (g x)) xs"
  by (induction xs rule: rev_induct) (simp_all split: option.split)

lemma resolve_config_fold:
  assumes "resolve_with_admission admit fs path = Inr r"
  shows "r = foldl override (empty_resolved (r_extends r)) (map (layer_of fs) (configs r)) \<and>
    configs r \<noteq> [] \<and> last (configs r) = path_clean path \<and>
    (\<forall>c \<in> set (configs r). readable admit fs [] c)"
proof -
  from resolve_layers(1)[OF assms[unfolded resolve_with_admission_def]] obtain f :: tsfile and cs where
    r: "r = foldl override (empty_resolved (f_extends f)) (map (layer_of fs) (cs @ [path_clean path]))"
    and ok: "\<forall>c \<in> set (cs @ [path_clean path]). readable admit fs [] c"
    by blast
  have "configs r = cs @ [path_clean path]"
    by (subst r, subst configs_fold) simp
  moreover have "r_extends r = f_extends f"
    by (subst r, subst extends_fold) (simp add: empty_resolved_def)
  ultimately show ?thesis using r ok by simp
qed

section \<open>Paths keeps its keys in the order first written\<close>

lemma index_from_spec:
  "index_from i es key =
     (case index_from 0 es key of None \<Rightarrow> None | Some j \<Rightarrow> Some (i + j))"
proof (induction es arbitrary: i)
  case (Cons e es)
  show ?case using Cons[of "Suc i"] Cons[of "Suc 0"] by (auto split: option.splits)
qed simp

lemma paths_index_None: "paths_index (Some es) key = None \<longleftrightarrow> key \<notin> fst ` set es"
  unfolding paths_index_def
  by (induction es) (use index_from_spec[of 1] in \<open>auto split: option.splits\<close>)

lemma paths_index_Some:
  "paths_index (Some es) key = Some i \<Longrightarrow>
     i < length es \<and> fst (es ! i) = key \<and> (\<forall>j < i. fst (es ! j) \<noteq> key)"
  unfolding paths_index_def option.case
proof (induction es arbitrary: i)
  case (Cons e es)
  show ?case
  proof (cases "fst e = key")
    case False
    with Cons.prems obtain j where "index_from 0 es key = Some j" "i = Suc j"
      using index_from_spec[of 1 es key] by (auto split: option.splits)
    with Cons.IH[of j] False show ?thesis by (auto simp: nth_Cons split: nat.splits)
  qed (use Cons.prems in auto)
qed simp

lemma keys_paths_set:
  "map fst (paths_set es key vs) =
     (if key \<in> fst ` set es then map fst es else map fst es @ [key])"
proof (cases "paths_index (Some es) key")
  case None
  then show ?thesis by (simp add: paths_set_def paths_index_None[symmetric])
next
  case (Some i)
  then have "key \<in> fst ` set es" by (metis option.distinct(1) paths_index_None)
  with paths_index_Some[OF Some] Some show ?thesis
    by (auto simp: paths_set_def map_update intro: list_update_id[of "map fst es" i, simplified] )
       (metis list_update_id nth_map)
qed

lemma paths_get_set:
  "paths_get (Some (paths_set es key vs)) k = (if k = key then vs else paths_get (Some es) k)"
proof -
  have idx: "paths_index (Some (es[i := (fst (es ! i), vs)])) k = paths_index (Some es) k" for i
  proof -
    have "index_from n (es[i := (fst (es ! i), vs)]) k = index_from n es k" for n
      by (induction es arbitrary: i n) (auto split: nat.splits)
    then show ?thesis by (simp add: paths_index_def)
  qed
  have app: "paths_index (Some (es @ [(key, vs)])) k =
      (case paths_index (Some es) k of
         None \<Rightarrow> if k = key then Some (length es) else None | Some j \<Rightarrow> Some j)"
  proof -
    have "index_from n (es @ [(key, vs)]) k =
       (case index_from n es k of None \<Rightarrow> if k = key then Some (n + length es) else None | Some j \<Rightarrow> Some j)" for n
      by (induction es arbitrary: n) (auto split: option.split)
    then show ?thesis by (auto simp: paths_index_def split: option.split)
  qed
  show ?thesis
  proof (cases "paths_index (Some es) key")
    case None
    then show ?thesis
      using paths_index_Some[of es k]
      by (auto simp: paths_set_def paths_get_def app nth_append split: option.splits)
  next
    case (Some i)
    then have ps: "paths_set es key vs = es[i := (fst (es ! i), vs)]" by (simp add: paths_set_def)
    show ?thesis
    proof (cases "k = key")
      case True
      then show ?thesis
        using Some paths_index_Some[OF Some] idx[of i] by (simp add: ps paths_get_def)
    next
      case False
      then have "paths_index (Some es) k = Some j \<Longrightarrow> j \<noteq> i" for j
        using paths_index_Some[OF Some] paths_index_Some[of es k j] by auto
      then show ?thesis
        using False idx[of i] by (auto simp: ps paths_get_def split: option.split)
    qed
  qed
qed

lemma decode_strings_elems [simp]: "those (map (decode_string_elem \<circ> JStr) vs) = Some vs"
  by (induction vs) auto

lemma decode_members_append:
  "distinct (map fst acc @ map fst p) \<Longrightarrow>
     decode_members acc (map (\<lambda>e. (fst e, JArr (map JStr (snd e)))) p) = Some (acc @ p)"
proof (induction p arbitrary: acc)
  case (Cons e p)
  have "paths_set acc (fst e) (snd e) = acc @ [e]"
    using Cons.prems by (auto simp: paths_set_def paths_index_None image_iff split: option.splits
        dest!: paths_index_Some)
       (metis nth_mem)
  then show ?case using Cons.IH[of "acc @ [e]"] Cons.prems by simp
qed simp

lemma decode_members_keys:
  "decode_members acc ms = Some p \<Longrightarrow> distinct (map fst acc) \<Longrightarrow>
     distinct (map fst p) \<and> set (map fst p) = set (map fst acc) \<union> fst ` set ms"
proof (induction acc ms arbitrary: p rule: decode_members.induct)
  case (2 acc key v ms)
  then obtain vals where v: "decode_strings v = Some vals"
    and d: "decode_members (paths_set acc key vals) ms = Some p" by (auto split: option.splits)
  have "distinct (map fst (paths_set acc key vals))"
    using "2.prems"(2) by (auto simp: keys_paths_set)
  from "2.IH"[OF v d this] show ?case
    by (auto simp: keys_paths_set[of acc key vals, THEN arg_cong[where f = set], simplified] split: if_splits)
qed auto

lemma decode_members_get:
  "decode_members acc ms = Some p \<Longrightarrow>
     paths_get (Some p) k =
       (case last_set (\<lambda>m. if fst m = k then decode_strings (snd m) else None) ms of
          None \<Rightarrow> paths_get (Some acc) k | Some vs \<Rightarrow> vs)"
proof (induction acc ms arbitrary: p rule: decode_members.induct)
  case (2 acc key v ms)
  then obtain vals where v: "decode_strings v = Some vals"
    and d: "decode_members (paths_set acc key vals) ms = Some p" by (auto split: option.splits)
  have "last_set f (x # xs) = (case last_set f xs of None \<Rightarrow> f x | Some y \<Rightarrow> Some y)"
    for f :: "string \<times> json \<Rightarrow> string list option" and x xs
    by (induction xs rule: rev_induct)
       (simp_all add: append_Cons[symmetric] del: append_Cons split: option.split,
        simp add: last_set_def split: option.split)
  with "2.IH"[OF v d] v show ?case
    by (auto simp: paths_get_set split: option.splits)
qed simp

section \<open>Properties\<close>

text \<open>A disk for the witnesses: a leaf over a base that extends the leaf again and a base
  that is not there.\<close>

definition no_options :: compiler_options where
  "no_options = \<lparr>baseURL = [], co_paths = None, co_types = None, co_jsx = [],
     co_jsxImportSource = [], co_module = []\<rparr>"

definition demo_disk :: disk where
  "demo_disk =
     [(''app/tsconfig.json'',
       \<lparr>f_extends = [''../base'', ''./gone''], f_include = Some [''src''], f_exclude = None, f_files = None,
        compilerOptions = no_options\<lparr>co_module := ''esnext''\<rparr>\<rparr>),
      (''base.json'',
       \<lparr>f_extends = [''./app/tsconfig.json''], f_include = None, f_exclude = None, f_files = None,
        compilerOptions = no_options\<lparr>co_paths := Some [(''@/*'', [''./src/*''])], co_module := ''commonjs''\<rparr>\<rparr>)]"

definition demo_resolved :: resolved where
  "demo_resolved = projr (resolve_with_admission (\<lambda>_. True) demo_disk ''app/tsconfig.json'')"

lemma demo_resolves:
  "resolve_with_admission (\<lambda>_. True) demo_disk ''app/tsconfig.json'' = Inr demo_resolved"
  by code_simp

text \<open>C17. A resolved chain is the fold, first to last, of what each file it lists sets: the
  nested merges over the bases flatten into one pass over \<open>Configs\<close>, which ends with the leaf,
  holds only files on the disk and only paths that were admitted.\<close>

theorem resolve_is_layer_fold:
  assumes "resolve_with_admission admit fs path = Inr r"
  shows "r = foldl override (empty_resolved (r_extends r)) (map (layer_of fs) (configs r))
    \<and> configs r \<noteq> [] \<and> last (configs r) = path_clean path
    \<and> (\<forall>c \<in> set (configs r). map_of fs c \<noteq> None \<and> admit c)"
  using resolve_config_fold[OF assms] by (auto simp: readable_def)

theorem resolve_is_layer_fold_witness:
  "configs demo_resolved = [''base.json'', ''app/tsconfig.json''] \<and>
   demo_resolved = foldl override (empty_resolved (r_extends demo_resolved))
     (map (layer_of demo_disk) (configs demo_resolved))"
  using resolve_is_layer_fold[OF demo_resolves] by (intro conjI) (code_simp, simp)

text \<open>The last config of the chain that sets a key wins it whole, and a key whose values
  are relative keeps the directory of the file that set it.\<close>

theorem resolve_last_writer:
  assumes "resolve_with_admission admit fs path = Inr r"
  shows "(r_paths r, r_pathsDir r) =
      (case last_set (\<lambda>c. map_option (\<lambda>p. (Some p, path_dir c))
               (co_paths (compilerOptions (the (map_of fs c))))) (configs r) of
         None \<Rightarrow> (None, []) | Some pd \<Rightarrow> pd)
    \<and> (r_include r, r_includeDir r) =
      (case last_set (\<lambda>c. map_option (\<lambda>p. (Some p, path_dir c)) (f_include (the (map_of fs c)))) (configs r) of
         None \<Rightarrow> (None, []) | Some pd \<Rightarrow> pd)
    \<and> r_module r =
      (case last_set (\<lambda>c. let m = co_module (compilerOptions (the (map_of fs c)))
               in if m = [] then None else Some m) (configs r) of
         None \<Rightarrow> [] | Some m \<Rightarrow> m)"
proof -
  let ?e = "empty_resolved (r_extends r)" and ?ls = "map (layer_of fs) (configs r)"
  have r: "r = foldl override ?e ?ls"
    using resolve_config_fold[OF assms] by blast
  have p: "(r_paths (foldl override ?e ?ls), r_pathsDir (foldl override ?e ?ls)) =
      (case last_set (\<lambda>l. map_option (\<lambda>p. (Some p, r_pathsDir l)) (r_paths l)) ?ls of
         None \<Rightarrow> (r_paths ?e, r_pathsDir ?e) | Some v \<Rightarrow> v)"
    by (rule fold_layers_value[where val = "\<lambda>r. (r_paths r, r_pathsDir r)"])
       (simp add: override_def split: option.split)
  have i: "(r_include (foldl override ?e ?ls), r_includeDir (foldl override ?e ?ls)) =
      (case last_set (\<lambda>l. map_option (\<lambda>p. (Some p, r_includeDir l)) (r_include l)) ?ls of
         None \<Rightarrow> (r_include ?e, r_includeDir ?e) | Some v \<Rightarrow> v)"
    by (rule fold_layers_value[where val = "\<lambda>r. (r_include r, r_includeDir r)"])
       (simp add: override_def split: option.split)
  have m: "r_module (foldl override ?e ?ls) =
      (case last_set (\<lambda>l. if r_module l = [] then None else Some (r_module l)) ?ls of
         None \<Rightarrow> r_module ?e | Some v \<Rightarrow> v)"
    by (rule fold_layers_value) (simp add: override_def)
  show ?thesis
    using p i m unfolding r[symmetric] last_set_map
    by (simp add: layer_of_def own_layer_def Let_def empty_resolved_def
        cong: if_cong option.case_cong)
qed

theorem resolve_last_writer_witness:
  "r_pathsDir demo_resolved = ''.'' \<and> r_paths demo_resolved \<noteq> None \<and> r_module demo_resolved = ''esnext''"
  using resolve_last_writer[OF demo_resolves] by (intro conjI) code_simp+

text \<open>The configs a resolution asks for: the leaf, and the bases of every admitted config that can be read
  and is not its own ancestor.\<close>

inductive asked :: "(string \<Rightarrow> bool) \<Rightarrow> disk \<Rightarrow> string list \<Rightarrow> string \<Rightarrow> string \<Rightarrow> bool"
  for admit :: "string \<Rightarrow> bool" and fs :: disk where
  itself: "path_clean path \<notin> set anc \<Longrightarrow> asked admit fs anc path (path_clean path)"
| base: "path_clean path \<notin> set anc \<Longrightarrow> admit (path_clean path) \<Longrightarrow> map_of fs (path_clean path) = Some f \<Longrightarrow>
    spec \<in> set (f_extends f) \<Longrightarrow> resolve_extends (path_dir (path_clean path)) spec = Some b \<Longrightarrow>
    asked admit fs (path_clean path # anc) b q \<Longrightarrow> asked admit fs anc path q"

lemma resolve_refused:
  "resolve admit fs anc path = Inl (ErrAdmission q) \<Longrightarrow> asked admit fs anc path q \<and> \<not> admit q"
  "resolve_bases admit fs anc dir specs r0 = Inl (ErrAdmission q) \<Longrightarrow>
     \<exists>spec \<in> set specs. \<exists>b. resolve_extends dir spec = Some b \<and> asked admit fs anc b q \<and> \<not> admit q"
proof (induction admit fs anc path and admit fs anc dir specs r0
    arbitrary: q and q rule: resolve_resolve_bases.induct)
  case (1 admit fs anc path)
  let ?p = "path_clean path"
  show ?case
  proof (cases "?p \<in> set anc \<or> \<not> admit ?p \<or> map_of fs ?p = None")
    case True
    then show ?thesis using "1.prems" by (auto simp: resolve.simps[of admit fs anc path] Let_def intro: asked.itself split: if_splits)
  next
    case False
    then obtain f where f: "?p \<notin> set anc" "\<not> \<not> admit ?p" "map_of fs ?p = Some f" by auto
    then have "resolve_bases admit fs (?p # anc) (path_dir ?p) (f_extends f) (empty_resolved (f_extends f)) = Inl (ErrAdmission q)"
      using "1.prems" by (simp add: resolve.simps[of admit fs anc path] Let_def split: sum.splits)
    with "1.IH"[OF refl f] f show ?thesis by (blast intro: asked.base)
  qed
next
  case (3 admit fs anc dir spec specs r0)
  show ?case
  proof (cases "resolve_extends dir spec")
    case None
    with 3 show ?thesis by simp
  next
    case (Some bp)
    show ?thesis
    proof (cases "resolve admit fs anc bp")
      case (Inl e')
      with "3.IH"(2)[OF Some] "3.IH"(3,4)[OF Some Inl] "3.prems" Some show ?thesis
        by (cases e') auto
    next
      case (Inr base)
      with "3.IH"(5)[OF Some Inr] "3.prems" Some show ?thesis by simp
    qed
  qed
qed simp

lemma resolve_bases_refused:
  "spec \<in> set specs \<Longrightarrow> resolve_extends dir spec = Some b \<Longrightarrow> resolve admit fs anc b = Inl (ErrAdmission q) \<Longrightarrow>
     \<exists>q. resolve_bases admit fs anc dir specs r0 = Inl (ErrAdmission q)"
proof (induction specs arbitrary: r0)
  case (Cons s specs)
  show ?case
  proof (cases "s = spec")
    case True
    with Cons.prems show ?thesis by simp
  next
    case False
    then have ih: "\<exists>q. resolve_bases admit fs anc dir specs r = Inl (ErrAdmission q)" for r
      using Cons by simp
    show ?thesis
    proof (cases "resolve_extends dir s")
      case None
      with ih show ?thesis by simp
    next
      case (Some bp)
      show ?thesis
      proof (cases "resolve admit fs anc bp")
        case (Inl e)
        with ih Some show ?thesis by (cases e) auto
      next
        case (Inr base)
        with ih Some show ?thesis by simp
      qed
    qed
  qed
qed simp

lemma asked_refused: "asked admit fs anc path q \<Longrightarrow> \<not> admit q \<Longrightarrow> \<exists>q. resolve admit fs anc path = Inl (ErrAdmission q)"
proof (induction rule: asked.induct)
  case (itself path anc)
  then show ?case by (auto simp: resolve.simps[of admit fs anc path] Let_def)
next
  case (base path anc f spec b q)
  then obtain q' where "resolve admit fs (path_clean path # anc) b = Inl (ErrAdmission q')" by blast
  from resolve_bases_refused[OF base.hyps(4,5) this, of "empty_resolved (f_extends f)"] obtain q''
    where "resolve_bases admit fs (path_clean path # anc) (path_dir (path_clean path)) (f_extends f) (empty_resolved (f_extends f)) = Inl (ErrAdmission q'')"
    by blast
  then show ?case using base.hyps(1-3) by (simp add: resolve.simps[of admit fs anc path] Let_def)
qed

text \<open>C30. Resolving fails exactly when a config it asks for is refused admission or the leaf itself
  cannot be read.  An admission error names a refused config that was asked for; a missing base and an
  extends cycle never fail the chain, whatever the depth.\<close>

theorem resolve_error_cases:
  "((\<exists>e. resolve_with_admission admit fs path = Inl e) \<longleftrightarrow>
      map_of fs (path_clean path) = None \<or> (\<exists>q. asked admit fs [] path q \<and> \<not> admit q)) \<and>
   (resolve_with_admission admit fs path = Inl (ErrAdmission q) \<longrightarrow> asked admit fs [] path q \<and> \<not> admit q) \<and>
   (resolve_with_admission admit fs path = Inl (ReadError q) \<longrightarrow>
      q = path_clean path \<and> map_of fs q = None \<and> (\<forall>x. asked admit fs [] path x \<longrightarrow> admit x)) \<and>
   resolve_with_admission admit fs path \<noteq> Inl ExtendsCycle"
proof -
  let ?r = "resolve admit fs [] path"
  have err: "?r = Inl e \<Longrightarrow> e = ReadError (path_clean path) \<and> map_of fs (path_clean path) = None \<or> (\<exists>q. e = ErrAdmission q)" for e
    using resolve_errors(1)[of admit fs "[]" path e] by auto
  have refused: "asked admit fs [] path x \<Longrightarrow> \<not> admit x \<Longrightarrow> \<exists>q. ?r = Inl (ErrAdmission q)" for x
    by (rule asked_refused)
  have missing: "map_of fs (path_clean path) = None \<Longrightarrow> \<exists>e. ?r = Inl e"
    by (auto simp: resolve.simps[of admit fs "[]" path] Let_def)
  have "(\<exists>e. ?r = Inl e) \<longleftrightarrow> map_of fs (path_clean path) = None \<or> (\<exists>q. asked admit fs [] path q \<and> \<not> admit q)"
    using err missing refused resolve_refused(1) by metis
  moreover have "?r = Inl (ErrAdmission q) \<longrightarrow> asked admit fs [] path q \<and> \<not> admit q" using resolve_refused(1) by blast
  moreover have "?r = Inl (ReadError q) \<longrightarrow> q = path_clean path \<and> map_of fs q = None \<and> (\<forall>x. asked admit fs [] path x \<longrightarrow> admit x)"
  proof (rule impI)
    assume r: "?r = Inl (ReadError q)"
    have "\<forall>x. asked admit fs [] path x \<longrightarrow> admit x"
    proof (intro allI impI, rule ccontr)
      fix x assume "asked admit fs [] path x" "\<not> admit x"
      then obtain q' where "?r = Inl (ErrAdmission q')" using refused by blast
      then show False using r by simp
    qed
    then show "q = path_clean path \<and> map_of fs q = None \<and> (\<forall>x. asked admit fs [] path x \<longrightarrow> admit x)" using err[OF r] by auto
  qed
  moreover have "?r \<noteq> Inl ExtendsCycle" using err by blast
  ultimately show ?thesis unfolding resolve_with_admission_def by blast
qed

theorem resolve_error_cases_witness:
  "resolve_with_admission (\<lambda>p. p \<noteq> ''base.json'') demo_disk ''app/tsconfig.json'' = Inl (ErrAdmission ''base.json'') \<and>
   asked (\<lambda>p. p \<noteq> ''base.json'') demo_disk [] ''app/tsconfig.json'' ''base.json''"
proof -
  have h: "resolve_with_admission (\<lambda>p. p \<noteq> ''base.json'') demo_disk ''app/tsconfig.json'' = Inl (ErrAdmission ''base.json'')"
    by code_simp
  then show ?thesis using resolve_error_cases[of "\<lambda>p. p \<noteq> ''base.json''" demo_disk "''app/tsconfig.json''" "''base.json''"] by blast
qed

text \<open>\<open>Paths\<close> decodes an object to distinct keys in the order first written, a repeated
  key keeping its place and taking its last value, and writing a map with distinct keys and
  reading it back gives the same map in the same order.\<close>

theorem paths_decode:
  "unmarshal_paths (JObj ms) = Some p \<Longrightarrow>
     distinct (map fst p) \<and> set (map fst p) = fst ` set ms \<and>
     paths_get (Some p) k =
       (case last_set (\<lambda>m. if fst m = k then decode_strings (snd m) else None) ms of
          None \<Rightarrow> [] | Some vs \<Rightarrow> vs) \<and>
     unmarshal_paths (marshal_paths p) = Some p"
  using decode_members_keys[of "[]" ms p] decode_members_get[of "[]" ms p k]
    decode_members_append[of "[]" p]
  by (auto simp: unmarshal_paths_def marshal_paths_def paths_get_def paths_index_def split: option.splits)

theorem paths_decode_witness:
  "paths_get (Some [(''a'', [''3'']), (''b'', [''2''])]) ''a'' = [''3''] \<and>
   unmarshal_paths (marshal_paths [(''a'', [''3'']), (''b'', [''2''])]) = Some [(''a'', [''3'']), (''b'', [''2''])]"
proof -
  have h: "unmarshal_paths (JObj [(''a'', JArr [JStr ''1'']), (''b'', JArr [JStr ''2'']), (''a'', JArr [JStr ''3''])])
      = Some [(''a'', [''3'']), (''b'', [''2''])]"
    by code_simp
  show ?thesis using paths_decode[OF h, of "''a''"] by (simp add: last_set_def)
qed

end
