(* ===== verification/GoRegexp.thy ===== *)
theory GoRegexp imports GoStrings begin

text \<open>
  Go's package \<open>regexp\<close> on the expressions the sources compile.  A Go regular expression
  returns the leftmost match that a backtracking search would find first, so the model is that
  search in continuation-passing style: alternatives in order, a greedy star trying one more
  rune before it stops and a lazy one stopping first.  The text is a zipper of the bytes read
  (last one first) and the bytes ahead, which gives the assertions their context.  A character
  class reads one UTF-8 rune; it is given by a predicate on the first byte, which on the bytes
  of 0x80 and above must be constantly true (a negated class, a dot) or constantly false.

  The relational semantics \<open>mt\<close> says which parses exist, with no search order; the matcher is
  proved sound and complete for it.
\<close>

section \<open>Runes\<close>

definition byte :: "char \<Rightarrow> nat" where
  "byte c = of_char c"

definition is_cont :: "char \<Rightarrow> bool" where
  "is_cont c \<longleftrightarrow> 128 \<le> byte c \<and> byte c < 192"

text \<open>The bytes \<open>utf8.DecodeRune\<close> consumes; an invalid sequence is one byte.\<close>

definition wide_rune_len :: "string \<Rightarrow> nat" where
  "wide_rune_len s =
     (case s of
        [] \<Rightarrow> 0
      | a # r \<Rightarrow>
          (if byte a < 194 then 1
           else case r of
             [] \<Rightarrow> 1
           | b # r2 \<Rightarrow>
               (if byte a < 224 then (if is_cont b then 2 else 1)
                else if byte a < 240 then
                  (case r2 of
                     [] \<Rightarrow> 1
                   | c # _ \<Rightarrow>
                       if is_cont b \<and> is_cont c \<and> (byte a = 224 \<longrightarrow> 160 \<le> byte b) \<and>
                          (byte a = 237 \<longrightarrow> byte b < 160)
                       then 3 else 1)
                else if byte a < 245 then
                  (case r2 of
                     c # d # _ \<Rightarrow>
                       if is_cont b \<and> is_cont c \<and> is_cont d \<and>
                          (byte a = 240 \<longrightarrow> 144 \<le> byte b) \<and> (byte a = 244 \<longrightarrow> byte b < 144)
                       then 4 else 1
                   | _ \<Rightarrow> 1)
                else 1)))"

definition rune_len :: "string \<Rightarrow> nat" where
  "rune_len s = (case s of [] \<Rightarrow> 0 | a # _ \<Rightarrow> if is_high a then wide_rune_len s else 1)"

lemma rune_len_pos: "0 < rune_len (c # s)"
  by (simp add: rune_len_def wide_rune_len_def split: list.split)

lemma rune_len_le: "rune_len s \<le> length s"
  by (simp add: rune_len_def wide_rune_len_def split: list.split)

lemma rune_len_ascii: "byte c < 128 \<Longrightarrow> rune_len (c # s) = 1"
  by (simp add: rune_len_def is_high_def byte_def)

lemma rune_len_high:
  "x \<in> set (take (rune_len (c # s)) (c # s)) \<Longrightarrow> x = c \<or> 128 \<le> byte x"
  by (auto simp: rune_len_def wide_rune_len_def is_cont_def split: list.splits if_splits)

section \<open>Expressions and the matcher\<close>

datatype re =
    Eps
  | Lit string
  | Cls "char \<Rightarrow> bool"
  | StarC bool "char \<Rightarrow> bool"  \<comment> \<open>repetition of a class; the flag says greedy\<close>
  | Seq re re
  | Alt re re
  | Grp nat re
  | BolM  \<comment> \<open>start of a line, \<open>(?m)^\<close>\<close>
  | EolM  \<comment> \<open>end of a line, \<open>(?m)$\<close>\<close>
  | Eot  \<comment> \<open>end of the text, \<open>$\<close>\<close>
  | WordB  \<comment> \<open>an ASCII word boundary\<close>

type_synonym zipper = "string \<times> string"
type_synonym caps = "(nat \<times> string) list"

definition advance :: "nat \<Rightarrow> zipper \<Rightarrow> zipper" where
  "advance n z = (rev (take n (snd z)) @ fst z, drop n (snd z))"

definition word_byte :: "char \<Rightarrow> bool" where
  "word_byte c \<longleftrightarrow> is_digit c \<or> is_lower c \<or> is_upper c \<or> c = CHR ''_''"

definition at_boundary :: "zipper \<Rightarrow> bool" where
  "at_boundary z \<longleftrightarrow>
     (case fst z of [] \<Rightarrow> False | c # _ \<Rightarrow> word_byte c) \<noteq>
     (case snd z of [] \<Rightarrow> False | c # _ \<Rightarrow> word_byte c)"

definition line_start :: "zipper \<Rightarrow> bool" where
  "line_start z \<longleftrightarrow> (case fst z of [] \<Rightarrow> True | c # _ \<Rightarrow> c = NL)"

definition line_end :: "zipper \<Rightarrow> bool" where
  "line_end z \<longleftrightarrow> (case snd z of [] \<Rightarrow> True | c # _ \<Rightarrow> c = NL)"

definition or_else :: "'r option \<Rightarrow> 'r option \<Rightarrow> 'r option" where
  "or_else a b = (case a of None \<Rightarrow> b | Some x \<Rightarrow> Some x)"

lemma or_else_Some: "or_else a b = Some x \<Longrightarrow> a = Some x \<or> a = None \<and> b = Some x"
  by (auto simp: or_else_def split: option.splits)

lemma or_else_simps [simp]: "or_else None b = b" "or_else (Some x) b = Some x"
  by (auto simp: or_else_def)

lemma or_else_None [simp]: "or_else a b = None \<longleftrightarrow> a = None \<and> b = None"
  by (auto simp: or_else_def split: option.splits)

function star_m ::
    "bool \<Rightarrow> (char \<Rightarrow> bool) \<Rightarrow> zipper \<Rightarrow> caps \<Rightarrow> (zipper \<Rightarrow> caps \<Rightarrow> 'r option) \<Rightarrow> 'r option" where
  "star_m g p (b, []) cs k = k (b, []) cs"
| "star_m g p (b, c # r) cs k =
     (if \<not> p c then k (b, c # r) cs
      else if g then or_else (star_m g p (advance (rune_len (c # r)) (b, c # r)) cs k) (k (b, c # r) cs)
      else or_else (k (b, c # r) cs) (star_m g p (advance (rune_len (c # r)) (b, c # r)) cs k))"
  by pat_completeness auto
termination
  by (relation "measure (\<lambda>(g, p, z, cs, k). length (snd z))")
    (auto simp: advance_def rune_len_pos)

fun rm :: "re \<Rightarrow> zipper \<Rightarrow> caps \<Rightarrow> (zipper \<Rightarrow> caps \<Rightarrow> 'r option) \<Rightarrow> 'r option" where
  "rm Eps z cs k = k z cs"
| "rm (Lit l) z cs k = (if has_prefix (snd z) l then k (advance (length l) z) cs else None)"
| "rm (Cls p) z cs k =
     (case snd z of
        [] \<Rightarrow> None
      | c # _ \<Rightarrow> if p c then k (advance (rune_len (snd z)) z) cs else None)"
| "rm (StarC g p) z cs k = star_m g p z cs k"
| "rm (Seq a b) z cs k = rm a z cs (\<lambda>z' cs'. rm b z' cs' k)"
| "rm (Alt a b) z cs k = or_else (rm a z cs k) (rm b z cs k)"
| "rm (Grp n a) z cs k =
     rm a z cs (\<lambda>z' cs'. k z' ((n, take (length (snd z) - length (snd z')) (snd z)) # cs'))"
| "rm BolM z cs k = (if line_start z then k z cs else None)"
| "rm EolM z cs k = (if line_end z then k z cs else None)"
| "rm Eot z cs k = (if snd z = [] then k z cs else None)"
| "rm WordB z cs k = (if at_boundary z then k z cs else None)"

text \<open>A match that must start at the head of the text, and the first match anywhere in it.\<close>

definition match_here :: "re \<Rightarrow> string \<Rightarrow> caps option" where
  "match_here r s = rm r ([], s) [] (\<lambda>z cs. Some cs)"

fun search_from :: "re \<Rightarrow> string \<Rightarrow> string \<Rightarrow> (zipper \<times> zipper \<times> caps) option" where
  "search_from r b s =
     or_else (rm r (b, s) [] (\<lambda>z cs. Some ((b, s), z, cs)))
       (case s of [] \<Rightarrow> None | c # s' \<Rightarrow> search_from r (c # b) s')"

declare search_from.simps [simp del]

definition search :: "re \<Rightarrow> string \<Rightarrow> (zipper \<times> zipper \<times> caps) option" where
  "search r s = search_from r [] s"

definition match_string :: "re \<Rightarrow> string \<Rightarrow> bool" where
  "match_string r s \<longleftrightarrow> search r s \<noteq> None"

text \<open>A submatch that took no part reads as the empty string.\<close>

definition cap :: "caps \<Rightarrow> nat \<Rightarrow> string" where
  "cap cs n = (case map_of cs n of None \<Rightarrow> [] | Some s \<Rightarrow> s)"

fun seqs :: "re list \<Rightarrow> re" where
  "seqs [] = Eps"
| "seqs [r] = r"
| "seqs (r # s # rs) = Seq r (seqs (s # rs))"

definition opt :: "re \<Rightarrow> re" where
  "opt r = Alt r Eps"

definition plusC :: "bool \<Rightarrow> (char \<Rightarrow> bool) \<Rightarrow> re" where
  "plusC g p = Seq (Cls p) (StarC g p)"

definition any_byte :: "char \<Rightarrow> bool" where
  \<comment> \<open>the dot: any rune but a newline\<close>
  "any_byte c \<longleftrightarrow> c \<noteq> NL"

definition space_byte :: "char \<Rightarrow> bool" where
  "space_byte c \<longleftrightarrow> c \<in> {CHR 0x09, CHR 0x0A, CHR 0x0C, CHR 0x0D, CHR 0x20}"

text \<open>\<open>FindStringSubmatch\<close> of an expression that starts with \<open>^\<close>, and the lazy and greedy
  dot repetitions most expressions use.\<close>

abbreviation lazy_any :: re where "lazy_any \<equiv> StarC False any_byte"
abbreviation greedy_any :: re where "greedy_any \<equiv> StarC True any_byte"
abbreviation digits1 :: re where "digits1 \<equiv> Seq (Cls is_digit) (StarC True is_digit)"

definition submatch :: "re \<Rightarrow> string \<Rightarrow> caps option" where
  "submatch r s = match_here (Seq r Eot) s"

section \<open>Parses without a search order\<close>

inductive runs :: "(char \<Rightarrow> bool) \<Rightarrow> zipper \<Rightarrow> zipper \<Rightarrow> bool" where
  runs_stop: "runs p z z"
| runs_more: "p c \<Longrightarrow> runs p (advance (rune_len (c # r)) (b, c # r)) z \<Longrightarrow> runs p (b, c # r) z"

inductive mt :: "re \<Rightarrow> zipper \<Rightarrow> caps \<Rightarrow> zipper \<Rightarrow> caps \<Rightarrow> bool" where
  mt_Eps: "mt Eps z cs z cs"
| mt_Lit: "has_prefix (snd z) l \<Longrightarrow> mt (Lit l) z cs (advance (length l) z) cs"
| mt_Cls: "snd z = c # r \<Longrightarrow> p c \<Longrightarrow> mt (Cls p) z cs (advance (rune_len (snd z)) z) cs"
| mt_Star: "runs p z z' \<Longrightarrow> mt (StarC g p) z cs z' cs"
| mt_Seq: "mt a z cs z1 cs1 \<Longrightarrow> mt b z1 cs1 z2 cs2 \<Longrightarrow> mt (Seq a b) z cs z2 cs2"
| mt_AltL: "mt a z cs z1 cs1 \<Longrightarrow> mt (Alt a b) z cs z1 cs1"
| mt_AltR: "mt b z cs z1 cs1 \<Longrightarrow> mt (Alt a b) z cs z1 cs1"
| mt_Grp: "mt a z cs z1 cs1 \<Longrightarrow>
     mt (Grp n a) z cs z1 ((n, take (length (snd z) - length (snd z1)) (snd z)) # cs1)"
| mt_BolM: "line_start z \<Longrightarrow> mt BolM z cs z cs"
| mt_EolM: "line_end z \<Longrightarrow> mt EolM z cs z cs"
| mt_Eot: "snd z = [] \<Longrightarrow> mt Eot z cs z cs"
| mt_WordB: "at_boundary z \<Longrightarrow> mt WordB z cs z cs"

inductive_cases mt_EpsE: "mt Eps z cs z' cs'"
inductive_cases mt_LitE: "mt (Lit l) z cs z' cs'"
inductive_cases mt_ClsE: "mt (Cls p) z cs z' cs'"
inductive_cases mt_StarE: "mt (StarC g p) z cs z' cs'"
inductive_cases mt_SeqE: "mt (Seq a b) z cs z' cs'"
inductive_cases mt_AltE: "mt (Alt a b) z cs z' cs'"
inductive_cases mt_GrpE: "mt (Grp n a) z cs z' cs'"
inductive_cases mt_BolME: "mt BolM z cs z' cs'"
inductive_cases mt_EolME: "mt EolM z cs z' cs'"
inductive_cases mt_EotE: "mt Eot z cs z' cs'"
inductive_cases mt_WordBE: "mt WordB z cs z' cs'"

lemmas mt_elims = mt_EpsE mt_LitE mt_ClsE mt_StarE mt_SeqE mt_AltE mt_GrpE mt_BolME mt_EolME
  mt_EotE mt_WordBE

lemma star_m_sound: "star_m g p z cs k = Some x \<Longrightarrow> \<exists>z'. runs p z z' \<and> k z' cs = Some x"
proof (induction g p z cs k rule: star_m.induct)
  case (1 g p b cs k)
  then show ?case by (auto intro: runs_stop)
next
  case (2 g p b c r cs k)
  let ?n = "advance (rune_len (c # r)) (b, c # r)"
  have "k (b, c # r) cs = Some x \<or> (p c \<and> star_m g p ?n cs k = Some x)"
    using "2.prems" by (auto split: if_splits dest: or_else_Some)
  then show ?case
  proof
    assume "k (b, c # r) cs = Some x"
    then show ?thesis by (auto intro: runs_stop)
  next
    assume h: "p c \<and> star_m g p ?n cs k = Some x"
    then have "\<exists>z'. runs p ?n z' \<and> k z' cs = Some x"
      using "2.IH" by (cases g) auto
    then show ?thesis using h by (blast intro: runs_more)
  qed
qed

lemma star_m_complete: "runs p z z' \<Longrightarrow> k z' cs \<noteq> None \<Longrightarrow> star_m g p z cs k \<noteq> None"
proof (induction rule: runs.induct)
  case (runs_stop p z)
  show ?case
  proof (cases z)
    case (Pair b r)
    with runs_stop show ?thesis by (cases r) (simp_all del: not_None_eq)
  qed
next
  case (runs_more p c r b z)
  then show ?case by (cases g) (simp_all del: not_None_eq)
qed

lemma rm_sound: "rm r z cs k = Some x \<Longrightarrow> \<exists>z' cs'. mt r z cs z' cs' \<and> k z' cs' = Some x"
proof (induction r arbitrary: z cs k x)
  case (Lit l)
  then have "has_prefix (snd z) l" "k (advance (length l) z) cs = Some x" by (auto split: if_splits)
  then show ?case by (blast intro: mt_Lit)
next
  case (Cls p)
  then obtain c r where "snd z = c # r" "p c" "k (advance (rune_len (snd z)) z) cs = Some x"
    by (auto split: if_splits list.splits)
  then show ?case by (blast intro: mt_Cls)
next
  case (StarC g p)
  then show ?case by (auto dest!: star_m_sound intro: mt_Star)
next
  case (Seq a b)
  from Seq.prems have "rm a z cs (\<lambda>z' cs'. rm b z' cs' k) = Some x" by simp
  from Seq.IH(1)[OF this] obtain z1 cs1 where "mt a z cs z1 cs1" "rm b z1 cs1 k = Some x" by blast
  with Seq.IH(2)[OF this(2)] show ?case by (blast intro: mt_Seq)
next
  case (Alt a b)
  from Alt.prems have "rm a z cs k = Some x \<or> rm b z cs k = Some x"
    by (auto dest: or_else_Some)
  then show ?case using Alt.IH by (blast intro: mt_AltL mt_AltR)
next
  case (Grp n a)
  from Grp.prems have "rm a z cs (\<lambda>z' cs'. k z' ((n, take (length (snd z) - length (snd z')) (snd z)) # cs')) = Some x"
    by simp
  from Grp.IH[OF this] show ?case by (blast intro: mt_Grp)
qed (auto split: if_splits list.splits intro: mt.intros)

lemma rm_complete: "mt r z cs z' cs' \<Longrightarrow> k z' cs' \<noteq> None \<Longrightarrow> rm r z cs k \<noteq> None"
proof (induction arbitrary: k rule: mt.induct)
  case (mt_Star p z z' g cs)
  from star_m_complete[where k = k, OF mt_Star.hyps mt_Star.prems] show ?case by simp
qed (simp_all del: not_None_eq)

lemma match_here_sound: "match_here r s = Some cs \<Longrightarrow> \<exists>z'. mt r ([], s) [] z' cs"
  using rm_sound unfolding match_here_def by fastforce

lemma match_here_complete: "mt r ([], s) [] z' cs' \<Longrightarrow> match_here r s \<noteq> None"
  using rm_complete unfolding match_here_def by (metis option.distinct(1))

section \<open>What a parse consumes\<close>

lemma advance_split: "n \<le> length (snd z) \<Longrightarrow> \<exists>w. snd z = w @ snd (advance n z) \<and>
    fst (advance n z) = rev w @ fst z \<and> w = take n (snd z)"
  by (simp add: advance_def)

lemma runs_consumes:
  "runs p z z' \<Longrightarrow> \<exists>w. snd z = w @ snd z' \<and> fst z' = rev w @ fst z \<and> (\<forall>c \<in> set w. p c \<or> 128 \<le> byte c)"
proof (induction rule: runs.induct)
  case (runs_more p c r b z)
  let ?n = "rune_len (c # r)"
  from runs_more.IH obtain w where w: "drop ?n (c # r) = w @ snd z"
      "fst z = rev w @ rev (take ?n (c # r)) @ b" "\<forall>c \<in> set w. p c \<or> 128 \<le> byte c"
    by (auto simp: advance_def)
  show ?case
  proof (intro exI conjI)
    show "snd (b, c # r) = (take ?n (c # r) @ w) @ snd z"
      using w(1) by (metis append.assoc append_take_drop_id snd_conv)
    show "fst z = rev (take ?n (c # r) @ w) @ fst (b, c # r)" using w(2) by simp
    show "\<forall>x \<in> set (take ?n (c # r) @ w). p x \<or> 128 \<le> byte x"
      using w(3) runs_more.hyps(1) rune_len_high[of _ c r] by auto
  qed
qed simp

lemma mt_consumes: "mt r z cs z' cs' \<Longrightarrow> \<exists>w. snd z = w @ snd z' \<and> fst z' = rev w @ fst z"
proof (induction rule: mt.induct)
  case (mt_Lit z l cs)
  then have "length l \<le> length (snd z)" by (auto simp: prefix_def)
  then show ?case using advance_split by blast
next
  case (mt_Cls z c r p cs)
  show ?case using advance_split[of "rune_len (snd z)" z] rune_len_le by blast
next
  case (mt_Star p z z' g cs)
  then show ?case using runs_consumes by blast
qed auto

text \<open>A literal consumes itself; a group records the text between its ends.\<close>

lemma mt_Lit_consumes: "mt (Lit l) z cs z' cs' \<Longrightarrow> snd z = l @ snd z' \<and> cs' = cs"
  by (auto elim!: mt_LitE simp: advance_def prefix_drop_append)

lemma mt_Grp_consumes:
  "mt (Grp n a) z cs z' cs' \<Longrightarrow> \<exists>w cs1. snd z = w @ snd z' \<and> cs' = (n, w) # cs1 \<and> mt a z cs z' cs1"
proof (erule mt_GrpE)
  fix cs1
  assume a: "mt a z cs z' cs1"
    and cs': "cs' = (n, take (length (snd z) - length (snd z')) (snd z)) # cs1"
  from mt_consumes[OF a] obtain w where "snd z = w @ snd z'" by blast
  then show "\<exists>w cs1. snd z = w @ snd z' \<and> cs' = (n, w) # cs1 \<and> mt a z cs z' cs1"
    using a cs' by auto
qed

lemma mt_Star_consumes:
  "mt (StarC g p) z cs z' cs' \<Longrightarrow> \<exists>w. snd z = w @ snd z' \<and> cs' = cs \<and> (\<forall>c \<in> set w. p c \<or> 128 \<le> byte c)"
  by (auto elim!: mt_StarE dest!: runs_consumes)

lemma runs_consumes_ascii:
  "runs p z z' \<Longrightarrow> \<forall>c. p c \<longrightarrow> byte c < 128 \<Longrightarrow>
     \<exists>w. snd z = w @ snd z' \<and> fst z' = rev w @ fst z \<and> (\<forall>c \<in> set w. p c)"
proof (induction rule: runs.induct)
  case (runs_more p c r b z)
  then have "byte c < 128" by blast
  with runs_more.IH runs_more.prems obtain w where "r = w @ snd z" "fst z = rev w @ c # b" "\<forall>c \<in> set w. p c"
    by (auto simp: advance_def rune_len_ascii)
  then have "c # r = (c # w) @ snd z \<and> fst z = rev (c # w) @ b \<and> (\<forall>x \<in> set (c # w). p x)"
    using runs_more.hyps(1) by simp
  then show ?case by (metis fst_conv snd_conv)
qed simp

lemma mt_Star_consumes_ascii:
  "mt (StarC g p) z cs z' cs' \<Longrightarrow> \<forall>c. p c \<longrightarrow> byte c < 128 \<Longrightarrow>
     \<exists>w. snd z = w @ snd z' \<and> cs' = cs \<and> (\<forall>c \<in> set w. p c)"
  by (auto elim!: mt_StarE dest!: runs_consumes_ascii)

lemma space_byte_ascii: "space_byte c \<Longrightarrow> byte c < 128"
  by (auto simp: space_byte_def byte_def)

lemma digit_ascii: "is_digit c \<Longrightarrow> byte c < 128"
  by (auto simp: is_digit_def byte_def)

text \<open>Parses of an explicit text.\<close>

lemma mt_LitI: "mt (Lit l) (b, l @ r) cs (rev l @ b, r) cs"
  using mt_Lit[where z = "(b, l @ r)" and l = l and cs = cs] by (simp add: advance_def)

lemma mt_GrpI: "mt a (b, w @ r) cs (b', r) cs1 \<Longrightarrow> mt (Grp n a) (b, w @ r) cs (b', r) ((n, w) # cs1)"
  using mt_Grp[of a "(b, w @ r)" cs "(b', r)" cs1 n] by simp

lemma runs_ascii: "\<forall>c \<in> set w. p c \<and> byte c < 128 \<Longrightarrow> runs p (b, w @ r) (rev w @ b, r)"
proof (induction w arbitrary: b)
  case (Cons c w)
  then have "runs p (advance (rune_len (c # w @ r)) (b, c # w @ r)) (rev w @ c # b, r)"
    by (simp add: rune_len_ascii advance_def)
  then show ?case using runs_more[where p = p and c = c and r = "w @ r" and b = b] Cons.prems by simp
qed (simp add: runs_stop)

lemma mt_StarI: "\<forall>c \<in> set w. p c \<and> byte c < 128 \<Longrightarrow> mt (StarC g p) (b, w @ r) cs (rev w @ b, r) cs"
  by (rule mt_Star) (rule runs_ascii)

lemma mt_EotI: "mt Eot (b, []) cs (b, []) cs"
  by (simp add: mt_Eot)

text \<open>An expression whose every literal and class keeps to a set of ASCII bytes consumes only those.\<close>

fun re_only :: "(char \<Rightarrow> bool) \<Rightarrow> re \<Rightarrow> bool" where
  "re_only q (Lit l) \<longleftrightarrow> (\<forall>c \<in> set l. q c)"
| "re_only q (Cls p) \<longleftrightarrow> (\<forall>c. p c \<longrightarrow> q c \<and> byte c < 128)"
| "re_only q (StarC g p) \<longleftrightarrow> (\<forall>c. p c \<longrightarrow> q c \<and> byte c < 128)"
| "re_only q (Seq a b) \<longleftrightarrow> re_only q a \<and> re_only q b"
| "re_only q (Alt a b) \<longleftrightarrow> re_only q a \<and> re_only q b"
| "re_only q (Grp n a) \<longleftrightarrow> re_only q a"
| "re_only q _ \<longleftrightarrow> True"

lemma mt_only:
  "mt r z cs z' cs' \<Longrightarrow> re_only q r \<Longrightarrow> \<exists>w. snd z = w @ snd z' \<and> (\<forall>c \<in> set w. q c)"
proof (induction rule: mt.induct)
  case (mt_Lit z l cs)
  then show ?case by (intro exI[of _ l]) (auto simp: advance_def prefix_drop_append)
next
  case (mt_Cls z c r p cs)
  then show ?case by (intro exI[of _ "[c]"]) (simp add: advance_def rune_len_ascii)
next
  case (mt_Star p z z' g cs)
  then show ?case using runs_consumes_ascii[of p z z'] by fastforce
next
  case (mt_Seq a z cs z1 cs1 b z2 cs2)
  then obtain w1 w2 where "snd z = w1 @ snd z1" "snd z1 = w2 @ snd z2" "\<forall>c \<in> set w1. q c" "\<forall>c \<in> set w2. q c"
    by auto
  then show ?case by (intro exI[of _ "w1 @ w2"]) auto
qed auto

lemma search_from_sound:
  "search_from r b s = Some res \<Longrightarrow>
     \<exists>w t z' cs. s = w @ t \<and> mt r (rev w @ b, t) [] z' cs"
proof (induction r b s rule: search_from.induct)
  case (1 r b s)
  from "1.prems" consider "rm r (b, s) [] (\<lambda>z cs. Some ((b, s), z, cs)) = Some res"
    | c s' where "s = c # s'" "search_from r (c # b) s' = Some res"
    by (subst (asm) search_from.simps) (auto dest!: or_else_Some split: list.splits)
  then show ?case
  proof cases
    case 1
    then show ?thesis using rm_sound by (metis append_Nil rev.simps(1))
  next
    case 2
    from "1.IH"[OF this] obtain w t z' cs where "s' = w @ t" "mt r (rev w @ c # b, t) [] z' cs" by blast
    then have "s = (c # w) @ t \<and> mt r (rev (c # w) @ b, t) [] z' cs" using 2(1) by simp
    then show ?thesis by blast
  qed
qed

lemma match_string_sound: "match_string r s \<Longrightarrow> \<exists>w t z' cs. s = w @ t \<and> mt r (rev w, t) [] z' cs"
  using search_from_sound[of r "[]" s] by (auto simp: match_string_def search_def)

end
