(* ===== verification/ExplainFiles.thy ===== *)
theory ExplainFiles imports GoRegexp GoPath begin

text \<open>
  \<open>ts/tools/explainfiles\<close>: the parser of tsgo's --explainFiles listing.  \<open>parse_line\<close> is one
  round of the loop in \<open>Parse\<close> over its local variables, the record \<open>pstate\<close>; a line is a
  boundary of a resolution trace (\<open>trace_boundary\<close>), a line inside a trace (\<open>trace_line\<close>), or
  a line of the listing proper (\<open>listing_line\<close>).  \<open>reason_forms\<close> is the table of reason
  templates; each carries the literals that \<open>requiredLiterals\<close> reads off its pattern, which
  \<open>admits\<close> checks before the regular expression runs.
\<close>

section \<open>Data\<close>

datatype edge_kind = Import | Reference | TypeReference | Augmentation

definition module_specifier :: "edge_kind \<Rightarrow> bool" where
  "module_specifier k \<longleftrightarrow> k = Import \<or> k = Augmentation"

record edge =
  e_kind :: edge_kind
  e_from :: string
  e_to :: string
  e_spec :: string

record type_entry =
  t_entry :: string
  t_file :: string

record failed_lookup =
  fl_file :: string
  fl_candidate :: string

record unresolved =
  u_kind :: edge_kind
  u_from :: string
  u_spec :: string
  u_cands :: "failed_lookup list"

record resolution =
  res_edge :: edge
  res_cands :: "failed_lookup list"
  res_substs :: "string list"
  res_fromPackage :: bool

record candidate =
  c_kind :: edge_kind
  c_from :: string
  c_spec :: string
  c_path :: string

record listing =
  l_files :: "string list"
  l_roots :: "string list"
  l_edges :: "edge list"
  l_types :: "type_entry list"
  l_implicit :: "type_entry list"
  l_diagnostics :: "string list"
  l_unresolved :: "unresolved list"
  l_resolutions :: "resolution list"
  l_candidates :: "candidate list"
  l_packageTargets :: "edge list"

definition empty_listing :: listing where
  "empty_listing = \<lparr>l_files = [], l_roots = [], l_edges = [], l_types = [], l_implicit = [],
     l_diagnostics = [], l_unresolved = [], l_resolutions = [], l_candidates = [],
     l_packageTargets = []\<rparr>"

text \<open>The open resolution; \<open>packageStart\<close> is -1, here None, outside a package target.\<close>

record attempt =
  a_kind :: edge_kind
  a_from :: string
  a_spec :: string
  a_cands :: "failed_lookup list"
  a_substs :: "string list"
  a_packageStart :: "nat option"
  a_candidate :: string

section \<open>The expressions\<close>

abbreviation quo :: re where "quo \<equiv> Lit [SQ]"

definition resolutionStart :: re where
  "resolutionStart = seqs
     [Lit ''======== Resolving '',
      Alt (seqs [Lit ''module '', quo, Grp 1 lazy_any, quo, Lit '' from '', quo, Grp 2 lazy_any, quo])
          (seqs [Lit ''type reference directive '', quo, Grp 3 lazy_any, quo, Lit '', containing file '', quo,
                 Grp 4 lazy_any, quo, Lit '', root directory '',
                 Alt (seqs [quo, lazy_any, quo]) (Lit ''not set'')]),
      Lit ''. ========'']"

definition resolutionEnd :: re where
  "resolutionEnd = seqs
     [Lit ''======== '', Grp 1 (Alt (Lit ''Module name'') (Lit ''Type reference directive'')),
      Lit '' '', quo, Grp 2 lazy_any, quo, Lit '' was '',
      Grp 3 (Alt (Lit ''not resolved'')
        (seqs [Lit ''successfully resolved to '', quo, Grp 4 lazy_any, quo,
               opt (seqs [Lit '' with Package ID '', quo, lazy_any, quo]),
               opt (seqs [Lit '', primary: '', Alt (Lit ''true'') (Lit ''false'')])])),
      Lit ''. ========'']"

definition missingFileProbe :: re where
  "missingFileProbe = seqs [Lit ''File '', quo, Grp 1 lazy_any, quo, Lit '' does not exist.'']"

definition packageTarget :: re where
  "packageTarget = seqs
     [Lit ''Using '', quo, Grp 1 (Alt (Lit ''imports'') (Lit ''exports'')), quo, Lit '' subpath '', quo, lazy_any, quo,
      Lit '' with target '', quo, Grp 2 lazy_any, quo, Lit ''.'']"

definition candidateLocation :: re where
  "candidateLocation = seqs
     [Lit ''Loading module as file / folder, candidate module location '', quo, Grp 1 greedy_any, quo,
      Lit '', target file types: '', plusC True any_byte, Lit ''.'']"

definition pathSubstitution :: re where
  "pathSubstitution = seqs
     [Lit ''Trying substitution '', quo, Grp 1 lazy_any, quo, Lit '', candidate module location: '', quo,
      Grp 2 greedy_any, quo, Lit ''.'']"

definition position :: re where
  "position = seqs [Lit ''('', digits1, Lit '','', digits1, Lit ''): '']"

definition diagnosticLine :: re where
  "diagnosticLine = seqs
     [opt (seqs [Cls (\<lambda>c. \<not> space_byte c), greedy_any, position]), Lit ''error TS'', digits1, Lit '': '']"

definition missingReference :: re where
  "missingReference = seqs
     [Grp 1 lazy_any, position, Lit ''error TS'',
      Alt (Lit ''6053: File'') (Lit ''6231: Could not resolve the path''),
      Lit '' '', quo, Grp 2 lazy_any, quo, Lit '' '',
      Alt (Lit ''not found'') (seqs [Lit ''with the extensions: '', Grp 3 lazy_any]), Lit ''.'']"

section \<open>Resolution frames\<close>

datatype frame =
    FStart edge_kind string string  \<comment> \<open>kind, specifier, from\<close>
  | FEnd edge_kind string "string option"  \<comment> \<open>kind, specifier, the file it resolved to\<close>

definition parse_resolution_frame :: "string \<Rightarrow> frame option" where
  "parse_resolution_frame line =
     (case submatch resolutionStart line of
        Some m \<Rightarrow>
          if has_prefix line (''======== Resolving type reference directive '' @ [SQ])
          then Some (FStart TypeReference (cap m 3) (cap m 4))
          else Some (FStart Import (cap m 1) (cap m 2))
      | None \<Rightarrow>
          (case submatch resolutionEnd line of
             Some m \<Rightarrow>
               Some (FEnd (if cap m 1 = ''Type reference directive'' then TypeReference else Import)
                 (cap m 2) (if cap m 3 \<noteq> ''not resolved'' then Some (cap m 4) else None))
           | None \<Rightarrow> None))"

section \<open>Reasons\<close>

text \<open>The pieces a template is concatenated from; a dot in its text is the regexp's dot.\<close>

datatype piece = PText string | PQuoted | PSpecifier | PPackageID

fun piece_pattern :: "piece \<Rightarrow> string" where
  "piece_pattern (PText t) = t"
| "piece_pattern PQuoted = [SQ] @ ''(.*?)'' @ [SQ]"
| "piece_pattern PSpecifier = ''('' @ [DQ] @ ''.*?'' @ [DQ] @ ''|'' @ [SQ] @ ''.*?'' @ [SQ] @ '')''"
| "piece_pattern PPackageID = '' with packageId '' @ [SQ] @ ''.*?'' @ [SQ]"

definition pattern :: "piece list \<Rightarrow> string" where
  "pattern ps = concat (map piece_pattern ps)"

fun text_re :: "string \<Rightarrow> re" where
  "text_re [] = Eps"
| "text_re (c # cs) = Seq (if c = CHR ''.'' then Cls any_byte else Lit [c]) (text_re cs)"

text \<open>The expression of a template; its groups are numbered from left to right.\<close>

fun pieces_re :: "nat \<Rightarrow> piece list \<Rightarrow> re" where
  "pieces_re n [] = Eps"
| "pieces_re n (PText t # ps) = Seq (text_re t) (pieces_re n ps)"
| "pieces_re n (PQuoted # ps) = Seq quo (Seq (Grp n lazy_any) (Seq quo (pieces_re (Suc n) ps)))"
| "pieces_re n (PSpecifier # ps) =
     Seq (Grp n (Alt (seqs [Lit [DQ], lazy_any, Lit [DQ]]) (seqs [quo, lazy_any, quo]))) (pieces_re (Suc n) ps)"
| "pieces_re n (PPackageID # ps) =
     Seq (Lit ('' with packageId '' @ [SQ])) (Seq lazy_any (Seq quo (pieces_re n ps)))"

datatype reader = AsEdge edge_kind | AsTypeEntry | AsImplicit | AsRoot | AsNothing

record lit_scan =
  ls_run :: string
  ls_depth :: int
  ls_start :: int
  ls_prefix :: string
  ls_suffix :: string
  ls_literals :: "string list"

text \<open>\<open>flush(end)\<close> in a pattern of \<open>n\<close> bytes.\<close>

definition flush :: "int \<Rightarrow> int \<Rightarrow> lit_scan \<Rightarrow> lit_scan" where
  "flush n end s =
     (if ls_run s = [] then s
      else s\<lparr>ls_prefix := (if ls_start s = 0 then ls_run s else ls_prefix s),
             ls_suffix := (if end = n then ls_run s else ls_suffix s),
             ls_literals := ls_literals s @ [ls_run s], ls_run := []\<rparr>)"

fun lit_loop :: "int \<Rightarrow> int \<Rightarrow> string \<Rightarrow> lit_scan \<Rightarrow> lit_scan option" where
  "lit_loop n i [] s = Some (flush n n s)"
| "lit_loop n i (ch # cs) s =
     (if ch = CHR ''('' then lit_loop n (i + 1) cs ((flush n (-1) s)\<lparr>ls_depth := ls_depth s + 1\<rparr>)
      else if ch = CHR '')'' then lit_loop n (i + 1) cs (s\<lparr>ls_depth := ls_depth s - 1, ls_start := -1\<rparr>)
      else if ls_depth s > 0 then lit_loop n (i + 1) cs s
      else if ch = CHR ''|'' then None
      else if ch \<in> set ''*?+'' then
        lit_loop n (i + 1) cs ((flush n (-1) (s\<lparr>ls_run := butlast (ls_run s)\<rparr>))\<lparr>ls_start := -1\<rparr>)
      else if ch \<in> set ''.^$'' then lit_loop n (i + 1) cs ((flush n (-1) s)\<lparr>ls_start := -1\<rparr>)
      else lit_loop n (i + 1) cs
        (s\<lparr>ls_start := (if ls_run s = [] \<and> ls_start s \<noteq> 0 then i else ls_start s),
           ls_run := ls_run s @ [ch]\<rparr>))"

definition required_literals :: "string \<Rightarrow> string \<times> string \<times> string list" where
  "required_literals pat =
     (if contains_any pat (BSL # ''[]{}'') then ([], [], [])
      else case lit_loop (int (length pat)) 0 pat
             \<lparr>ls_run = [], ls_depth = 0, ls_start = 0, ls_prefix = [], ls_suffix = [], ls_literals = []\<rparr> of
        None \<Rightarrow> ([], [], [])
      | Some s \<Rightarrow> (ls_prefix s, ls_suffix s, ls_literals s))"

record reason_form =
  rf_pieces :: "piece list"
  rf_read :: reader
  rf_prefix :: string
  rf_suffix :: string
  rf_literals :: "string list"

definition form :: "piece list \<Rightarrow> reader \<Rightarrow> reason_form" where
  "form ps rd =
     (case required_literals (pattern ps) of
        (p, s, ls) \<Rightarrow> \<lparr>rf_pieces = ps, rf_read = rd, rf_prefix = p, rf_suffix = s, rf_literals = ls\<rparr>)"

definition admits :: "reason_form \<Rightarrow> string \<Rightarrow> bool" where
  "admits f reason \<longleftrightarrow>
     has_prefix reason (rf_prefix f) \<and> has_suffix reason (rf_suffix f) \<and>
     list_all (contains_str reason) (rf_literals f)"

definition form_match :: "reason_form \<Rightarrow> string \<Rightarrow> caps option" where
  "form_match f reason = submatch (pieces_re 1 (rf_pieces f)) reason"

definition jsx_import :: piece where
  "jsx_import = PText ('' to import '' @ [SQ] @ ''jsx'' @ [SQ] @ '' and '' @ [SQ] @ ''jsxs'' @ [SQ] @ '' factory functions'')"

definition helpers_import :: piece where
  "helpers_import = PText ('' to import '' @ [SQ] @ ''importHelpers'' @ [SQ] @ '' as specified in compilerOptions'')"

definition reason_table :: "(piece list \<times> reader) list" where
  "reason_table =
     [([PText ''Imported via '', PSpecifier, PText '' from file '', PQuoted, PPackageID, jsx_import], AsEdge Import),
      ([PText ''Imported via '', PSpecifier, PText '' from file '', PQuoted, PPackageID, helpers_import], AsEdge Import),
      ([PText ''Imported via '', PSpecifier, PText '' from file '', PQuoted, PPackageID], AsEdge Import),
      ([PText ''Imported via '', PSpecifier, PText '' from file '', PQuoted, jsx_import], AsEdge Import),
      ([PText ''Imported via '', PSpecifier, PText '' from file '', PQuoted, helpers_import], AsEdge Import),
      ([PText ''Imported via '', PSpecifier, PText '' from file '', PQuoted], AsEdge Import),
      ([PText ''Augmented via '', PSpecifier, PText '' from file '', PQuoted, PPackageID], AsEdge Augmentation),
      ([PText ''Augmented via '', PSpecifier, PText '' from file '', PQuoted], AsEdge Augmentation),
      ([PText ''Referenced via '', PQuoted, PText '' from file '', PQuoted], AsEdge Reference),
      ([PText ''Type library referenced via '', PQuoted, PText '' from file '', PQuoted, PPackageID], AsEdge TypeReference),
      ([PText ''Type library referenced via '', PQuoted, PText '' from file '', PQuoted], AsEdge TypeReference),
      ([PText ''Entry point of type library '', PQuoted, PText '' specified in compilerOptions'', PPackageID], AsTypeEntry),
      ([PText ''Entry point of type library '', PQuoted, PText '' specified in compilerOptions''], AsTypeEntry),
      ([PText ''Entry point for implicit type library '', PQuoted, PPackageID], AsImplicit),
      ([PText ''Entry point for implicit type library '', PQuoted], AsImplicit),
      ([PText ''Matched by include pattern '', PQuoted, PText '' in '', PQuoted], AsRoot),
      ([PText ''Matched by default include pattern '', PQuoted], AsRoot),
      ([PText (''Part of '' @ [SQ] @ ''files'' @ [SQ] @ '' list in tsconfig.json'')], AsRoot),
      ([PText ''Root file specified for compilation''], AsRoot),
      ([PText ''Library referenced via '', PQuoted, PText '' from file '', PQuoted], AsNothing),
      ([PText ''Library '', PQuoted, PText '' specified in compilerOptions''], AsNothing),
      ([PText ''Default library for target '', PQuoted], AsNothing),
      ([PText ''Default library''], AsNothing),
      ([PText ''File is ECMAScript module because '', PQuoted,
        PText ('' has field '' @ [DQ] @ ''type'' @ [DQ] @ '' with value '' @ [DQ] @ ''module'' @ [DQ])], AsNothing),
      ([PText ''File is CommonJS module because '', PQuoted,
        PText ('' has field '' @ [DQ] @ ''type'' @ [DQ] @ '' whose value is not '' @ [DQ] @ ''module'' @ [DQ])], AsNothing),
      ([PText ''File is CommonJS module because '', PQuoted,
        PText ('' does not have field '' @ [DQ] @ ''type'' @ [DQ])], AsNothing),
      ([PText (''File is CommonJS module because '' @ [SQ] @ ''package.json'' @ [SQ] @ '' was not found'')], AsNothing),
      ([PText ''File redirects to file '', PQuoted], AsNothing)]"

definition reason_forms :: "reason_form list" where
  "reason_forms = map (\<lambda>(ps, rd). form ps rd) reason_table"

text \<open>What a matched reason adds to the listing.  A module specifier is printed in its quotes,
  which are cut off.\<close>

definition as_edge :: "edge_kind \<Rightarrow> string \<Rightarrow> caps \<Rightarrow> listing \<Rightarrow> listing" where
  "as_edge k file m l =
     (let spec = cap m 1;
          spec' = (if module_specifier k then take (length spec - 2) (drop 1 spec) else spec)
      in l\<lparr>l_edges := l_edges l @ [\<lparr>e_kind = k, e_from = cap m 2, e_to = file, e_spec = spec'\<rparr>]\<rparr>)"

fun apply_reader :: "reader \<Rightarrow> string \<Rightarrow> caps \<Rightarrow> listing \<Rightarrow> listing" where
  "apply_reader (AsEdge k) file m l = as_edge k file m l"
| "apply_reader AsTypeEntry file m l = l\<lparr>l_types := l_types l @ [\<lparr>t_entry = cap m 1, t_file = file\<rparr>]\<rparr>"
| "apply_reader AsImplicit file m l = l\<lparr>l_implicit := l_implicit l @ [\<lparr>t_entry = cap m 1, t_file = file\<rparr>]\<rparr>"
| "apply_reader AsRoot file m l = l\<lparr>l_roots := l_roots l @ [file]\<rparr>"
| "apply_reader AsNothing file m l = l"

datatype parse_error =
    NestedTrace string | NotAbsolute string | BadBoundary string | BadCandidate string
  | ReasonBeforeFile string | UnrecognisedReason string string | IncompleteTrace string string

fun read_with :: "(reason_form \<Rightarrow> string \<Rightarrow> bool) \<Rightarrow> reason_form list \<Rightarrow> string \<Rightarrow> string \<Rightarrow> listing \<Rightarrow> parse_error + listing" where
  "read_with adm [] file reason l = Inl (UnrecognisedReason file reason)"
| "read_with adm (f # fs) file reason l =
     (if \<not> adm f reason then read_with adm fs file reason l
      else case form_match f reason of
        Some m \<Rightarrow> Inr (apply_reader (rf_read f) file m l)
      | None \<Rightarrow> read_with adm fs file reason l)"

definition read_reason :: "listing \<Rightarrow> string \<Rightarrow> string \<Rightarrow> parse_error + listing" where
  "read_reason l file reason = read_with admits reason_forms file reason l"

section \<open>The parser\<close>

record pstate =
  p_l :: listing
  p_file :: string
  p_previous :: string
  p_resolution :: "attempt option"
  p_inDiagnostic :: bool

definition close_resolution :: "listing \<Rightarrow> attempt \<Rightarrow> string option \<Rightarrow> listing" where
  "close_resolution l a to =
     (let e = (\<lambda>f. \<lparr>e_kind = a_kind a, e_from = a_from a, e_to = f, e_spec = a_spec a\<rparr>);
          l1 = (case to of
              Some f \<Rightarrow> l\<lparr>l_resolutions := l_resolutions l @
                 [\<lparr>res_edge = e f, res_cands = a_cands a, res_substs = a_substs a,
                   res_fromPackage = (a_packageStart a \<noteq> None)\<rparr>]\<rparr>
            | None \<Rightarrow> l\<lparr>l_unresolved := l_unresolved l @
                 [\<lparr>u_kind = a_kind a, u_from = a_from a, u_spec = a_spec a, u_cands = a_cands a\<rparr>]\<rparr>)
      in case a_packageStart a of
           None \<Rightarrow> l1
         | Some n \<Rightarrow>
             l1\<lparr>l_packageTargets := l_packageTargets l1 @
                map e (map fl_file (drop n (a_cands a)) @ (case to of Some f \<Rightarrow> [f] | None \<Rightarrow> []))\<rparr>)"

definition trace_boundary :: "pstate \<Rightarrow> string \<Rightarrow> parse_error + pstate" where
  "trace_boundary st line =
     (case (parse_resolution_frame line, p_resolution st) of
        (Some (FStart k spec from), Some a) \<Rightarrow>
          (let redirect = submatch packageTarget (p_previous st) in
           if a_kind a \<noteq> Import \<or> k \<noteq> Import \<or> redirect = None \<or> cap (the redirect) 1 \<noteq> ''imports'' \<or>
              spec \<noteq> cap (the redirect) 2 \<or> \<not> is_abs from
           then Inl (NestedTrace line) else Inr (st\<lparr>p_previous := []\<rparr>))
      | (Some (FStart k spec from), None) \<Rightarrow>
          if k = Import \<and> \<not> is_abs from then Inl (NotAbsolute from)
          else Inr (st\<lparr>p_previous := [],
             p_resolution := Some \<lparr>a_kind = k, a_from = from, a_spec = spec, a_cands = [],
               a_substs = [], a_packageStart = None, a_candidate = []\<rparr>\<rparr>)
      | (Some (FEnd k spec to), Some a) \<Rightarrow>
          if k \<noteq> a_kind a \<or> spec \<noteq> a_spec a then Inl (BadBoundary line)
          else Inr (st\<lparr>p_previous := [], p_resolution := None, p_l := close_resolution (p_l st) a to\<rparr>)
      | _ \<Rightarrow> Inl (BadBoundary line))"

definition load_candidate :: "pstate \<Rightarrow> string \<Rightarrow> parse_error + pstate" where
  \<comment> \<open>the line that names a candidate location, inside a resolution only\<close>
  "load_candidate st line =
     (case (p_resolution st, submatch candidateLocation line) of
        (Some a, Some m) \<Rightarrow>
          if a_kind a = Import \<and> \<not> is_abs (cap m 1) then Inl (NotAbsolute (cap m 1))
          else Inr (st\<lparr>p_resolution := Some (a\<lparr>a_candidate := cap m 1\<rparr>),
             p_l := (p_l st)\<lparr>l_candidates := l_candidates (p_l st) @
               [\<lparr>c_kind = a_kind a, c_from = a_from a, c_spec = a_spec a, c_path = cap m 1\<rparr>]\<rparr>\<rparr>)
      | _ \<Rightarrow> Inl (BadCandidate line))"

definition trace_line :: "attempt \<Rightarrow> string \<Rightarrow> attempt" where
  "trace_line a0 line =
     (let a = (if has_prefix line (''Loading module '' @ [SQ]) then a0\<lparr>a_candidate := []\<rparr> else a0) in
      if module_specifier (a_kind a) \<and> submatch packageTarget line \<noteq> None then
        a\<lparr>a_candidate := [],
          a_packageStart := (case a_packageStart a of None \<Rightarrow> Some (length (a_cands a)) | s \<Rightarrow> s)\<rparr>
      else case submatch pathSubstitution line of
        Some m \<Rightarrow> a\<lparr>a_substs := a_substs a @ [cap m 1], a_candidate := cap m 2\<rparr>
      | None \<Rightarrow>
          (case submatch missingFileProbe line of
             Some m \<Rightarrow> a\<lparr>a_cands := a_cands a @ [\<lparr>fl_file = cap m 1, fl_candidate = a_candidate a\<rparr>]\<rparr>
           | None \<Rightarrow> a))"

definition missing_of :: "caps \<Rightarrow> unresolved" where
  "missing_of m =
     \<lparr>u_kind = Reference, u_from = cap m 1, u_spec = cap m 2,
      u_cands =
        (if cap m 3 = [] then [\<lparr>fl_file = cap m 2, fl_candidate = []\<rparr>]
         else map (\<lambda>ext. \<lparr>fl_file = cap m 2 @ ext, fl_candidate = []\<rparr>)
           (filter (\<lambda>ext. ext \<in> set [''.ts'', ''.tsx'', ''.d.ts'', ''.js'', ''.jsx''])
             (map (\<lambda>quoted. trim_cut quoted [SQ]) (split_str '', '' (cap m 3)))))\<rparr>"

definition listing_line :: "pstate \<Rightarrow> string \<Rightarrow> parse_error + pstate" where
  "listing_line st line =
     (let l = p_l st in
      if line = [] then Inr st
      else if p_inDiagnostic st \<and> has_prefix line ''  '' then
        Inr (st\<lparr>p_l := l\<lparr>l_diagnostics := butlast (l_diagnostics l) @ [last (l_diagnostics l) @ [NL] @ line]\<rparr>\<rparr>)
      else if has_prefix line ''   '' then
        (if p_file st = [] then Inl (ReasonBeforeFile line)
         else case read_reason l (p_file st) (drop 3 line) of
           Inl e \<Rightarrow> Inl e
         | Inr l' \<Rightarrow> Inr (st\<lparr>p_l := l'\<rparr>))
      else if contains_str line ''error TS'' \<and> match_here diagnosticLine line \<noteq> None then
        (let l1 = l\<lparr>l_diagnostics := l_diagnostics l @ [line]\<rparr> in
         Inr (st\<lparr>p_inDiagnostic := True,
           p_l := (case submatch missingReference line of
              None \<Rightarrow> l1
            | Some m \<Rightarrow> l1\<lparr>l_unresolved := l_unresolved l1 @ [missing_of m]\<rparr>)\<rparr>))
      else Inr (st\<lparr>p_file := line, p_inDiagnostic := False, p_l := l\<lparr>l_files := l_files l @ [line]\<rparr>\<rparr>))"

definition parse_line :: "pstate \<Rightarrow> string \<Rightarrow> parse_error + pstate" where
  "parse_line st raw =
     (let line = trim_right_cut raw [CR] in
      if has_prefix line ''========'' then trace_boundary st line
      else
        let st0 = st\<lparr>p_previous := line\<rparr>;
            loaded = (if has_prefix line ''Loading module as file / folder'' then load_candidate st0 line else Inr st0)
        in case loaded of
             Inl e \<Rightarrow> Inl e
           | Inr st1 \<Rightarrow>
               (case p_resolution st1 of
                  Some a \<Rightarrow> Inr (st1\<lparr>p_resolution := Some (trace_line a line)\<rparr>)
                | None \<Rightarrow> listing_line st1 line))"

fun parse_lines :: "pstate \<Rightarrow> string list \<Rightarrow> parse_error + pstate" where
  "parse_lines st [] = Inr st"
| "parse_lines st (x # xs) =
     (case parse_line st x of Inl e \<Rightarrow> Inl e | Inr st' \<Rightarrow> parse_lines st' xs)"

definition init_pstate :: pstate where
  "init_pstate = \<lparr>p_l = empty_listing, p_file = [], p_previous = [], p_resolution = None,
     p_inDiagnostic = False\<rparr>"

definition parse :: "string \<Rightarrow> parse_error + listing" where
  "parse text =
     (case parse_lines init_pstate (lines_of text) of
        Inl e \<Rightarrow> Inl e
      | Inr st \<Rightarrow>
          (case p_resolution st of
             Some a \<Rightarrow> Inl (IncompleteTrace (a_spec a) (a_from a))
           | None \<Rightarrow> Inr (p_l st)))"

section \<open>The literal check is sound\<close>

text \<open>The literal segments of a template, between its wildcards, after the text \<open>cur\<close>.\<close>

definition piece_size :: "piece \<Rightarrow> nat" where
  "piece_size p = (case p of PText t \<Rightarrow> Suc (length t) | _ \<Rightarrow> 1)"

function segs :: "string \<Rightarrow> piece list \<Rightarrow> string list" where
  "segs cur [] = [cur]"
| "segs cur (PText [] # ps) = segs cur ps"
| "segs cur (PText (c # cs) # ps) =
     (if c = CHR ''.'' then cur # segs [] (PText cs # ps) else segs (cur @ [c]) (PText cs # ps))"
| "segs cur (PQuoted # ps) = (cur @ [SQ]) # segs [SQ] ps"
| "segs cur (PSpecifier # ps) = cur # segs [] ps"
| "segs cur (PPackageID # ps) = (cur @ '' with packageId '' @ [SQ]) # segs [SQ] ps"
  by pat_completeness auto
termination
  by (relation "measure (\<lambda>(cur, ps). \<Sum>p\<leftarrow>ps. piece_size p)") (auto simp: piece_size_def)

text \<open>A text made of the segments in order with anything between them.\<close>

inductive interleaved :: "string list \<Rightarrow> string \<Rightarrow> bool" where
  il_last [inv_intros]: "interleaved [x] x"
| il_more [inv_intros]: "interleaved xs s \<Longrightarrow> interleaved (x # xs) (x @ w @ s)"

lemma segs_neq_Nil [simp]: "segs cur ps \<noteq> []"
  by (induction cur ps rule: segs.induct) auto

lemma interleaved_prefix: "interleaved xs s \<Longrightarrow> prefix (hd xs) s"
  by (induction rule: interleaved.induct) auto

lemma interleaved_neq: "interleaved xs s \<Longrightarrow> xs \<noteq> []"
  by (induction rule: interleaved.induct) auto

lemma interleaved_suffix: "interleaved xs s \<Longrightarrow> suffix (last xs) s"
proof (induction rule: interleaved.induct)
  case (il_more xs s x w)
  then show ?case using interleaved_neq[of xs s] by (auto simp: suffix_append)
qed simp

lemma interleaved_sublist: "interleaved xs s \<Longrightarrow> x \<in> set xs \<Longrightarrow> sublist x s"
proof (induction rule: interleaved.induct)
  case (il_more xs s y w)
  have "sublist s (y @ w @ s)" unfolding sublist_def by (metis append.assoc append_Nil2)
  with il_more show ?case using sublist_order.order_trans by fastforce
qed simp

lemma mt_text_segs:
  "mt (text_re t) z cs z' cs' \<Longrightarrow>
     \<exists>w. snd z = w @ snd z' \<and>
       (\<forall>cur ps v. (\<forall>c. interleaved (segs c ps) (c @ v)) \<longrightarrow> interleaved (segs cur (PText t # ps)) (cur @ w @ v))"
proof (induction t arbitrary: z cs)
  case Nil
  then show ?case by (auto elim!: mt_EpsE)
next
  case (Cons c t)
  from Cons.prems obtain z1 cs1 where
    h: "mt (if c = CHR ''.'' then Cls any_byte else Lit [c]) z cs z1 cs1" and
    t: "mt (text_re t) z1 cs1 z' cs'" by (auto elim!: mt_SeqE)
  from Cons.IH[OF t] obtain w where w: "snd z1 = w @ snd z'"
    "\<And>cur ps v. (\<forall>c. interleaved (segs c ps) (c @ v)) \<Longrightarrow> interleaved (segs cur (PText t # ps)) (cur @ w @ v)"
    by blast
  show ?case
  proof (cases "c = CHR ''.''")
    case True
    from mt_consumes[OF h] obtain u where u: "snd z = u @ snd z1" by blast
    have "interleaved (segs cur (PText (c # t) # ps)) (cur @ (u @ w) @ v)"
      if "\<forall>c. interleaved (segs c ps) (c @ v)" for cur ps v
      using il_more[OF w(2)[OF that, of "[]"], of cur u] True by simp
    with u w(1) show ?thesis by (intro exI[of _ "u @ w"]) auto
  next
    case False
    with h have "snd z = [c] @ snd z1" using mt_Lit_consumes[of "[c]" z cs z1 cs1] by simp
    moreover have "interleaved (segs cur (PText (c # t) # ps)) (cur @ ([c] @ w) @ v)"
      if "\<forall>c. interleaved (segs c ps) (c @ v)" for cur ps v
      using w(2)[OF that, of "cur @ [c]"] False by simp
    ultimately show ?thesis using w(1) by (intro exI[of _ "[c] @ w"]) auto
  qed
qed

lemma mt_pieces_segs:
  "mt (pieces_re n ps) z cs z' cs' \<Longrightarrow>
     \<exists>w. snd z = w @ snd z' \<and> (\<forall>cur. interleaved (segs cur ps) (cur @ w))"
proof (induction n ps arbitrary: z cs rule: pieces_re.induct)
  case (1 n)
  then show ?case by (auto elim!: mt_EpsE intro: il_last)
next
  case (2 n t ps)
  from "2.prems" obtain z1 cs1 where "mt (text_re t) z cs z1 cs1" "mt (pieces_re n ps) z1 cs1 z' cs'"
    by (auto elim!: mt_SeqE)
  with mt_text_segs[OF this(1)] "2.IH"[OF this(2)] show ?case by fastforce
next
  case (3 n ps)
  from "3.prems" obtain z1 cs1 z2 cs2 z3 cs3 where
    m: "mt quo z cs z1 cs1" "mt (Grp n lazy_any) z1 cs1 z2 cs2" "mt quo z2 cs2 z3 cs3"
    and r: "mt (pieces_re (Suc n) ps) z3 cs3 z' cs'"
    by (auto elim!: mt_SeqE)
  from "3.IH"[OF r] obtain w where w: "snd z3 = w @ snd z'" "\<And>cur. interleaved (segs cur ps) (cur @ w)"
    by blast
  from mt_consumes[OF m(2)] obtain u where u: "snd z1 = u @ snd z2" by blast
  have "snd z = ([SQ] @ u @ [SQ] @ w) @ snd z'"
    using mt_Lit_consumes[OF m(1)] mt_Lit_consumes[OF m(3)] u w(1) by simp
  moreover have "interleaved (segs cur (PQuoted # ps)) (cur @ [SQ] @ u @ [SQ] @ w)" for cur
    using il_more[OF w(2)[of "[SQ]"], of "cur @ [SQ]" u] by simp
  ultimately show ?case by blast
next
  case (4 n ps)
  from "4.prems" obtain r z1 cs1 where
    m: "mt r z cs z1 cs1" and p: "mt (pieces_re (Suc n) ps) z1 cs1 z' cs'"
    by (auto elim!: mt_SeqE)
  from "4.IH"[OF p] obtain w where w: "snd z1 = w @ snd z'" "\<And>cur. interleaved (segs cur ps) (cur @ w)"
    by blast
  from mt_consumes[OF m] obtain u where u: "snd z = u @ snd z1" by blast
  have "interleaved (segs cur (PSpecifier # ps)) (cur @ u @ w)" for cur
    using il_more[OF w(2)[of "[]"], of cur u] by simp
  with u w(1) show ?case by (intro exI[of _ "u @ w"]) simp
next
  case (5 n ps)
  from "5.prems" obtain z1 cs1 z2 cs2 z3 cs3 where
    m: "mt (Lit ('' with packageId '' @ [SQ])) z cs z1 cs1" "mt lazy_any z1 cs1 z2 cs2" "mt quo z2 cs2 z3 cs3"
    and r: "mt (pieces_re n ps) z3 cs3 z' cs'"
    by (auto elim!: mt_SeqE)
  from "5.IH"[OF r] obtain w where w: "snd z3 = w @ snd z'" "\<And>cur. interleaved (segs cur ps) (cur @ w)"
    by blast
  from mt_consumes[OF m(2)] obtain u where u: "snd z1 = u @ snd z2" by blast
  have "snd z = ('' with packageId '' @ [SQ] @ u @ [SQ] @ w) @ snd z'"
    using mt_Lit_consumes[OF m(1)] mt_Lit_consumes[OF m(3)] u w(1) by simp
  moreover have "interleaved (segs cur (PPackageID # ps)) (cur @ '' with packageId '' @ [SQ] @ u @ [SQ] @ w)" for cur
    using il_more[OF w(2)[of "[SQ]"], of "cur @ '' with packageId '' @ [SQ]" u] by simp
  ultimately show ?case by blast
qed

text \<open>On every template of the table the literals read off the pattern are segments of it.\<close>

definition literals_ok :: "piece list \<Rightarrow> bool" where
  "literals_ok ps =
     (let sg = segs [] ps in
      case required_literals (pattern ps) of
        (p, s, ls) \<Rightarrow> (p = [] \<or> p = hd sg) \<and> (s = [] \<or> s = last sg) \<and> list_all (\<lambda>l. l \<in> set sg) ls)"

lemma table_literals_ok: "list_all (\<lambda>pr. literals_ok (fst pr)) reason_table"
  by code_simp

lemma submatch_sound: "submatch r s = Some cs \<Longrightarrow> \<exists>z'. mt r ([], s) [] z' cs \<and> snd z' = []"
  unfolding submatch_def by (drule match_here_sound) (blast elim!: mt_SeqE mt_EotE)

lemma match_admits:
  assumes "literals_ok ps" and "form_match (form ps rd) reason = Some m"
  shows "admits (form ps rd) reason"
proof -
  obtain p s ls where rl: "required_literals (pattern ps) = (p, s, ls)"
    by (cases "required_literals (pattern ps)") auto
  from assms(2) rl have "submatch (pieces_re 1 ps) reason = Some m"
    by (simp add: form_match_def form_def)
  from submatch_sound[OF this] obtain z' where
    "mt (pieces_re 1 ps) ([], reason) [] z' m" "snd z' = []" by blast
  with mt_pieces_segs[OF this(1)] have il: "interleaved (segs [] ps) reason"
    by (metis append_Nil append_Nil2 snd_conv)
  have ok: "p = [] \<or> p = hd (segs [] ps)" "s = [] \<or> s = last (segs [] ps)"
    "list_all (\<lambda>l. l \<in> set (segs [] ps)) ls"
    using assms(1) rl by (simp_all add: literals_ok_def Let_def)
  show ?thesis
    unfolding admits_def using rl ok interleaved_prefix[OF il] interleaved_suffix[OF il]
      interleaved_sublist[OF il]
    by (auto simp: form_def list_all_iff)
qed

lemma forms_match_admit:
  "f \<in> set reason_forms \<Longrightarrow> form_match f reason = Some m \<Longrightarrow> admits f reason"
  using table_literals_ok match_admits unfolding reason_forms_def list_all_iff by fastforce

lemma read_with_filter:
  "(\<And>f m. f \<in> set fs \<Longrightarrow> form_match f reason = Some m \<Longrightarrow> adm f reason) \<Longrightarrow>
     read_with adm fs file reason l = read_with (\<lambda>_ _. True) fs file reason l"
  by (induction fs) (auto split: option.splits)

section \<open>What a listing says is about the files it lists\<close>

definition listed :: "listing \<Rightarrow> bool" where
  "listed l \<longleftrightarrow>
     (\<forall>e \<in> set (l_edges l). e_to e \<in> set (l_files l)) \<and> set (l_roots l) \<subseteq> set (l_files l) \<and>
     (\<forall>t \<in> set (l_types l) \<union> set (l_implicit l). t_file t \<in> set (l_files l))"

definition pstate_ok :: "pstate \<Rightarrow> bool" where
  "pstate_ok s \<longleftrightarrow> listed (p_l s) \<and> (p_file s \<noteq> [] \<longrightarrow> p_file s \<in> set (l_files (p_l s))) \<and>
     (p_inDiagnostic s \<longrightarrow> l_diagnostics (p_l s) \<noteq> []) \<and>
     (case p_resolution s of None \<Rightarrow> True | Some a \<Rightarrow> a_kind a \<noteq> Reference)"

lemma apply_reader_listed: "listed l \<Longrightarrow> file \<in> set (l_files l) \<Longrightarrow> listed (apply_reader rd file m l)"
  by (cases rd) (auto simp: listed_def as_edge_def Let_def)

lemma apply_reader_frame [simp]:
  "l_files (apply_reader rd file m l) = l_files l"
  "l_diagnostics (apply_reader rd file m l) = l_diagnostics l"
  "l_resolutions (apply_reader rd file m l) = l_resolutions l"
  "l_unresolved (apply_reader rd file m l) = l_unresolved l"
  by (cases rd; simp add: as_edge_def Let_def)+

lemma read_with_Inr:
  "read_with adm fs file reason l = Inr l' \<Longrightarrow> \<exists>rd m. l' = apply_reader rd file m l"
  by (induction fs) (auto split: if_splits option.splits)

lemma close_resolution_frame [simp]:
  "l_files (close_resolution l a to) = l_files l"
  "l_diagnostics (close_resolution l a to) = l_diagnostics l"
  "l_edges (close_resolution l a to) = l_edges l"
  "l_roots (close_resolution l a to) = l_roots l"
  "l_types (close_resolution l a to) = l_types l"
  "l_implicit (close_resolution l a to) = l_implicit l"
  by (auto simp: close_resolution_def Let_def split: option.splits)

lemma frame_kind: "parse_resolution_frame line = Some (FStart k spec from) \<Longrightarrow> k \<noteq> Reference"
  by (auto simp: parse_resolution_frame_def split: option.splits if_splits)

text \<open>The three ways a trace boundary is accepted.\<close>

lemma trace_boundary_cases:
  assumes "trace_boundary s line = Inr s'"
  obtains (nested) k spec orig where "parse_resolution_frame line = Some (FStart k spec orig)"
        "s' = s\<lparr>p_previous := []\<rparr>"
    | (start) k spec orig where "parse_resolution_frame line = Some (FStart k spec orig)"
        "p_resolution s = None"
        "s' = s\<lparr>p_previous := [], p_resolution := Some \<lparr>a_kind = k, a_from = orig, a_spec = spec,
           a_cands = [], a_substs = [], a_packageStart = None, a_candidate = []\<rparr>\<rparr>"
    | (close) a to where "parse_resolution_frame line = Some (FEnd (a_kind a) (a_spec a) to)"
        "p_resolution s = Some a"
        "s' = s\<lparr>p_previous := [], p_resolution := None, p_l := close_resolution (p_l s) a to\<rparr>"
proof -
  note t = assms[unfolded trace_boundary_def Let_def]
  show ?thesis
  proof (cases "parse_resolution_frame line")
    case None
    with t show ?thesis by (auto split: option.splits)
  next
    case (Some fr)
    show ?thesis
    proof (cases fr)
      case (FStart k spec orig)
      show ?thesis
      proof (cases "p_resolution s")
        case None
        with t Some FStart show ?thesis by (intro start[OF _ None]) (auto split: if_splits)
      next
        case (Some a)
        with t \<open>parse_resolution_frame line = Some fr\<close> FStart show ?thesis
          by (intro nested[of k spec orig]) (simp_all split: if_splits)
      qed
    next
      case (FEnd k spec to)
      show ?thesis
      proof (cases "p_resolution s")
        case None
        with t Some FEnd show ?thesis by simp
      next
        case (Some a)
        with t \<open>parse_resolution_frame line = Some fr\<close> FEnd show ?thesis
          by (intro close[of a to]) (auto split: if_splits)
      qed
    qed
  qed
qed

lemma trace_boundary_ok: "pstate_ok s \<Longrightarrow> trace_boundary s line = Inr s' \<Longrightarrow> pstate_ok s'"
  by (erule trace_boundary_cases) (auto simp: pstate_ok_def listed_def dest: frame_kind)

lemma trace_line_kind [simp]: "a_kind (trace_line a line) = a_kind a"
  by (simp add: trace_line_def Let_def split: option.splits)

lemma load_candidate_Inr:
  assumes "load_candidate s line = Inr s'"
  obtains a c where "p_resolution s = Some a"
    "s' = s\<lparr>p_resolution := Some (a\<lparr>a_candidate := c_path c\<rparr>),
       p_l := (p_l s)\<lparr>l_candidates := l_candidates (p_l s) @ [c]\<rparr>\<rparr>"
proof -
  from assms obtain a m where am: "p_resolution s = Some a" "submatch candidateLocation line = Some m"
    unfolding load_candidate_def
    by (cases "p_resolution s"; cases "submatch candidateLocation line") auto
  let ?c = "\<lparr>c_kind = a_kind a, c_from = a_from a, c_spec = a_spec a, c_path = cap m 1\<rparr>"
  have "s' = s\<lparr>p_resolution := Some (a\<lparr>a_candidate := c_path ?c\<rparr>),
       p_l := (p_l s)\<lparr>l_candidates := l_candidates (p_l s) @ [?c]\<rparr>\<rparr>"
    using assms am by (simp add: load_candidate_def split: if_splits)
  with am show thesis by (intro that[of a ?c])
qed

lemma load_candidate_ok: "pstate_ok s \<Longrightarrow> load_candidate s line = Inr s' \<Longrightarrow> pstate_ok s'"
  by (erule load_candidate_Inr) (simp add: pstate_ok_def listed_def)

text \<open>The ways a line of the listing is accepted.\<close>

lemma listing_line_cases:
  assumes "listing_line s line = Inr s'"
  obtains (blank) "s' = s"
    | (more) "p_inDiagnostic s" "s' = s\<lparr>p_l := (p_l s)\<lparr>l_diagnostics :=
         butlast (l_diagnostics (p_l s)) @ [last (l_diagnostics (p_l s)) @ [NL] @ line]\<rparr>\<rparr>"
    | (reason) rd m where "p_file s \<noteq> []" "s' = s\<lparr>p_l := apply_reader rd (p_file s) m (p_l s)\<rparr>"
    | (diag) "s' = s\<lparr>p_inDiagnostic := True, p_l := (p_l s)\<lparr>l_diagnostics := l_diagnostics (p_l s) @ [line]\<rparr>\<rparr>"
    | (missing) m where "s' = s\<lparr>p_inDiagnostic := True,
         p_l := (p_l s)\<lparr>l_diagnostics := l_diagnostics (p_l s) @ [line],
                        l_unresolved := l_unresolved (p_l s) @ [missing_of m]\<rparr>\<rparr>"
    | (source) "s' = s\<lparr>p_file := line, p_inDiagnostic := False,
         p_l := (p_l s)\<lparr>l_files := l_files (p_l s) @ [line]\<rparr>\<rparr>"
proof -
  note t = assms[unfolded listing_line_def Let_def]
  consider "line = []" | "line \<noteq> []" "p_inDiagnostic s" "has_prefix line ''  ''"
    | "line \<noteq> []" "\<not> (p_inDiagnostic s \<and> has_prefix line ''  '')" "has_prefix line ''   ''"
    | "line \<noteq> []" "\<not> (p_inDiagnostic s \<and> has_prefix line ''  '')" "\<not> has_prefix line ''   ''"
        "contains_str line ''error TS'' \<and> match_here diagnosticLine line \<noteq> None"
    | "line \<noteq> []" "\<not> (p_inDiagnostic s \<and> has_prefix line ''  '')" "\<not> has_prefix line ''   ''"
        "\<not> (contains_str line ''error TS'' \<and> match_here diagnosticLine line \<noteq> None)"
    by blast
  then show ?thesis
  proof cases
    case 1
    with t show ?thesis by (intro blank) simp
  next
    case 2
    with t show ?thesis by (intro more) simp_all
  next
    case 3
    have t3: "(if p_file s = [] then Inl (ReasonBeforeFile line)
        else case read_reason (p_l s) (p_file s) (drop 3 line) of
          Inl e \<Rightarrow> Inl e | Inr l' \<Rightarrow> Inr (s\<lparr>p_l := l'\<rparr>)) = Inr s'"
      using t by (simp only: 3 if_False if_True not_False_eq_True)
    then have f: "p_file s \<noteq> []" by (simp split: if_splits)
    with t3 obtain l' where l': "read_reason (p_l s) (p_file s) (drop 3 line) = Inr l'" "s' = s\<lparr>p_l := l'\<rparr>"
      by (cases "read_reason (p_l s) (p_file s) (drop 3 line)") simp_all
    then obtain rd m where "l' = apply_reader rd (p_file s) m (p_l s)"
      using read_with_Inr unfolding read_reason_def by blast
    with f l' show ?thesis by (intro reason) simp_all
  next
    case 4
    have t4: "s' = s\<lparr>p_inDiagnostic := True,
         p_l := (case submatch missingReference line of
              None \<Rightarrow> (p_l s)\<lparr>l_diagnostics := l_diagnostics (p_l s) @ [line]\<rparr>
            | Some m \<Rightarrow> (p_l s)\<lparr>l_diagnostics := l_diagnostics (p_l s) @ [line],
                l_unresolved := l_unresolved ((p_l s)\<lparr>l_diagnostics := l_diagnostics (p_l s) @ [line]\<rparr>) @ [missing_of m]\<rparr>)\<rparr>"
      using t by (simp only: 4 if_False if_True simp_thms not_False_eq_True sum.inject)
    show ?thesis
    proof (cases "submatch missingReference line")
      case None
      with t4 show ?thesis by (intro diag) simp
    next
      case (Some m)
      with t4 show ?thesis by (intro missing[of m]) simp
    qed
  next
    case 5
    have "s' = s\<lparr>p_file := line, p_inDiagnostic := False,
         p_l := (p_l s)\<lparr>l_files := l_files (p_l s) @ [line]\<rparr>\<rparr>"
      using t by (simp only: 5 if_False sum.inject)
    then show ?thesis by (rule source)
  qed
qed

lemma listing_line_ok: "pstate_ok s \<Longrightarrow> listing_line s line = Inr s' \<Longrightarrow> pstate_ok s'"
  by (erule listing_line_cases) (auto simp: pstate_ok_def apply_reader_listed, auto simp: listed_def)

lemma parse_line_ok: "pstate_ok s \<Longrightarrow> parse_line s line = Inr s' \<Longrightarrow> pstate_ok s'"
proof -
  assume ok: "pstate_ok s" and p: "parse_line s line = Inr s'"
  let ?line = "trim_right_cut line [CR]"
  let ?s0 = "s\<lparr>p_previous := ?line\<rparr>"
  have ok0: "pstate_ok ?s0" using ok by (simp add: pstate_ok_def)
  show ?thesis
  proof (cases "has_prefix ?line ''========''")
    case True
    then show ?thesis using p trace_boundary_ok[OF ok] by (simp add: parse_line_def Let_def)
  next
    case False
    then obtain s1 where s1: "s1 = ?s0 \<or> load_candidate ?s0 ?line = Inr s1"
      and r: "(case p_resolution s1 of
          Some a \<Rightarrow> Inr (s1\<lparr>p_resolution := Some (trace_line a ?line)\<rparr>)
        | None \<Rightarrow> listing_line s1 ?line) = Inr s'"
      using p by (auto simp: parse_line_def Let_def split: sum.splits if_splits)
    have "pstate_ok s1" using s1 ok0 load_candidate_ok[OF ok0] by auto
    then show ?thesis using r listing_line_ok[of s1]
      by (cases "p_resolution s1") (auto simp: pstate_ok_def)
  qed
qed

lemma parse_lines_ok: "pstate_ok s \<Longrightarrow> parse_lines s ls = Inr s' \<Longrightarrow> pstate_ok s'"
  by (induction ls arbitrary: s) (auto split: sum.splits dest: parse_line_ok)

lemma init_ok: "pstate_ok init_pstate"
  by (simp add: pstate_ok_def init_pstate_def listed_def empty_listing_def)

section \<open>Every trace that opens is closed and recorded once\<close>

definition closes_trace :: "string \<Rightarrow> bool" where
  "closes_trace raw =
     (let line = trim_right_cut raw [CR] in
      has_prefix line ''========'' \<and>
      (case parse_resolution_frame line of Some (FEnd _ _ _) \<Rightarrow> True | _ \<Rightarrow> False))"

definition recorded :: "listing \<Rightarrow> nat" where
  "recorded l = length (l_resolutions l) + length (filter (\<lambda>u. u_kind u \<noteq> Reference) (l_unresolved l))"

lemma recorded_close:
  "a_kind a \<noteq> Reference \<Longrightarrow> recorded (close_resolution l a to) = Suc (recorded l)"
  by (cases "a_packageStart a"; cases to) (auto simp: recorded_def close_resolution_def Let_def)

lemma recorded_listing_line: "listing_line s line = Inr s' \<Longrightarrow> recorded (p_l s') = recorded (p_l s)"
  by (erule listing_line_cases) (auto simp: recorded_def missing_of_def)

lemma recorded_parse_line:
  assumes ok: "pstate_ok s" and p: "parse_line s raw = Inr s'"
  shows "recorded (p_l s') = recorded (p_l s) + (if closes_trace raw then 1 else 0)"
proof -
  let ?line = "trim_right_cut raw [CR]"
  let ?s0 = "s\<lparr>p_previous := ?line\<rparr>"
  show ?thesis
  proof (cases "has_prefix ?line ''========''")
    case True
    then have t: "trace_boundary s ?line = Inr s'" using p by (simp add: parse_line_def Let_def)
    show ?thesis
    proof (cases rule: trace_boundary_cases[OF t])
      case (1 k spec orig)
      then show ?thesis by (simp add: closes_trace_def Let_def recorded_def)
    next
      case (2 k spec orig)
      then show ?thesis by (simp add: closes_trace_def Let_def recorded_def)
    next
      case (3 a to)
      then show ?thesis using True ok
        by (simp add: closes_trace_def Let_def recorded_close pstate_ok_def)
    qed
  next
    case False
    then obtain s1 where s1: "s1 = ?s0 \<or> load_candidate ?s0 ?line = Inr s1"
      and r: "(case p_resolution s1 of
          Some a \<Rightarrow> Inr (s1\<lparr>p_resolution := Some (trace_line a ?line)\<rparr>)
        | None \<Rightarrow> listing_line s1 ?line) = Inr s'"
      using p by (auto simp: parse_line_def Let_def split: sum.splits if_splits)
    have "recorded (p_l s1) = recorded (p_l s)"
      using s1 by (auto simp: recorded_def elim!: load_candidate_Inr)
    moreover have "recorded (p_l s') = recorded (p_l s1)"
      using r recorded_listing_line[of s1 ?line s'] by (auto split: option.splits)
    ultimately show ?thesis using False by (simp add: closes_trace_def Let_def)
  qed
qed

lemma recorded_parse_lines:
  "pstate_ok s \<Longrightarrow> parse_lines s ls = Inr s' \<Longrightarrow>
     recorded (p_l s') = recorded (p_l s) + length (filter closes_trace ls)"
proof (induction ls arbitrary: s)
  case (Cons x xs)
  from Cons.prems(2) obtain t where t: "parse_line s x = Inr t" "parse_lines t xs = Inr s'"
    by (auto split: sum.splits)
  show ?case
    using Cons.IH[OF parse_line_ok[OF Cons.prems(1) t(1)] t(2)]
      recorded_parse_line[OF Cons.prems(1) t(1)] by auto
qed simp

lemma parse_Inr:
  assumes "parse text = Inr l"
  obtains s where "parse_lines init_pstate (lines_of text) = Inr s" "p_resolution s = None" "l = p_l s"
  using assms by (auto simp: parse_def split: sum.splits option.splits)

section \<open>Properties\<close>

definition demo_listing :: string where
  "demo_listing = unlines
     [''======== Resolving module '' @ [SQ] @ ''./b'' @ [SQ] @ '' from '' @ [SQ] @ ''/w/a.ts'' @ [SQ] @ ''. ========'',
      ''File '' @ [SQ] @ ''/w/b.mts'' @ [SQ] @ '' does not exist.'',
      ''======== Module name '' @ [SQ] @ ''./b'' @ [SQ] @ '' was successfully resolved to '' @ [SQ] @ ''/w/b.ts'' @ [SQ] @ ''. ========'',
      ''a.ts'',
      ''   Root file specified for compilation'',
      ''b.ts'',
      ''   Imported via '' @ [DQ] @ ''./b'' @ [DQ] @ '' from file '' @ [SQ] @ ''a.ts'' @ [SQ]]"

definition demo_parsed :: listing where
  "demo_parsed = empty_listing
     \<lparr>l_files := [''a.ts'', ''b.ts''], l_roots := [''a.ts''],
      l_edges := [\<lparr>e_kind = Import, e_from = ''a.ts'', e_to = ''b.ts'', e_spec = ''./b''\<rparr>],
      l_resolutions := [\<lparr>res_edge = \<lparr>e_kind = Import, e_from = ''/w/a.ts'', e_to = ''/w/b.ts'', e_spec = ''./b''\<rparr>,
         res_cands = [\<lparr>fl_file = ''/w/b.mts'', fl_candidate = []\<rparr>], res_substs = [], res_fromPackage = False\<rparr>]\<rparr>"

lemma demo_parses: "parse demo_listing = Inr demo_parsed"
  by code_simp

text \<open>C22. The literal check in front of the reason expressions never changes what is read: a
  reason whose expression matches passes the check of its form, so reading with the check and
  reading by the expressions alone give the same listing or the same error.\<close>

theorem literal_check_transparent:
  "read_reason l file reason = read_with (\<lambda>_ _. True) reason_forms file reason l"
  unfolding read_reason_def by (rule read_with_filter) (rule forms_match_admit)

text \<open>C24. Whatever a parsed listing says, it says of a file it lists: every edge ends in a
  listed file, and every root and every type entry is one.\<close>

theorem parse_facts_listed:
  assumes "parse text = Inr l"
  shows "(\<forall>e \<in> set (l_edges l). e_to e \<in> set (l_files l)) \<and> set (l_roots l) \<subseteq> set (l_files l)
    \<and> (\<forall>t \<in> set (l_types l) \<union> set (l_implicit l). t_file t \<in> set (l_files l))"
proof -
  from assms obtain s where "parse_lines init_pstate (lines_of text) = Inr s" "l = p_l s"
    by (rule parse_Inr)
  with parse_lines_ok[OF init_ok] show ?thesis by (auto simp: pstate_ok_def listed_def)
qed

theorem parse_facts_listed_witness:
  "map e_to (l_edges demo_parsed) = [''b.ts''] \<and> set (l_roots demo_parsed) \<subseteq> set (l_files demo_parsed)"
  using parse_facts_listed[OF demo_parses] by (simp add: demo_parsed_def)

text \<open>A line that starts a trace; the one after an \<open>imports\<close> redirect starts no trace of its own, but
  stands inside one that is open.\<close>

definition starts_trace :: "string \<Rightarrow> bool" where
  "starts_trace raw =
     (let line = trim_right_cut raw [CR] in
      has_prefix line ''========'' \<and>
      (case parse_resolution_frame line of Some (FStart _ _ _) \<Rightarrow> True | _ \<Rightarrow> False))"

lemma start_opens:
  assumes "starts_trace raw" "parse_line s raw = Inr s'"
  shows "p_resolution s' \<noteq> None"
proof -
  let ?line = "trim_right_cut raw [CR]"
  have "trace_boundary s ?line = Inr s'" using assms by (simp add: parse_line_def starts_trace_def Let_def)
  then show ?thesis using assms(1)
    by (auto simp: trace_boundary_def starts_trace_def Let_def split: option.splits frame.splits if_splits)
qed

lemma open_until_closed:
  assumes "\<not> closes_trace raw" "p_resolution s \<noteq> None" "parse_line s raw = Inr s'"
  shows "p_resolution s' \<noteq> None"
proof -
  let ?line = "trim_right_cut raw [CR]"
  show ?thesis
  proof (cases "has_prefix ?line ''========''")
    case True
    then have "trace_boundary s ?line = Inr s'" using assms(3) by (simp add: parse_line_def Let_def)
    then show ?thesis using assms(1,2) True
      by (auto simp: trace_boundary_def closes_trace_def Let_def split: option.splits frame.splits if_splits)
  next
    case False
    then show ?thesis using assms(2,3)
      by (auto simp: parse_line_def Let_def split: sum.splits option.splits if_splits elim!: load_candidate_Inr)
  qed
qed

lemma open_until_closed_lines:
  "\<forall>x \<in> set ls. \<not> closes_trace x \<Longrightarrow> p_resolution s \<noteq> None \<Longrightarrow> parse_lines s ls = Inr s' \<Longrightarrow> p_resolution s' \<noteq> None"
proof (induction ls arbitrary: s)
  case (Cons x xs)
  from Cons.prems(3) obtain t where t: "parse_line s x = Inr t" "parse_lines t xs = Inr s'" by (auto split: sum.splits)
  have "p_resolution t \<noteq> None" by (rule open_until_closed[OF _ Cons.prems(2) t(1)]) (use Cons.prems(1) in simp)
  then show ?case using Cons.IH[OF _ _ t(2)] Cons.prems(1) by simp
qed simp

lemma parse_lines_append:
  "parse_lines s (xs @ ys) = (case parse_lines s xs of Inl e \<Rightarrow> Inl e | Inr t \<Rightarrow> parse_lines t ys)"
  by (induction xs arbitrary: s) (auto split: sum.split)

text \<open>C21. In a listing that parses, each line that ends a resolution is recorded exactly once, as a
  resolution or as an unresolved module or type specifier, and no trace is open at the end: after
  every line that starts a trace comes one that ends it.\<close>

theorem parse_traces_closed:
  assumes "parse text = Inr l"
  shows "length (l_resolutions l) + length (filter (\<lambda>u. u_kind u \<noteq> Reference) (l_unresolved l))
      = length (filter closes_trace (lines_of text)) \<and>
    (\<forall>before start after. lines_of text = before @ start # after \<longrightarrow> starts_trace start \<longrightarrow> (\<exists>x \<in> set after. closes_trace x))"
proof (intro conjI allI impI)
  from assms obtain s where s: "parse_lines init_pstate (lines_of text) = Inr s" "p_resolution s = None" "l = p_l s"
    by (rule parse_Inr)
  from recorded_parse_lines[OF init_ok s(1)] s(3)
  show "length (l_resolutions l) + length (filter (\<lambda>u. u_kind u \<noteq> Reference) (l_unresolved l))
      = length (filter closes_trace (lines_of text))"
    by (simp add: recorded_def init_pstate_def empty_listing_def)
  fix before start after
  assume lines: "lines_of text = before @ start # after" and start: "starts_trace start"
  obtain t1 t2 where t: "parse_line t1 start = Inr t2" "parse_lines t2 after = Inr s"
    using s(1) unfolding lines by (auto simp: parse_lines_append split: sum.splits)
  show "\<exists>x \<in> set after. closes_trace x"
    using open_until_closed_lines[OF _ start_opens[OF start t(1)] t(2)] s(2) by blast
qed

theorem parse_traces_closed_witness:
  "length (filter closes_trace (lines_of demo_listing)) = 1 \<and> length (l_resolutions demo_parsed) = 1"
proof -
  have "l_unresolved demo_parsed = []" by (simp add: demo_parsed_def empty_listing_def)
  moreover have "length (l_resolutions demo_parsed) = 1" by (simp add: demo_parsed_def)
  ultimately show ?thesis using parse_traces_closed[OF demo_parses] by simp
qed

end
