(* ===== verification/Closure.thy ===== *)
theory Closure imports Prelude begin

text \<open>
  Searches of a graph.  A search that a client relies on is an interface: what it returns from
  some starts, closed under the steps and least.  The breadth-first loop the Go code writes over
  a queue and a set of seen nodes is defined here for the components that run it; a node that is
  not admissible (the empty path) is never pushed.
\<close>

locale search =
  fixes step :: "'a \<Rightarrow> 'a \<Rightarrow> bool" and ok :: "'a \<Rightarrow> bool" and run :: "'a list \<Rightarrow> 'a list"
  assumes run_start: "x \<in> set xs \<Longrightarrow> ok x \<Longrightarrow> x \<in> set (run xs)"
    and run_step: "x \<in> set (run xs) \<Longrightarrow> step x y \<Longrightarrow> y \<in> set (run xs)"
    and run_least: "(\<And>x. x \<in> set xs \<Longrightarrow> ok x \<Longrightarrow> x \<in> Y) \<Longrightarrow> (\<And>x y. x \<in> Y \<Longrightarrow> step x y \<Longrightarrow> y \<in> Y) \<Longrightarrow>
      set (run xs) \<subseteq> Y"
begin

lemma run_eq: "set (run xs) = {y. \<exists>x \<in> set xs. ok x \<and> step\<^sup>*\<^sup>* x y}"
proof (rule antisym)
  show "set (run xs) \<subseteq> {y. \<exists>x \<in> set xs. ok x \<and> step\<^sup>*\<^sup>* x y}"
    by (rule run_least) (auto intro: rtranclp.rtrancl_into_rtrancl)
  have "y \<in> set (run xs)" if "step\<^sup>*\<^sup>* x y" "x \<in> set xs" "ok x" for x y
    using that by (induction rule: rtranclp_induct) (use run_start run_step in auto)
  then show "{y. \<exists>x \<in> set xs. ok x \<and> step\<^sup>*\<^sup>* x y} \<subseteq> set (run xs)" by blast
qed

lemma run_mono: "set xs \<subseteq> set ys \<Longrightarrow> set (run xs) \<subseteq> set (run ys)"
  unfolding run_eq by blast

lemma run_idem: "set (run (run xs)) \<subseteq> set (run xs)"
  by (rule run_least) (use run_step in auto)

end

section \<open>The loop over a queue\<close>

definition push :: "('a \<Rightarrow> bool) \<Rightarrow> 'a \<Rightarrow> 'a list \<times> 'a list \<Rightarrow> 'a list \<times> 'a list" where
  "push ok f sq = (case sq of (seen, queue) \<Rightarrow>
     if ok f \<and> f \<notin> set seen then (f # seen, queue @ [f]) else (seen, queue))"

lemma push_measure:
  assumes "finite N" and "set ts \<subseteq> N"
  shows "card (N - set (fst (fold (push ok) ts (seen, q)))) + length (snd (fold (push ok) ts (seen, q)))
    \<le> card (N - set seen) + length q"
  using assms(2)
proof (induction ts arbitrary: seen q)
  case (Cons t ts)
  show ?case
  proof (cases "ok t \<and> t \<notin> set seen")
    case True
    then have t: "t \<in> N - set seen" using Cons.prems by simp
    have "N - set (t # seen) = (N - set seen) - {t}" by auto
    then have "Suc (card (N - set (t # seen))) = card (N - set seen)"
      using card_Suc_Diff1[OF _ t] assms(1) by simp
    then have "card (N - set (t # seen)) + length (q @ [t]) = card (N - set seen) + length q" by simp
    with Cons.IH[of "t # seen" "q @ [t]"] Cons.prems True show ?thesis by (simp add: push_def)
  next
    case False
    with Cons show ?thesis by (auto simp: push_def)
  qed
qed simp

text \<open>The edges are a list of pairs.\<close>

definition targets :: "('a \<times> 'a) list \<Rightarrow> 'a \<Rightarrow> 'a list" where
  "targets es f = map snd (filter (\<lambda>e. fst e = f) es)"

function bfs :: "('a \<Rightarrow> bool) \<Rightarrow> ('a \<times> 'a) list \<Rightarrow> 'a list \<Rightarrow> 'a list \<Rightarrow> 'a list" where
  "bfs ok es seen [] = seen"
| "bfs ok es seen (f # q) =
     (let sq = fold (push ok) (targets es f) (seen, q) in bfs ok es (fst sq) (snd sq))"
  by pat_completeness auto
termination
proof (relation "measure (\<lambda>(ok, es, seen, q). card (snd ` set es - set seen) + length q)")
  fix ok :: "'a \<Rightarrow> bool" and es :: "('a \<times> 'a) list" and seen f q sq
  assume sq: "sq = fold (push ok) (targets es f) (seen, q)"
  have "set (targets es f) \<subseteq> snd ` set es" by (auto simp: targets_def)
  then have "card (snd ` set es - set (fst sq)) + length (snd sq) \<le> card (snd ` set es - set seen) + length q"
    unfolding sq by (intro push_measure) simp_all
  then show "((ok, es, fst sq, snd sq), ok, es, seen, f # q)
      \<in> measure (\<lambda>(ok, es, seen, q). card (snd ` set es - set seen) + length q)"
    by (cases sq) simp
qed simp

definition search_list :: "('a \<Rightarrow> bool) \<Rightarrow> ('a \<times> 'a) list \<Rightarrow> 'a list \<Rightarrow> 'a list" where
  "search_list ok es starts =
     (case fold (push ok) starts ([], []) of (seen, queue) \<Rightarrow> bfs ok es seen queue)"

definition edge_step :: "('a \<Rightarrow> bool) \<Rightarrow> ('a \<times> 'a) list \<Rightarrow> 'a \<Rightarrow> 'a \<Rightarrow> bool" where
  "edge_step ok es x y \<longleftrightarrow> (x, y) \<in> set es \<and> ok y"

lemma fold_push_set:
  "set (fst (fold (push ok) ts (seen, q))) = set seen \<union> {t \<in> set ts. ok t} \<and>
   set (snd (fold (push ok) ts (seen, q))) = set q \<union> ({t \<in> set ts. ok t} - set seen)"
  by (induction ts arbitrary: seen q) (auto simp: push_def)

lemma set_targets: "set (targets es f) = {y. (f, y) \<in> set es}"
  by (force simp: targets_def)

text \<open>A node that has been seen and is no longer queued has all its successors seen.\<close>

lemma bfs_closed:
  assumes "set q \<subseteq> set seen" and "\<And>x y. x \<in> set seen - set q \<Longrightarrow> edge_step ok es x y \<Longrightarrow> y \<in> set seen"
  shows "x \<in> set (bfs ok es seen q) \<Longrightarrow> edge_step ok es x y \<Longrightarrow> y \<in> set (bfs ok es seen q)"
  using assms
proof (induction ok es seen q rule: bfs.induct)
  case (2 ok es seen f q)
  let ?sq = "fold (push ok) (targets es f) (seen, q)"
  have s: "set (fst ?sq) = set seen \<union> {t. edge_step ok es f t}"
    "set (snd ?sq) = set q \<union> ({t. edge_step ok es f t} - set seen)"
    using fold_push_set[of ok "targets es f" seen q] by (auto simp: set_targets edge_step_def)
  have sub: "set (snd ?sq) \<subseteq> set (fst ?sq)" using "2.prems"(3) s by auto
  have closed: "y' \<in> set (fst ?sq)" if x': "x' \<in> set (fst ?sq) - set (snd ?sq)" and e: "edge_step ok es x' y'" for x' y'
  proof (cases "x' = f")
    case True
    with e s show ?thesis by auto
  next
    case False
    then have "x' \<in> set seen - set (f # q)" using x' s by auto
    with "2.prems"(4) e s show ?thesis by auto
  qed
  show ?case using "2.IH"[OF refl _ "2.prems"(2) sub closed] "2.prems"(1) by (simp add: Let_def)
qed auto

lemma bfs_seen: "set seen \<subseteq> set (bfs ok es seen q)"
proof (induction ok es seen q rule: bfs.induct)
  case (2 ok es seen f q)
  let ?sq = "fold (push ok) (targets es f) (seen, q)"
  have "set seen \<subseteq> set (fst ?sq)" using fold_push_set[of ok "targets es f" seen q] by auto
  with "2.IH"[OF refl] show ?case by (auto simp: Let_def)
qed simp

lemma bfs_least:
  assumes "set seen \<subseteq> Y" and "set q \<subseteq> Y" and "\<And>x y. x \<in> Y \<Longrightarrow> edge_step ok es x y \<Longrightarrow> y \<in> Y"
  shows "set (bfs ok es seen q) \<subseteq> Y"
  using assms
proof (induction ok es seen q rule: bfs.induct)
  case (2 ok es seen f q)
  let ?sq = "fold (push ok) (targets es f) (seen, q)"
  have t: "{t. edge_step ok es f t} \<subseteq> Y" using "2.prems"(2,3) by auto
  have s: "set (fst ?sq) = set seen \<union> {t. edge_step ok es f t}"
    "set (snd ?sq) = set q \<union> ({t. edge_step ok es f t} - set seen)"
    using fold_push_set[of ok "targets es f" seen q] by (auto simp: set_targets edge_step_def)
  have "set (fst ?sq) \<subseteq> Y" "set (snd ?sq) \<subseteq> Y" using s t "2.prems"(1,2) by auto
  with "2.IH"[OF refl _ _ "2.prems"(3)] show ?case by (simp add: Let_def)
qed simp

text \<open>The loop is a search: it returns the admissible starts and what the edges reach from them.\<close>

lemma fold_push_starts:
  "fold (push ok) starts ([], []) = (seen, queue) \<Longrightarrow>
     set seen = {s \<in> set starts. ok s} \<and> set queue = {s \<in> set starts. ok s}"
  using fold_push_set[of ok starts "[]" "[]"] by simp

interpretation bfs_search: search "edge_step ok es" ok "search_list ok es" for ok :: "'a \<Rightarrow> bool" and es
proof
  fix xs :: "'a list" and x y and Y :: "'a set"
  obtain seen queue where f: "fold (push ok) xs ([], []) = (seen, queue)" by fastforce
  note sq = fold_push_starts[OF f]
  have run: "search_list ok es xs = bfs ok es seen queue" by (simp add: search_list_def f)
  show "x \<in> set xs \<Longrightarrow> ok x \<Longrightarrow> x \<in> set (search_list ok es xs)"
    using sq bfs_seen[of seen ok es queue] unfolding run by blast
  show "x \<in> set (search_list ok es xs) \<Longrightarrow> edge_step ok es x y \<Longrightarrow> y \<in> set (search_list ok es xs)"
    unfolding run using bfs_closed[of queue seen ok es x y] sq by auto
  show "set (search_list ok es xs) \<subseteq> Y"
    if "\<And>x. x \<in> set xs \<Longrightarrow> ok x \<Longrightarrow> x \<in> Y" "\<And>x y. x \<in> Y \<Longrightarrow> edge_step ok es x y \<Longrightarrow> y \<in> Y"
    unfolding run using that sq by (intro bfs_least) auto
qed

end
