(* ===== verification/ListingCache.thy ===== *)
theory ListingCache imports ExplainFiles Tsconfig Closure "HOL-Library.AList" begin

text \<open>
  Gazelle's cache of compiler listings: listing_cache.go and listing_patch.go in \<open>gazelle/\<close>.  What
  a file or a directory looks like now is given by functions: \<open>line\<close> the stat line of a path,
  \<open>digest\<close> the digest of the names below a directory, \<open>scan\<close> the specifiers of a source and the
  digest of the rest of it, \<open>hash\<close> the SHA-256 of a text.  Go ranges over two maps in no fixed
  order, which \<open>order\<close> gives; its first argument names the loop.
\<close>

abbreviation embeddedLibs :: string where "embeddedLibs \<equiv> ''bundled:///''"

section \<open>Data\<close>

record source_specs =
  sr_specs :: "string list"
  sr_rest :: string

record resolution_candidate =
  cd_from :: string
  cd_specifier :: string
  cd_path :: string
  cd_file :: bool
  cd_metadata :: bool
  cd_kind :: edge_kind
  cd_block :: nat
  cd_resolved :: string
  cd_skipped :: string

type_synonym sources = "(string \<times> source_specs) list"

record cached_listing =
  en_listing :: listing
  en_candidates :: "resolution_candidate list"
  en_reads :: "string list"
  en_dirs :: "string list"
  en_fingerprint :: string
  en_root :: string
  en_readLines :: "string list"
  en_dirDigests :: "string list"
  en_sources :: "sources option"

record program =
  pg_listing :: listing
  pg_candidates :: "resolution_candidate list"
  pg_config :: string

definition program_from_entry :: "cached_listing \<Rightarrow> string \<Rightarrow> program" where
  "program_from_entry e subject =
     \<lparr>pg_listing = en_listing e, pg_candidates = en_candidates e, pg_config = subject\<rparr>"

section \<open>Fingerprints\<close>

definition stat_digest :: "(string \<Rightarrow> string) \<Rightarrow> (string \<Rightarrow> string) \<Rightarrow> string list \<Rightarrow> string" where
  "stat_digest hash line paths = hash (unlines (sort_strings (map (\<lambda>p. p @ '' '' @ line p) paths)))"

definition listing_fingerprint ::
    "(string \<Rightarrow> string) \<Rightarrow> (string \<Rightarrow> string) \<Rightarrow> (string \<Rightarrow> string) \<Rightarrow> string list \<Rightarrow> string list \<Rightarrow> string" where
  "listing_fingerprint hash line digest reads dirs =
     hash (stat_digest hash line reads @ [NL] @ concat (map (\<lambda>d. d @ '' '' @ digest d @ [NL]) dirs))"

definition is_projection :: "string \<Rightarrow> bool" where
  "is_projection arg \<longleftrightarrow> has_prefix (path_base arg) ''.gazelle-tsconfig-''"

definition listing_name_skipped :: "string \<Rightarrow> bool" where
  "listing_name_skipped name \<longleftrightarrow> name = ''node_modules'' \<or> is_projection name"

text \<open>\<open>listingKey\<close>: \<open>tool\<close> is the size and time of the compiler binary when it can be read,
  \<open>read_file\<close> the bytes of a projection, none when it cannot.\<close>

definition listing_key ::
    "(string \<Rightarrow> string) \<Rightarrow> (string \<Rightarrow> string option) \<Rightarrow> string \<Rightarrow> string \<Rightarrow> (string \<times> string) option \<Rightarrow>
     string \<Rightarrow> string list \<Rightarrow> string" where
  "listing_key hash read_file repo_root tsgo tool subject args =
     hash (''v1'' @ [NL] @ repo_root @ [NL] @ subject @ [NL] @
       (case tool of None \<Rightarrow> [] | Some (sz, mtime) \<Rightarrow> ''tsgo '' @ tsgo @ '' '' @ sz @ '' '' @ mtime @ [NL]) @
       concat (map (\<lambda>arg.
         if is_projection arg then
           (let data = (case read_file arg of Some d \<Rightarrow> d | None \<Rightarrow> [])
            in ''projection '' @ path_dir arg @ '' '' @ replace_all data (path_base arg) ''.gazelle-tsconfig-*'' @ [NL])
         else ''arg '' @ arg @ [NL]) args))"

text \<open>\<open>includeRoots\<close>: each pattern's literal prefix.  \<open>is_file\<close> says a path exists and is not a
  directory.\<close>

definition literal_prefix :: "string \<Rightarrow> string list" where
  "literal_prefix pat = takeWhile (\<lambda>s. \<not> contains_any s ''*?[{'') (split_on SL pat)"

definition include_roots :: "(string \<Rightarrow> bool) \<Rightarrow> string \<Rightarrow> resolved \<Rightarrow> string list" where
  "include_roots is_file cfg_dir r =
     (if r_include r = None \<and> r_files r \<noteq> None then []
      else
        let dir = (if r_include r \<noteq> None \<and> r_includeDir r \<noteq> [] then r_includeDir r else cfg_dir);
            patterns = (case r_include r of Some ps \<Rightarrow> ps | None \<Rightarrow> [''**/*''])
        in map (\<lambda>p. let root = path_join [dir, join_on [SL] (literal_prefix p)]
                    in if is_file root then path_dir root else root) patterns)"

section \<open>What a listing reaches\<close>

definition starts :: "listing \<Rightarrow> string list" where
  "starts l = l_roots l @ map t_file (l_types l @ l_implicit l) @
     filter (\<lambda>f. has_prefix f embeddedLibs \<or> has_prefix f ''../'') (l_files l)"

definition named :: "string \<Rightarrow> bool" where
  "named f \<longleftrightarrow> f \<noteq> []"

definition edge_pairs :: "listing \<Rightarrow> (string \<times> string) list" where
  "edge_pairs l = map (\<lambda>e. (e_from e, e_to e)) (l_edges l)"

definition reachable :: "listing \<Rightarrow> string list" where
  "reachable l = search_list named (edge_pairs l) (starts l)"

definition unreached :: "listing \<Rightarrow> string list \<Rightarrow> string list" where
  "unreached l files =
     (let reached = reachable l in
      sort_strings (remdups (filter (\<lambda>f. f \<notin> set reached) files) @
        map (\<lambda>f. f @ '' (unlisted)'') (filter (\<lambda>f. f \<notin> set files) (remdups reached))))"

section \<open>Patching\<close>

definition extension_class :: "string \<Rightarrow> string" where
  "extension_class rel =
     (if path_ext rel \<in> {''.mts'', ''.mjs''} then ''m''
      else if path_ext rel \<in> {''.cts'', ''.cjs''} then ''c'' else ''x'')"

datatype refusal =
    NoPatchState | RootChanged | NotASource | MoreThanImports | NothingChanged | NotReached
  | KeptInAnotherMode | NoPrecedent | PrecedentNotListed | FileEntered

definition spec_text :: "string \<Rightarrow> string" where
  "spec_text spec = (case cut_at spec '':'' of (_, text, _) \<Rightarrow> text)"

text \<open>The loop over the reads: the sources that changed, by their path from the root.\<close>

fun changed_sources ::
    "(string \<Rightarrow> string) \<Rightarrow> (string \<Rightarrow> source_specs option) \<Rightarrow> (string \<Rightarrow> string option) \<Rightarrow> sources \<Rightarrow>
     (string \<times> string) list \<Rightarrow> sources \<Rightarrow> refusal + sources" where
  "changed_sources line scan rel srcs [] acc = Inr acc"
| "changed_sources line scan rel srcs ((read, old_line) # rs) acc =
     (if line read = old_line then changed_sources line scan rel srcs rs acc
      else case rel read of
        None \<Rightarrow> Inl NotASource
      | Some r \<Rightarrow>
          (case map_of srcs r of
             None \<Rightarrow> Inl NotASource
           | Some old \<Rightarrow>
               (case scan read of
                  None \<Rightarrow> Inl MoreThanImports
                | Some now \<Rightarrow>
                    if sr_rest now \<noteq> sr_rest old then Inl MoreThanImports
                    else changed_sources line scan rel srcs rs (AList.update r now acc))))"

record patch_state =
  ps_edges :: "edge list"
  ps_cands :: "resolution_candidate list"
  ps_block :: nat
  ps_sources :: sources

text \<open>The specifiers a source lost.\<close>

fun drop_specs :: "string \<Rightarrow> string list \<Rightarrow> string list \<Rightarrow> patch_state \<Rightarrow> refusal + patch_state" where
  "drop_specs rel now [] st = Inr st"
| "drop_specs rel now (spec # specs) st =
     (if spec \<in> set now then drop_specs rel now specs st
      else
        let text = spec_text spec in
        if list_ex (\<lambda>s. spec_text s = text) now then Inl KeptInAnotherMode
        else drop_specs rel now specs
          (st\<lparr>ps_edges := filter (\<lambda>e. \<not> (e_from e = rel \<and> e_spec e = text)) (ps_edges st),
              ps_cands := filter (\<lambda>c. \<not> (cd_from c = rel \<and> cd_specifier c = text)) (ps_cands st)\<rparr>))"

definition precedent ::
    "(string \<Rightarrow> sources \<Rightarrow> sources) \<Rightarrow> string list \<Rightarrow> string \<Rightarrow> string \<Rightarrow> sources \<Rightarrow> string" where
  "precedent order edited rel spec srcs =
     (case find (\<lambda>(other, src). other \<notin> set edited \<and> other \<noteq> rel \<and> path_dir other = path_dir rel \<and>
               extension_class other = extension_class rel \<and> spec \<in> set (sr_specs src))
             (order (rel @ '' '' @ spec) srcs) of
        None \<Rightarrow> [] | Some (other, _) \<Rightarrow> other)"

text \<open>The specifiers a source gained, each resolved as its precedent resolves it.\<close>

fun add_specs ::
    "(string \<Rightarrow> sources \<Rightarrow> sources) \<Rightarrow> string list \<Rightarrow> string list \<Rightarrow> string \<Rightarrow> string list \<Rightarrow> string list \<Rightarrow>
     patch_state \<Rightarrow> refusal + patch_state" where
  "add_specs order edited files rel old [] st = Inr st"
| "add_specs order edited files rel old (spec # specs) st =
     (if spec \<in> set old then add_specs order edited files rel old specs st
      else
        let text = spec_text spec; pc = precedent order edited rel spec (ps_sources st) in
        if pc = [] then Inl NoPrecedent
        else
          let probes = map (\<lambda>c. c\<lparr>cd_from := rel, cd_block := ps_block st\<rparr>)
                (filter (\<lambda>c. cd_from c = pc \<and> cd_specifier c = text) (ps_cands st));
              resolved = (if probes = [] then [] else cd_resolved (last probes));
              found = find (\<lambda>e. e_from e = pc \<and> e_spec e = text) (ps_edges st);
              st' = st\<lparr>ps_block := Suc (ps_block st), ps_cands := ps_cands st @ probes,
                       ps_edges := ps_edges st @ (case found of Some e \<Rightarrow> [e\<lparr>e_from := rel\<rparr>] | None \<Rightarrow> [])\<rparr>
          in if resolved \<noteq> [] \<and> (found = None \<or> resolved \<notin> set files) then Inl PrecedentNotListed
             else add_specs order edited files rel old specs st')"

fun patch_sources ::
    "(string \<Rightarrow> sources \<Rightarrow> sources) \<Rightarrow> string list \<Rightarrow> string list \<Rightarrow> sources \<Rightarrow> patch_state \<Rightarrow> refusal + patch_state" where
  "patch_sources order edited files [] st = Inr st"
| "patch_sources order edited files ((rel, now) # rest) st =
     (let old = (case map_of (ps_sources st) rel of Some src \<Rightarrow> sr_specs src | None \<Rightarrow> []) in
      case drop_specs rel (sr_specs now) old st of
        Inl e \<Rightarrow> Inl e
      | Inr st1 \<Rightarrow>
          (case add_specs order edited files rel old (sr_specs now) st1 of
             Inl e \<Rightarrow> Inl e
           | Inr st2 \<Rightarrow>
               patch_sources order edited files rest
                 (st2\<lparr>ps_sources := AList.update rel now (ps_sources st2)\<rparr>)))"

definition patch_listing ::
    "(string \<Rightarrow> string) \<Rightarrow> (string \<Rightarrow> string) \<Rightarrow> (string \<Rightarrow> string) \<Rightarrow> (string \<Rightarrow> source_specs option) \<Rightarrow>
     (string \<Rightarrow> string option) \<Rightarrow> (string \<Rightarrow> sources \<Rightarrow> sources) \<Rightarrow> cached_listing \<Rightarrow> string \<Rightarrow>
     refusal + (program \<times> cached_listing)" where
  "patch_listing hash line digest scan rel order entry subject =
     (case en_sources entry of
        None \<Rightarrow> Inl NoPatchState
      | Some srcs \<Rightarrow>
          if length (en_readLines entry) \<noteq> length (en_reads entry) \<or>
             length (en_dirDigests entry) \<noteq> length (en_dirs entry) then Inl NoPatchState
          else if map digest (en_dirs entry) \<noteq> en_dirDigests entry then Inl RootChanged
          else case changed_sources line scan rel srcs (zip (en_reads entry) (en_readLines entry)) [] of
            Inl e \<Rightarrow> Inl e
          | Inr changed \<Rightarrow>
              if changed = [] then Inl NothingChanged
              else
                let p = program_from_entry entry subject; l = pg_listing p; files = l_files l in
                if unreached l files \<noteq> [] then Inl NotReached
                else
                  let st = \<lparr>ps_edges = l_edges l, ps_cands = pg_candidates p,
                            ps_block = fold (\<lambda>c b. max b (Suc (cd_block c))) (pg_candidates p) 0,
                            ps_sources = srcs\<rparr>
                  in case patch_sources order (map fst changed) files (order ''changed'' changed) st of
                       Inl e \<Rightarrow> Inl e
                     | Inr st' \<Rightarrow>
                         let l' = l\<lparr>l_edges := ps_edges st'\<rparr>; reached = reachable l' in
                         if list_ex (\<lambda>f. f \<notin> set files) reached then Inl FileEntered
                         else
                           let l'' = l'\<lparr>l_files := filter (\<lambda>f. f \<in> set reached) files\<rparr> in
                           Inr (p\<lparr>pg_listing := l'', pg_candidates := ps_cands st'\<rparr>,
                                entry\<lparr>en_listing := l'', en_candidates := ps_cands st',
                                  en_readLines := map line (en_reads entry),
                                  en_fingerprint := listing_fingerprint hash line digest (en_reads entry) (en_dirs entry),
                                  en_sources := Some (ps_sources st')\<rparr>))"

section \<open>Loading\<close>

datatype loaded = Hit program | Patched program cached_listing | Absent | Stale refusal

definition load_listing ::
    "(string \<Rightarrow> string) \<Rightarrow> (string \<Rightarrow> string) \<Rightarrow> (string \<Rightarrow> string) \<Rightarrow> (string \<Rightarrow> source_specs option) \<Rightarrow>
     (string \<Rightarrow> string \<Rightarrow> string option) \<Rightarrow> (string \<Rightarrow> sources \<Rightarrow> sources) \<Rightarrow>
     cached_listing option \<Rightarrow> cached_listing option \<Rightarrow> string \<Rightarrow> loaded" where
  \<comment> \<open>the entry the run holds already, and the one on disk\<close>
  "load_listing hash line digest scan rel order in_run on_disk subject =
     (case in_run of
        Some e \<Rightarrow> Hit (program_from_entry e subject)
      | None \<Rightarrow>
          (case on_disk of
             None \<Rightarrow> Absent
           | Some e \<Rightarrow>
               if listing_fingerprint hash line digest (en_reads e) (en_dirs e) \<noteq> en_fingerprint e then
                 (case patch_listing hash line digest scan (rel (en_root e)) order e subject of
                    Inl r \<Rightarrow> Stale r
                  | Inr (p, e') \<Rightarrow> Patched p e')
               else Hit (program_from_entry e subject)))"

section \<open>What a patch keeps\<close>

text \<open>A patch step leaves the edges of the other files and the table of sources alone.\<close>

definition frame :: "string set \<Rightarrow> patch_state \<Rightarrow> patch_state \<Rightarrow> bool" where
  "frame rels st st' \<longleftrightarrow>
     filter (\<lambda>e. e_from e \<notin> rels) (ps_edges st') = filter (\<lambda>e. e_from e \<notin> rels) (ps_edges st)"

lemma frame_trans: "frame A a b \<Longrightarrow> frame A b c \<Longrightarrow> frame A a c"
  by (simp add: frame_def)

lemma frame_refl [simp]: "frame A a a"
  by (simp add: frame_def)

lemma drop_specs_frame: "rel \<in> A \<Longrightarrow> drop_specs rel now specs st = Inr st' \<Longrightarrow> frame A st st'"
proof (induction rel now specs st rule: drop_specs.induct)
  case (2 rel now spec specs st)
  show ?case
  proof (cases "spec \<in> set now")
    case True
    with 2 show ?thesis by simp
  next
    case False
    let ?st = "st\<lparr>ps_edges := filter (\<lambda>e. \<not> (e_from e = rel \<and> e_spec e = spec_text spec)) (ps_edges st),
        ps_cands := filter (\<lambda>c. \<not> (cd_from c = rel \<and> cd_specifier c = spec_text spec)) (ps_cands st)\<rparr>"
    from False "2.prems"(2) have n: "\<not> list_ex (\<lambda>s. spec_text s = spec_text spec) now"
      and d: "drop_specs rel now specs ?st = Inr st'" by (auto simp: Let_def split: if_splits)
    have "frame A st ?st" using "2.prems"(1) by (auto simp: frame_def intro: filter_cong)
    with "2.IH"(2)[OF False refl n "2.prems"(1) d] show ?thesis by (rule frame_trans[rotated])
  qed
qed simp

lemma add_specs_frame:
  "rel \<in> A \<Longrightarrow> add_specs order edited files rel old specs st = Inr st' \<Longrightarrow> frame A st st'"
proof (induction specs arbitrary: st)
  case (Cons spec specs)
  show ?case
  proof (cases "spec \<in> set old")
    case True
    with Cons show ?thesis by simp
  next
    case False
    then obtain cs b found where
      "add_specs order edited files rel old specs (st\<lparr>ps_block := b, ps_cands := cs,
         ps_edges := ps_edges st @ (case found of Some e \<Rightarrow> [e\<lparr>e_from := rel\<rparr>] | None \<Rightarrow> [])\<rparr>) = Inr st'"
      using Cons.prems(2) by (auto simp: Let_def split: if_splits)
    from Cons.IH[OF Cons.prems(1) this] show ?thesis
      using Cons.prems(1) by (cases found) (auto simp: frame_def)
  qed
qed simp

lemma patch_sources_frame:
  "fst ` set changed \<subseteq> A \<Longrightarrow> patch_sources order edited files changed st = Inr st' \<Longrightarrow> frame A st st'"
proof (induction changed arbitrary: st)
  case (Cons c changed)
  obtain rel now where c: "c = (rel, now)" by fastforce
  from Cons.prems(2) obtain old st1 st2 where
      d: "drop_specs rel (sr_specs now) old st = Inr st1"
    and a: "add_specs order edited files rel old (sr_specs now) st1 = Inr st2"
    and p: "patch_sources order edited files changed (st2\<lparr>ps_sources := AList.update rel now (ps_sources st2)\<rparr>) = Inr st'"
    by (auto simp: c Let_def split: sum.splits)
  have r: "rel \<in> A" using Cons.prems(1) c by simp
  have "frame A st2 st'" using Cons.IH[OF _ p] Cons.prems(1) by (simp add: frame_def)
  then show ?case using drop_specs_frame[OF r d] add_specs_frame[OF r a] frame_trans by blast
qed simp

text \<open>A source that changed is listed and kept all but its imports.\<close>

definition import_edit ::
    "(string \<Rightarrow> source_specs option) \<Rightarrow> (string \<Rightarrow> string option) \<Rightarrow> sources \<Rightarrow> string list \<Rightarrow> string \<times> source_specs \<Rightarrow> bool" where
  "import_edit scan rel srcs reads c \<longleftrightarrow>
     (\<exists>read \<in> set reads. \<exists>old. rel read = Some (fst c) \<and> map_of srcs (fst c) = Some old \<and>
        scan read = Some (snd c) \<and> sr_rest (snd c) = sr_rest old)"

lemma changed_sources_edits:
  "changed_sources line scan rel srcs rs acc = Inr changed \<Longrightarrow>
     \<forall>c \<in> set acc. import_edit scan rel srcs reads c \<Longrightarrow> fst ` set rs \<subseteq> set reads \<Longrightarrow>
     \<forall>c \<in> set changed. import_edit scan rel srcs reads c"
proof (induction line scan rel srcs rs acc rule: changed_sources.induct)
  case (2 line scan rel srcs read old_line rs acc)
  show ?case
  proof (cases "line read = old_line")
    case True
    with 2 show ?thesis by simp
  next
    case False
    then obtain r old now where h: "rel read = Some r" "map_of srcs r = Some old" "scan read = Some now"
        "sr_rest now = sr_rest old"
        "changed_sources line scan rel srcs rs (AList.update r now acc) = Inr changed"
      using "2.prems"(1) by (auto split: option.splits if_splits)
    have "import_edit scan rel srcs reads (r, now)"
      using h "2.prems"(3) by (auto simp: import_edit_def)
    then have "\<forall>c \<in> set (AList.update r now acc). import_edit scan rel srcs reads c"
      using "2.prems"(2) set_update_subset[of r now acc] by blast
    with "2.IH"(2)[OF False h(1-3) _ h(5)] h(4) "2.prems"(3) show ?thesis by simp
  qed
qed simp

lemma reachable_files_cut:
  assumes "\<forall>f \<in> set (reachable l). f \<in> set (l_files l)"
  defines "l' \<equiv> l\<lparr>l_files := filter (\<lambda>f. f \<in> set (reachable l)) (l_files l)\<rparr>"
  shows "reachable l' = reachable l" and "set (l_files l') = set (reachable l)"
proof -
  let ?d = "\<lambda>f. has_prefix f embeddedLibs \<or> has_prefix f ''../''"
  have "f \<in> set (reachable l)" if "f \<in> set (l_files l)" "?d f" for f
    unfolding reachable_def
    by (rule bfs_search.run_start) (use that in \<open>auto simp: starts_def named_def\<close>)
  then have "filter ?d (filter (\<lambda>f. f \<in> set (reachable l)) (l_files l)) = filter ?d (l_files l)"
    by (simp add: filter_filter) (rule filter_cong, auto)
  then have "starts l' = starts l" by (simp add: starts_def l'_def)
  then show "reachable l' = reachable l" by (simp add: reachable_def edge_pairs_def l'_def)
  show "set (l_files l') = set (reachable l)" using assms by auto
qed

lemma patch_listing_Inr:
  assumes "patch_listing hash line digest scan rel order entry subject = Inr (p, entry')"
  obtains srcs changed st' where "en_sources entry = Some srcs"
    "changed_sources line scan rel srcs (zip (en_reads entry) (en_readLines entry)) [] = Inr changed"
    "changed \<noteq> []"
    "patch_sources order (map fst changed) (l_files (en_listing entry)) (order ''changed'' changed)
       \<lparr>ps_edges = l_edges (en_listing entry), ps_cands = en_candidates entry,
        ps_block = fold (\<lambda>c b. max b (Suc (cd_block c))) (en_candidates entry) 0, ps_sources = srcs\<rparr> = Inr st'"
    "\<forall>f \<in> set (reachable ((en_listing entry)\<lparr>l_edges := ps_edges st'\<rparr>)). f \<in> set (l_files (en_listing entry))"
    "pg_listing p = (en_listing entry)\<lparr>l_edges := ps_edges st',
       l_files := filter (\<lambda>f. f \<in> set (reachable ((en_listing entry)\<lparr>l_edges := ps_edges st'\<rparr>))) (l_files (en_listing entry))\<rparr>"
proof -
  obtain srcs where s: "en_sources entry = Some srcs"
    using assms by (auto simp: patch_listing_def split: option.splits)
  note h = assms[unfolded patch_listing_def s option.case program_from_entry_def Let_def program.simps]
  obtain changed where c: "changed_sources line scan rel srcs (zip (en_reads entry) (en_readLines entry)) [] = Inr changed"
    and ne: "changed \<noteq> []"
    using h by (auto split: if_splits sum.splits)
  let ?st = "\<lparr>ps_edges = l_edges (en_listing entry), ps_cands = en_candidates entry,
        ps_block = fold (\<lambda>c b. max b (Suc (cd_block c))) (en_candidates entry) 0, ps_sources = srcs\<rparr>"
  obtain st' where st: "patch_sources order (map fst changed) (l_files (en_listing entry)) (order ''changed'' changed) ?st = Inr st'"
    using h ne by (auto simp: c split: if_splits sum.splits)
  show thesis
    using h by (intro that[OF s c ne st]) (auto simp: c ne st list_ex_iff split: if_splits)
qed

section \<open>The edges of a changed source\<close>

text \<open>A source whose resolution of a specifier a changed one may take: listed, not edited, in the same
  directory and of the same extension class.\<close>

definition sibling :: "sources \<Rightarrow> string set \<Rightarrow> string \<Rightarrow> string \<Rightarrow> string \<Rightarrow> bool" where
  "sibling srcs edited rel spec other \<longleftrightarrow>
     (\<exists>src. (other, src) \<in> set srcs \<and> spec \<in> set (sr_specs src)) \<and> other \<notin> edited \<and> other \<noteq> rel \<and>
     path_dir other = path_dir rel \<and> extension_class other = extension_class rel"

text \<open>What the edges of the source become: its edges of before, without those of the specifiers it lost,
  and one for each specifier it gained, the first edge the sibling has for that text.\<close>

definition kept_edges :: "edge list \<Rightarrow> string \<Rightarrow> string list \<Rightarrow> string list \<Rightarrow> edge list" where
  "kept_edges edges rel old now =
     filter (\<lambda>e. e_from e = rel \<and> (\<forall>spec \<in> set old - set now. spec_text spec \<noteq> e_spec e)) edges"

definition taken_edges :: "edge list \<Rightarrow> string \<Rightarrow> (string \<Rightarrow> string) \<Rightarrow> string list \<Rightarrow> edge list" where
  "taken_edges edges rel pick gained =
     concat (map (\<lambda>spec. case find (\<lambda>e. e_from e = pick spec \<and> e_spec e = spec_text spec) edges of
         Some e \<Rightarrow> [e\<lparr>e_from := rel\<rparr>] | None \<Rightarrow> []) gained)"

abbreviation gained_specs :: "string list \<Rightarrow> string list \<Rightarrow> string list" where
  "gained_specs old now \<equiv> filter (\<lambda>spec. spec \<notin> set old) now"

lemma drop_specs_edges:
  "drop_specs rel now specs st = Inr st1 \<Longrightarrow>
     ps_sources st1 = ps_sources st \<and>
     ps_edges st1 = filter (\<lambda>e. \<not> (e_from e = rel \<and> (\<exists>spec \<in> set specs - set now. spec_text spec = e_spec e))) (ps_edges st)"
proof (induction rel now specs st rule: drop_specs.induct)
  case (2 rel now spec specs st)
  show ?case
  proof (cases "spec \<in> set now")
    case True
    with 2 show ?thesis by (auto simp: insert_Diff_if)
  next
    case False
    with "2.prems" have n: "\<not> list_ex (\<lambda>s. spec_text s = spec_text spec) now" by (auto simp: Let_def split: if_splits)
    from "2.IH"(2)[OF False refl n] "2.prems" False n
    show ?thesis by (auto simp: Let_def insert_Diff_if intro: filter_cong)
  qed
qed simp

lemma precedent_sibling:
  assumes "precedent order edited rel spec srcs \<noteq> []" "\<And>tag xs. set (order tag xs) = set xs"
  shows "sibling srcs (set edited) rel spec (precedent order edited rel spec srcs)"
proof -
  obtain other src where f: "find (\<lambda>(other, src). other \<notin> set edited \<and> other \<noteq> rel \<and> path_dir other = path_dir rel \<and>
      extension_class other = extension_class rel \<and> spec \<in> set (sr_specs src)) (order (rel @ '' '' @ spec) srcs) = Some (other, src)"
    using assms(1) by (auto simp: precedent_def split: option.splits)
  note d = find_Some_first[OF f]
  have "(other, src) \<in> set srcs" using d by (simp add: assms(2))
  moreover have "precedent order edited rel spec srcs = other" using f by (simp add: precedent_def)
  ultimately show ?thesis using d by (auto simp: sibling_def)
qed

lemma find_other: "\<forall>x \<in> set ys. \<not> P x \<Longrightarrow> find P (xs @ ys) = find P xs"
  by (induction xs) (auto simp: find_None_iff)

lemma add_specs_edges:
  assumes "\<And>tag xs. set (order tag xs) = set xs"
  shows "add_specs order edited files rel old specs st = Inr st' \<Longrightarrow>
     ps_sources st' = ps_sources st \<and>
     (\<forall>spec \<in> set (gained_specs old specs). sibling (ps_sources st) (set edited) rel spec (precedent order edited rel spec (ps_sources st))) \<and>
     ps_edges st' = ps_edges st @ taken_edges (ps_edges st) rel (\<lambda>spec. precedent order edited rel spec (ps_sources st)) (gained_specs old specs)"
proof (induction specs arbitrary: st)
  case (Cons spec specs)
  show ?case
  proof (cases "spec \<in> set old")
    case True
    with Cons show ?thesis by simp
  next
    case False
    let ?pc = "precedent order edited rel spec (ps_sources st)"
    let ?found = "find (\<lambda>e. e_from e = ?pc \<and> e_spec e = spec_text spec) (ps_edges st)"
    let ?new = "case ?found of Some e \<Rightarrow> [e\<lparr>e_from := rel\<rparr>] | None \<Rightarrow> []"
    obtain cs b where a: "?pc \<noteq> []"
      "add_specs order edited files rel old specs (st\<lparr>ps_block := b, ps_cands := cs, ps_edges := ps_edges st @ ?new\<rparr>) = Inr st'"
      using Cons.prems False by (auto simp: Let_def split: if_splits)
    note sib = precedent_sibling[OF a(1) assms]
    note ih = Cons.IH[OF a(2)]
    have far: "find (\<lambda>e. e_from e = precedent order edited rel s (ps_sources st) \<and> e_spec e = spec_text s) (ps_edges st @ ?new) =
        find (\<lambda>e. e_from e = precedent order edited rel s (ps_sources st) \<and> e_spec e = spec_text s) (ps_edges st)"
      if "s \<in> set (gained_specs old specs)" for s
    proof (rule find_other)
      have "precedent order edited rel s (ps_sources st) \<noteq> rel" using ih that by (auto simp: sibling_def)
      then show "\<forall>x \<in> set ?new. \<not> (e_from x = precedent order edited rel s (ps_sources st) \<and> e_spec x = spec_text s)"
        by (auto split: option.splits)
    qed
    have "taken_edges (ps_edges st @ ?new) rel (\<lambda>spec. precedent order edited rel spec (ps_sources st)) (gained_specs old specs) =
        taken_edges (ps_edges st) rel (\<lambda>spec. precedent order edited rel spec (ps_sources st)) (gained_specs old specs)"
      unfolding taken_edges_def by (rule arg_cong[where f = concat], rule map_cong[OF refl]) (simp only: far)
    then show ?thesis using ih sib False by (simp add: taken_edges_def)
  qed
qed (simp add: taken_edges_def)

lemma filter_from_frame: "frame A st st' \<Longrightarrow> (\<And>e. P e \<Longrightarrow> e_from e \<notin> A) \<Longrightarrow> filter P (ps_edges st') = filter P (ps_edges st)"
proof -
  assume f: "frame A st st'" and p: "\<And>e. P e \<Longrightarrow> e_from e \<notin> A"
  have "filter P xs = filter P (filter (\<lambda>e. e_from e \<notin> A) xs)" for xs using p by (induction xs) auto
  then show ?thesis using f unfolding frame_def by metis
qed

lemma find_filter: "(\<And>x. P x \<Longrightarrow> Q x) \<Longrightarrow> find P xs = find P (filter Q xs)"
  by (induction xs) auto

lemma find_from_frame: "frame A st st' \<Longrightarrow> k \<notin> A \<Longrightarrow> find (\<lambda>e. e_from e = k \<and> P e) (ps_edges st') = find (\<lambda>e. e_from e = k \<and> P e) (ps_edges st)"
proof -
  assume f: "frame A st st'" and k: "k \<notin> A"
  have "find (\<lambda>e. e_from e = k \<and> P e) xs = find (\<lambda>e. e_from e = k \<and> P e) (filter (\<lambda>e. e_from e \<notin> A) xs)" for xs
    by (rule find_filter) (use k in auto)
  from this[of "ps_edges st'"] this[of "ps_edges st"] show ?thesis by (simp only: f[unfolded frame_def])
qed

lemma sibling_update: "rel' \<in> edited \<Longrightarrow> sibling (AList.update rel' now srcs) edited rel spec other = sibling srcs edited rel spec other"
proof -
  assume e: "rel' \<in> edited"
  have "(k, v) \<in> set (AList.update rel' now srcs) \<longleftrightarrow> (k, v) \<in> set srcs" if "k \<noteq> rel'" for k v
    using that by (induction srcs) auto
  then show ?thesis using e unfolding sibling_def by metis
qed

lemma taken_frame:
  assumes "frame A st st'" "\<And>spec. spec \<in> set gained \<Longrightarrow> pick spec \<notin> A"
  shows "taken_edges (ps_edges st') rel pick gained = taken_edges (ps_edges st) rel pick gained"
  unfolding taken_edges_def
  by (rule arg_cong[where f = concat], rule map_cong[OF refl]) (simp add: find_from_frame[OF assms(1) assms(2)])

definition specs_of :: "sources \<Rightarrow> string \<Rightarrow> string list" where
  "specs_of srcs rel = (case map_of srcs rel of Some src \<Rightarrow> sr_specs src | None \<Rightarrow> [])"

lemma patch_sources_edges:
  assumes ord: "\<And>tag xs. set (order tag xs) = set xs"
  shows "patch_sources order edited files changed st = Inr st' \<Longrightarrow> distinct (map fst changed) \<Longrightarrow> fst ` set changed \<subseteq> set edited \<Longrightarrow>
    (rel, now) \<in> set changed \<Longrightarrow>
    \<exists>pick. (\<forall>spec \<in> set (gained_specs (specs_of (ps_sources st) rel) (sr_specs now)). sibling (ps_sources st) (set edited) rel spec (pick spec)) \<and>
      filter (\<lambda>e. e_from e = rel) (ps_edges st') = kept_edges (ps_edges st) rel (specs_of (ps_sources st) rel) (sr_specs now) @
        taken_edges (ps_edges st) rel pick (gained_specs (specs_of (ps_sources st) rel) (sr_specs now))"
proof (induction changed arbitrary: st)
  case (Cons c changed)
  obtain rel1 now1 where c: "c = (rel1, now1)" by fastforce
  let ?old = "specs_of (ps_sources st) rel1"
  obtain st1 st2 where d: "drop_specs rel1 (sr_specs now1) ?old st = Inr st1"
    and a: "add_specs order edited files rel1 ?old (sr_specs now1) st1 = Inr st2"
    and p: "patch_sources order edited files changed (st2\<lparr>ps_sources := AList.update rel1 now1 (ps_sources st2)\<rparr>) = Inr st'"
    using Cons.prems(1) by (auto simp: c Let_def specs_of_def split: sum.splits)
  let ?st2 = "st2\<lparr>ps_sources := AList.update rel1 now1 (ps_sources st2)\<rparr>"
  note de = drop_specs_edges[OF d] and ae = add_specs_edges[OF ord a]
  have e1: "rel1 \<in> set edited" using Cons.prems(3) c by simp
  have fr: "frame {rel1} st ?st2" using drop_specs_frame[OF _ d, of "{rel1}"] add_specs_frame[OF _ a, of "{rel1}"]
    by (simp add: frame_def)
  show ?case
  proof (cases "rel = rel1")
    case True
    then have now: "now = now1" using Cons.prems(2,4) c by (force dest: in_set_zipE)
    let ?g = "gained_specs ?old (sr_specs now1)"
    define pick where "pick = (\<lambda>spec. precedent order edited rel1 spec (ps_sources st1))"
    have sib: "\<forall>spec \<in> set ?g. sibling (ps_sources st) (set edited) rel1 spec (pick spec)" using ae de unfolding pick_def by simp
    have far: "frame (fst ` set changed) ?st2 st'" by (rule patch_sources_frame[OF subset_refl p])
    have out: "rel1 \<notin> fst ` set changed" using Cons.prems(2) c by (auto simp: image_iff)
    have "filter (\<lambda>e. e_from e = rel1) (ps_edges st') = filter (\<lambda>e. e_from e = rel1) (ps_edges ?st2)"
      by (rule filter_from_frame[OF far]) (use out in auto)
    also have "\<dots> = filter (\<lambda>e. e_from e = rel1) (ps_edges st1) @ filter (\<lambda>e. e_from e = rel1) (taken_edges (ps_edges st1) rel1 pick ?g)"
      using ae by (simp add: pick_def)
    also have "filter (\<lambda>e. e_from e = rel1) (ps_edges st1) = kept_edges (ps_edges st) rel1 ?old (sr_specs now1)"
      using de by (auto simp: kept_edges_def intro!: filter_cong)
    also have "filter (\<lambda>e. e_from e = rel1) (taken_edges (ps_edges st1) rel1 pick ?g) = taken_edges (ps_edges st1) rel1 pick ?g"
      by (rule filter_True) (auto simp: taken_edges_def split: option.splits)
    also have "taken_edges (ps_edges st1) rel1 pick ?g = taken_edges (ps_edges st) rel1 pick ?g"
      by (rule taken_frame[OF drop_specs_frame[OF singletonI d]]) (use sib e1 in \<open>auto simp: sibling_def\<close>)
    finally show ?thesis using sib True now by blast
  next
    case False
    then have m: "(rel, now) \<in> set changed" using Cons.prems(4) c by auto
    have src: "specs_of (ps_sources ?st2) rel = specs_of (ps_sources st) rel"
      using False de ae by (simp add: specs_of_def update_conv)
    have sibs: "sibling (ps_sources ?st2) (set edited) rel spec other = sibling (ps_sources st) (set edited) rel spec other" for spec other
      using sibling_update[OF e1] de ae by simp
    have "fst ` set changed \<subseteq> set edited" "distinct (map fst changed)" using Cons.prems(2,3) by auto
    from Cons.IH[OF p this(2,1) m] obtain pick where k:
      "\<forall>spec \<in> set (gained_specs (specs_of (ps_sources st) rel) (sr_specs now)). sibling (ps_sources st) (set edited) rel spec (pick spec)"
      "filter (\<lambda>e. e_from e = rel) (ps_edges st') = kept_edges (ps_edges ?st2) rel (specs_of (ps_sources st) rel) (sr_specs now) @
        taken_edges (ps_edges ?st2) rel pick (gained_specs (specs_of (ps_sources st) rel) (sr_specs now))"
      unfolding src sibs by blast
    have "kept_edges (ps_edges ?st2) rel (specs_of (ps_sources st) rel) (sr_specs now) = kept_edges (ps_edges st) rel (specs_of (ps_sources st) rel) (sr_specs now)"
      unfolding kept_edges_def by (rule filter_from_frame[OF fr]) (use False in auto)
    moreover have "taken_edges (ps_edges ?st2) rel pick (gained_specs (specs_of (ps_sources st) rel) (sr_specs now)) =
        taken_edges (ps_edges st) rel pick (gained_specs (specs_of (ps_sources st) rel) (sr_specs now))"
      by (rule taken_frame[OF fr]) (use k(1) e1 in \<open>auto simp: sibling_def\<close>)
    ultimately show ?thesis using k by auto
  qed
qed simp

lemma changed_sources_distinct:
  "changed_sources line scan rel srcs rs acc = Inr changed \<Longrightarrow> distinct (map fst acc) \<Longrightarrow> distinct (map fst changed)"
  by (induction line scan rel srcs rs acc rule: changed_sources.induct) (auto split: if_splits option.splits simp: distinct_update)

section \<open>Properties\<close>

text \<open>C31. A patched listing has exactly the files its edges reach, all of them listed before and in the
  same order.  Only listed sources whose edit left everything but their imports were taken.  The edges
  of every other file are as before; those of a changed file are its edges of before without the
  specifiers it lost, and for each specifier it gained the edge of an unchanged sibling.\<close>

theorem patch_listing_sound:
  assumes "patch_listing hash line digest scan rel order entry subject = Inr (p, entry')"
    and "\<And>tag xs. mset (order tag xs) = mset xs"
  shows "set (l_files (pg_listing p)) = set (reachable (pg_listing p)) \<and>
    subseq (l_files (pg_listing p)) (l_files (en_listing entry)) \<and>
    (\<exists>srcs changed. en_sources entry = Some srcs \<and> changed \<noteq> [] \<and>
       (\<forall>c \<in> set changed. import_edit scan rel srcs (en_reads entry) c) \<and>
       filter (\<lambda>e. e_from e \<notin> fst ` set changed) (l_edges (pg_listing p)) =
         filter (\<lambda>e. e_from e \<notin> fst ` set changed) (l_edges (en_listing entry)) \<and>
       (\<forall>(f, now) \<in> set changed. \<exists>pick. let gained = gained_specs (specs_of srcs f) (sr_specs now) in
          (\<forall>spec \<in> set gained. sibling srcs (fst ` set changed) f spec (pick spec)) \<and>
          filter (\<lambda>e. e_from e = f) (l_edges (pg_listing p)) =
            kept_edges (l_edges (en_listing entry)) f (specs_of srcs f) (sr_specs now) @
            taken_edges (l_edges (en_listing entry)) f pick gained))"
proof -
  have ord: "\<And>tag xs. set (order tag xs) = set xs" using assms(2) by (metis set_mset_mset)
  from patch_listing_Inr[OF assms(1)] obtain srcs changed st' where
    s: "en_sources entry = Some srcs"
    and c: "changed_sources line scan rel srcs (zip (en_reads entry) (en_readLines entry)) [] = Inr changed"
    and ne: "changed \<noteq> []"
    and st: "patch_sources order (map fst changed) (l_files (en_listing entry)) (order ''changed'' changed)
       \<lparr>ps_edges = l_edges (en_listing entry), ps_cands = en_candidates entry,
        ps_block = fold (\<lambda>c b. max b (Suc (cd_block c))) (en_candidates entry) 0, ps_sources = srcs\<rparr> = Inr st'"
    and r: "\<forall>f \<in> set (reachable ((en_listing entry)\<lparr>l_edges := ps_edges st'\<rparr>)). f \<in> set (l_files (en_listing entry))"
    and p: "pg_listing p = (en_listing entry)\<lparr>l_edges := ps_edges st',
       l_files := filter (\<lambda>f. f \<in> set (reachable ((en_listing entry)\<lparr>l_edges := ps_edges st'\<rparr>))) (l_files (en_listing entry))\<rparr>" .
  let ?l = "(en_listing entry)\<lparr>l_edges := ps_edges st'\<rparr>"
  let ?st = "\<lparr>ps_edges = l_edges (en_listing entry), ps_cands = en_candidates entry,
        ps_block = fold (\<lambda>c b. max b (Suc (cd_block c))) (en_candidates entry) 0, ps_sources = srcs\<rparr>"
  have cut: "reachable (pg_listing p) = reachable ?l" "set (l_files (pg_listing p)) = set (reachable ?l)"
    using reachable_files_cut[of ?l] r by (auto simp: p)
  have "frame (fst ` set changed) ?st st'"
    by (rule patch_sources_frame[OF _ st]) (simp add: ord)
  then have e: "filter (\<lambda>e. e_from e \<notin> fst ` set changed) (l_edges (pg_listing p)) =
      filter (\<lambda>e. e_from e \<notin> fst ` set changed) (l_edges (en_listing entry))"
    by (simp add: frame_def p)
  have i: "\<forall>c \<in> set changed. import_edit scan rel srcs (en_reads entry) c"
    by (rule changed_sources_edits[OF c]) (auto dest: set_zip_leftD)
  have own: "\<exists>pick. (\<forall>spec \<in> set (gained_specs (specs_of srcs f) (sr_specs now)). sibling srcs (fst ` set changed) f spec (pick spec)) \<and>
      filter (\<lambda>e. e_from e = f) (l_edges (pg_listing p)) = kept_edges (l_edges (en_listing entry)) f (specs_of srcs f) (sr_specs now) @
        taken_edges (l_edges (en_listing entry)) f pick (gained_specs (specs_of srcs f) (sr_specs now))"
    if m: "(f, now) \<in> set changed" for f now
  proof -
    have "distinct (map fst changed)" by (rule changed_sources_distinct[OF c]) simp
    moreover have "mset (map fst (order ''changed'' changed)) = mset (map fst changed)" using assms(2) by simp
    ultimately have d: "distinct (map fst (order ''changed'' changed))" by (metis distinct_count_atmost_1 set_mset_mset)
    show ?thesis using patch_sources_edges[OF ord st d, of f now] m ord by (simp add: p)
  qed
  show ?thesis using cut s ne i e own by (auto simp: p Let_def)
qed

definition demo_edge :: "string \<Rightarrow> string \<Rightarrow> string \<Rightarrow> edge" where
  "demo_edge from_file spec to_file = \<lparr>e_kind = Import, e_from = from_file, e_to = to_file, e_spec = spec\<rparr>"

definition demo_entry :: cached_listing where
  "demo_entry =
     \<lparr>en_listing = empty_listing\<lparr>l_files := [''c.ts'', ''b.ts'', ''a.ts''], l_roots := [''a.ts''],
        l_edges := [demo_edge ''a.ts'' ''./b'' ''b.ts'', demo_edge ''b.ts'' ''./c'' ''c.ts'']\<rparr>,
      en_candidates = [], en_reads = [''/w/a.ts'', ''/w/b.ts'', ''/w/c.ts''], en_dirs = [], en_fingerprint = [],
      en_root = ''/w'', en_readLines = [''1'', ''1'', ''1''], en_dirDigests = [],
      en_sources = Some [(''a.ts'', \<lparr>sr_specs = [''import:./b''], sr_rest = ''r''\<rparr>),
        (''b.ts'', \<lparr>sr_specs = [''import:./c''], sr_rest = ''r''\<rparr>), (''c.ts'', \<lparr>sr_specs = [], sr_rest = ''r''\<rparr>)]\<rparr>"

abbreviation demo_patch :: "refusal + (program \<times> cached_listing)" where
  "demo_patch \<equiv> patch_listing id (\<lambda>p. if p = ''/w/a.ts'' then ''2'' else ''1'') (\<lambda>_. [])
     (\<lambda>_. Some \<lparr>sr_specs = [], sr_rest = ''r''\<rparr>) (\<lambda>p. Some (drop 3 p)) (\<lambda>_ xs. xs) demo_entry ''tsconfig.json''"

definition demo_patched :: "program \<times> cached_listing" where
  "demo_patched = projr demo_patch"

lemma demo_patches: "demo_patch = Inr (fst demo_patched, snd demo_patched)"
proof -
  have "isl demo_patch = False" by code_simp
  then show ?thesis unfolding demo_patched_def by (cases demo_patch) auto
qed

theorem patch_listing_sound_witness:
  "l_files (pg_listing (fst demo_patched)) = [''a.ts''] \<and>
   set (l_files (pg_listing (fst demo_patched))) = set (reachable (pg_listing (fst demo_patched)))"
proof
  show "l_files (pg_listing (fst demo_patched)) = [''a.ts'']" by code_simp
  show "set (l_files (pg_listing (fst demo_patched))) = set (reachable (pg_listing (fst demo_patched)))"
    using patch_listing_sound[OF demo_patches] by simp
qed

text \<open>A file the edit cuts off leaves the listing, but the edges it had stay: the edge from
  \<open>b.ts\<close> to \<open>c.ts\<close> then joins two files the listing no longer has.\<close>

lemma patch_keeps_edges_of_left_files:
  "l_edges (pg_listing (fst demo_patched)) = [demo_edge ''b.ts'' ''./c'' ''c.ts'']"
  by code_simp

end
