(* ===== verification/Incremental.thy ===== *)
theory Incremental imports GoStrings GoPath "HOL-Library.AList" begin

text \<open>
  The record of a Gazelle run that changed nothing, \<open>gazelle/incremental/record.go\<close>, and the
  walk that gives the entries a record holds, snapshot.go.  A Go map is an association list with
  distinct keys; the signature of a file's bytes is the parameter \<open>sign\<close> and the file system is
  a tree whose directories list their names as \<open>os.ReadDir\<close> does.
\<close>

section \<open>Records\<close>

type_synonym entries = "(string \<times> string) list"

record run_record =
  rr_entries :: entries
  rr_signatures :: entries

definition signature_source :: "string \<Rightarrow> bool" where
  "signature_source rel \<longleftrightarrow>
     \<not> contains_str rel '':'' \<and> \<not> contains_str (path_base rel) ''.config.'' \<and>
     path_ext rel \<in> set [''.ts'', ''.tsx'', ''.mts'', ''.cts'', ''.js'', ''.jsx'', ''.mjs'', ''.cjs'']"

text \<open>\<open>signFile\<close>: the empty signature is none.\<close>

definition sign_file :: "(string \<Rightarrow> string option) \<Rightarrow> (string \<Rightarrow> string \<Rightarrow> string option) \<Rightarrow> string \<Rightarrow> string" where
  "sign_file read_file signature rel =
     (case read_file rel of
        None \<Rightarrow> []
      | Some data \<Rightarrow> (case signature rel data of None \<Rightarrow> [] | Some sig \<Rightarrow> sig))"

text \<open>The goroutines of \<open>NewRecord\<close> each sign a block of the sources and write it at its indexes,
  so the order they run in is not observable.\<close>

definition new_record :: "(string \<Rightarrow> string) \<Rightarrow> entries \<Rightarrow> run_record" where
  "new_record sign es =
     \<lparr>rr_entries = es,
      rr_signatures = filter (\<lambda>(rel, sig). sig \<noteq> [])
        (map (\<lambda>rel. (rel, sign rel)) (filter signature_source (map fst es)))\<rparr>"

fun all_kept :: "(string \<Rightarrow> string) \<Rightarrow> run_record \<Rightarrow> entries \<Rightarrow> bool" where
  "all_kept sign r [] = True"
| "all_kept sign r ((rel, line) # es) =
     (case map_of (rr_entries r) rel of
        None \<Rightarrow> False
      | Some was \<Rightarrow>
          if was = line then all_kept sign r es
          else case map_of (rr_signatures r) rel of
            None \<Rightarrow> False
          | Some sig \<Rightarrow> if sign rel \<noteq> sig then False else all_kept sign r es)"

definition unchanged :: "(string \<Rightarrow> string) \<Rightarrow> run_record option \<Rightarrow> entries \<Rightarrow> bool" where
  "unchanged sign r now =
     (case r of
        None \<Rightarrow> False
      | Some r \<Rightarrow> if length now \<noteq> length (rr_entries r) then False else all_kept sign r now)"

fun moved :: "run_record \<Rightarrow> entries \<Rightarrow> string list option" where
  "moved r [] = Some []"
| "moved r ((rel, line) # es) =
     (case map_of (rr_entries r) rel of
        None \<Rightarrow> None
      | Some was \<Rightarrow> map_option (\<lambda>ps. if was \<noteq> line then rel # ps else ps) (moved r es))"

definition changed :: "run_record option \<Rightarrow> entries \<Rightarrow> string list option" where
  "changed r now =
     (case r of
        None \<Rightarrow> None
      | Some r \<Rightarrow> if length now \<noteq> length (rr_entries r) then None else map_option sort_strings (moved r now))"

section \<open>The walk\<close>

datatype node =
    Directory "(string \<times> node) list"
  | Leaf "string option" bool string
    \<comment> \<open>the stat line (none: gone by the time it is read), a regular file, the digest line of its bytes\<close>
  | Unreadable

text \<open>\<open>walkEntries\<close> from the directory at \<open>rel\<close>; None is its error.\<close>

fun walk_entries :: "(string \<Rightarrow> bool) \<Rightarrow> (string \<Rightarrow> bool) \<Rightarrow> string \<Rightarrow> node \<Rightarrow> entries option"
and walk_children :: "(string \<Rightarrow> bool) \<Rightarrow> (string \<Rightarrow> bool) \<Rightarrow> string \<Rightarrow> (string \<times> node) list \<Rightarrow> entries option"
where
  "walk_entries skip by_content rel (Directory cs) = walk_children skip by_content rel cs"
| "walk_entries skip by_content rel n = None"
| "walk_children skip by_content rel [] = Some []"
| "walk_children skip by_content rel ((name, n) # cs) =
     (let child = (if rel \<noteq> [] then rel @ ''/'' @ name else name);
          here = (if skip child then Some [(child, ''skip'')]
                  else case n of
                    Directory ds \<Rightarrow> map_option (\<lambda>es. (child, ''dir'') # es) (walk_children skip by_content child ds)
                  | Unreadable \<Rightarrow> None
                  | Leaf None regular bytes_line \<Rightarrow> Some [(child, ''gone'')]
                  | Leaf (Some stat) regular bytes_line \<Rightarrow>
                      Some [(child, if regular \<and> by_content child then bytes_line else stat)])
      in case (here, walk_children skip by_content rel cs) of
           (Some a, Some b) \<Rightarrow> Some (a @ b)
         | _ \<Rightarrow> None)"

text \<open>\<open>Entries\<close>: the walk, the extra paths and the keys, later ones over earlier ones.\<close>

definition key_name :: "(nat \<Rightarrow> string) \<Rightarrow> nat \<Rightarrow> string" where
  "key_name itoa i = ''key:'' @ itoa i"

definition run_entries ::
    "(nat \<Rightarrow> string) \<Rightarrow> (string \<Rightarrow> string) \<Rightarrow> (string \<Rightarrow> bool) \<Rightarrow> (string \<Rightarrow> bool) \<Rightarrow> node \<Rightarrow>
     string list \<Rightarrow> string list \<Rightarrow> entries option" where
  "run_entries itoa entry_line skip by_content root extra keys =
     (case walk_entries skip by_content [] root of
        None \<Rightarrow> None
      | Some es \<Rightarrow>
          Some (fold (\<lambda>(i, k). AList.update (key_name itoa i) k) (enumerate 0 keys)
            (fold (\<lambda>p. AList.update (''extra:'' @ p) (entry_line p)) extra
              (fold (\<lambda>(k, v). AList.update k v) es []))))"

section \<open>What a kept record says\<close>

lemma all_kept_iff:
  "all_kept sign r now \<longleftrightarrow>
     (\<forall>(rel, line) \<in> set now. \<exists>was. map_of (rr_entries r) rel = Some was \<and>
        (was = line \<or> map_of (rr_signatures r) rel = Some (sign rel)))"
  by (induction sign r now rule: all_kept.induct) (auto split: option.splits)

lemma moved_iff:
  "moved r now = Some ps \<Longrightarrow>
     (\<forall>(rel, line) \<in> set now. map_of (rr_entries r) rel \<noteq> None) \<and>
     ps = map fst (filter (\<lambda>(rel, line). map_of (rr_entries r) rel \<noteq> Some line) now)"
proof (induction now arbitrary: ps)
  case (Cons e now)
  obtain rel line where e: "e = (rel, line)" by fastforce
  from Cons.prems obtain was qs where w: "map_of (rr_entries r) rel = Some was" "moved r now = Some qs"
    "ps = (if was \<noteq> line then rel # qs else qs)" by (auto simp: e split: option.splits)
  from Cons.IH[OF w(2)] w e show ?case by simp
qed simp

lemma moved_None: "moved r now = None \<longleftrightarrow> (\<exists>(rel, line) \<in> set now. map_of (rr_entries r) rel = None)"
  by (induction r now rule: moved.induct) (auto split: option.splits)

text \<open>As many entries as before, all known: the same paths.\<close>

lemma same_paths:
  assumes "distinct (map fst es)" "distinct (map fst now)" "length now = length es"
    and "\<forall>(rel, line) \<in> set now. map_of es rel \<noteq> None"
  shows "fst ` set now = fst ` set es"
proof (rule card_subset_eq)
  show "fst ` set now \<subseteq> fst ` set es"
    using assms(4) by (force simp: map_of_eq_None_iff)
  show "card (fst ` set now) = card (fst ` set es)"
    using assms(1-3) distinct_card[of "map fst es"] distinct_card[of "map fst now"] by simp
qed simp

lemma signatures_lookup:
  "map_of (rr_signatures (new_record sign es)) rel = Some sig \<longleftrightarrow>
     rel \<in> fst ` set es \<and> signature_source rel \<and> sign rel = sig \<and> sig \<noteq> []"
proof -
  have "map_of (filter (\<lambda>(rel, sig). sig \<noteq> []) (map (\<lambda>rel. (rel, sign rel)) xs)) rel = Some sig \<longleftrightarrow>
      rel \<in> set xs \<and> sign rel = sig \<and> sig \<noteq> []" for xs
    by (induction xs) auto
  then show ?thesis by (auto simp: new_record_def)
qed

section \<open>Properties\<close>

text \<open>C32. A run skipped because its record is unchanged has the same paths as the recorded run, and
  every path looks the same or is a source, no config, whose signature is the recorded one.\<close>

theorem unchanged_sound:
  assumes "unchanged sign' (Some (new_record sign es)) now"
    and "distinct (map fst es)" "distinct (map fst now)"
  shows "fst ` set now = fst ` set es \<and>
    (\<forall>rel line. map_of now rel = Some line \<longrightarrow> map_of es rel = Some line \<or>
       (signature_source rel \<and> sign' rel = sign rel \<and> sign rel \<noteq> []))"
proof
  have k: "all_kept sign' (new_record sign es) now" and len: "length now = length es"
    using assms(1) by (auto simp: unchanged_def new_record_def split: if_splits)
  then have f: "\<forall>(rel, line) \<in> set now. \<exists>was. map_of es rel = Some was \<and>
      (was = line \<or> map_of (rr_signatures (new_record sign es)) rel = Some (sign' rel))"
    unfolding all_kept_iff by (simp add: new_record_def)
  then have "\<forall>(rel, line) \<in> set now. map_of es rel \<noteq> None" by fastforce
  from same_paths[OF assms(2,3) len this] show "fst ` set now = fst ` set es" .
  show "\<forall>rel line. map_of now rel = Some line \<longrightarrow> map_of es rel = Some line \<or>
       (signature_source rel \<and> sign' rel = sign rel \<and> sign rel \<noteq> [])"
  proof (intro allI impI)
    fix rel line
    assume "map_of now rel = Some line"
    then have "(rel, line) \<in> set now" by (rule map_of_SomeD)
    with f show "map_of es rel = Some line \<or> (signature_source rel \<and> sign' rel = sign rel \<and> sign rel \<noteq> [])"
      by (fastforce simp: signatures_lookup)
  qed
qed

definition demo_entries :: entries where
  "demo_entries = [(''a.ts'', ''1''), (''b.config.ts'', ''1'')]"

theorem unchanged_sound_witness:
  "unchanged (\<lambda>_. ''s'') (Some (new_record (\<lambda>_. ''s'') demo_entries)) [(''b.config.ts'', ''1''), (''a.ts'', ''2'')] \<and>
   map_of demo_entries ''a.ts'' \<noteq> Some ''2'' \<and> signature_source ''a.ts''"
proof -
  let ?now = "[(''b.config.ts'', ''1''), (''a.ts'', ''2'')]"
  have u: "unchanged (\<lambda>_. ''s'') (Some (new_record (\<lambda>_. ''s'') demo_entries)) ?now" by code_simp
  have d: "distinct (map fst demo_entries)" "distinct (map fst ?now)" by code_simp+
  have m: "map_of ?now ''a.ts'' = Some ''2''" "map_of demo_entries ''a.ts'' \<noteq> Some ''2''" by code_simp+
  from unchanged_sound[OF u d] m have "signature_source ''a.ts''" by blast
  with u m(2) show ?thesis by blast
qed

text \<open>The paths a record reports as changed are sorted, each once, and exactly those whose entry
  differs; a run is unchanged when it reports changed paths and each kept its signature.\<close>

theorem changed_paths:
  assumes "distinct (map fst now)"
  shows "(\<forall>ps. changed (Some r) now = Some ps \<longrightarrow> sorted_strings ps \<and> distinct ps \<and>
      set ps = {rel. \<exists>line. map_of now rel = Some line \<and> map_of (rr_entries r) rel \<noteq> Some line}) \<and>
    (unchanged sign (Some r) now \<longleftrightarrow>
      (\<exists>ps. changed (Some r) now = Some ps \<and> (\<forall>p \<in> set ps. map_of (rr_signatures r) p = Some (sign p))))"
proof
  let ?moved = "map fst (filter (\<lambda>(rel, line). map_of (rr_entries r) rel \<noteq> Some line) now)"
  have set: "set ?moved = {rel. \<exists>line. map_of now rel = Some line \<and> map_of (rr_entries r) rel \<noteq> Some line}"
    using assms by (force simp: map_of_eq_Some_iff)
  have dist: "distinct ?moved" using assms by (simp add: distinct_map_filter)
  show "\<forall>ps. changed (Some r) now = Some ps \<longrightarrow> sorted_strings ps \<and> distinct ps \<and>
      set ps = {rel. \<exists>line. map_of now rel = Some line \<and> map_of (rr_entries r) rel \<noteq> Some line}"
  proof (intro allI impI)
    fix ps
    assume "changed (Some r) now = Some ps"
    then obtain qs where "moved r now = Some qs" "ps = sort_strings qs"
      by (auto simp: changed_def split: if_splits)
    then have "qs = ?moved" "ps = sort_strings qs" using moved_iff by auto
    then show "sorted_strings ps \<and> distinct ps \<and>
      set ps = {rel. \<exists>line. map_of now rel = Some line \<and> map_of (rr_entries r) rel \<noteq> Some line}"
      using set dist by simp
  qed
  show "unchanged sign (Some r) now \<longleftrightarrow>
      (\<exists>ps. changed (Some r) now = Some ps \<and> (\<forall>p \<in> set ps. map_of (rr_signatures r) p = Some (sign p)))"
  proof (cases "moved r now")
    case None
    then obtain rel line where "(rel, line) \<in> set now" "map_of (rr_entries r) rel = None"
      unfolding moved_None by blast
    then have "\<not> all_kept sign r now" unfolding all_kept_iff by fastforce
    with None show ?thesis by (simp add: unchanged_def changed_def)
  next
    case (Some qs)
    from moved_iff[OF Some] have q: "\<forall>(rel, line) \<in> set now. map_of (rr_entries r) rel \<noteq> None" "qs = ?moved" by auto
    have "all_kept sign r now \<longleftrightarrow> (\<forall>p \<in> set qs. map_of (rr_signatures r) p = Some (sign p))"
      unfolding all_kept_iff q(2) using q(1) by fastforce
    with Some show ?thesis by (simp add: unchanged_def changed_def)
  qed
qed

theorem changed_paths_witness:
  "changed (Some (new_record (\<lambda>_. ''s'') demo_entries)) [(''b.config.ts'', ''2''), (''a.ts'', ''2'')] = Some [''a.ts'', ''b.config.ts''] \<and>
   \<not> unchanged (\<lambda>_. ''s'') (Some (new_record (\<lambda>_. ''s'') demo_entries)) [(''b.config.ts'', ''2''), (''a.ts'', ''2'')]"
proof -
  let ?now = "[(''b.config.ts'', ''2''), (''a.ts'', ''2'')]" and ?r = "new_record (\<lambda>_. ''s'') demo_entries"
  have d: "distinct (map fst ?now)" by code_simp
  have c: "changed (Some ?r) ?now = Some [''a.ts'', ''b.config.ts'']" by code_simp
  have s: "map_of (rr_signatures ?r) ''b.config.ts'' = None" by code_simp
  from changed_paths[OF d, of ?r "\<lambda>_. ''s''"] c s show ?thesis by auto
qed

end
