(* ===== verification/WalkUp.thy ===== *)
theory WalkUp imports GoPath begin

text \<open>
  The walk from a directory up to the repository root that Gazelle's lookups share: a loop over
  \<open>parentDir\<close> that a test answers at some directory, at the latest at the root, the empty path.
  At a rooted path the Go loop would stay at \<open>/\<close> for ever; \<open>climb\<close> gives no result there.
\<close>

definition parent_dir :: "string \<Rightarrow> string" where
  "parent_dir p = (let d = path_dir p in if d \<noteq> ''.'' then d else [])"

lemma parent_dir_shorter: "p \<noteq> [] \<Longrightarrow> p \<noteq> [SL] \<Longrightarrow> length (parent_dir p) < length p"
  using path_dir_shorter[of p] by (auto simp: parent_dir_def Let_def)

lemma parent_dir_relative: "\<not> is_abs p \<Longrightarrow> \<not> is_abs (parent_dir p)"
  using is_abs_path_dir[of p] by (auto simp: parent_dir_def Let_def is_abs_def)

function dirs_up :: "string \<Rightarrow> string list" where
  "dirs_up d = (if d = [] \<or> d = [SL] then [d] else d # dirs_up (parent_dir d))"
  by pat_completeness auto
termination
  by (relation "measure length") (auto simp: parent_dir_shorter)

declare dirs_up.simps [simp del]

text \<open>The loop: None is a walk that never ends.\<close>

function climb :: "(string \<Rightarrow> 'a option) \<Rightarrow> string \<Rightarrow> 'a option" where
  "climb f d =
     (case f d of
        Some x \<Rightarrow> Some x
      | None \<Rightarrow> if d = [] \<or> d = [SL] then None else climb f (parent_dir d))"
  by pat_completeness auto
termination
  by (relation "measure (\<lambda>(f, d). length d)") (auto simp: parent_dir_shorter)

declare climb.simps [simp del]

lemma dirs_up_self: "d \<in> set (dirs_up d)"
  by (subst dirs_up.simps) simp

lemma climb_find:
  "climb f d = (case find (\<lambda>a. f a \<noteq> None) (dirs_up d) of Some a \<Rightarrow> f a | None \<Rightarrow> None)"
proof (induction f d rule: climb.induct)
  case (1 f d)
  then show ?case
    by (subst climb.simps, subst dirs_up.simps) (auto split: option.split)
qed

lemma dirs_up_root: "\<not> is_abs d \<Longrightarrow> [] \<in> set (dirs_up d)"
proof (induction d rule: dirs_up.induct)
  case (1 d)
  have "d \<noteq> [SL]" using 1(2) by (auto simp: is_abs_def)
  then show ?case
    using 1 parent_dir_relative[of d] by (subst dirs_up.simps) auto
qed

text \<open>A test that answers at the root answers every walk from a relative path.\<close>

lemma climb_total: "\<not> is_abs d \<Longrightarrow> f [] \<noteq> None \<Longrightarrow> climb f d \<noteq> None"
  using dirs_up_root[of d] by (auto simp: climb_find find_None_iff split: option.splits dest: find_Some_first)

lemma climb_at: "f d = Some x \<Longrightarrow> climb f d = Some x"
  by (subst climb.simps) simp

definition nearest :: "(string \<Rightarrow> bool) \<Rightarrow> string \<Rightarrow> string option" where
  "nearest P d = find P (dirs_up d)"

lemma climb_nearest:
  assumes "climb f d = Some x"
  obtains a where "nearest (\<lambda>a. f a \<noteq> None) d = Some a" "f a = Some x"
  using assms by (auto simp: climb_find nearest_def split: option.splits)

end
