(* ===== verification/Owner.thy ===== *)
theory Owner imports WalkUp GoStrings begin

text \<open>
  Which package owns a file, \<open>gazelle/owner.go\<close>.  The program store is the record of what the run
  has observed: the files of each walked directory, the packages and the files their programs
  list, the directories where generation is on, and the foreign projects.  Which files a rule
  produces (emission.go) and which a code generator writes are predicates of the store.
\<close>

section \<open>Names\<close>

definition firstParty :: "string \<Rightarrow> bool" where
  "firstParty f \<longleftrightarrow>
     \<not> (has_prefix f ''../'' \<or> has_prefix f ''/'' \<or> has_prefix f ''bundled:///'') \<and>
     f \<noteq> ''node_modules'' \<and> \<not> has_prefix f ''node_modules/'' \<and> \<not> has_suffix f ''/node_modules'' \<and>
     \<not> contains_str f ''/node_modules/''"

definition is_declaration_file :: "string \<Rightarrow> bool" where
  "is_declaration_file name \<longleftrightarrow>
     has_suffix name ''.d.ts'' \<or> has_suffix name ''.d.mts'' \<or> has_suffix name ''.d.cts''"

definition raw_typescript :: "string \<Rightarrow> bool" where
  "raw_typescript name \<longleftrightarrow>
     path_ext name \<in> set [''.ts'', ''.tsx'', ''.mts'', ''.cts''] \<and> \<not> is_declaration_file name"

definition is_test_file :: "string \<Rightarrow> bool" where
  "is_test_file name \<longleftrightarrow>
     (let base = trim_suffix name (path_ext name) in has_suffix base ''.test'' \<or> has_suffix base ''.spec'')"

datatype file_class = LibraryFile | TestFile | DeclarationFile

definition classify :: "string \<Rightarrow> file_class" where
  "classify f =
     (let base = path_base f in
      if is_declaration_file base then DeclarationFile
      else if is_test_file base then TestFile else LibraryFile)"

definition javascript_twin :: "string \<Rightarrow> string" where
  "javascript_twin f =
     (case cut_suffix f ''.d.ts'' of Some stem \<Rightarrow> stem @ ''.js''
      | None \<Rightarrow>
          (case cut_suffix f ''.d.mts'' of Some stem \<Rightarrow> stem @ ''.mjs''
           | None \<Rightarrow> (case cut_suffix f ''.d.cts'' of Some stem \<Rightarrow> stem @ ''.cjs'' | None \<Rightarrow> [])))"

definition tsconfig_in :: "string \<Rightarrow> string" where
  "tsconfig_in dir = path_join [dir, ''tsconfig.json'']"

section \<open>The store\<close>

record store =
  st_packages :: "string \<Rightarrow> string list option"  \<comment> \<open>a package's first-party files\<close>
  st_packageDirs :: "string list"  \<comment> \<open>its domain\<close>
  st_files :: "string \<Rightarrow> string list option"
  st_walked :: "string \<Rightarrow> bool option"  \<comment> \<open>whether rules are generated there\<close>
  st_foreign :: "string \<Rightarrow> string"
  st_buildDirectives :: "string \<Rightarrow> string list option"  \<comment> \<open>the directive keys of a BUILD file\<close>
  st_configs :: "string \<Rightarrow> string"
  st_producer :: "string \<Rightarrow> bool"  \<comment> \<open>\<open>outputProducer\<close> finds a rule\<close>
  st_generatedFile :: "string \<Rightarrow> bool"  \<comment> \<open>\<open>generatedFile\<close> of a scalar file\<close>
  st_codegenWrites :: "string \<Rightarrow> string \<Rightarrow> bool"  \<comment> \<open>the file, the package\<close>
  st_skipped :: bool

definition source_file :: "store \<Rightarrow> string \<Rightarrow> bool" where
  "source_file s f \<longleftrightarrow> firstParty f \<and>
     (case st_files s (parent_dir f) of None \<Rightarrow> False | Some names \<Rightarrow> path_base f \<in> set names)"

text \<open>\<open>record\<close>: a program's first-party files that are not generated make its directory a package.\<close>

definition record_program :: "string \<Rightarrow> string list \<Rightarrow> store \<Rightarrow> store" where
  "record_program dir files s =
     (let fs = filter (\<lambda>f. firstParty f \<and> \<not> st_generatedFile s f) files in
      s\<lparr>st_packages := (st_packages s)(dir := (if fs \<noteq> [] then Some fs else None)),
        st_packageDirs := (if fs \<noteq> [] then dir # filter (\<lambda>d. d \<noteq> dir) (st_packageDirs s)
                           else filter (\<lambda>d. d \<noteq> dir) (st_packageDirs s))\<rparr>)"

definition generation_disabled_at :: "store \<Rightarrow> string \<Rightarrow> bool option" where
  "generation_disabled_at s d =
     (case st_walked s d of
        Some generated \<Rightarrow> Some (\<not> generated)
      | None \<Rightarrow>
          if d = [] then Some False
          else (case st_buildDirectives s d of Some ds \<Rightarrow> Some (''ignore'' \<in> set ds) | None \<Rightarrow> None))"

definition generation_disabled :: "store \<Rightarrow> string \<Rightarrow> bool option" where
  "generation_disabled s dir = climb (generation_disabled_at s) dir"

datatype owner_result = Owned string | Unowned | Spins

definition owner_at :: "store \<Rightarrow> string \<Rightarrow> string \<Rightarrow> owner_result option" where
  "owner_at s f d =
     (case st_packages s d of
        Some files \<Rightarrow> Some (if f \<in> set files \<and> st_walked s d = Some True then Owned d else Unowned)
      | None \<Rightarrow> if d = [] then Some Unowned else None)"

definition owner :: "store \<Rightarrow> string \<Rightarrow> owner_result" where
  "owner s f =
     (if st_producer s f then Unowned
      else
        let dir = parent_dir f in
        if \<not> source_file s f then Unowned
        else case generation_disabled s dir of
          None \<Rightarrow> Spins
        | Some disabled \<Rightarrow>
            if disabled \<or> st_foreign s dir \<noteq> [] then Unowned
            else (case climb (owner_at s f) dir of None \<Rightarrow> Spins | Some r \<Rightarrow> r))"

section \<open>The sources of a package\<close>

record src_set =
  ss_library :: "string list"
  ss_test :: "string list"
  ss_declaration :: "string list"

definition add_src :: "string \<Rightarrow> src_set \<Rightarrow> src_set" where
  "add_src f set0 =
     (case classify f of
        DeclarationFile \<Rightarrow> set0\<lparr>ss_declaration := ss_declaration set0 @ [f]\<rparr>
      | TestFile \<Rightarrow> set0\<lparr>ss_test := ss_test set0 @ [f]\<rparr>
      | LibraryFile \<Rightarrow> set0\<lparr>ss_library := ss_library set0 @ [f]\<rparr>)"

definition listed_files :: "store \<Rightarrow> string \<Rightarrow> string list" where
  "listed_files s pkg = (case st_packages s pkg of Some fs \<Rightarrow> fs | None \<Rightarrow> [])"

definition src_step :: "store \<Rightarrow> string \<Rightarrow> string \<Rightarrow> src_set \<Rightarrow> src_set" where
  "src_step s pkg f set0 =
     (if owner s f \<noteq> Owned pkg \<or> st_codegenWrites s f pkg then set0
      else
        let twin = javascript_twin f; set1 = add_src f set0 in
        if twin \<noteq> [] \<and> source_file s twin \<and> twin \<notin> set (listed_files s pkg) \<and> \<not> st_codegenWrites s twin pkg
        then add_src twin set1 else set1)"

definition srcs :: "store \<Rightarrow> string \<Rightarrow> src_set" where
  "srcs s pkg =
     (let ss = fold (src_step s pkg) (sort_strings (remdups (listed_files s pkg)))
            \<lparr>ss_library = [], ss_test = [], ss_declaration = []\<rparr>
      in \<lparr>ss_library = sort_strings (ss_library ss), ss_test = sort_strings (ss_test ss),
          ss_declaration = sort_strings (ss_declaration ss)\<rparr>)"

section \<open>Reports\<close>

definition config_path_of :: "store \<Rightarrow> string \<Rightarrow> string" where
  "config_path_of s dir = (if st_configs s dir \<noteq> [] then st_configs s dir else tsconfig_in dir)"

datatype unowned_reason =
    NotWalked string | ExcludedFile | ForeignProject string | NotGenerated string
  | NotListed string | NoTsconfig | ReasonSpins

definition why_unowned :: "store \<Rightarrow> string \<Rightarrow> unowned_reason" where
  "why_unowned s f =
     (let dir = parent_dir f in
      if st_files s dir = None then NotWalked dir
      else if \<not> source_file s f then ExcludedFile
      else if st_foreign s dir \<noteq> [] then ForeignProject (st_foreign s dir)
      else if st_walked s dir \<noteq> Some True then NotGenerated dir
      else case climb (\<lambda>d. case st_packages s d of
                  Some _ \<Rightarrow> Some (NotListed (config_path_of s d))
                | None \<Rightarrow> if d = [] then Some NoTsconfig else None) dir of
        None \<Rightarrow> ReasonSpins
      | Some r \<Rightarrow> r)"

definition report_unowned :: "store \<Rightarrow> (string \<times> unowned_reason \<times> string list) list" where
  \<comment> \<open>the files reported, each with its reason and the configs that list it\<close>
  "report_unowned s =
     (if st_skipped s \<or> st_walked s [] \<noteq> Some True then []
      else
        let dirs = sort_strings (st_packageDirs s);
            listed = sort_strings (remdups (concat (map (listed_files s) dirs)))
        in map (\<lambda>f. (f, why_unowned s f, map (config_path_of s) (filter (\<lambda>d. f \<in> set (listed_files s d)) dirs)))
             (filter (\<lambda>f. \<not> st_producer s f \<and> (case owner s f of Owned _ \<Rightarrow> False | _ \<Rightarrow> True)) listed))"

section \<open>A walk from a first-party file ends\<close>

lemma firstParty_relative: "firstParty f \<Longrightarrow> \<not> is_abs f"
  by (auto simp: firstParty_def is_abs_def split: list.splits)

lemma source_file_dir: "source_file s f \<Longrightarrow> \<not> is_abs (parent_dir f)"
  by (simp add: source_file_def firstParty_relative parent_dir_relative)

lemma generation_disabled_total: "source_file s f \<Longrightarrow> generation_disabled s (parent_dir f) \<noteq> None"
  unfolding generation_disabled_def
  by (rule climb_total) (auto simp: source_file_dir generation_disabled_at_def split: option.split)

lemma owner_climb_total: "source_file s f \<Longrightarrow> climb (owner_at s f) (parent_dir f) \<noteq> None"
  by (rule climb_total) (auto simp: source_file_dir owner_at_def split: option.split)

lemma owner_not_spins: "owner s f \<noteq> Spins"
proof -
  have "r \<noteq> Spins" if "climb (owner_at s f) d = Some r" for d r
    using that by (rule climb_nearest) (auto simp: owner_at_def split: option.splits if_splits)
  then show ?thesis
    using generation_disabled_total[of s f] owner_climb_total[of s f]
    by (auto simp: owner_def Let_def split: option.splits)
qed

text \<open>The nearest package at or above a directory.\<close>

definition package_of :: "store \<Rightarrow> string \<Rightarrow> string option" where
  "package_of s dir = nearest (\<lambda>d. st_packages s d \<noteq> None) dir"

lemma nearest_or_root:
  assumes "find (\<lambda>d. P d \<or> d = []) ds = Some a" and "P a"
  shows "find P ds = Some a"
  using assms
proof (induction ds)
  case (Cons d ds)
  then show ?case by (cases "P d") (auto split: if_splits)
qed simp

lemma find_root_last: "find (\<lambda>d. P d \<or> d = []) (dirs_up x) = Some a \<Longrightarrow> \<not> P a \<Longrightarrow> find P (dirs_up x) = None"
proof (induction x rule: dirs_up.induct)
  case (1 x)
  then show ?case
    by (cases "x = [] \<or> x = [SL]"; subst (asm) dirs_up.simps; subst dirs_up.simps) (auto split: if_splits)
qed

lemma find_or_root_iff:
  "P d \<Longrightarrow> find (\<lambda>a. P a \<or> a = []) (dirs_up x) = Some d \<longleftrightarrow> find P (dirs_up x) = Some d"
proof (cases "find (\<lambda>a. P a \<or> a = []) (dirs_up x)")
  case None
  then show ?thesis by (auto simp: find_None_iff find_Some_iff)
next
  case (Some a)
  assume "P d"
  then show ?thesis using nearest_or_root[OF Some] find_root_last[OF Some] Some by (cases "P a") auto
qed

lemma climb_Owned_iff:
  "climb (owner_at s f) x = Some (Owned d) \<longleftrightarrow>
     package_of s x = Some d \<and> f \<in> set (listed_files s d) \<and> st_walked s d = Some True"
proof -
  have e: "(\<lambda>a. owner_at s f a \<noteq> None) = (\<lambda>a. st_packages s a \<noteq> None \<or> a = [])"
    by (auto simp: owner_at_def fun_eq_iff split: option.splits)
  have at: "owner_at s f a = Some (Owned d) \<longleftrightarrow>
      a = d \<and> st_packages s a \<noteq> None \<and> f \<in> set (listed_files s a) \<and> st_walked s a = Some True" for a
    by (auto simp: owner_at_def listed_files_def split: option.splits if_splits)
  have "climb (owner_at s f) x = Some (Owned d) \<longleftrightarrow>
      (\<exists>a. find (\<lambda>a. st_packages s a \<noteq> None \<or> a = []) (dirs_up x) = Some a \<and> owner_at s f a = Some (Owned d))"
    unfolding climb_find e by (simp split: option.split)
  also have "\<dots> \<longleftrightarrow> find (\<lambda>a. st_packages s a \<noteq> None \<or> a = []) (dirs_up x) = Some d \<and>
      st_packages s d \<noteq> None \<and> f \<in> set (listed_files s d) \<and> st_walked s d = Some True"
    unfolding at by blast
  also have "\<dots> \<longleftrightarrow> package_of s x = Some d \<and> f \<in> set (listed_files s d) \<and> st_walked s d = Some True"
    unfolding package_of_def nearest_def
    using find_or_root_iff[of "\<lambda>a. st_packages s a \<noteq> None" d x] find_Some_first[of "\<lambda>a. st_packages s a \<noteq> None" "dirs_up x" d]
    by blast
  finally show ?thesis .
qed

lemma owner_Owned_iff:
  "owner s f = Owned d \<longleftrightarrow>
     \<not> st_producer s f \<and> source_file s f \<and> generation_disabled s (parent_dir f) = Some False \<and>
     st_foreign s (parent_dir f) = [] \<and> package_of s (parent_dir f) = Some d \<and>
     f \<in> set (listed_files s d) \<and> st_walked s d = Some True"
  using generation_disabled_total[of s f] owner_climb_total[of s f] climb_Owned_iff[of s f "parent_dir f" d]
  by (auto simp: owner_def Let_def split: option.splits)

section \<open>A declaration and its JavaScript companion\<close>

lemma dropWhile_prefix: "c \<notin> set a \<Longrightarrow> dropWhile (\<lambda>x. x \<noteq> c) (a @ r) = dropWhile (\<lambda>x. x \<noteq> c) r"
  by (induction a) auto

lemma path_dir_suffix: "SL \<notin> set a \<Longrightarrow> SL \<notin> set b \<Longrightarrow> parent_dir (p @ a) = parent_dir (p @ b)"
  by (simp add: parent_dir_def path_dir_def path_split_def dropWhile_prefix)

lemma javascript_twin_cases:
  assumes "javascript_twin f \<noteq> []"
  obtains stem d j where "f = stem @ d" "javascript_twin f = stem @ j"
    "(d, j) \<in> set [(''.d.ts'', ''.js''), (''.d.mts'', ''.mjs''), (''.d.cts'', ''.cjs'')]"
proof -
  consider (a) p where "cut_suffix f ''.d.ts'' = Some p"
    | (b) p where "cut_suffix f ''.d.ts'' = None" "cut_suffix f ''.d.mts'' = Some p"
    | (c) p where "cut_suffix f ''.d.ts'' = None" "cut_suffix f ''.d.mts'' = None" "cut_suffix f ''.d.cts'' = Some p"
    using assms by (auto simp: javascript_twin_def split: option.splits)
  then show ?thesis
  proof cases
    case a
    then have "f = p @ ''.d.ts''" "javascript_twin f = p @ ''.js''" by (simp_all add: javascript_twin_def) (simp add: cut_suffix_Some)
    then show ?thesis using that[of p "''.d.ts''" "''.js''"] by simp
  next
    case b
    then have "f = p @ ''.d.mts''" "javascript_twin f = p @ ''.mjs''" by (simp_all add: javascript_twin_def) (simp add: cut_suffix_Some)
    then show ?thesis using that[of p "''.d.mts''" "''.mjs''"] by simp
  next
    case c
    then have "f = p @ ''.d.cts''" "javascript_twin f = p @ ''.cjs''" by (simp_all add: javascript_twin_def) (simp add: cut_suffix_Some)
    then show ?thesis using that[of p "''.d.cts''" "''.cjs''"] by simp
  qed
qed

lemma javascript_twin_dir: "javascript_twin f \<noteq> [] \<Longrightarrow> parent_dir (javascript_twin f) = parent_dir f"
  by (erule javascript_twin_cases) (auto intro: path_dir_suffix)

lemma javascript_twin_inj:
  assumes "javascript_twin f = javascript_twin g" "javascript_twin f \<noteq> []"
  shows "f = g"
proof -
  from assms(2) obtain p d j where f: "f = p @ d" "javascript_twin f = p @ j"
      "(d, j) \<in> set [(''.d.ts'', ''.js''), (''.d.mts'', ''.mjs''), (''.d.cts'', ''.cjs'')]"
    by (rule javascript_twin_cases)
  from assms obtain q e k where g: "g = q @ e" "javascript_twin g = q @ k"
      "(e, k) \<in> set [(''.d.ts'', ''.js''), (''.d.mts'', ''.mjs''), (''.d.cts'', ''.cjs'')]"
    by (metis javascript_twin_cases)
  have "rev (p @ j) = rev (q @ k)" using f(2) g(2) assms(1) by simp
  then show ?thesis using f(1,3) g(1,3) by auto
qed

section \<open>The sources of a package\<close>

definition src_files :: "src_set \<Rightarrow> string list" where
  "src_files ss = ss_library ss @ ss_test ss @ ss_declaration ss"

text \<open>The twin a listed file brings into its package.\<close>

definition twin_of :: "store \<Rightarrow> string \<Rightarrow> string \<Rightarrow> string option" where
  "twin_of s pkg f =
     (let twin = javascript_twin f in
      if twin \<noteq> [] \<and> source_file s twin \<and> twin \<notin> set (listed_files s pkg) \<and> \<not> st_codegenWrites s twin pkg
      then Some twin else None)"

definition owns :: "store \<Rightarrow> string \<Rightarrow> string \<Rightarrow> bool" where
  "owns s pkg f \<longleftrightarrow> owner s f = Owned pkg \<and> \<not> st_codegenWrites s f pkg"

lemma mset_add_src: "mset (src_files (add_src f ss)) = add_mset f (mset (src_files ss))"
  by (simp add: add_src_def src_files_def split: file_class.split)

lemma src_step_alt:
  "src_step s pkg f ss = (if owns s pkg f then
     (case twin_of s pkg f of Some t \<Rightarrow> add_src t (add_src f ss) | None \<Rightarrow> add_src f ss) else ss)"
  by (auto simp: src_step_def owns_def twin_of_def Let_def)

lemma mset_src_fold:
  "mset (src_files (fold (src_step s pkg) fs ss)) =
     mset (src_files ss) + mset (filter (owns s pkg) fs) + mset (List.map_filter (twin_of s pkg) (filter (owns s pkg) fs))"
  by (induction fs arbitrary: ss)
     (auto simp: src_step_alt mset_add_src List.map_filter_simps ac_simps split: option.split)

lemma mset_sort_strings: "mset (sort_strings xs) = mset xs"
proof -
  have "mset (insert_sorted x ys) = add_mset x (mset ys)" for x ys
    by (induction ys) auto
  then show ?thesis by (induction xs) (auto simp: sort_strings_def)
qed

lemma mset_srcs:
  "mset (src_files (srcs s pkg)) =
     mset (filter (owns s pkg) (sort_strings (remdups (listed_files s pkg)))) +
     mset (List.map_filter (twin_of s pkg) (filter (owns s pkg) (sort_strings (remdups (listed_files s pkg)))))"
  using mset_src_fold[of s pkg "sort_strings (remdups (listed_files s pkg))" "\<lparr>ss_library = [], ss_test = [], ss_declaration = []\<rparr>"]
  by (simp add: srcs_def Let_def src_files_def mset_sort_strings)

lemma distinct_map_filter_inj:
  "distinct xs \<Longrightarrow> (\<And>x y z. x \<in> set xs \<Longrightarrow> y \<in> set xs \<Longrightarrow> f x = Some z \<Longrightarrow> f y = Some z \<Longrightarrow> x = y) \<Longrightarrow>
     distinct (List.map_filter f xs)"
proof (induction xs)
  case (Cons x xs)
  then have "distinct (List.map_filter f xs)" by (meson distinct.simps(2) list.set_intros(2))
  moreover have "z \<notin> set (List.map_filter f xs)" if "f x = Some z" for z
  proof
    assume "z \<in> set (List.map_filter f xs)"
    then obtain y where "y \<in> set xs" "f y = Some z" by (auto simp: List.map_filter_def)
    then show False using Cons.prems that by (metis distinct.simps(2) list.set_intros)
  qed
  ultimately show ?case by (simp add: List.map_filter_simps split: option.split)
qed (simp add: List.map_filter_simps)

lemma twin_of_Some:
  "twin_of s p f = Some t \<longleftrightarrow> t = javascript_twin f \<and> t \<noteq> [] \<and> source_file s t \<and>
     t \<notin> set (listed_files s p) \<and> \<not> st_codegenWrites s t p"
  by (auto simp: twin_of_def Let_def)

lemma twin_of_inj: "twin_of s p f = Some t \<Longrightarrow> twin_of s q g = Some t \<Longrightarrow> f = g"
  by (auto simp: twin_of_Some dest: javascript_twin_inj)

lemma owns_listed: "owns s p f \<Longrightarrow> f \<in> set (listed_files s p)"
  by (simp add: owns_def owner_Owned_iff)

lemma owned_set: "set (filter (owns s p) (sort_strings (remdups (listed_files s p)))) = {f. owns s p f}"
  by (auto dest: owns_listed)

lemma set_srcs: "set (src_files (srcs s p)) = {f. owns s p f} \<union> {t. \<exists>f. owns s p f \<and> twin_of s p f = Some t}"
proof -
  have "set (src_files (srcs s p)) = set_mset (mset (src_files (srcs s p)))" by simp
  also have "\<dots> = {f. owns s p f} \<union> {t. \<exists>f. owns s p f \<and> twin_of s p f = Some t}"
    unfolding mset_srcs set_mset_union set_mset_mset owned_set
    by (auto simp: set_map_filter dest: owns_listed)
  finally show ?thesis .
qed

lemma distinct_srcs: "distinct (src_files (srcs s p))"
proof -
  define fs where "fs = filter (owns s p) (sort_strings (remdups (listed_files s p)))"
  have d: "distinct fs" by (simp add: fs_def)
  have "distinct (List.map_filter (twin_of s p) fs)"
    using d by (rule distinct_map_filter_inj) (rule twin_of_inj)
  moreover have "set fs \<inter> set (List.map_filter (twin_of s p) fs) = {}"
    by (auto simp: fs_def set_map_filter twin_of_Some)
  ultimately have "distinct (fs @ List.map_filter (twin_of s p) fs)" using d by simp
  moreover have "mset (src_files (srcs s p)) = mset (fs @ List.map_filter (twin_of s p) fs)"
    by (simp add: mset_srcs fs_def)
  ultimately show ?thesis by (metis mset_eq_imp_distinct_iff)
qed

text \<open>A twin stands in its declaration's directory, so the two have one nearest package.\<close>

lemma twin_not_owned: "owns s p f \<Longrightarrow> twin_of s p f = Some t \<Longrightarrow> \<not> owns s q t"
  using javascript_twin_dir[of f] by (auto simp: owns_def owner_Owned_iff twin_of_Some)

section \<open>Properties\<close>

text \<open>Every file has at most one owner, and it is the nearest package: a file that no rule
  produces, that the walk listed, outside foreign projects and with generation on, belongs to the
  first package at or above its directory when that package's program lists it and rules are
  generated there, and to no package otherwise.  The search always ends.\<close>

theorem owner_nearest:
  "owner s f \<noteq> Spins \<and>
   (owner s f = Owned d \<longleftrightarrow>
      \<not> st_producer s f \<and> source_file s f \<and> generation_disabled s (parent_dir f) = Some False \<and>
      st_foreign s (parent_dir f) = [] \<and>
      find (\<lambda>a. st_packages s a \<noteq> None) (dirs_up (parent_dir f)) = Some d \<and>
      f \<in> set (listed_files s d) \<and> st_walked s d = Some True)"
  using owner_not_spins[of s f] owner_Owned_iff[of s f d] by (simp add: package_of_def nearest_def)

text \<open>The sources of a package are its own files and the JavaScript companions of its own
  declarations that its program does not list, each once over the three classes.\<close>

theorem srcs_exact:
  "distinct (src_files (srcs s p)) \<and>
   (f \<in> set (src_files (srcs s p)) \<longleftrightarrow>
      owns s p f \<or> (\<exists>d. owns s p d \<and> f = javascript_twin d \<and> f \<noteq> [] \<and> source_file s f \<and>
                        f \<notin> set (listed_files s p) \<and> \<not> st_codegenWrites s f p))"
  using distinct_srcs[of s p] by (auto simp: set_srcs twin_of_Some)

text \<open>No file is a source of two packages: neither by ownership nor as the companion of a
  declaration.\<close>

theorem srcs_disjoint:
  assumes "p \<noteq> q"
  shows "set (src_files (srcs s p)) \<inter> set (src_files (srcs s q)) = {}"
proof -
  have own: "\<not> (owns s p f \<and> owns s q f)" for f using assms by (auto simp: owns_def)
  have "\<not> (owns s p f \<and> owns s q g \<and> twin_of s p f = Some t \<and> twin_of s q g = Some t)" for f g t
    using own twin_of_inj by metis
  with own show ?thesis using twin_not_owned unfolding set_srcs by blast
qed

definition two_packages :: store where
  "two_packages =
     \<lparr>st_packages = (\<lambda>_. None)([] := Some [''m.ts'', ''lib/a.ts''], ''lib'' := Some [''lib/a.ts'', ''lib/b.d.ts'']),
      st_packageDirs = [[], ''lib''],
      st_files = (\<lambda>_. None)([] := Some [''m.ts''], ''lib'' := Some [''a.ts'', ''b.d.ts'', ''b.js'']),
      st_walked = (\<lambda>_. None)([] := Some True, ''lib'' := Some True), st_foreign = (\<lambda>_. []),
      st_buildDirectives = (\<lambda>_. None), st_configs = (\<lambda>_. []), st_producer = (\<lambda>_. False),
      st_generatedFile = (\<lambda>_. False), st_codegenWrites = (\<lambda>_ _. False), st_skipped = False\<rparr>"

theorem srcs_disjoint_witness:
  "set (src_files (srcs two_packages ''lib'')) \<inter> set (src_files (srcs two_packages [])) = {} \<and>
   srcs two_packages ''lib'' = \<lparr>ss_library = [''lib/a.ts'', ''lib/b.js''], ss_test = [], ss_declaration = [''lib/b.d.ts'']\<rparr>"
  using srcs_disjoint[of "''lib''" "[]" two_packages] by (intro conjI) (simp, code_simp)

end
