(* ===== verification/SourceScan.thy ===== *)
theory SourceScan imports GoPath GoRegexp begin

text \<open>
  The scanner behind the signature of a source, \<open>gazelle/incremental/signature.go\<close>: a tokenizer of
  JavaScript, TypeScript and JSX that keeps the last eight tokens and records a fact for every
  import, require, module augmentation, directive and pragma.  The state is the scanner struct; the
  loops that consume one lexeme are functions of the text ahead that give the bytes they consume;
  the three procedures that call each other (\<open>scanJS\<close>, \<open>jsxElement\<close>, \<open>jsxChildren\<close>) take fuel,
  which twice the length of the source always covers.
\<close>

section \<open>Regular expressions the scanner uses\<close>

definition is_quote :: "char \<Rightarrow> bool" where
  "is_quote c \<longleftrightarrow> c = SQ \<or> c = DQ"

definition not_quote :: "char \<Rightarrow> bool" where
  "not_quote c \<longleftrightarrow> \<not> is_quote c"

definition quoted_re :: re where
  "quoted_re = Grp 1 (Seq (Cls is_quote) (Seq (StarC True not_quote) (Cls is_quote)))"

definition jsdocImport :: re where
  "jsdocImport =
     Seq (Alt (Seq (Lit ''import('') (StarC True space_byte))
              (seqs [Lit ''@import'', WordB, StarC False not_quote, Lit ''from'', StarC True space_byte]))
         quoted_re"

definition jsxText :: re where
  "jsxText =
     Alt (seqs [WordB, Lit ''import'', StarC True space_byte, Lit ''('']) (
     Alt (seqs [WordB, Lit ''require'', StarC True space_byte, Lit ''(''])
         (seqs [WordB, Lit ''from'', StarC True space_byte, Cls is_quote]))"

text \<open>\<open>FindAllStringSubmatch\<close> of an expression that matches no empty text: each search starts
  where the match before it ended.\<close>

function find_all :: "re \<Rightarrow> zipper \<Rightarrow> caps list" where
  "find_all r z =
     (case search_from r (fst z) (snd z) of
        None \<Rightarrow> []
      | Some (z0, z1, cs) \<Rightarrow> if length (snd z1) < length (snd z) then cs # find_all r z1 else [])"
  by pat_completeness auto
termination
  by (relation "measure (\<lambda>(r, z). length (snd z))") auto

declare find_all.simps [simp del]

section \<open>Tokens\<close>

datatype kind = NoKind | Ident | Str | Num | Punct | Tmpl

record token =
  tk_kind :: kind
  tk_text :: string

definition tok :: "kind \<Rightarrow> string \<Rightarrow> token" where
  "tok k t = \<lparr>tk_kind = k, tk_text = t\<rparr>"

record scanner =
  sc_src :: string
  sc_pos :: nat
  sc_jsx :: bool
  sc_prev :: token
  sc_toks :: "token list"
  sc_facts :: "string list"
  sc_sawJSX :: bool
  sc_module :: bool
  sc_depth :: int

datatype 'a scanned = Done 'a | Unscannable | OutOfFuel

fun andThen :: "'a scanned \<Rightarrow> ('a \<Rightarrow> 'b scanned) \<Rightarrow> 'b scanned" where
  "andThen (Done x) f = f x"
| "andThen Unscannable f = Unscannable"
| "andThen OutOfFuel f = OutOfFuel"

definition keywordsBeforeExpression :: "string list" where
  "keywordsBeforeExpression =
     [''return'', ''yield'', ''await'', ''case'', ''typeof'', ''void'', ''delete'', ''throw'', ''new'',
      ''in'', ''of'', ''instanceof'', ''else'', ''do'', ''default'', ''extends'']"

definition valueKeywords :: "string list" where
  "valueKeywords = [''this'', ''super'', ''null'', ''true'', ''false'']"

definition afterOperand :: "scanner \<Rightarrow> bool" where
  "afterOperand s =
     (let t = tk_text (sc_prev s) in
      case tk_kind (sc_prev s) of
        NoKind \<Rightarrow> False
      | Ident \<Rightarrow> t \<notin> set keywordsBeforeExpression \<or> t \<in> set valueKeywords
      | Str \<Rightarrow> True | Num \<Rightarrow> True | Tmpl \<Rightarrow> True
      | Punct \<Rightarrow> t = '')'' \<or> t = '']'')"

definition last_toks :: "nat \<Rightarrow> scanner \<Rightarrow> token list option" where
  "last_toks n s =
     (if length (sc_toks s) < n then None else Some (drop (length (sc_toks s) - n) (sc_toks s)))"

definition add_fact :: "string \<Rightarrow> scanner \<Rightarrow> scanner" where
  "add_fact f s = s\<lparr>sc_facts := sc_facts s @ [f]\<rparr>"

definition imported_string :: "scanner \<Rightarrow> bool" where
  "imported_string s \<longleftrightarrow>
     (case last_toks 2 s of
        Some [a, _] \<Rightarrow> tk_kind a = Ident \<and> tk_text a \<in> set [''from'', ''import''] | _ \<Rightarrow> False)"

definition called_string :: "scanner \<Rightarrow> string option" where
  "called_string s =
     (case last_toks 3 s of
        Some [a, b, _] \<Rightarrow>
          if tk_text b = ''('' \<and> tk_kind a = Ident \<and> tk_text a \<in> set [''require'', ''import'']
          then Some (tk_text a) else None
      | _ \<Rightarrow> None)"

definition augmented_string :: "scanner \<Rightarrow> bool" where
  "augmented_string s \<longleftrightarrow>
     (case last_toks 3 s of
        Some [a, b, _] \<Rightarrow> tk_text a = ''declare'' \<and> tk_text b = ''module'' | _ \<Rightarrow> False)"

definition recognize_string :: "string \<Rightarrow> scanner \<Rightarrow> scanner" where
  "recognize_string t s =
     (if imported_string s then add_fact (''import'' @ '' '' @ t) s
      else case called_string s of
        Some name \<Rightarrow> add_fact (name @ '' '' @ t) s
      | None \<Rightarrow> if augmented_string s then add_fact (''augment'' @ '' '' @ t) s else s)"

definition recognize :: "token \<Rightarrow> scanner \<Rightarrow> scanner" where
  \<comment> \<open>the newest token\<close>
  "recognize t s =
     (let s1 = (if tk_kind t = Ident \<and> tk_text t \<in> set [''import'', ''export''] \<and> sc_depth s = 0
                then s\<lparr>sc_module := True\<rparr> else s)
      in if tk_kind t \<noteq> Str then s1 else recognize_string (tk_text t) s1)"

definition emit :: "token \<Rightarrow> scanner \<Rightarrow> scanner" where
  "emit t s =
     (let ts = sc_toks s @ [t] in
      recognize t (s\<lparr>sc_prev := t, sc_toks := (if 8 < length ts then drop (length ts - 8) ts else ts)\<rparr>))"

section \<open>Lexemes\<close>

definition isIdentStart :: "char \<Rightarrow> bool" where
  "isIdentStart c \<longleftrightarrow> c = CHR ''_'' \<or> c = CHR ''$'' \<or> is_lower c \<or> is_upper c \<or> is_high c"

definition isIdentPart :: "char \<Rightarrow> bool" where
  "isIdentPart c \<longleftrightarrow> isIdentStart c \<or> is_digit c"

definition js_space :: "char \<Rightarrow> bool" where
  "js_space c \<longleftrightarrow> c \<in> set [SP, TAB, NL, CR, CHR 0x0C, CHR 0x0B]"

text \<open>The bytes after an opening quote up to and with the closing one.\<close>

fun quoted_len :: "char \<Rightarrow> string \<Rightarrow> nat option" where
  "quoted_len q [] = None"
| "quoted_len q (c # cs) =
     (if c = BSL then (case cs of [] \<Rightarrow> None | _ # cs' \<Rightarrow> map_option (\<lambda>n. n + 2) (quoted_len q cs'))
      else if c = q then Some 1
      else if c = NL then None
      else map_option Suc (quoted_len q cs))"

text \<open>Template text up to and with the backtick that ends it (True) or a \<open>${\<close>.\<close>

fun template_len :: "string \<Rightarrow> (nat \<times> bool) option" where
  "template_len [] = None"
| "template_len (c # cs) =
     (if c = BSL then (case cs of [] \<Rightarrow> None | _ # cs' \<Rightarrow> map_option (\<lambda>(n, d). (n + 2, d)) (template_len cs'))
      else if c = BQ then Some (1, True)
      else if has_prefix (c # cs) ''${'' then Some (2, False)
      else map_option (\<lambda>(n, d). (Suc n, d)) (template_len cs))"

fun regex_len :: "bool \<Rightarrow> string \<Rightarrow> nat option" where
  "regex_len inClass [] = None"
| "regex_len inClass (c # cs) =
     (if c = BSL then (case cs of [] \<Rightarrow> None | _ # cs' \<Rightarrow> map_option (\<lambda>n. n + 2) (regex_len inClass cs'))
      else if c = NL then None
      else if c = CHR ''['' then map_option Suc (regex_len True cs)
      else if c = CHR '']'' then map_option Suc (regex_len False cs)
      else if c = SL \<and> \<not> inClass then Some (Suc (length (takeWhile isIdentPart cs)))
      else map_option Suc (regex_len inClass cs))"

definition ahead :: "scanner \<Rightarrow> string" where
  "ahead s = drop (sc_pos s) (sc_src s)"

definition at_lit :: "string \<Rightarrow> scanner \<Rightarrow> bool" where
  "at_lit lit s = has_prefix (ahead s) lit"

definition skip :: "nat \<Rightarrow> scanner \<Rightarrow> scanner" where
  "skip n s = s\<lparr>sc_pos := sc_pos s + n\<rparr>"

definition quoted :: "char \<Rightarrow> scanner \<Rightarrow> (string \<times> scanner) scanned" where
  "quoted q s =
     (case quoted_len q (drop 1 (ahead s)) of
        None \<Rightarrow> Unscannable
      | Some n \<Rightarrow> Done (take (Suc n) (ahead s), skip (Suc n) s))"

definition templateBody :: "scanner \<Rightarrow> (bool \<times> scanner) scanned" where
  "templateBody s =
     (case template_len (ahead s) of None \<Rightarrow> Unscannable | Some (n, d) \<Rightarrow> Done (d, skip n s))"

definition regex :: "scanner \<Rightarrow> scanner scanned" where
  "regex s =
     (case regex_len False (drop 1 (ahead s)) of None \<Rightarrow> Unscannable | Some n \<Rightarrow> Done (skip (Suc n) s))"

definition generic_space :: "char \<Rightarrow> bool" where
  "generic_space c \<longleftrightarrow> c \<in> set [SP, TAB, CR, NL]"

definition genericArrow :: "scanner \<Rightarrow> bool" where
  "genericArrow s =
     (let r1 = dropWhile generic_space (drop 1 (ahead s));
          r2 = dropWhile isIdentPart r1;
          r3 = dropWhile generic_space r2
      in takeWhile isIdentPart r1 \<noteq> [] \<and> (has_prefix r3 '','' \<or> has_prefix r3 ''extends ''))"

text \<open>\<open>strings.Fields\<close>.\<close>

function word_len :: "string \<Rightarrow> nat" where
  "word_len [] = 0"
| "word_len (c # cs) = (if list_ex (\<lambda>r. has_prefix (c # cs) r) space_runes then 0 else Suc (word_len cs))"
  by pat_completeness auto
termination by (relation "measure length") auto

lemma word_len_pos: "strip_front space_runes s = c # t \<Longrightarrow> 0 < word_len (c # t)"
  using strip_front_stops[of _ space_runes s] space_runes_neq_Nil by (auto simp: list_ex_iff)

function fields :: "string \<Rightarrow> string list" where
  "fields s =
     (let t = strip_front space_runes s in
      if t = [] then [] else take (word_len t) t # fields (drop (word_len t) t))"
  by pat_completeness auto
termination
proof (relation "measure length")
  fix s t
  assume t: "t = strip_front space_runes s" "t \<noteq> []"
  from t(2) obtain c r where "t = c # r" by (cases t) simp_all
  then have "0 < word_len t" using word_len_pos t by simp
  moreover have "length t \<le> length s"
    using strip_front_suffix[of space_runes s] t(1) by (auto simp: suffix_length_le)
  ultimately show "(drop (word_len t) t, s) \<in> measure length" using t(2) by (cases t) auto
qed simp

declare fields.simps [simp del]

definition pragma_fact :: "string \<Rightarrow> string \<Rightarrow> string option" where
  "pragma_fact ctext pragma =
     (case str_index ctext pragma of
        None \<Rightarrow> None
      | Some i \<Rightarrow>
          let fs = fields (drop i ctext) in
          Some (''pragma '' @ hd fs @ '' '' @ join_on [] (take (min 2 (length fs) - 1) (drop 1 fs))))"

definition comment_facts :: "string \<Rightarrow> string list" where
  "comment_facts ctext =
     (if has_prefix ctext ''///'' then [''directive '' @ trim_space ctext] else []) @
     map (\<lambda>m. ''jsdoc '' @ cap m 1) (find_all jsdocImport ([], ctext)) @
     List.map_filter (pragma_fact ctext) [''@jsx'', ''@ts-nocheck'', ''@flow'']"

definition comment_end :: "string \<Rightarrow> scanner \<Rightarrow> scanner" where
  \<comment> \<open>\<open>comment\<close>, and the step over it\<close>
  "comment_end ctext s = skip (length ctext) (s\<lparr>sc_facts := sc_facts s @ comment_facts ctext\<rparr>)"

section \<open>The scanner\<close>

definition open_template :: "bool \<Rightarrow> int list \<Rightarrow> scanner \<Rightarrow> int list \<times> scanner" where
  "open_template ended templates s =
     (if ended then (templates, emit (tok Tmpl [BQ]) s)
      else (templates @ [sc_depth s], emit (tok Punct ''${'') (s\<lparr>sc_depth := sc_depth s + 1\<rparr>)))"

definition operator_text :: "scanner \<Rightarrow> char \<Rightarrow> string" where
  "operator_text s c =
     (case find (\<lambda>op. at_lit op s) [''=>'', ''...'', ''?.'', ''++'', ''--''] of None \<Rightarrow> [c] | Some op \<Rightarrow> op)"

definition starts_number :: "char \<Rightarrow> string \<Rightarrow> bool" where
  "starts_number c rest0 \<longleftrightarrow>
     is_digit c \<or> c = CHR ''.'' \<and> (case rest0 of [] \<Rightarrow> False | d # _ \<Rightarrow> is_digit d)"

definition starts_jsx :: "scanner \<Rightarrow> bool" where
  "starts_jsx s \<longleftrightarrow> at_lit ''<'' s \<and> sc_jsx s \<and> \<not> afterOperand s \<and> \<not> genericArrow s"

text \<open>One turn of \<open>scanJS\<close>'s loop, the JSX element apart, for the byte \<open>c\<close> ahead: first the bytes
  that are no text of their own, then the ones that resume or open a template, then the rest.\<close>

definition lex_plain :: "int list \<Rightarrow> scanner \<Rightarrow> char \<Rightarrow> (int list \<times> scanner) scanned" where
  "lex_plain templates s c =
     (let depth = sc_depth s; r = ahead s in
      if c = SL \<and> \<not> afterOperand s then
        andThen (regex s) (\<lambda>s'. Done (templates, emit (tok Str ''/regex/'') s'))
      else if c = CHR ''<'' \<and> sc_jsx s \<and> \<not> afterOperand s then
        \<comment> \<open>\<open>genericArrow\<close>; otherwise \<open>starts_jsx\<close> took the byte\<close>
        Done (templates, emit (tok Punct ''<'') (skip 1 s))
      else if isIdentStart c then
        (let word = takeWhile isIdentPart r in Done (templates, emit (tok Ident word) (skip (length word) s)))
      else if starts_number c (drop 1 r) then
        Done (templates, emit (tok Num ''0'') (skip (length (takeWhile (\<lambda>b. isIdentPart b \<or> b = CHR ''.'') r)) s))
      else
        (let op = operator_text s c;
             s1 = s\<lparr>sc_depth := (if op = ''{'' then depth + 1 else if op = ''}'' then depth - 1 else depth)\<rparr>
         in Done (templates, emit (tok Punct op) (skip (length op) s1))))"

definition lex_template :: "int list \<Rightarrow> scanner \<Rightarrow> (int list \<times> scanner) scanned" where
  "lex_template templates s =
     andThen (templateBody s) (\<lambda>(ended, s'). Done (open_template ended templates s'))"

definition lex_step :: "int list \<Rightarrow> scanner \<Rightarrow> char \<Rightarrow> (int list \<times> scanner) scanned" where
  "lex_step templates s c =
     (let depth = sc_depth s; r = ahead s in
      if js_space c then Done (templates, skip 1 s)
      else if at_lit ''//'' s then Done (templates, comment_end (takeWhile (\<lambda>b. b \<noteq> NL) r) s)
      else if at_lit ''/*'' s then
        (case str_index (drop 2 r) ''*/'' of
           None \<Rightarrow> Unscannable
         | Some e \<Rightarrow> Done (templates, comment_end (take (e + 4) r) s))
      else if c = SQ \<or> c = DQ then
        andThen (quoted c s) (\<lambda>(t, s'). Done (templates, emit (tok Str t) s'))
      else if c = BQ then lex_template templates (skip 1 s)
      else if c = CHR ''}'' \<and> templates \<noteq> [] \<and> last templates = depth - 1 then
        lex_template (butlast templates) (skip 1 (s\<lparr>sc_depth := depth - 1\<rparr>))
      else lex_plain templates s c)"

definition closes :: "int \<Rightarrow> int list \<Rightarrow> scanner \<Rightarrow> char \<Rightarrow> bool" where
  "closes stop templates s c \<longleftrightarrow>
     0 \<le> stop \<and> c = CHR ''}'' \<and> sc_depth s = stop + 1 \<and> templates = []"

text \<open>The calls of the procedures; a body calls through \<open>call\<close>.\<close>

datatype proc = ScanJS int "int list" | JsxTag bool nat | JsxChildren nat | JsxExpression

type_synonym caller = "proc \<Rightarrow> scanner \<Rightarrow> scanner scanned"

definition scanJS :: "caller \<Rightarrow> int \<Rightarrow> int list \<Rightarrow> scanner \<Rightarrow> scanner scanned" where
  "scanJS call stop templates s =
     (case ahead s of
        [] \<Rightarrow> if templates \<noteq> [] \<or> 0 \<le> stop then Unscannable else Done s
      | c # _ \<Rightarrow>
          if closes stop templates s c then
            Done (emit (tok Punct ''}'') (skip 1 (s\<lparr>sc_depth := sc_depth s - 1\<rparr>)))
          else if starts_jsx s then
            andThen (call (JsxTag False 0) (skip 1 (s\<lparr>sc_sawJSX := True\<rparr>)))
              (\<lambda>s'. call (ScanJS stop templates) (emit (tok Num ''jsx'') s'))
          else andThen (lex_step templates s c) (\<lambda>(ts, s'). call (ScanJS stop ts) s'))"

text \<open>The loop of \<open>jsxElement\<close> past the \<open><\<close> that the callers step over.\<close>

definition jsxTag :: "caller \<Rightarrow> bool \<Rightarrow> nat \<Rightarrow> scanner \<Rightarrow> scanner scanned" where
  "jsxTag call closing angles s =
     (case ahead s of
        [] \<Rightarrow> Unscannable
      | c # _ \<Rightarrow>
          if c = CHR ''<'' then call (JsxTag closing (Suc angles)) (skip 1 s)
          else if c = CHR ''>'' \<and> 0 < angles then call (JsxTag closing (angles - 1)) (skip 1 s)
          else if c = CHR ''{'' then andThen (call JsxExpression s) (\<lambda>s'. call (JsxTag closing angles) s')
          else if c = DQ \<or> c = SQ then
            andThen (quoted c s) (\<lambda>(t, s'). call (JsxTag closing angles) s')
          else if at_lit ''//'' s then
            (case str_index (ahead s) [NL] of
               None \<Rightarrow> Unscannable | Some e \<Rightarrow> call (JsxTag closing angles) (skip e s))
          else if at_lit ''/*'' s then
            (case str_index (drop 2 (ahead s)) ''*/'' of
               None \<Rightarrow> Unscannable | Some e \<Rightarrow> call (JsxTag closing angles) (skip (e + 4) s))
          else if at_lit ''/>'' s then Done (skip 2 s)
          else if c = CHR ''>'' then
            (if closing then Done (skip 1 s) else call (JsxChildren (sc_pos s + 1)) (skip 1 s))
          else if c = SL then call (JsxTag True angles) (skip 1 s)
          else call (JsxTag closing angles) (skip 1 s))"

definition jsxChildren :: "caller \<Rightarrow> nat \<Rightarrow> scanner \<Rightarrow> scanner scanned" where
  "jsxChildren call start s =
     (case ahead s of
        [] \<Rightarrow> Unscannable
      | c # _ \<Rightarrow>
          if (c = CHR ''<'' \<or> c = CHR ''{'') \<and>
             match_string jsxText (take (sc_pos s - start) (drop start (sc_src s))) then Unscannable
          else if at_lit ''</'' s then
            (if CHR ''>'' \<notin> set (ahead s) then Unscannable
             else Done (skip (length (takeWhile (\<lambda>b. b \<noteq> CHR ''>'') (ahead s)) + 1) s))
          else if c = CHR ''<'' then
            andThen (call (JsxTag False 0) (skip 1 s)) (\<lambda>s'. call (JsxChildren (sc_pos s')) s')
          else if c = CHR ''{'' then
            andThen (call JsxExpression s) (\<lambda>s'. call (JsxChildren (sc_pos s')) s')
          else call (JsxChildren start) (skip 1 s))"

definition jsxExpression :: "caller \<Rightarrow> scanner \<Rightarrow> scanner scanned" where
  "jsxExpression call s =
     andThen (call (ScanJS (sc_depth s) [])
         (skip 1 (s\<lparr>sc_depth := sc_depth s + 1, sc_prev := tok NoKind []\<rparr>)))
       (\<lambda>s'. Done (s'\<lparr>sc_prev := sc_prev s\<rparr>))"

fun body :: "caller \<Rightarrow> proc \<Rightarrow> scanner \<Rightarrow> scanner scanned" where
  "body call (ScanJS stop templates) s = scanJS call stop templates s"
| "body call (JsxTag closing angles) s = jsxTag call closing angles s"
| "body call (JsxChildren start) s = jsxChildren call start s"
| "body call JsxExpression s = jsxExpression call s"

primrec run :: "nat \<Rightarrow> caller" where
  "run 0 = (\<lambda>p s. OutOfFuel)"
| "run (Suc n) = body (run n)"

definition scan :: "scanner \<Rightarrow> scanner scanned" where
  "scan s =
     andThen (run (2 * length (sc_src s) + 1) (ScanJS (-1) []) s)
       (\<lambda>s'. if sc_depth s' \<noteq> 0 then Unscannable else Done s')"

definition scanSource :: "string \<Rightarrow> string \<Rightarrow> scanner scanned" where
  "scanSource name src =
     scan \<lparr>sc_src = src, sc_pos = 0,
           sc_jsx = (path_ext name \<in> set [''.tsx'', ''.jsx'', ''.js'', ''.mjs'', ''.cjs'']),
           sc_prev = tok NoKind [], sc_toks = [], sc_facts = [], sc_sawJSX = False, sc_module = False,
           sc_depth = 0\<rparr>"

section \<open>Signatures and specifiers\<close>

definition go_bool :: "bool \<Rightarrow> string" where
  "go_bool b = (if b then ''true'' else ''false'')"

definition digest_text :: "scanner \<Rightarrow> string list \<Rightarrow> string" where
  "digest_text s facts =
     ''jsx='' @ go_bool (sc_sawJSX s) @ '' module='' @ go_bool (sc_module s) @ [NL] @ join_on [NL] facts"

definition signature_of :: "(string \<Rightarrow> string) \<Rightarrow> string \<Rightarrow> string \<Rightarrow> string scanned" where
  \<comment> \<open>\<open>Signature\<close>, over the hash\<close>
  "signature_of sha name src =
     andThen (scanSource name src) (\<lambda>s. Done (sha (digest_text s (sort_strings (sc_facts s)))))"

text \<open>The slice \<open>spec[1:len(spec)-1]\<close>, which panics on fewer than two bytes.\<close>

definition unquote :: "string \<Rightarrow> string option" where
  "unquote spec = (if length spec < 2 then None else Some (butlast (tl spec)))"

datatype spec_result = Specs "string list" string | ScanError | SpecPanic | NoFuel

fun split_facts :: "bool \<Rightarrow> string list \<Rightarrow> string list \<Rightarrow> string list \<Rightarrow> (string list \<times> string list) option" where
  "split_facts js [] specs others = Some (specs, others)"
| "split_facts js (f # fs) specs others =
     (let (k, spec, _) = cut_at f '' '' in
      if k = ''import'' \<or> k = ''jsdoc'' \<and> js then
        (case unquote spec of None \<Rightarrow> None | Some m \<Rightarrow> split_facts js fs (specs @ [''import:'' @ m]) others)
      else if k = ''require'' then
        (case unquote spec of None \<Rightarrow> None | Some m \<Rightarrow> split_facts js fs (specs @ [''require:'' @ m]) others)
      else split_facts js fs specs (others @ [f]))"

definition specifiers :: "(string \<Rightarrow> string) \<Rightarrow> string \<Rightarrow> string \<Rightarrow> spec_result" where
  "specifiers sha name src =
     (case scanSource name src of
        Unscannable \<Rightarrow> ScanError
      | OutOfFuel \<Rightarrow> NoFuel
      | Done s \<Rightarrow>
          (case split_facts (CHR ''t'' \<notin> set (path_ext name)) (sc_facts s) [] [] of
             None \<Rightarrow> SpecPanic
           | Some (specs, others) \<Rightarrow>
               Specs (sort_strings specs) (sha (digest_text s (sort_strings others)))))"

section \<open>What the expression for JSDoc imports captures\<close>

definition quoted_in :: "string \<Rightarrow> string \<Rightarrow> bool" where
  "quoted_in src t \<longleftrightarrow> (\<exists>q w q'. t = q # w @ [q'] \<and> is_quote q \<and> is_quote q' \<and> sublist t src)"

lemma search_from_match:
  "search_from r b s = Some (z0, z1, cs) \<Longrightarrow> \<exists>w t. s = w @ t \<and> z0 = (rev w @ b, t) \<and> mt r z0 [] z1 cs"
proof (induction r b s rule: search_from.induct)
  case (1 r b s)
  from "1.prems" consider "rm r (b, s) [] (\<lambda>z cs. Some ((b, s), z, cs)) = Some (z0, z1, cs)"
    | c s' where "s = c # s'" "search_from r (c # b) s' = Some (z0, z1, cs)"
    by (subst (asm) search_from.simps) (auto dest!: or_else_Some split: list.splits)
  then show ?case
  proof cases
    case 1
    then have "mt r (b, s) [] z1 cs" "z0 = (b, s)" using rm_sound by fastforce+
    then show ?thesis by (metis append_Nil rev.simps(1))
  next
    case 2
    from "1.IH"[OF this] obtain w t where "s' = w @ t" "z0 = (rev w @ c # b, t)" "mt r z0 [] z1 cs" by blast
    then have "s = (c # w) @ t \<and> z0 = (rev (c # w) @ b, t) \<and> mt r z0 [] z1 cs" using 2(1) by simp
    then show ?thesis by blast
  qed
qed

lemma quote_ascii: "is_quote c \<Longrightarrow> byte c < 128"
  by (auto simp: is_quote_def byte_def)

lemma mt_quote: "mt (Cls is_quote) z cs z' cs' \<Longrightarrow> \<exists>c. is_quote c \<and> snd z = c # snd z' \<and> cs' = cs"
  by (auto elim!: mt_ClsE simp: advance_def rune_len_ascii quote_ascii)

lemma mt_quoted:
  assumes "mt quoted_re z cs z' cs'"
  shows "\<exists>t. snd z = t @ snd z' \<and> cs' = (1, t) # cs \<and> quoted_in (snd z) t"
proof -
  from assms obtain t cs1 where t: "snd z = t @ snd z'" "cs' = (1, t) # cs1"
    and m: "mt (Seq (Cls is_quote) (Seq (StarC True not_quote) (Cls is_quote))) z cs z' cs1"
    unfolding quoted_re_def by (blast dest: mt_Grp_consumes)
  from m obtain z1 z2 c1 c2 where "mt (Cls is_quote) z cs z1 c1" "mt (StarC True not_quote) z1 c1 z2 c2"
      "mt (Cls is_quote) z2 c2 z' cs1"
    by (elim mt_SeqE)
  then obtain q w q' where "is_quote q" "snd z = q # snd z1" "snd z1 = w @ snd z2" "is_quote q'"
      "snd z2 = q' # snd z'" "cs1 = cs"
    using mt_quote mt_Star_consumes by metis
  then have "snd z = (q # w @ [q']) @ snd z'" "cs1 = cs" "is_quote q" "is_quote q'" by auto
  with t have "t = q # w @ [q']" "cs' = (1, t) # cs" by auto
  then show ?thesis using t(1) \<open>is_quote q\<close> \<open>is_quote q'\<close> by (auto simp: quoted_in_def)
qed

lemma sublist_trans: "sublist a b \<Longrightarrow> sublist b c \<Longrightarrow> sublist a c"
  by (auto simp: sublist_def) (metis append.assoc)

lemma mt_jsdoc:
  assumes "mt jsdocImport z [] z' cs"
  shows "quoted_in (snd z) (cap cs 1)"
proof -
  from assms obtain z1 c1 where h: "mt (Alt (Seq (Lit ''import('') (StarC True space_byte))
      (seqs [Lit ''@import'', WordB, StarC False not_quote, Lit ''from'', StarC True space_byte])) z [] z1 c1"
    and q: "mt quoted_re z1 c1 z' cs"
    unfolding jsdocImport_def by (elim mt_SeqE)
  from mt_quoted[OF q] obtain t where t: "cs = (1, t) # c1" "quoted_in (snd z1) t" by blast
  from mt_consumes[OF h] have "suffix (snd z1) (snd z)" by (auto simp: suffix_def)
  then have "quoted_in (snd z) t"
    using t(2) sublist_trans[of t "snd z1" "snd z"] suffix_imp_sublist by (auto simp: quoted_in_def)
  then show ?thesis using t(1) by (simp add: cap_def)
qed

lemma quoted_in_trans: "quoted_in a t \<Longrightarrow> sublist a b \<Longrightarrow> quoted_in b t"
  using sublist_trans by (auto simp: quoted_in_def)

lemma find_all_jsdoc: "m \<in> set (find_all jsdocImport z) \<Longrightarrow> quoted_in (snd z) (cap m 1)"
proof (induction jsdocImport z rule: find_all.induct)
  case (1 z)
  from "1.prems" obtain z0 z1 cs where s: "search_from jsdocImport (fst z) (snd z) = Some (z0, z1, cs)"
    and l: "length (snd z1) < length (snd z)" and m: "m = cs \<or> m \<in> set (find_all jsdocImport z1)"
    by (cases "search_from jsdocImport (fst z) (snd z)") (auto simp: find_all.simps[of jsdocImport z] split: if_splits)
  from search_from_match[OF s] obtain w t where w: "snd z = w @ t" "z0 = (rev w @ fst z, t)" "mt jsdocImport z0 [] z1 cs"
    by blast
  have t: "suffix t (snd z)" using w(1) by (simp add: suffix_def)
  have z1: "suffix (snd z1) (snd z)" using mt_consumes[OF w(3)] w(1,2) by (auto simp: suffix_def)
  from m show ?case
  proof
    assume "m = cs"
    then show ?thesis using mt_jsdoc[OF w(3)] w(2) t quoted_in_trans suffix_imp_sublist by auto
  next
    assume "m \<in> set (find_all jsdocImport z1)"
    with "1.hyps"[OF s refl refl l] have "quoted_in (snd z1) (cap m 1)" by simp
    then show ?thesis using z1 quoted_in_trans suffix_imp_sublist by blast
  qed
qed

section \<open>The state a scan keeps\<close>

text \<open>A string token is a quoted text of the source or stands for a regular expression.\<close>

definition spec_text :: "string \<Rightarrow> string \<Rightarrow> bool" where
  "spec_text src t \<longleftrightarrow> quoted_in src t \<or> t = ''/regex/''"

definition fact_ok :: "string \<Rightarrow> string \<Rightarrow> bool" where
  "fact_ok src f \<longleftrightarrow>
     (\<exists>k t. k \<in> set [''import'', ''require'', ''augment''] \<and> f = k @ '' '' @ t \<and> spec_text src t) \<or>
     (\<exists>t. f = ''jsdoc '' @ t \<and> quoted_in src t) \<or>
     has_prefix f ''directive '' \<or> has_prefix f ''pragma ''"

definition scan_ok :: "scanner \<Rightarrow> bool" where
  "scan_ok s \<longleftrightarrow> sc_pos s \<le> length (sc_src s) \<and> (\<forall>f \<in> set (sc_facts s). fact_ok (sc_src s) f) \<and>
     (\<forall>t \<in> set (sc_toks s). tk_kind t = Str \<longrightarrow> spec_text (sc_src s) (tk_text t))"

definition advances :: "scanner \<Rightarrow> scanner \<Rightarrow> bool" where
  "advances s s' \<longleftrightarrow> sc_src s' = sc_src s \<and> sc_pos s < sc_pos s' \<and> scan_ok s'"

lemma length_ahead: "length (ahead s) = length (sc_src s) - sc_pos s"
  by (simp add: ahead_def)

lemma ahead_sublist: "sublist (ahead s) (sc_src s)"
  by (simp add: ahead_def sublist_drop)

lemma take_ahead_sublist: "sublist (take n (ahead s)) (sc_src s)"
  using sublist_trans[OF sublist_take ahead_sublist] .

lemma wf_skip: "scan_ok s \<Longrightarrow> n \<le> length (ahead s) \<Longrightarrow> scan_ok (skip n s)"
  by (auto simp: scan_ok_def skip_def length_ahead)

lemma skip_simps [simp]:
  "sc_src (skip n s) = sc_src s" "sc_pos (skip n s) = sc_pos s + n" "sc_depth (skip n s) = sc_depth s"
  "sc_facts (skip n s) = sc_facts s" "sc_toks (skip n s) = sc_toks s"
  by (simp_all add: skip_def)

lemma wf_update [simp]:
  "scan_ok (s\<lparr>sc_depth := d\<rparr>) = scan_ok s" "scan_ok (s\<lparr>sc_sawJSX := b\<rparr>) = scan_ok s" "scan_ok (s\<lparr>sc_prev := p\<rparr>) = scan_ok s"
  "scan_ok (s\<lparr>sc_depth := d, sc_prev := p\<rparr>) = scan_ok s"
  by (simp_all add: scan_ok_def)

lemma ahead_update [simp]:
  "ahead (s\<lparr>sc_depth := d\<rparr>) = ahead s" "ahead (s\<lparr>sc_sawJSX := b\<rparr>) = ahead s" "ahead (s\<lparr>sc_prev := p\<rparr>) = ahead s"
  "ahead (s\<lparr>sc_depth := d, sc_prev := p\<rparr>) = ahead s" "ahead (s\<lparr>sc_facts := fs\<rparr>) = ahead s"
  by (simp_all add: ahead_def)

lemma called_string_name: "called_string s = Some k \<Longrightarrow> k \<in> set [''require'', ''import'']"
  unfolding called_string_def by (simp only: split: option.splits list.splits if_splits; simp only: option.inject option.distinct)+

lemma recognize_string_facts:
  "recognize_string t s = s \<or>
   (\<exists>k \<in> set [''import'', ''require'', ''augment'']. recognize_string t s = add_fact (k @ '' '' @ t) s)"
proof -
  consider "imported_string s" | k where "\<not> imported_string s" "called_string s = Some k"
    | "\<not> imported_string s" "called_string s = None" by (cases "called_string s") auto
  then show ?thesis
  proof cases
    case 1
    then have "recognize_string t s = add_fact (''import'' @ '' '' @ t) s" by (simp add: recognize_string_def)
    then show ?thesis by (intro disjI2 bexI[of _ "''import''"]) simp_all
  next
    case 2
    then have "recognize_string t s = add_fact (k @ '' '' @ t) s" by (simp add: recognize_string_def)
    then show ?thesis using called_string_name[OF 2(2)] by (intro disjI2 bexI[of _ k]) auto
  next
    case 3
    then have "recognize_string t s = s \<or> recognize_string t s = add_fact (''augment'' @ '' '' @ t) s"
      by (simp add: recognize_string_def)
    then show ?thesis by (elim disjE) (auto intro: bexI[of _ "''augment''"])
  qed
qed

lemma recognize_form:
  "\<exists>m fs. recognize t s = s\<lparr>sc_module := m, sc_facts := sc_facts s @ fs\<rparr> \<and>
     (fs = [] \<or> tk_kind t = Str \<and> (\<exists>k \<in> set [''import'', ''require'', ''augment'']. fs = [k @ '' '' @ tk_text t]))"
proof -
  define u where "u = (if tk_kind t = Ident \<and> tk_text t \<in> set [''import'', ''export''] \<and> sc_depth s = 0
                then s\<lparr>sc_module := True\<rparr> else s)"
  have "u = s\<lparr>sc_module := (if u = s then sc_module s else True)\<rparr>" unfolding u_def by simp
  then obtain m where m: "u = s\<lparr>sc_module := m\<rparr>" by blast
  have rec: "recognize t s = (if tk_kind t \<noteq> Str then u else recognize_string (tk_text t) u)"
    unfolding recognize_def u_def Let_def ..
  show ?thesis
  proof (cases "tk_kind t = Str")
    case False
    then have "recognize t s = s\<lparr>sc_module := m, sc_facts := sc_facts s @ []\<rparr>"
      using m by (simp add: rec)
    then show ?thesis by blast
  next
    case True
    then have r: "recognize t s = recognize_string (tk_text t) u"
      by (simp add: rec)
    from recognize_string_facts[of "tk_text t" u] consider "recognize_string (tk_text t) u = u"
      | k where "k \<in> set [''import'', ''require'', ''augment'']"
          "recognize_string (tk_text t) u = add_fact (k @ '' '' @ tk_text t) u" by blast
    then show ?thesis
    proof cases
      case 1
      then have "recognize t s = s\<lparr>sc_module := m, sc_facts := sc_facts s @ []\<rparr>" using r m by simp
      then show ?thesis by blast
    next
      case 2
      then have "recognize t s = s\<lparr>sc_module := m, sc_facts := sc_facts s @ [k @ '' '' @ tk_text t]\<rparr>"
        using r m by (simp add: add_fact_def)
      then show ?thesis using True 2(1) by blast
    qed
  qed
qed

lemma emit_form:
  "\<exists>m fs ts. emit t s = s\<lparr>sc_prev := t, sc_toks := ts, sc_module := m, sc_facts := sc_facts s @ fs\<rparr> \<and>
     set ts \<subseteq> insert t (set (sc_toks s)) \<and>
     (fs = [] \<or> tk_kind t = Str \<and> (\<exists>k \<in> set [''import'', ''require'', ''augment'']. fs = [k @ '' '' @ tk_text t]))"
proof -
  let ?l = "sc_toks s @ [t]"
  let ?ts = "if 8 < length ?l then drop (length ?l - 8) ?l else ?l"
  have "set ?ts \<subseteq> insert t (set (sc_toks s))" using set_drop_subset[of "length ?l - 8" ?l] by auto
  moreover obtain m fs where "recognize t (s\<lparr>sc_prev := t, sc_toks := ?ts\<rparr>) =
      s\<lparr>sc_prev := t, sc_toks := ?ts, sc_module := m, sc_facts := sc_facts s @ fs\<rparr>"
    "fs = [] \<or> tk_kind t = Str \<and> (\<exists>k \<in> set [''import'', ''require'', ''augment'']. fs = [k @ '' '' @ tk_text t])"
    using recognize_form[of t "s\<lparr>sc_prev := t, sc_toks := ?ts\<rparr>"] by auto
  ultimately show ?thesis unfolding emit_def Let_def by blast
qed

lemma emit_keeps [simp]: "sc_src (emit t s) = sc_src s" "sc_pos (emit t s) = sc_pos s" "sc_depth (emit t s) = sc_depth s"
  using emit_form[of t s] by auto

lemma ahead_emit [simp]: "ahead (emit t s) = ahead s"
  by (simp add: ahead_def)

lemma wf_emit:
  assumes "scan_ok s" "tk_kind t = Str \<Longrightarrow> spec_text (sc_src s) (tk_text t)"
  shows "scan_ok (emit t s)"
proof -
  obtain m fs ts where e: "emit t s = s\<lparr>sc_prev := t, sc_toks := ts, sc_module := m, sc_facts := sc_facts s @ fs\<rparr>"
    "set ts \<subseteq> insert t (set (sc_toks s))"
    and fs: "fs = [] \<or> tk_kind t = Str \<and> (\<exists>k \<in> set [''import'', ''require'', ''augment'']. fs = [k @ '' '' @ tk_text t])"
    using emit_form by blast
  have "fact_ok (sc_src s) f" if "f \<in> set fs" for f
    using fs that assms(2) unfolding fact_ok_def by auto
  then show ?thesis using assms e(2) unfolding scan_ok_def e(1) by auto
qed

lemma wf_emit_other [simp]: "k \<noteq> Str \<Longrightarrow> scan_ok s \<Longrightarrow> scan_ok (emit (tok k x) s)"
  by (rule wf_emit) (auto simp: tok_def)

section \<open>Every lexeme moves the scanner on\<close>

lemma quoted_len_bounds: "quoted_len q s = Some n \<Longrightarrow> 0 < n \<and> n \<le> length s \<and> s ! (n - 1) = q"
proof (induction q s arbitrary: n rule: quoted_len.induct)
  case (2 q c cs)
  show ?case
  proof (cases "c = BSL")
    case True
    with "2.prems" obtain d r m where "cs = d # r" "quoted_len q r = Some m" "n = m + 2"
      by (auto split: list.splits)
    with "2.IH"(1)[OF True, of d r m] show ?thesis by (cases m) auto
  next
    case False
    then consider "c = q" "n = 1" | m where "quoted_len q cs = Some m" "n = Suc m" "c \<noteq> q" "c \<noteq> NL"
      using "2.prems" by (auto split: if_splits)
    then show ?thesis
    proof cases
      case 2
      with "2.IH"(2)[OF False] show ?thesis by (cases m) auto
    qed simp
  qed
qed simp

lemma template_len_bounds: "template_len s = Some (n, d) \<Longrightarrow> 0 < n \<and> n \<le> length s"
proof (induction s arbitrary: n d rule: template_len.induct)
  case (2 c cs)
  then show ?case
    by (cases "c = BSL"; cases cs) (auto split: if_splits)
qed simp

lemma regex_len_bounds: "regex_len b s = Some n \<Longrightarrow> 0 < n \<and> n \<le> length s"
proof (induction b s arbitrary: n rule: regex_len.induct)
  case (2 b c cs)
  have t: "length (takeWhile isIdentPart cs) \<le> length cs" by (rule length_takeWhile_le)
  show ?case
  proof (cases "c = BSL")
    case True
    with 2 show ?thesis by (cases cs) auto
  next
    case False
    with 2 t show ?thesis by (auto split: if_splits)
  qed
qed simp

lemma adv_skip: "scan_ok s \<Longrightarrow> 0 < n \<Longrightarrow> n \<le> length (ahead s) \<Longrightarrow> advances s (skip n s)"
  by (simp add: advances_def wf_skip)

lemma adv_depth [simp]: "advances s (u\<lparr>sc_depth := d\<rparr>) = advances s u"
  by (simp add: advances_def)

lemma adv_from_depth [simp]: "advances (s\<lparr>sc_depth := d\<rparr>) u = advances s u"
  by (simp add: advances_def)

lemma adv_trans: "advances s u \<Longrightarrow> advances u v \<Longrightarrow> advances s v"
  by (auto simp: advances_def)

lemma adv_emit:
  "advances s u \<Longrightarrow> (tk_kind t = Str \<Longrightarrow> spec_text (sc_src s) (tk_text t)) \<Longrightarrow> advances s (emit t u)"
  by (auto simp: advances_def intro: wf_emit)

lemma adv_emit_other: "k \<noteq> Str \<Longrightarrow> advances s u \<Longrightarrow> advances s (emit (tok k x) u)"
  by (rule adv_emit) (auto simp: tok_def)

lemma adv_quoted:
  assumes "scan_ok s" "ahead s = c # r" "is_quote c" "quoted c s = Done (t, s')"
  shows "advances s s' \<and> quoted_in (sc_src s) t"
proof -
  obtain n where n: "quoted_len c r = Some n" "t = take (Suc n) (c # r)" "s' = skip (Suc n) s"
    using assms(2,4) by (auto simp: quoted_def split: option.splits)
  from quoted_len_bounds[OF n(1)] have b: "0 < n" "n \<le> length r" "r ! (n - 1) = c" by auto
  then have "take n r = take (n - 1) r @ [c]" by (metis Suc_diff_1 less_eq_Suc_le take_Suc_conv_app_nth)
  then have "t = c # take (n - 1) r @ [c]" using n(2) by simp
  moreover have "sublist t (sc_src s)" using take_ahead_sublist[of "Suc n" s] n(2) assms(2) by simp
  ultimately have "quoted_in (sc_src s) t" using assms(3) by (auto simp: quoted_in_def)
  moreover have "advances s s'" using adv_skip[OF assms(1), of "Suc n"] b(2) assms(2) n(3) by simp
  ultimately show ?thesis by blast
qed

lemma adv_template: "scan_ok s \<Longrightarrow> templateBody s = Done (e, s') \<Longrightarrow> advances s s'"
  by (auto simp: templateBody_def split: option.splits intro!: adv_skip dest: template_len_bounds)

lemma adv_open: "advances s u \<Longrightarrow> advances s (snd (open_template e ts u))"
  by (simp add: open_template_def adv_emit_other)

lemma adv_regex: "scan_ok s \<Longrightarrow> ahead s = c # r \<Longrightarrow> regex s = Done s' \<Longrightarrow> advances s s'"
  by (auto simp: regex_def split: option.splits intro!: adv_skip dest: regex_len_bounds)

lemma comment_facts_ok:
  assumes "sublist ctext src" "f \<in> set (comment_facts ctext)"
  shows "fact_ok src f"
proof -
  from assms(2) consider "has_prefix f ''directive ''" | m where "m \<in> set (find_all jsdocImport ([], ctext))" "f = ''jsdoc '' @ cap m 1"
    | p where "pragma_fact ctext p = Some f"
    by (auto simp: comment_facts_def List.map_filter_def split: if_splits)
  then show ?thesis
  proof cases
    case 2
    then show ?thesis using find_all_jsdoc[OF 2(1)] quoted_in_trans[OF _ assms(1)] by (auto simp: fact_ok_def)
  next
    case 3
    then have "has_prefix f ''pragma ''" by (auto simp: pragma_fact_def Let_def split: option.splits)
    then show ?thesis by (simp add: fact_ok_def)
  qed (simp add: fact_ok_def)
qed

lemma adv_comment:
  assumes "scan_ok s" "ctext = take n (ahead s)" "ctext \<noteq> []"
  shows "advances s (comment_end ctext s)"
proof -
  have "scan_ok (s\<lparr>sc_facts := sc_facts s @ comment_facts ctext\<rparr>)"
    using assms(1) comment_facts_ok[of ctext "sc_src s"] take_ahead_sublist[of n s] assms(2)
    by (auto simp: scan_ok_def)
  then have "scan_ok (comment_end ctext s)" using assms(2) unfolding comment_end_def by (intro wf_skip) auto
  then show ?thesis using assms(3) by (simp add: advances_def comment_end_def)
qed

lemma takeWhile_short: "x \<in> set xs \<Longrightarrow> \<not> P x \<Longrightarrow> length (takeWhile P xs) < length xs"
  by (induction xs) auto

lemma take_upto: "takeWhile P xs = take (length (takeWhile P xs)) xs"
  by (rule takeWhile_eq_take)

lemma operator_text_len:
  assumes "ahead s = c # r"
  shows "0 < length (operator_text s c)" "length (operator_text s c) \<le> length (ahead s)"
proof -
  let ?ops = "[''=>'', ''...'', ''?.'', ''++'', ''--'']"
  have "0 < length (operator_text s c) \<and> length (operator_text s c) \<le> length (ahead s)"
  proof (cases "find (\<lambda>op. at_lit op s) ?ops")
    case None
    then show ?thesis using assms by (simp only: operator_text_def option.case) simp
  next
    case (Some op)
    then have "op \<in> set ?ops" "at_lit op s" using find_Some_first by metis+
    then have "op \<noteq> []" "length op \<le> length (ahead s)" by (auto simp: at_lit_def dest: prefix_length_le)
    then show ?thesis using Some by (simp only: operator_text_def option.case) simp
  qed
  then show "0 < length (operator_text s c)" "length (operator_text s c) \<le> length (ahead s)" by auto
qed

lemma andThen_Done: "andThen m f = Done x \<longleftrightarrow> (\<exists>y. m = Done y \<and> f y = Done x)"
  by (cases m) auto

lemma andThen_OutOfFuel: "andThen m f = OutOfFuel \<longleftrightarrow> m = OutOfFuel \<or> (\<exists>y. m = Done y \<and> f y = OutOfFuel)"
  by (cases m) auto

lemma adv_lex_template: "scan_ok s \<Longrightarrow> lex_template ts s = Done (ts', s') \<Longrightarrow> advances s s'"
proof -
  assume "scan_ok s" "lex_template ts s = Done (ts', s')"
  then obtain e u where "templateBody s = Done (e, u)" "open_template e ts u = (ts', s')" "scan_ok s"
    by (auto simp: lex_template_def andThen_Done)
  then show ?thesis using adv_open[OF adv_template, of s e u e ts] by simp
qed

lemma adv_lex_plain:
  assumes w: "scan_ok s" and r: "ahead s = c # r" and h: "lex_plain ts s c = Done (ts', s')"
  shows "advances s s'"
proof -
  have sk: "advances s (skip n (s\<lparr>sc_depth := d\<rparr>))" if "0 < n" "n \<le> length (ahead s)" for n d
    using wf_skip[of "s\<lparr>sc_depth := d\<rparr>" n] w that by (simp add: advances_def)
  have ident: "isIdentStart c \<Longrightarrow> isIdentPart c" by (simp add: isIdentPart_def)
  have tw: "advances s (skip (length (takeWhile P (ahead s))) s)" if "P c" for P
    using sk[of "length (takeWhile P (ahead s))" "sc_depth s"] that r length_takeWhile_le[of P "ahead s"] by simp
  have num: "starts_number c x \<Longrightarrow> isIdentPart c \<or> c = CHR ''.''" for x
    by (auto simp: starts_number_def isIdentPart_def)
  consider u where "regex s = Done u" "s' = emit (tok Str ''/regex/'') u"
    | "s' = emit (tok Punct ''<'') (skip 1 s)"
    | "isIdentStart c" "s' = emit (tok Ident (takeWhile isIdentPart (ahead s))) (skip (length (takeWhile isIdentPart (ahead s))) s)"
    | "starts_number c (drop 1 (ahead s))"
      "s' = emit (tok Num ''0'') (skip (length (takeWhile (\<lambda>b. isIdentPart b \<or> b = CHR ''.'') (ahead s))) s)"
    | "s' = emit (tok Punct (operator_text s c)) (skip (length (operator_text s c)) (s\<lparr>sc_depth :=
         (if operator_text s c = ''{'' then sc_depth s + 1 else if operator_text s c = ''}'' then sc_depth s - 1 else sc_depth s)\<rparr>))"
    using h unfolding lex_plain_def Let_def
    by (auto simp: andThen_Done split: if_split_asm)
  then show ?thesis
  proof cases
    case 1
    then show ?thesis using adv_regex[OF w r] by (auto simp: spec_text_def tok_def intro: adv_emit)
  next
    case 2
    then show ?thesis using sk[of 1 "sc_depth s"] r by (simp add: adv_emit_other)
  next
    case 3
    then show ?thesis using tw[of isIdentPart] ident by (simp add: adv_emit_other)
  next
    case 4
    then show ?thesis using tw[of "\<lambda>b. isIdentPart b \<or> b = CHR ''.''"] num by (simp add: adv_emit_other)
  next
    case 5
    then show ?thesis using sk operator_text_len[OF r] by (simp add: adv_emit_other)
  qed
qed

lemma lex_step_advances:
  assumes w: "scan_ok s" and r: "ahead s = c # r" and h: "lex_step ts s c = Done (ts', s')"
  shows "advances s s'"
proof -
  have one: "advances s (skip 1 (s\<lparr>sc_depth := d\<rparr>))" for d
    using wf_skip[of "s\<lparr>sc_depth := d\<rparr>" 1] w r by (simp add: advances_def)
  consider "s' = skip 1 s"
    | "at_lit ''//'' s" "s' = comment_end (takeWhile (\<lambda>b. b \<noteq> NL) (ahead s)) s"
    | n where "s' = comment_end (take (n + 4) (ahead s)) s"
    | t u where "is_quote c" "quoted c s = Done (t, u)" "s' = emit (tok Str t) u"
    | "lex_template ts (skip 1 s) = Done (ts', s')"
    | "lex_template (butlast ts) (skip 1 (s\<lparr>sc_depth := sc_depth s - 1\<rparr>)) = Done (ts', s')"
    | "lex_plain ts s c = Done (ts', s')"
    using h unfolding lex_step_def Let_def
    by (auto simp: andThen_Done is_quote_def split: if_splits option.splits)
  then show ?thesis
  proof cases
    case 1
    then show ?thesis using one[of "sc_depth s"] by simp
  next
    case 2
    then have "c = SL" using r by (auto simp: at_lit_def)
    with 2 r have "takeWhile (\<lambda>b. b \<noteq> NL) (ahead s) \<noteq> []" by simp
    with 2 adv_comment[OF w take_upto] show ?thesis by simp
  next
    case 3
    then show ?thesis using adv_comment[OF w refl, of "n + 4"] r by simp
  next
    case 4
    then show ?thesis using adv_quoted[OF w r 4(1,2)] by (auto simp: spec_text_def tok_def intro: adv_emit)
  next
    case 5
    have u: "advances s (skip 1 s)" using one[of "sc_depth s"] by simp
    then have "scan_ok (skip 1 s)" by (simp add: advances_def)
    then show ?thesis using adv_trans[OF u] adv_lex_template[OF _ 5] by blast
  next
    case 6
    have u: "advances s (skip 1 (s\<lparr>sc_depth := sc_depth s - 1\<rparr>))" by (rule one)
    then have "scan_ok (skip 1 (s\<lparr>sc_depth := sc_depth s - 1\<rparr>))" by (simp add: advances_def)
    then show ?thesis using adv_trans[OF u] adv_lex_template[OF _ 6] by blast
  next
    case 7
    then show ?thesis by (rule adv_lex_plain[OF w r])
  qed
qed

lemma lex_step_total: "lex_step ts s c \<noteq> OutOfFuel"
  by (auto simp: lex_step_def lex_plain_def lex_template_def quoted_def templateBody_def regex_def Let_def
      andThen_OutOfFuel split: option.splits if_splits)

section \<open>The procedures\<close>

text \<open>What a call gives: the text is the same, no byte is read twice, and the state stays good.\<close>

definition moves :: "scanner \<Rightarrow> scanner \<Rightarrow> bool" where
  "moves s s' \<longleftrightarrow> sc_src s' = sc_src s \<and> sc_pos s \<le> sc_pos s' \<and> scan_ok s'"

lemma advances_moves: "advances s u \<Longrightarrow> moves s u"
  by (simp add: advances_def moves_def)

lemma adv_moves: "advances s u \<Longrightarrow> moves u v \<Longrightarrow> advances s v"
  by (auto simp: advances_def moves_def)

lemma moves_trans: "moves s u \<Longrightarrow> moves u v \<Longrightarrow> moves s v"
  by (auto simp: moves_def)

text \<open>A result that is not out of fuel, and if it is a state, has the property.\<close>

definition ensures :: "'a scanned \<Rightarrow> ('a \<Rightarrow> bool) \<Rightarrow> bool" where
  "ensures m Q \<longleftrightarrow> (case m of Done x \<Rightarrow> Q x | Unscannable \<Rightarrow> True | OutOfFuel \<Rightarrow> False)"

lemma ens_simps [simp]:
  "ensures (Done x) Q = Q x" "ensures Unscannable Q" "\<not> ensures OutOfFuel Q"
  by (simp_all add: ensures_def)

lemma ens_if: "(b \<Longrightarrow> ensures m Q) \<Longrightarrow> (\<not> b \<Longrightarrow> ensures n Q) \<Longrightarrow> ensures (if b then m else n) Q"
  by simp

lemma ens_then: "ensures m P \<Longrightarrow> (\<And>x. P x \<Longrightarrow> ensures (f x) Q) \<Longrightarrow> ensures (andThen m f) Q"
  by (cases m) auto

lemma ens_index: "(\<And>e. str_index t x = Some e \<Longrightarrow> ensures (f e) Q) \<Longrightarrow>
    ensures (case str_index t x of None \<Rightarrow> Unscannable | Some e \<Rightarrow> f e) Q"
  by (cases "str_index t x") auto

lemma ens_weaken: "ensures m P \<Longrightarrow> (\<And>x. P x \<Longrightarrow> Q x) \<Longrightarrow> ensures m Q"
  by (cases m) auto

text \<open>The fuel a call needs: two units for every byte ahead.\<close>

definition need :: "proc \<Rightarrow> scanner \<Rightarrow> nat" where
  "need p s = 2 * length (ahead s) + (if p = JsxExpression then 0 else 1)"

definition good_call :: "nat \<Rightarrow> caller \<Rightarrow> bool" where
  "good_call n call \<longleftrightarrow>
     (\<forall>p s. scan_ok s \<longrightarrow> need p s \<le> n \<longrightarrow> (p = JsxExpression \<longrightarrow> ahead s \<noteq> []) \<longrightarrow>
       ensures (call p s) (if p = JsxExpression then advances s else moves s))"

lemma adv_ahead: "advances s u \<Longrightarrow> length (ahead u) < length (ahead s)"
  by (auto simp: advances_def scan_ok_def length_ahead)

lemma adv_skip1: "scan_ok s \<Longrightarrow> ahead s \<noteq> [] \<Longrightarrow> advances s (skip 1 s)"
  by (cases "ahead s") (auto intro: adv_skip)

lemma adv_from_update [simp]:
  "advances (s\<lparr>sc_sawJSX := b\<rparr>) u = advances s u" "advances (s\<lparr>sc_depth := d, sc_prev := p\<rparr>) u = advances s u"
  by (simp_all add: advances_def)

text \<open>A call from a state that has moved on, inside a procedure that began with \<open>Suc n\<close> fuel.\<close>

lemma call_after:
  assumes "good_call n call" "2 * length (ahead s) \<le> n" "advances s u" "p \<noteq> JsxExpression"
  shows "ensures (call p u) (advances s)"
proof -
  have "scan_ok u" "need p u \<le> n" using assms adv_ahead[OF assms(3)] by (auto simp: advances_def need_def)
  then have "ensures (call p u) (moves u)" using assms(1)[unfolded good_call_def, rule_format, of u p] assms(4) by simp
  then show ?thesis by (rule ens_weaken) (rule adv_moves[OF assms(3)])
qed

lemma call_expression:
  assumes "good_call n call" "2 * length (ahead s) \<le> n" "scan_ok s" "ahead s \<noteq> []"
  shows "ensures (call JsxExpression s) (advances s)"
  using assms(1)[unfolded good_call_def, rule_format, of s JsxExpression] assms(2-4) by (simp add: need_def)

lemma lex_step_ensures:
  "scan_ok s \<Longrightarrow> ahead s = c # r \<Longrightarrow> ensures (lex_step ts s c) (\<lambda>(ts', u). advances s u)"
  using lex_step_advances[of s c r ts] lex_step_total[of ts s c] by (cases "lex_step ts s c") auto

lemma quoted_ensures:
  "scan_ok s \<Longrightarrow> ahead s = c # r \<Longrightarrow> is_quote c \<Longrightarrow> ensures (quoted c s) (\<lambda>(t, u). advances s u)"
  using adv_quoted[of s c r] by (cases "quoted c s") (auto simp: quoted_def split: option.splits)

lemma scanJS_ensures:
  assumes g: "good_call n call" and f: "2 * length (ahead s) \<le> n" and w: "scan_ok s"
  shows "ensures (scanJS call stop ts s) (moves s)"
proof (cases "ahead s")
  case Nil
  with w show ?thesis by (simp add: scanJS_def moves_def)
next
  case (Cons c r)
  have one: "advances s (skip 1 (s\<lparr>sc_depth := d\<rparr>))" "advances s (skip 1 (s\<lparr>sc_sawJSX := True\<rparr>))" for d
    using adv_skip1[of "s\<lparr>sc_depth := d\<rparr>"] adv_skip1[of "s\<lparr>sc_sawJSX := True\<rparr>"] w Cons by simp_all
  note call = call_after[OF g f]
  have "ensures (scanJS call stop ts s) (advances s)"
    unfolding scanJS_def Cons list.case
  proof (intro ens_if)
    show "ensures (Done (emit (tok Punct ''}'') (skip 1 (s\<lparr>sc_depth := sc_depth s - 1\<rparr>)))) (advances s)"
      using one by (simp add: adv_emit_other)
    show "ensures (andThen (call (JsxTag False 0) (skip 1 (s\<lparr>sc_sawJSX := True\<rparr>)))
        (\<lambda>s'. call (ScanJS stop ts) (emit (tok Num ''jsx'') s'))) (advances s)"
      by (rule ens_then[OF call[OF one(2)]]) (simp_all add: call adv_emit_other)
    show "ensures (andThen (lex_step ts s c) (\<lambda>(ts, s'). call (ScanJS stop ts) s')) (advances s)"
      by (rule ens_then[OF lex_step_ensures[OF w Cons]]) (auto intro: call)
  qed
  then show ?thesis by (rule ens_weaken) (rule advances_moves)
qed

lemma jsxTag_ensures:
  assumes g: "good_call n call" and f: "2 * length (ahead s) \<le> n" and w: "scan_ok s"
  shows "ensures (jsxTag call closing angles s) (moves s)"
proof (cases "ahead s")
  case Nil
  then show ?thesis by (simp add: jsxTag_def)
next
  case (Cons c r)
  have one: "advances s (skip 1 s)" using adv_skip1 w Cons by simp
  have two: "at_lit ''/>'' s \<Longrightarrow> advances s (skip 2 s)"
    by (auto simp: at_lit_def dest!: prefix_length_le intro!: adv_skip w)
  have line: "advances s (skip e s)" if "at_lit ''//'' s" "str_index (ahead s) [NL] = Some e" for e
    using str_index_Some[OF that(2)] that Cons by (intro adv_skip w) (cases e; auto simp: at_lit_def)+
  have block: "advances s (skip (e + 4) s)" if "str_index (drop 2 (ahead s)) ''*/'' = Some e" for e
    using str_index_Some[OF that] by (intro adv_skip w) auto
  note call = call_after[OF g f]
  have "ensures (jsxTag call closing angles s) (advances s)"
    unfolding jsxTag_def Cons list.case unfolding Cons[symmetric]
    by (intro ens_if ens_index ens_then[OF call_expression[OF g f w]] ens_then[OF quoted_ensures[OF w Cons]] call)
      (auto simp: Cons is_quote_def simp del: One_nat_def intro: one two line block call)
  then show ?thesis by (rule ens_weaken) (rule advances_moves)
qed

lemma jsxChildren_ensures:
  assumes g: "good_call n call" and f: "2 * length (ahead s) \<le> n" and w: "scan_ok s"
  shows "ensures (jsxChildren call start s) (moves s)"
proof (cases "ahead s")
  case Nil
  then show ?thesis by (simp add: jsxChildren_def)
next
  case (Cons c r)
  let ?n = "length (takeWhile (\<lambda>b. b \<noteq> CHR ''>'') (ahead s))"
  have one: "advances s (skip 1 s)" using adv_skip1 w Cons by simp
  have close: "advances s (skip (?n + 1) s)" if "CHR ''>'' \<in> set (ahead s)"
  proof -
    have "?n < length (ahead s)" using takeWhile_short[OF that] by simp
    then show ?thesis by (intro adv_skip w) auto
  qed
  note call = call_after[OF g f]
  have ne: "ahead s \<noteq> []" using Cons by simp
  have "ensures (jsxChildren call start s) (advances s)"
    unfolding jsxChildren_def Cons list.case unfolding Cons[symmetric]
    by (intro ens_if ens_then[OF call_expression[OF g f w]] ens_then[OF call[OF one, of "JsxTag False 0"]] call)
      (auto simp: ne simp del: One_nat_def intro: one close call)
  then show ?thesis by (rule ens_weaken) (rule advances_moves)
qed

lemma jsxExpression_ensures:
  assumes g: "good_call n call" and f: "2 * length (ahead s) \<le> Suc n" and w: "scan_ok s" and a: "ahead s \<noteq> []"
  shows "ensures (jsxExpression call s) (advances s)"
proof -
  let ?u = "skip 1 (s\<lparr>sc_depth := sc_depth s + 1, sc_prev := tok NoKind []\<rparr>)"
  have u: "advances s ?u" using adv_skip1[of "s\<lparr>sc_depth := sc_depth s + 1, sc_prev := tok NoKind []\<rparr>"] w a by simp
  have "need (ScanJS (sc_depth s) []) ?u \<le> n" using f adv_ahead[OF u] by (simp add: need_def)
  then have "ensures (call (ScanJS (sc_depth s) []) ?u) (moves ?u)"
    using g[unfolded good_call_def, rule_format, of ?u "ScanJS (sc_depth s) []"] u by (simp add: advances_def)
  then have "ensures (call (ScanJS (sc_depth s) []) ?u) (advances s)"
    by (rule ens_weaken) (rule adv_moves[OF u])
  then show ?thesis unfolding jsxExpression_def
    by (rule ens_then) (simp add: advances_def)
qed

theorem run_good: "good_call n (run n)"
proof (induction n)
  case 0
  show ?case unfolding good_call_def need_def by (auto split: if_splits)
next
  case (Suc n)
  show ?case unfolding good_call_def
  proof (intro allI impI)
    fix p s
    assume w: "scan_ok s" and f: "need p s \<le> Suc n" and e: "p = JsxExpression \<longrightarrow> ahead s \<noteq> []"
    show "ensures (run (Suc n) p s) (if p = JsxExpression then advances s else moves s)"
      using scanJS_ensures[OF Suc _ w] jsxTag_ensures[OF Suc _ w] jsxChildren_ensures[OF Suc _ w]
        jsxExpression_ensures[OF Suc _ w] f e
      by (cases p) (simp_all add: need_def)
  qed
qed

lemma top_level_reads_all:
  "run n (ScanJS (-1) ts) s = Done s' \<Longrightarrow> ahead s' = []"
proof (induction n arbitrary: ts s)
  case (Suc n)
  from Suc.prems have h: "scanJS (run n) (-1) ts s = Done s'" by simp
  show ?case
  proof (cases "ahead s")
    case Nil
    with h show ?thesis by (auto simp: scanJS_def split: if_splits)
  next
    case (Cons c r)
    with h have "\<exists>ts0 u. run n (ScanJS (-1) ts0) u = Done s'"
      by (auto simp: scanJS_def closes_def andThen_Done split: if_splits)
    then show ?thesis using Suc.IH by blast
  qed
qed simp

lemma scanSource_good:
  "ensures (scanSource name src) (\<lambda>s. sc_src s = src \<and> ahead s = [] \<and> scan_ok s \<and> sc_depth s = 0)"
proof -
  define s0 where "s0 = \<lparr>sc_src = src, sc_pos = 0,
           sc_jsx = (path_ext name \<in> set [''.tsx'', ''.jsx'', ''.js'', ''.mjs'', ''.cjs'']),
           sc_prev = tok NoKind [], sc_toks = [], sc_facts = [], sc_sawJSX = False, sc_module = False,
           sc_depth = 0\<rparr>"
  let ?m = "run (2 * length (sc_src s0) + 1) (ScanJS (-1) []) s0"
  have "scan_ok s0" "need (ScanJS (-1) []) s0 \<le> 2 * length (sc_src s0) + 1" "sc_src s0 = src"
    by (auto simp: s0_def scan_ok_def need_def ahead_def)
  then have "ensures ?m (\<lambda>u. sc_src u = src \<and> scan_ok u)"
    using run_good[of "2 * length (sc_src s0) + 1", unfolded good_call_def, rule_format, of s0 "ScanJS (-1) []"]
    by (auto simp: moves_def intro: ens_weaken)
  then have "ensures ?m (\<lambda>u. sc_src u = src \<and> ahead u = [] \<and> scan_ok u)"
    using top_level_reads_all[of "2 * length (sc_src s0) + 1" "[]" s0] by (cases ?m) auto
  then show ?thesis
    unfolding scanSource_def s0_def[symmetric] scan_def by (rule ens_then) simp
qed

section \<open>The facts of a source\<close>

lemma cut_at_fact: "SP \<notin> set k \<Longrightarrow> cut_at (k @ SP # t) [SP] = (k, t, True)"
  by (simp add: cut_at_def str_index_char)

lemma spec_text_unquote:
  "spec_text src t \<Longrightarrow> \<exists>m. unquote t = Some m \<and>
     (m = ''regex'' \<or> (\<exists>q q'. is_quote q \<and> is_quote q' \<and> sublist (q # m @ [q']) src))"
  by (auto simp: spec_text_def quoted_in_def unquote_def)

definition spec_of :: "string \<Rightarrow> string \<Rightarrow> bool" where
  \<comment> \<open>a specifier the source writes\<close>
  "spec_of src sp \<longleftrightarrow>
     (\<exists>k m. k \<in> set [''import:'', ''require:''] \<and> sp = k @ m \<and>
        (m = ''regex'' \<or> (\<exists>q q'. is_quote q \<and> is_quote q' \<and> sublist (q # m @ [q']) src)))"

lemma fact_kind:
  assumes "fact_ok src f" "cut_at f [SP] = (k, t, b)"
  shows "k \<in> set [''import'', ''require'', ''jsdoc''] \<Longrightarrow> spec_text src t"
  using assms cut_at_fact[of "''import''"] cut_at_fact[of "''require''"] cut_at_fact[of "''augment''"]
    cut_at_fact[of "''jsdoc''"] cut_at_fact[of "''directive''"] cut_at_fact[of "''pragma''"]
  by (auto simp: fact_ok_def prefix_def spec_text_def)

lemma split_facts_ok:
  assumes "\<forall>f \<in> set fs. fact_ok src f" "\<forall>sp \<in> set specs. spec_of src sp"
  shows "\<exists>specs' others'. split_facts js fs specs others = Some (specs', others') \<and> (\<forall>sp \<in> set specs'. spec_of src sp)"
  using assms
proof (induction js fs specs others rule: split_facts.induct)
  case (2 js f fs specs others)
  obtain k t b where c: "cut_at f [SP] = (k, t, b)" by (cases "cut_at f [SP]") auto
  have ok: "fact_ok src f" using "2.prems" by simp
  have other: "\<forall>f \<in> set fs. fact_ok src f" using "2.prems" by simp
  show ?case
  proof (cases "k \<in> set [''import'', ''require''] \<or> k = ''jsdoc'' \<and> js")
    case True
    with fact_kind[OF ok c] have "spec_text src t" by auto
    from spec_text_unquote[OF this] obtain m where m: "unquote t = Some m"
        "m = ''regex'' \<or> (\<exists>q q'. is_quote q \<and> is_quote q' \<and> sublist (q # m @ [q']) src)" by blast
    then have "\<forall>x \<in> set [''import:'', ''require:'']. spec_of src (x @ m)" unfolding spec_of_def by blast
    with True "2.IH"(1)[OF c[symmetric] refl refl _ m(1)] "2.IH"(2)[OF c[symmetric] refl refl _ _ m(1)] other "2.prems"(2) m(1)
    show ?thesis by (auto simp: c)
  next
    case False
    with "2.IH"(3)[OF c[symmetric] refl refl] other "2.prems"(2) show ?thesis by (auto simp: c)
  qed
qed simp

section \<open>Properties\<close>

text \<open>C35.  A scan of any source ends, and one that succeeds has read the whole source: the cursor
  stands at its end, never past it, and every brace is closed.\<close>

theorem scan_total:
  "case scanSource name src of
     Done s \<Rightarrow> sc_src s = src \<and> sc_pos s = length src \<and> sc_depth s = 0
   | Unscannable \<Rightarrow> True
   | OutOfFuel \<Rightarrow> False"
  using scanSource_good[of name src]
  by (cases "scanSource name src") (auto simp: scan_ok_def ahead_def)

text \<open>C36.  The specifiers of a source are sorted and each stands in the source between quotes, or
  comes from a call of \<open>import\<close> or \<open>require\<close> on a regular expression, which reads as \<open>regex\<close>;
  the slices that cut the quotes off never leave the text, so \<open>Specifiers\<close> does not panic.\<close>

theorem specifiers_sound:
  "case specifiers sha name src of
     Specs specs others \<Rightarrow> sorted_strings specs \<and> (\<forall>sp \<in> set specs. spec_of src sp)
   | ScanError \<Rightarrow> True | SpecPanic \<Rightarrow> False | NoFuel \<Rightarrow> False"
proof (cases "scanSource name src")
  case (Done s)
  then have "\<forall>f \<in> set (sc_facts s). fact_ok src f"
    using scanSource_good[of name src] by (auto simp: scan_ok_def)
  from split_facts_ok[OF this, of "[]" "CHR ''t'' \<notin> set (path_ext name)" "[]"] show ?thesis
    by (auto simp: specifiers_def Done)
qed (use scanSource_good[of name src] in \<open>auto simp: specifiers_def\<close>)

definition demo_source :: string where
  "demo_source = ''import x from '' @ [DQ] @ ''./y'' @ [DQ, NL] @ ''const z = <a b={require('' @ [SQ] @ ''w'' @ [SQ] @ '')}/>''"

theorem specifiers_sound_witness:
  "specifiers (\<lambda>t. t) ''a.tsx'' demo_source = Specs [''import:./y'', ''require:w''] (''jsx=true module=true'' @ [NL]) \<and>
   spec_of demo_source ''import:./y''"
proof -
  have s: "specifiers (\<lambda>t. t) ''a.tsx'' demo_source = Specs [''import:./y'', ''require:w''] (''jsx=true module=true'' @ [NL])"
    by code_simp
  with specifiers_sound[where sha = "\<lambda>t. t" and name = "''a.tsx''" and src = demo_source] show ?thesis by simp
qed

text \<open>A call on a regular expression gives a specifier no module has.\<close>

lemma regex_specifier:
  "specifiers (\<lambda>t. t) ''a.ts'' ''require(/x/)'' = Specs [''require:regex''] (''jsx=false module=false'' @ [NL])"
  by code_simp

end
