(* ===== verification/PnpmLock.thy ===== *)
theory PnpmLock imports GoPath "HOL-Library.AList" begin

text \<open>
  The reader of pnpm-lock.yaml, \<open>gazelle/pnpm_lock.go\<close>: a line scanner over two YAML sections that
  looks at the indent of a line and at its text.  A Go map is an association list with distinct
  keys; a pnpmImporter is the record of its two maps.  The pointer \<open>current\<close> of the Go loop is nil or
  the importer stored under \<open>dir\<close>, so the state keeps \<open>dir\<close> and whether it is set.
\<close>

type_synonym smap = "(string \<times> string) list"

record importer =
  im_deps :: smap
  im_links :: smap

type_synonym importers = "(string \<times> importer) list"

section \<open>Lines\<close>

definition quotes :: string where
  "quotes = [SQ, DQ]"

text \<open>The indent and the text of a line, none for a blank one or a comment.\<close>

definition content_line :: "string \<Rightarrow> (nat \<times> string) option" where
  "content_line raw =
     (let line = trim_right_cut raw [SP, TAB, CR]; stripped = trim_space line in
      if stripped = [] \<or> has_prefix stripped ''#'' then None
      else Some (length line - length (trim_left_cut line [SP]), stripped))"

definition at_indent :: "nat \<Rightarrow> string \<Rightarrow> bool" where
  "at_indent n raw \<longleftrightarrow> (case content_line raw of None \<Rightarrow> False | Some (i, _) \<Rightarrow> i = n)"

definition pnpm_section :: "string list \<Rightarrow> string \<Rightarrow> string list option" where
  "pnpm_section ls name =
     (case dropWhile (\<lambda>l. trim_right_cut l [SP, TAB, CR] \<noteq> name @ '':'') ls of
        [] \<Rightarrow> None
      | _ # body \<Rightarrow> Some (takeWhile (\<lambda>l. \<not> at_indent 0 l) body))"

definition mapping_key :: "string \<Rightarrow> string" where
  "mapping_key stripped =
     (if has_suffix stripped '':'' then trim_suffix stripped '':''
      else let (before, _, found) = cut_at stripped '': '' in if found then before else [])"

section \<open>Package keys\<close>

definition parse_package_key :: "string \<Rightarrow> string \<times> string" where
  "parse_package_key key0 =
     (let key1 = trim_space key0;
          key2 = (if 2 \<le> length key1 \<and> has_prefix key1 [SQ] \<and> has_suffix key1 [SQ]
                  then butlast (tl key1) else key1);
          key3 = trim_prefix key2 ''/'';
          key = (case str_index key3 ''('' of Some paren \<Rightarrow> take paren key3 | None \<Rightarrow> key3)
      in if has_prefix key ''@'' then
           (case str_index key ''/'' of
              None \<Rightarrow> ([], [])
            | Some slash \<Rightarrow>
                let tail = drop (slash + 1) key in
                (case str_last_index tail ''@'' of
                   None \<Rightarrow> ([], [])
                 | Some at \<Rightarrow>
                     if at = 0 then ([], []) else (take (slash + 1 + at) key, drop (at + 1) tail)))
         else
           (case str_last_index key ''@'' of
              None \<Rightarrow> ([], [])
            | Some at \<Rightarrow>
                if at = 0 \<or> at = length key - 1 then ([], []) else (take at key, drop (at + 1) key)))"

definition file_tarball :: "string \<Rightarrow> bool" where
  "file_tarball version \<longleftrightarrow>
     has_prefix version ''file:'' \<and> (has_suffix version ''.tgz'' \<or> has_suffix version ''.tar.gz'')"

definition alias_target :: "string \<Rightarrow> string" where
  "alias_target version0 =
     (if has_prefix version0 ''file:'' then []
      else
        let version = (case str_index version0 ''('' of Some paren \<Rightarrow> take paren version0 | None \<Rightarrow> version0) in
        if length version < 2 \<or> str_index (drop 1 version) ''@'' = None then []
        else let (name, resolved) = parse_package_key version in
             if name = [] \<or> resolved = [] then [] else name @ ''@'' @ resolved)"

section \<open>Importers\<close>

record import_state =
  is_importers :: importers
  is_dir :: string
  is_current :: bool  \<comment> \<open>\<open>current\<close> is not nil: it is the importer at \<open>is_dir\<close>\<close>
  is_section :: string
  is_dep :: string

definition current_importer :: "import_state \<Rightarrow> importer" where
  "current_importer st =
     (case map_of (is_importers st) (is_dir st) of
        Some imp \<Rightarrow> imp | None \<Rightarrow> \<lparr>im_deps = [], im_links = []\<rparr>)"

definition set_current :: "importer \<Rightarrow> import_state \<Rightarrow> import_state" where
  "set_current imp st = st\<lparr>is_importers := AList.update (is_dir st) imp (is_importers st)\<rparr>"

definition record_dep :: "string \<Rightarrow> string \<Rightarrow> import_state \<Rightarrow> import_state" where
  "record_dep name value0 st =
     (let v = trim_cut (trim_space value0) quotes; imp = current_importer st in
      if name = [] \<or> v = [] \<or> has_prefix v ''file:'' \<and> \<not> file_tarball v then st
      else case cut_prefix v ''link:'' of
        Some target \<Rightarrow>
          (let to = path_clean (path_join [is_dir st, target]) in
           if to \<noteq> ''.'' \<and> \<not> has_prefix to ''..''
           then set_current (imp\<lparr>im_links := AList.update name to (im_links imp)\<rparr>) st else st)
      | None \<Rightarrow> set_current (imp\<lparr>im_deps := AList.update name v (im_deps imp)\<rparr>) st)"

text \<open>A line at the indent of an importer, of a section and of a dependency.\<close>

definition importer_line :: "string \<Rightarrow> import_state \<Rightarrow> import_state" where
  "importer_line stripped st =
     (let key = mapping_key stripped in
      if key = [] then st
      else
        let dir0 = trim_cut key quotes; dir = (if dir0 = ''.'' then [] else dir0) in
        set_current \<lparr>im_deps = [], im_links = []\<rparr>
          (st\<lparr>is_dir := dir, is_current := True, is_section := [], is_dep := []\<rparr>))"

definition entry_line :: "string \<Rightarrow> import_state \<Rightarrow> import_state" where
  "entry_line stripped st0 =
     (let st = st0\<lparr>is_dep := []\<rparr>; (name, tail, found) = cut_at stripped '':'' in
      if found \<and> contains_str tail ''{'' then
        (let (_, after, ok) = cut_at tail ''version:'' in
         if \<not> ok then st
         else record_dep (trim_cut (trim_space name) quotes) (fst (cut_at (fst (cut_at after ''}'')) '','')) st)
      else if has_suffix stripped '':'' then st\<lparr>is_dep := trim_cut (trim_suffix stripped '':'') quotes\<rparr>
      else st)"

definition version_line :: "string \<Rightarrow> import_state \<Rightarrow> import_state" where
  "version_line stripped st =
     (let (k, v, found) = cut_at stripped '':'' in
      if found \<and> trim_space k = ''version'' then record_dep (is_dep st) v st else st)"

definition dep_sections :: "string list" where
  "dep_sections = [''dependencies'', ''devDependencies'', ''optionalDependencies'']"

definition import_step :: "import_state \<Rightarrow> string \<Rightarrow> import_state" where
  "import_step st raw =
     (case content_line raw of
        None \<Rightarrow> st
      | Some (indent, stripped) \<Rightarrow>
          if indent = 2 then importer_line stripped st
          else if \<not> is_current st then st
          else if indent = 4 \<and> has_suffix stripped '':'' \<and> \<not> contains_str (butlast stripped) '':'' then
            st\<lparr>is_section := trim_suffix stripped '':'', is_dep := []\<rparr>
          else if is_section st \<notin> set dep_sections then st
          else if indent = 6 then entry_line stripped st
          else if indent = 8 \<and> is_dep st \<noteq> [] then version_line stripped st
          else st)"

definition no_importers :: import_state where
  "no_importers = \<lparr>is_importers = [], is_dir = [], is_current = False, is_section = [], is_dep = []\<rparr>"

definition parse_importers :: "string list \<Rightarrow> importers" where
  "parse_importers ls =
     (case pnpm_section ls ''importers'' of
        None \<Rightarrow> []
      | Some body \<Rightarrow> is_importers (foldl import_step no_importers body))"

section \<open>Names\<close>

definition section_names :: "string list \<Rightarrow> string \<Rightarrow> string list" where
  "section_names ls sec =
     (case pnpm_section ls sec of
        None \<Rightarrow> []
      | Some body \<Rightarrow>
          List.map_filter (\<lambda>raw.
            case content_line raw of
              None \<Rightarrow> None
            | Some (indent, stripped) \<Rightarrow>
                if indent \<noteq> 2 then None
                else let key = mapping_key stripped in
                  if key = [] then None
                  else let (name, version) = parse_package_key key in
                    if name \<noteq> [] \<and> version \<noteq> [] then Some name else None) body)"

definition links_and_aliases :: "importers \<Rightarrow> string list \<times> smap" where
  "links_and_aliases imps =
     (concat (map (\<lambda>(_, imp). map fst (im_links imp)) imps),
      fold (\<lambda>(name, version) m. if alias_target version \<noteq> [] then AList.update name (alias_target version) m else m)
        (concat (map (\<lambda>(_, imp). im_deps imp) imps)) [])"

definition lock_names :: "string list \<Rightarrow> string list" where
  "lock_names ls =
     (let (links, aliases) = links_and_aliases (parse_importers ls) in
      section_names ls ''packages'' @ section_names ls ''snapshots'' @ links @ map fst aliases)"


section \<open>Lines of a well-formed lockfile\<close>

definition solid :: "char \<Rightarrow> bool" where
  \<comment> \<open>a printable ASCII byte that is no space\<close>
  "solid c \<longleftrightarrow> 33 \<le> (of_char c :: nat) \<and> (of_char c :: nat) \<le> 126"

lemma solid_not_space:
  assumes "solid c" "r \<in> set space_runes"
  shows "\<not> prefix r (c # s)" "\<not> prefix (rev r) (c # s)"
  using assms unfolding space_runes_def solid_def by auto

lemma strip_front_solid: "solid c \<Longrightarrow> strip_front space_runes (c # s) = c # s"
  by (rule strip_front_id) (auto simp: solid_not_space)

lemma strip_back_solid: "solid c \<Longrightarrow> strip_front (map rev space_runes) (c # s) = c # s"
  by (rule strip_front_id) (auto simp: solid_not_space)

lemma trim_space_solid: "s \<noteq> [] \<Longrightarrow> solid (hd s) \<Longrightarrow> solid (last s) \<Longrightarrow> trim_space s = s"
proof -
  assume s: "s \<noteq> []" "solid (hd s)" "solid (last s)"
  then have "strip_front space_runes s = s" using strip_front_solid[of "hd s" "tl s"] by simp
  moreover have r: "rev s = last s # rev (butlast s)" using s(1) by (cases s rule: rev_cases) auto
  have "strip_front (map rev space_runes) (rev s) = rev s" unfolding r by (rule strip_back_solid[OF s(3)])
  ultimately show ?thesis by (simp add: trim_space_def)
qed

lemma strip_front_spaces: "strip_front space_runes (replicate n SP @ s) = strip_front space_runes s"
proof (induction n)
  case (Suc n)
  have f: "find (\<lambda>r. r \<noteq> [] \<and> prefix r (SP # x)) space_runes = Some [SP]" for x
    by (simp add: space_runes_def)
  show ?case by (subst strip_front.simps) (simp add: f Suc)
qed simp

lemma solid_not_cut: "solid c \<Longrightarrow> c \<notin> {SP, TAB, CR}"
  by (auto simp: solid_def)

lemma content_line_indent:
  assumes "s \<noteq> []" "solid (hd s)" "solid (last s)" "hd s \<noteq> CHR ''#''"
  shows "content_line (replicate n SP @ s) = Some (n, s)"
proof -
  have r: "trim_right_cut (replicate n SP @ s) [SP, TAB, CR] = replicate n SP @ s"
    using assms(1,3) solid_not_cut[of "last s"] by (cases s rule: rev_cases) (auto simp: trim_right_cut_def)
  have t: "trim_space (replicate n SP @ s) = s"
    using trim_space_solid[OF assms(1-3)] by (simp add: trim_space_def strip_front_spaces)
  have l: "trim_left_cut (replicate n SP @ s) [SP] = s"
    using assms(1,2) solid_not_cut[of "hd s"] by (cases s) (auto simp: trim_left_cut_def dropWhile_append)
  have h: "\<not> has_prefix s ''#''" using assms(1,4) by (cases s) auto
  show ?thesis using assms(1) h by (simp add: content_line_def r t l Let_def)
qed

section \<open>Rendering\<close>

text \<open>The block form pnpm writes: an entry is a version or a link, given with the text that declared it.\<close>

datatype dep = Resolved string | Linked string

type_synonym entry = "string \<times> string \<times> dep"

fun show_dep :: "dep \<Rightarrow> string" where
  "show_dep (Resolved v) = v"
| "show_dep (Linked t) = ''link:'' @ t"

definition show_name :: "string \<Rightarrow> string" where
  "show_name n = (if has_prefix n ''@'' then [SQ] @ n @ [SQ] else n)"

definition line_at :: "nat \<Rightarrow> string \<Rightarrow> string" where
  "line_at n s = replicate n SP @ s"

fun render_entry :: "entry \<Rightarrow> string list" where
  "render_entry (name, spec, d) =
     [line_at 6 (show_name name @ '':''), line_at 8 (''specifier: '' @ spec), line_at 8 (''version: '' @ show_dep d)]"

fun render_section :: "string \<times> entry list \<Rightarrow> string list" where
  "render_section (sec, es) = line_at 4 (sec @ '':'') # concat (map render_entry es)"

fun render_importer :: "string \<times> (string \<times> entry list) list \<Rightarrow> string list" where
  "render_importer (dir, secs) =
     line_at 2 ((if dir = [] then ''.'' else dir) @ '':'') # concat (map render_section secs)"

definition word_char :: "char \<Rightarrow> bool" where
  "word_char c \<longleftrightarrow> solid c \<and> c \<notin> set [CHR '':'', SQ, DQ, CHR ''#'']"

definition word :: "string \<Rightarrow> bool" where
  "word s \<longleftrightarrow> s \<noteq> [] \<and> (\<forall>c \<in> set s. word_char c)"

definition value_text :: "string \<Rightarrow> bool" where
  "value_text s \<longleftrightarrow> s \<noteq> [] \<and> (\<forall>c \<in> set s. solid c \<and> c \<noteq> SQ \<and> c \<noteq> DQ)"

text \<open>Where a link from an importer leads.\<close>

definition link_to :: "string \<Rightarrow> string \<Rightarrow> string" where
  "link_to dir target = path_clean (path_join [dir, target])"

fun entry_ok :: "string \<Rightarrow> entry \<Rightarrow> bool" where
  "entry_ok dir (name, spec, Resolved v) \<longleftrightarrow> word name \<and> value_text spec \<and> value_text v \<and>
     \<not> has_prefix v ''link:'' \<and> (has_prefix v ''file:'' \<longrightarrow> file_tarball v)"
| "entry_ok dir (name, spec, Linked t) \<longleftrightarrow> word name \<and> value_text spec \<and> (\<forall>c \<in> set t. solid c \<and> c \<noteq> SQ \<and> c \<noteq> DQ) \<and>
     link_to dir t \<noteq> ''.'' \<and> \<not> has_prefix (link_to dir t) ''..''"

definition importer_ok :: "string \<times> (string \<times> entry list) list \<Rightarrow> bool" where
  "importer_ok p \<longleftrightarrow>
     (fst p = [] \<or> word (fst p) \<and> fst p \<noteq> ''.'') \<and>
     (\<forall>(sec, es) \<in> set (snd p). sec \<in> set dep_sections \<and> (\<forall>e \<in> set es. entry_ok (fst p) e)) \<and>
     distinct (map fst (concat (map snd (snd p))))"

text \<open>What the reader makes of it.\<close>

definition add_entry :: "string \<Rightarrow> importer \<Rightarrow> entry \<Rightarrow> importer" where
  "add_entry dir imp e =
     (case e of (name, _, Resolved v) \<Rightarrow> imp\<lparr>im_deps := im_deps imp @ [(name, v)]\<rparr>
      | (name, _, Linked t) \<Rightarrow> imp\<lparr>im_links := im_links imp @ [(name, link_to dir t)]\<rparr>)"

definition importer_of :: "string \<Rightarrow> entry list \<Rightarrow> importer" where
  "importer_of dir es = foldl (add_entry dir) \<lparr>im_deps = [], im_links = []\<rparr> es"

section \<open>Reading what was rendered\<close>

definition reading :: "importers \<Rightarrow> string \<Rightarrow> importer \<Rightarrow> string \<Rightarrow> string \<Rightarrow> import_state" where
  "reading pre dir imp sec dep =
     \<lparr>is_importers = pre @ [(dir, imp)], is_dir = dir, is_current = True, is_section = sec, is_dep = dep\<rparr>"

lemma word_ends: "word s \<Longrightarrow> s \<noteq> [] \<and> word_char (hd s) \<and> word_char (last s)"
  by (auto simp: word_def)

lemma word_solid: "word_char c \<Longrightarrow> solid c"
  by (simp add: word_char_def)

lemma solid_consts: "solid (CHR '':'')" "solid SQ" "solid (CHR ''s'')" "solid (CHR ''v'')" "solid (CHR ''l'')" "solid (CHR ''.'')"
  by (auto simp: solid_def)

lemma trim_cut_plain: "s \<noteq> [] \<Longrightarrow> hd s \<notin> set cs \<Longrightarrow> last s \<notin> set cs \<Longrightarrow> trim_cut s cs = s"
proof -
  assume s: "s \<noteq> []" "hd s \<notin> set cs" "last s \<notin> set cs"
  have "trim_left_cut s cs = s" using s(1,2) by (cases s) (auto simp: trim_left_cut_def)
  moreover have "trim_right_cut s cs = s"
    using s(1,3) by (cases s rule: rev_cases) (auto simp: trim_right_cut_def)
  ultimately show ?thesis by (simp add: trim_cut_def)
qed

lemma trim_cut_show_name: "word n \<Longrightarrow> trim_cut (show_name n) quotes = n"
proof -
  assume w: "word n"
  have q: "hd n \<notin> set quotes" "last n \<notin> set quotes" "n \<noteq> []"
    using word_ends[OF w] by (auto simp: word_char_def quotes_def)
  have "trim_left_cut (SQ # n @ [SQ]) quotes = n @ [SQ]"
    using q by (cases n) (auto simp: trim_left_cut_def quotes_def)
  moreover have "trim_right_cut (n @ [SQ]) quotes = n"
    using q by (cases n rule: rev_cases) (auto simp: trim_right_cut_def quotes_def)
  ultimately have "trim_cut (SQ # n @ [SQ]) quotes = trim_cut n quotes"
    using trim_cut_plain[OF q(3,1,2)] by (simp add: trim_cut_def)
  then show ?thesis using trim_cut_plain[OF q(3,1,2)] by (simp add: show_name_def)
qed

lemma show_name_ends: "word n \<Longrightarrow> show_name n \<noteq> [] \<and> solid (hd (show_name n)) \<and> hd (show_name n) \<noteq> CHR ''#'' \<and> CHR '':'' \<notin> set (show_name n)"
  using word_ends[of n] by (auto simp: show_name_def word_char_def solid_consts word_def)

lemma cut_colon: "CHR '':'' \<notin> set k \<Longrightarrow> cut_at (k @ CHR '':'' # t) '':'' = (k, t, True)"
  by (simp add: cut_at_def str_index_char)

lemma entry_step:
  assumes "word name" "sec \<in> set dep_sections"
  shows "import_step (reading pre dir imp sec dep) (line_at 6 (show_name name @ '':'')) = reading pre dir imp sec name"
proof -
  have c: "content_line (line_at 6 (show_name name @ '':'')) = Some (6, show_name name @ '':'')"
    unfolding line_at_def using show_name_ends[OF assms(1)] by (intro content_line_indent) (auto simp: solid_consts)
  have "entry_line (show_name name @ '':'') (reading pre dir imp sec dep) = reading pre dir imp sec name"
    using show_name_ends[OF assms(1)] trim_cut_show_name[OF assms(1)]
    by (simp add: entry_line_def cut_colon[where t = "[]", simplified] reading_def trim_suffix_append)
  then show ?thesis using assms(2) by (simp add: import_step_def c reading_def)
qed

lemma line_at_8:
  assumes "value_text v" "k \<noteq> []" "solid (hd k)" "hd k \<noteq> CHR ''#''"
  shows "content_line (line_at 8 (k @ v)) = Some (8, k @ v)"
  unfolding line_at_def using assms by (intro content_line_indent) (auto simp: value_text_def)

lemma specifier_step:
  assumes "value_text v" "sec \<in> set dep_sections"
  shows "import_step (reading pre dir imp sec dep) (line_at 8 (''specifier: '' @ v)) = reading pre dir imp sec dep"
proof -
  have c: "content_line (line_at 8 (''specifier: '' @ v)) = Some (8, ''specifier: '' @ v)"
    using assms(1) by (intro line_at_8) (auto simp: solid_consts)
  have k: "cut_at (''specifier: '' @ v) '':'' = (''specifier'', SP # v, True)"
    using cut_colon[of "''specifier''" "SP # v"] by simp
  have "trim_space ''specifier'' = ''specifier''" by (rule trim_space_solid) (auto simp: solid_def)
  then have "version_line (''specifier: '' @ v) st = st" for st unfolding version_line_def k by simp
  then show ?thesis using assms(2)
    unfolding import_step_def c option.case prod.case by (simp add: reading_def)
qed

lemma current_reading: "dir \<notin> fst ` set pre \<Longrightarrow> current_importer (reading pre dir imp sec dep) = imp"
  using map_of_eq_None_iff[of pre dir] by (simp add: current_importer_def reading_def map_add_def)

lemma update_last: "dir \<notin> fst ` set pre \<Longrightarrow> AList.update dir x (pre @ [(dir, y)]) = pre @ [(dir, x)]"
  by (induction pre) auto

lemma update_new: "k \<notin> fst ` set m \<Longrightarrow> AList.update k v m = m @ [(k, v)]"
  by (induction m) auto

lemma set_current_reading:
  "dir \<notin> fst ` set pre \<Longrightarrow> set_current imp' (reading pre dir imp sec dep) = reading pre dir imp' sec dep"
  by (simp add: set_current_def reading_def update_last)

definition keys_of :: "importer \<Rightarrow> string set" where
  "keys_of imp = fst ` set (im_deps imp) \<union> fst ` set (im_links imp)"

lemma record_reading:
  assumes "entry_ok dir (name, spec, d)" "dir \<notin> fst ` set pre" "name \<notin> keys_of imp"
    "trim_cut (trim_space v) quotes = show_dep d"
  shows "record_dep name v (reading pre dir imp sec name) = reading pre dir (add_entry dir imp (name, spec, d)) sec name"
proof -
  have n: "name \<noteq> []" using assms(1) by (cases d) (auto simp: word_def)
  have dir: "is_dir (reading pre dir imp sec name) = dir" by (simp add: reading_def)
  show ?thesis
  proof (cases d)
    case (Resolved x)
    then have x: "x \<noteq> []" "\<not> (has_prefix x ''file:'' \<and> \<not> file_tarball x)" "cut_prefix x ''link:'' = None"
      using assms(1) by (auto simp: value_text_def cut_prefix_None)
    have "AList.update name x (im_deps imp) = im_deps imp @ [(name, x)]"
      using assms(3) by (intro update_new) (simp add: keys_of_def)
    with x n Resolved assms(2,4) show ?thesis
      by (auto simp: record_dep_def Let_def current_reading set_current_reading add_entry_def)
  next
    case (Linked t)
    have l: "cut_prefix (''link:'' @ t) ''link:'' = Some t" by (simp add: cut_prefix_Some)
    have f: "\<not> has_prefix (''link:'' @ t) ''file:''" by simp
    have to: "link_to dir t \<noteq> ''.''" "\<not> has_prefix (link_to dir t) ''..''" using assms(1) Linked by auto
    have "AList.update name (link_to dir t) (im_links imp) = im_links imp @ [(name, link_to dir t)]"
      using assms(3) by (intro update_new) (simp add: keys_of_def)
    with n l f to Linked assms(2,4) show ?thesis
      unfolding record_dep_def assms(4) dir by (simp add: current_reading set_current_reading add_entry_def link_to_def del: append.simps(2))
  qed
qed


lemma show_dep_ends:
  assumes "entry_ok dir (name, spec, d)"
  shows "show_dep d \<noteq> [] \<and> (\<forall>c \<in> set (show_dep d). solid c \<and> c \<noteq> SQ \<and> c \<noteq> DQ)"
proof (cases d)
  case (Resolved x)
  then show ?thesis using assms by (auto simp: value_text_def)
next
  case (Linked t)
  have "\<forall>c \<in> set ''link:''. solid c \<and> c \<noteq> SQ \<and> c \<noteq> DQ" by (auto simp: solid_def)
  then show ?thesis using assms Linked by auto
qed

lemma version_step:
  assumes e: "entry_ok dir (name, spec, d)" and "dir \<notin> fst ` set pre" "name \<notin> keys_of imp" "sec \<in> set dep_sections"
  shows "import_step (reading pre dir imp sec name) (line_at 8 (''version: '' @ show_dep d)) =
    reading pre dir (add_entry dir imp (name, spec, d)) sec name"
proof -
  let ?v = "show_dep d"
  note v = show_dep_ends[OF e]
  have c: "content_line (line_at 8 (''version: '' @ ?v)) = Some (8, ''version: '' @ ?v)"
    using v by (intro line_at_8) (auto simp: solid_consts value_text_def)
  have k: "cut_at (''version: '' @ ?v) '':'' = (''version'', SP # ?v, True)"
    using cut_colon[of "''version''" "SP # ?v"] by simp
  have tv: "trim_space ''version'' = ''version''" by (rule trim_space_solid) (auto simp: solid_def)
  have t: "trim_space (SP # ?v) = ?v"
    using trim_space_solid[of ?v] v strip_front_spaces[of 1 ?v] by (simp add: trim_space_def)
  have q: "trim_cut ?v quotes = ?v" using v by (intro trim_cut_plain) (auto simp: quotes_def)
  have n: "name \<noteq> []" using e by (cases d) (auto simp: word_def)
  have "version_line (''version: '' @ ?v) (reading pre dir imp sec name) =
      record_dep name (SP # ?v) (reading pre dir imp sec name)"
    unfolding version_line_def k Let_def prod.case tv by (simp add: reading_def)
  also have "\<dots> = reading pre dir (add_entry dir imp (name, spec, d)) sec name"
    by (rule record_reading) (use assms t q in auto)
  finally show ?thesis using assms(4) n
    unfolding import_step_def c option.case prod.case by (simp add: reading_def)
qed

lemma entry_words: "entry_ok dir (name, spec, d) \<Longrightarrow> word name \<and> value_text spec"
  by (cases d) auto

lemma read_entry:
  assumes e: "entry_ok dir (name, spec, d)" and "dir \<notin> fst ` set pre" "name \<notin> keys_of imp" "sec \<in> set dep_sections"
  shows "foldl import_step (reading pre dir imp sec dep) (render_entry (name, spec, d)) =
    reading pre dir (add_entry dir imp (name, spec, d)) sec name"
  using entry_words[OF e] assms(4)
  by (simp only: render_entry.simps foldl.simps entry_step specifier_step version_step[OF assms])

lemma keys_add_entry: "keys_of (add_entry dir imp (name, spec, d)) = insert name (keys_of imp)"
  by (cases d) (auto simp: keys_of_def add_entry_def)

lemma read_entries:
  "\<forall>e \<in> set es. entry_ok dir e \<Longrightarrow> dir \<notin> fst ` set pre \<Longrightarrow> sec \<in> set dep_sections \<Longrightarrow>
     distinct (map fst es) \<Longrightarrow> keys_of imp \<inter> fst ` set es = {} \<Longrightarrow>
     \<exists>dep'. foldl import_step (reading pre dir imp sec dep) (concat (map render_entry es)) =
       reading pre dir (foldl (add_entry dir) imp es) sec dep'"
proof (induction es arbitrary: imp dep)
  case Nil
  then show ?case by auto
next
  case (Cons e es)
  obtain name spec d where e: "e = (name, spec, d)" by (cases e) auto
  have "name \<notin> keys_of imp" using Cons.prems(5) e by auto
  with Cons.prems e have r: "foldl import_step (reading pre dir imp sec dep) (render_entry e) =
      reading pre dir (add_entry dir imp e) sec name"
    using read_entry[of dir name spec d pre imp sec dep] by simp
  have "keys_of (add_entry dir imp e) \<inter> fst ` set es = {}"
    using Cons.prems(4,5) by (auto simp: e keys_add_entry)
  then have "\<exists>dep'. foldl import_step (reading pre dir (add_entry dir imp e) sec name) (concat (map render_entry es)) =
       reading pre dir (foldl (add_entry dir) (add_entry dir imp e) es) sec dep'"
    using Cons.IH Cons.prems by simp
  then show ?case by (simp add: r)
qed

lemma dep_section_word: "sec \<in> set dep_sections \<Longrightarrow> word sec"
  by (auto simp: dep_sections_def word_def word_char_def solid_def)

lemma content_line_word:
  assumes "word s"
  shows "content_line (line_at n (s @ '':'')) = Some (n, s @ '':'')"
  using word_ends[OF assms] unfolding line_at_def
  by (intro content_line_indent) (auto simp: solid_consts word_char_def)

lemma section_step:
  assumes "sec \<in> set dep_sections"
  shows "import_step (reading pre dir imp sec0 dep) (line_at 4 (sec @ '':'')) = reading pre dir imp sec []"
proof -
  have w: "word sec" by (rule dep_section_word[OF assms])
  then have "\<not> contains_str (butlast (sec @ '':'')) '':''"
    using set_mono_sublist by (fastforce simp: word_def word_char_def)
  then show ?thesis
    unfolding import_step_def content_line_word[OF w] option.case prod.case
    by (simp add: reading_def trim_suffix_append)
qed

lemma keys_foldl_entries: "keys_of (foldl (add_entry dir) imp es) = keys_of imp \<union> fst ` set es"
proof (induction es arbitrary: imp)
  case (Cons e es)
  obtain name spec d where e: "e = (name, spec, d)" by (cases e) auto
  show ?case by (simp add: Cons e keys_add_entry)
qed simp

lemma read_sections:
  "\<forall>(sec, es) \<in> set secs. sec \<in> set dep_sections \<and> (\<forall>e \<in> set es. entry_ok dir e) \<Longrightarrow>
     dir \<notin> fst ` set pre \<Longrightarrow> distinct (map fst (concat (map snd secs))) \<Longrightarrow>
     keys_of imp \<inter> fst ` set (concat (map snd secs)) = {} \<Longrightarrow>
     \<exists>sec' dep'. foldl import_step (reading pre dir imp sec0 dep) (concat (map render_section secs)) =
       reading pre dir (foldl (add_entry dir) imp (concat (map snd secs))) sec' dep'"
proof (induction secs arbitrary: imp sec0 dep)
  case Nil
  then show ?case by auto
next
  case (Cons p secs)
  obtain sec es where p: "p = (sec, es)" by (cases p)
  have s: "sec \<in> set dep_sections" using Cons.prems(1) p by auto
  have "\<exists>dep'. foldl import_step (reading pre dir imp sec []) (concat (map render_entry es)) =
       reading pre dir (foldl (add_entry dir) imp es) sec dep'"
    using Cons.prems p s by (intro read_entries) auto
  then obtain dep' where r: "foldl import_step (reading pre dir imp sec0 dep) (render_section p) =
       reading pre dir (foldl (add_entry dir) imp es) sec dep'"
    by (auto simp: p section_step[OF s])
  have "fst ` set es \<inter> fst ` set (concat (map snd secs)) = {}"
    using Cons.prems(3) by (simp add: p)
  moreover have "keys_of imp \<inter> fst ` set (concat (map snd secs)) = {}"
    using Cons.prems(4) by (simp add: p Int_Un_distrib image_Un)
  ultimately have "keys_of (foldl (add_entry dir) imp es) \<inter> fst ` set (concat (map snd secs)) = {}"
    unfolding keys_foldl_entries by blast
  then have "\<exists>sec' dep''. foldl import_step (reading pre dir (foldl (add_entry dir) imp es) sec dep') (concat (map render_section secs)) =
      reading pre dir (foldl (add_entry dir) (foldl (add_entry dir) imp es) (concat (map snd secs))) sec' dep''"
    using Cons.prems p by (intro Cons.IH) auto
  moreover have "concat (map render_section (p # secs)) = render_section p @ concat (map render_section secs)"
    "concat (map snd (p # secs)) = es @ concat (map snd secs)" by (simp_all add: p)
  ultimately show ?case by (simp only: foldl_append r)
qed

definition dir_ok :: "string \<Rightarrow> bool" where
  "dir_ok dir \<longleftrightarrow> dir = [] \<or> word dir \<and> dir \<noteq> ''.''"

lemma importer_step:
  assumes "dir_ok dir" "is_importers st = pre" "dir \<notin> fst ` set pre"
  shows "import_step st (line_at 2 ((if dir = [] then ''.'' else dir) @ '':'')) =
    reading pre dir \<lparr>im_deps = [], im_links = []\<rparr> [] []"
proof -
  let ?d = "if dir = [] then ''.'' else dir"
  have w: "word ?d" using assms(1) by (auto simp: dir_ok_def word_def word_char_def solid_def)
  have k: "mapping_key (?d @ '':'') = ?d" by (simp add: mapping_key_def trim_suffix_append)
  have t: "trim_cut ?d quotes = ?d"
    using word_ends[OF w] by (intro trim_cut_plain) (auto simp: quotes_def word_char_def)
  have d: "(if ?d = ''.'' then [] else ?d) = dir" using assms(1) by (auto simp: dir_ok_def)
  have n: "?d \<noteq> []" using word_ends[OF w] by blast
  have "importer_line (?d @ '':'') st = set_current \<lparr>im_deps = [], im_links = []\<rparr>
      (st\<lparr>is_dir := dir, is_current := True, is_section := [], is_dep := []\<rparr>)"
    unfolding importer_line_def k Let_def t d using n by (simp only: if_False)
  also have "\<dots> = reading pre dir \<lparr>im_deps = [], im_links = []\<rparr> [] []"
    using assms(2) update_new[OF assms(3)] by (cases st) (simp add: set_current_def reading_def)
  finally show ?thesis
    unfolding import_step_def content_line_word[OF w] option.case prod.case by (simp only: if_True refl)
qed

lemma read_importer:
  assumes "importer_ok (dir, secs)" "is_importers st = pre" "dir \<notin> fst ` set pre"
  shows "is_importers (foldl import_step st (render_importer (dir, secs))) =
    pre @ [(dir, importer_of dir (concat (map snd secs)))]"
proof -
  have d: "dir_ok dir" using assms(1) by (auto simp: importer_ok_def dir_ok_def)
  have "\<exists>sec' dep'. foldl import_step (reading pre dir \<lparr>im_deps = [], im_links = []\<rparr> [] []) (concat (map render_section secs)) =
      reading pre dir (importer_of dir (concat (map snd secs))) sec' dep'"
    unfolding importer_of_def using assms(1,3) by (intro read_sections) (auto simp: importer_ok_def keys_of_def)
  then show ?thesis
    by (auto simp: importer_step[OF d assms(2,3), unfolded append.simps] reading_def simp del: append.simps)
qed

lemma read_importers:
  "\<forall>p \<in> set imps. importer_ok p \<Longrightarrow> distinct (map fst imps) \<Longrightarrow> fst ` set (is_importers st) \<inter> fst ` set imps = {} \<Longrightarrow>
     is_importers (foldl import_step st (concat (map render_importer imps))) =
       is_importers st @ map (\<lambda>(dir, secs). (dir, importer_of dir (concat (map snd secs)))) imps"
proof (induction imps arbitrary: st)
  case (Cons p imps)
  obtain dir secs where p: "p = (dir, secs)" by (cases p)
  let ?st = "foldl import_step st (render_importer p)"
  have h: "importer_ok (dir, secs)" "dir \<notin> fst ` set (is_importers st)" using Cons.prems(1,3) p by auto
  have r: "is_importers ?st = is_importers st @ [(dir, importer_of dir (concat (map snd secs)))]"
    unfolding p by (rule read_importer[OF h(1) refl h(2)])
  have "fst ` set (is_importers ?st) \<inter> fst ` set imps = {}"
    unfolding r using Cons.prems(2,3) by (auto simp: p)
  then have "is_importers (foldl import_step ?st (concat (map render_importer imps))) =
      is_importers ?st @ map (\<lambda>(dir, secs). (dir, importer_of dir (concat (map snd secs)))) imps"
    using Cons.prems(1,2) by (intro Cons.IH) auto
  moreover have "concat (map render_importer (p # imps)) = render_importer p @ concat (map render_importer imps)" by simp
  ultimately show ?case unfolding r by (simp only: foldl_append) (simp add: p)
qed simp

lemma rendered_indented:
  assumes "importer_ok p" "l \<in> set (render_importer p)"
  shows "\<not> at_indent 0 l"
proof -
  obtain dir secs where p: "p = (dir, secs)" by (cases p)
  have d: "dir_ok dir" using assms(1) by (auto simp: p importer_ok_def dir_ok_def)
  then have w: "word (if dir = [] then ''.'' else dir)"
    by (auto simp: dir_ok_def word_def word_char_def solid_def)
  have entry: "\<not> at_indent 0 x" if e: "entry_ok dir e" "x \<in> set (render_entry e)" for e x
  proof -
    obtain name spec dp where n: "e = (name, spec, dp)" by (cases e) auto
    have "content_line (line_at 6 (show_name name @ '':'')) = Some (6, show_name name @ '':'')"
      unfolding line_at_def using show_name_ends[of name] entry_words[of dir name spec dp] e(1) n
      by (intro content_line_indent) (auto simp: solid_consts)
    moreover have "content_line (line_at 8 (''specifier: '' @ spec)) = Some (8, ''specifier: '' @ spec)"
      using entry_words[of dir name spec dp] e(1) n by (intro line_at_8) (auto simp: solid_consts)
    moreover have "content_line (line_at 8 (''version: '' @ show_dep dp)) = Some (8, ''version: '' @ show_dep dp)"
      using show_dep_ends[of dir name spec dp] e(1) n by (intro line_at_8) (auto simp: solid_consts value_text_def)
    ultimately show ?thesis using e(2) by (auto simp: n at_indent_def)
  qed
  have sec: "\<not> at_indent 0 (line_at 4 (s @ '':''))" if "s \<in> set dep_sections" for s
    using content_line_word[OF dep_section_word[OF that]] by (simp add: at_indent_def)
  have "\<not> at_indent 0 (line_at 2 ((if dir = [] then ''.'' else dir) @ '':''))"
    unfolding at_indent_def content_line_word[OF w] by simp
  then show ?thesis
    using assms sec entry by (fastforce simp: p importer_ok_def)
qed

section \<open>Keys\<close>

definition name_char :: "char \<Rightarrow> bool" where
  "name_char c \<longleftrightarrow> solid c \<and> c \<notin> set [CHR ''('', SQ, SL]"

text \<open>A package name, with a scope or without one, and a version.\<close>

definition package_name :: "string \<Rightarrow> bool" where
  "package_name n \<longleftrightarrow>
     (n \<noteq> [] \<and> (\<forall>c \<in> set n. name_char c \<and> c \<noteq> CHR ''@'')) \<or>
     (\<exists>scope base. n = CHR ''@'' # scope @ SL # base \<and> base \<noteq> [] \<and> (\<forall>c \<in> set (scope @ base). name_char c))"

definition version_text :: "string \<Rightarrow> bool" where
  "version_text v \<longleftrightarrow> v \<noteq> [] \<and> (\<forall>c \<in> set v. solid c \<and> c \<notin> set [CHR ''('', SQ, CHR ''@''])"

lemma package_name_chars:
  assumes "package_name n"
  shows "n \<noteq> []" "\<forall>c \<in> set n. solid c \<and> c \<noteq> SQ \<and> c \<noteq> CHR ''(''" "hd n \<noteq> SL"
proof -
  have at: "solid (CHR ''@'')" "solid SL" by (simp_all add: solid_def)
  from assms consider "n \<noteq> []" "\<forall>c \<in> set n. name_char c"
    | scope base where "n = CHR ''@'' # scope @ SL # base" "\<forall>c \<in> set (scope @ base). name_char c"
    unfolding package_name_def by blast
  then have "n \<noteq> [] \<and> (\<forall>c \<in> set n. solid c \<and> c \<noteq> SQ \<and> c \<noteq> CHR ''('') \<and> hd n \<noteq> SL"
  proof cases
    case 1
    then show ?thesis using hd_in_set[of n] by (simp add: name_char_def)
  next
    case 2
    then show ?thesis using at by (simp add: name_char_def ball_Un)
  qed
  then show "n \<noteq> []" "\<forall>c \<in> set n. solid c \<and> c \<noteq> SQ \<and> c \<noteq> CHR ''(''" "hd n \<noteq> SL" by auto
qed

text \<open>A key as versions 6 and 9 of the lockfile spell it: a slash in front, peers behind, quotes around.\<close>

definition show_key :: "bool \<Rightarrow> bool \<Rightarrow> string \<Rightarrow> string \<Rightarrow> string \<Rightarrow> string" where
  "show_key quoted slash name version peers =
     (let body = (if slash then ''/'' else []) @ name @ ''@'' @ version @ peers in
      if quoted then SQ # body @ [SQ] else body)"

definition peers_text :: "string \<Rightarrow> bool" where
  "peers_text s \<longleftrightarrow> s = [] \<or> (\<exists>inner. s = CHR ''('' # inner @ '')'')"

lemma parse_plain_key:
  assumes "package_name n" "version_text v" "key = n @ ''@'' @ v"
  shows "(if has_prefix key ''@'' then
           (case str_index key ''/'' of
              None \<Rightarrow> ([], [])
            | Some slash \<Rightarrow>
                let tail = drop (slash + 1) key in
                (case str_last_index tail ''@'' of
                   None \<Rightarrow> ([], [])
                 | Some at \<Rightarrow>
                     if at = 0 then ([], []) else (take (slash + 1 + at) key, drop (at + 1) tail)))
         else
           (case str_last_index key ''@'' of
              None \<Rightarrow> ([], [])
            | Some at \<Rightarrow>
                if at = 0 \<or> at = length key - 1 then ([], []) else (take at key, drop (at + 1) key))) = (n, v)"
proof -
  have v: "CHR ''@'' \<notin> set v" "v \<noteq> []" using assms(2) by (auto simp: version_text_def)
  from assms(1) consider (plain) "n \<noteq> []" "\<forall>c \<in> set n. name_char c \<and> c \<noteq> CHR ''@''"
    | (scoped) scope base where "n = CHR ''@'' # scope @ SL # base" "base \<noteq> []" "\<forall>c \<in> set (scope @ base). name_char c"
    unfolding package_name_def by blast
  then show ?thesis
  proof cases
    case plain
    have "\<not> has_prefix key ''@''" using plain assms(3) by (cases n) auto
    moreover have "str_last_index key ''@'' = Some (length n)" using str_last_index_append[OF v(1), of n] assms(3) by simp
    ultimately show ?thesis using plain(1) v(2) assms(3) by simp
  next
    case scoped
    have s: "SL \<notin> set (CHR ''@'' # scope)" using scoped(3) by (auto simp: name_char_def)
    have k: "key = (CHR ''@'' # scope) @ SL # base @ CHR ''@'' # v" using assms(3) scoped(1) by simp
    have "has_prefix key ''@''" by (simp add: k)
    moreover have "str_index key ''/'' = Some (Suc (length scope))" using str_index_char[OF s] by (simp add: k)
    moreover have "drop (Suc (length scope) + 1) key = base @ CHR ''@'' # v" by (simp add: k)
    moreover have "str_last_index (base @ CHR ''@'' # v) ''@'' = Some (length base)" by (rule str_last_index_append[OF v(1)])
    ultimately show ?thesis using scoped(1,2) by (simp add: k)
  qed
qed

section \<open>Properties\<close>

text \<open>C37.  Reading the importers of a lockfile gives back what pnpm wrote in block form: every
  importer in order, the version of every dependency it resolves and the directory of every member
  it links, whatever stands before the section and after it.\<close>

theorem importers_roundtrip:
  assumes "\<forall>p \<in> set imps. importer_ok p" "distinct (map fst imps)"
    and "\<forall>l \<in> set pre. trim_right_cut l [SP, TAB, CR] \<noteq> ''importers:''"
    and "post = [] \<or> at_indent 0 (hd post)"
  shows "parse_importers (pre @ ''importers:'' # concat (map render_importer imps) @ post) =
    map (\<lambda>(dir, secs). (dir, importer_of dir (concat (map snd secs)))) imps"
proof -
  let ?body = "concat (map render_importer imps)"
  have h: "trim_right_cut ''importers:'' [SP, TAB, CR] = ''importers:''" by (simp add: trim_right_cut_def)
  have "dropWhile (\<lambda>l. trim_right_cut l [SP, TAB, CR] \<noteq> ''importers'' @ '':'') (pre @ ''importers:'' # ?body @ post) =
      ''importers:'' # ?body @ post"
    using assms(3) h by (simp add: dropWhile_append3)
  moreover have "takeWhile (\<lambda>l. \<not> at_indent 0 l) (?body @ post) = ?body"
  proof -
    have "\<forall>l \<in> set ?body. \<not> at_indent 0 l" using assms(1) rendered_indented by auto
    moreover have "takeWhile (\<lambda>l. \<not> at_indent 0 l) post = []" using assms(4) by (cases post) auto
    ultimately show ?thesis by (subst takeWhile_append2) auto
  qed
  ultimately have "pnpm_section (pre @ ''importers:'' # ?body @ post) ''importers'' = Some ?body"
    by (simp add: pnpm_section_def)
  then show ?thesis
    using read_importers[OF assms(1,2), of no_importers] by (simp add: parse_importers_def no_importers_def)
qed

definition demo_lock :: "(string \<times> (string \<times> entry list) list) list" where
  "demo_lock =
     [([], [(''dependencies'', [(''@acme/lib'', ''workspace:*'', Linked ''packages/lib''), (''zod'', ''^3'', Resolved ''3.24.2'')])]),
      (''web'', [(''devDependencies'', [(''lib'', ''workspace:*'', Linked ''../packages/lib'')])])]"

theorem importers_roundtrip_witness:
  "parse_importers ([[], ''importers:''] @ concat (map render_importer demo_lock) @ [''packages:'']) =
     [([], \<lparr>im_deps = [(''zod'', ''3.24.2'')], im_links = [(''@acme/lib'', ''packages/lib'')]\<rparr>),
      (''web'', \<lparr>im_deps = [], im_links = [(''lib'', ''packages/lib'')]\<rparr>)]"
proof -
  have ok: "\<forall>p \<in> set demo_lock. importer_ok p" by code_simp
  have d: "distinct (map fst demo_lock)" by code_simp
  have p: "\<forall>l \<in> set [[]]. trim_right_cut l [SP, TAB, CR] \<noteq> ''importers:''" by code_simp
  have e: "[''packages:''] = [] \<or> at_indent 0 (hd [''packages:''])" by code_simp
  have r: "map (\<lambda>(dir, secs). (dir, importer_of dir (concat (map snd secs)))) demo_lock =
     [([], \<lparr>im_deps = [(''zod'', ''3.24.2'')], im_links = [(''@acme/lib'', ''packages/lib'')]\<rparr>),
      (''web'', \<lparr>im_deps = [], im_links = [(''lib'', ''packages/lib'')]\<rparr>)]"
    by code_simp
  show ?thesis using importers_roundtrip[OF ok d p e] r by simp
qed

lemma show_key_body:
  assumes "b \<noteq> []" "hd b \<noteq> SQ" "solid (hd b)" "solid (last b)" "b = (if slash then ''/'' else []) @ n @ ''@'' @ v @ p"
  shows "trim_space (show_key q slash n v p) = show_key q slash n v p"
    and "(if 2 \<le> length (show_key q slash n v p) \<and> has_prefix (show_key q slash n v p) [SQ] \<and> has_suffix (show_key q slash n v p) [SQ]
      then butlast (tl (show_key q slash n v p)) else show_key q slash n v p) = b"
proof -
  have k: "show_key q slash n v p = (if q then SQ # b @ [SQ] else b)" using assms(5) by (simp add: show_key_def Let_def)
  show "trim_space (show_key q slash n v p) = show_key q slash n v p"
    using assms(1-4) unfolding k by (intro trim_space_solid) (auto simp: solid_consts)
  have "has_suffix (SQ # b @ [SQ]) [SQ]" by (auto simp: suffix_def)
  moreover have "\<not> has_prefix b [SQ]" using assms(1,2) by (cases b) auto
  ultimately show "(if 2 \<le> length (show_key q slash n v p) \<and> has_prefix (show_key q slash n v p) [SQ] \<and> has_suffix (show_key q slash n v p) [SQ]
      then butlast (tl (show_key q slash n v p)) else show_key q slash n v p) = b"
    unfolding k by (cases q) auto
qed

lemma before_peers:
  assumes "CHR ''('' \<notin> set key" "peers_text p"
  shows "(case str_index (key @ p) ''('' of Some paren \<Rightarrow> take paren (key @ p) | None \<Rightarrow> key @ p) = key"
proof (cases "p = []")
  case True
  then have "str_index (key @ p) ''('' = None" using assms(1) set_mono_sublist[of "''(''" key] by (auto simp: str_index_None)
  then show ?thesis using True by simp
next
  case False
  then obtain inner where "p = CHR ''('' # inner" using assms(2) by (auto simp: peers_text_def)
  then show ?thesis using str_index_char[of "CHR ''(''" key inner] assms(1) by simp
qed

text \<open>A package key reads back as its name and version however the lockfile spells it: with or
  without a scope, the slash of version 6, a peer suffix and quotes.\<close>

theorem package_key_roundtrip:
  assumes "package_name n" "version_text v" "peers_text p"
  shows "parse_package_key (show_key q slash n v p) = (n, v)"
proof -
  let ?key = "n @ ''@'' @ v" and ?body = "(if slash then ''/'' else []) @ n @ ''@'' @ v @ p"
  have n: "n \<noteq> []" "\<forall>c \<in> set n. solid c \<and> c \<noteq> SQ \<and> c \<noteq> CHR ''(''" "hd n \<noteq> SL"
    using package_name_chars[OF assms(1)] by auto
  have v: "v \<noteq> []" "\<forall>c \<in> set v. solid c \<and> c \<noteq> SQ \<and> c \<noteq> CHR ''(''" using assms(2) by (auto simp: version_text_def)
  have h: "hd ?body = (if slash then SL else hd n)" using n(1) by simp
  have "solid (hd n)" "hd n \<noteq> SQ" using n(1,2) hd_in_set by blast+
  then have first: "?body \<noteq> []" "hd ?body \<noteq> SQ" "solid (hd ?body)" unfolding h by (simp_all add: solid_def)
  have "solid (last v)" using v last_in_set by blast
  moreover have "p \<noteq> [] \<Longrightarrow> last p = CHR '')''" using assms(3) by (auto simp: peers_text_def)
  moreover have "last ?body = (if p = [] then last v else last p)" using v(1) by simp
  ultimately have last: "solid (last ?body)" by (simp add: solid_def)
  note body = show_key_body[OF first last refl, of q]
  have s: "trim_prefix ?body ''/'' = n @ ''@'' @ v @ p" using n(1,3) by (cases n) (auto simp: trim_prefix_def)
  have "CHR ''('' \<notin> set ?key" using n(2) v(2) by auto
  note key = before_peers[OF this assms(3), unfolded append_assoc]
  show ?thesis
    unfolding parse_package_key_def Let_def body s key using parse_plain_key[OF assms(1,2) refl] unfolding Let_def .
qed

theorem package_key_roundtrip_witness:
  "parse_package_key ([SQ] @ ''@types/node@22.20.1(typescript@5)'' @ [SQ]) = (''@types/node'', ''22.20.1'') \<and>
   parse_package_key ''/lodash@4.17.21'' = (''lodash'', ''4.17.21'')"
proof -
  have a: "package_name ''@types/node''" unfolding package_name_def
    by (intro disjI2 exI[of _ "''types''"] exI[of _ "''node''"]) (auto simp: name_char_def solid_def)
  have b: "version_text ''22.20.1''" "peers_text ''(typescript@5)''" "version_text ''4.17.21''" "package_name ''lodash''"
    by (auto simp: version_text_def peers_text_def package_name_def name_char_def solid_def intro!: exI[of _ "''typescript@5''"])
  show ?thesis
    using package_key_roundtrip[OF a b(1,2), of True False]
      package_key_roundtrip[OF b(4,3), of "[]" False True] by (simp add: show_key_def peers_text_def)
qed

end
