(* ===== verification/NpmLabels.thy ===== *)
theory NpmLabels imports PnpmLock WalkUp Owner ExplainFiles begin

text \<open>
  The npm side of a workspace, \<open>gazelle/npm.go\<close>: the lockfile's importers and members, the chain of
  importers above a directory, and the labels an edge into node_modules takes.  A walk that never
  ends is None.  Gazelle's \<open>label.New("", pkg, name).Rel("", from).String()\<close> is the parameter
  \<open>rel_label\<close>; log lines are not modelled.
\<close>

record manifest =
  mf_dir :: string
  mf_name :: string
  mf_deps :: "string list"

record npm_lock =
  nl_names :: "string list"
  nl_importers :: importers
  nl_members :: smap

section \<open>The lock\<close>

definition add_links :: "importers \<Rightarrow> smap" where
  \<comment> \<open>the first loop over the importers\<close>
  "add_links imps =
     fold (\<lambda>(name, dir) m. AList.update name dir m) (concat (map (\<lambda>(_, imp). im_links imp) imps)) []"

definition linked_dirs :: "importers \<Rightarrow> string list" where
  "linked_dirs imps = concat (map (\<lambda>(_, imp). map snd (im_links imp)) imps)"

definition add_manifest :: "(string \<Rightarrow> manifest option) \<Rightarrow> string list \<Rightarrow> string \<Rightarrow> smap \<Rightarrow> smap" where
  "add_manifest manifest_at linked dir m =
     (if dir = [] \<or> dir \<in> set linked then m
      else case manifest_at dir of
        None \<Rightarrow> m
      | Some mf \<Rightarrow> if mf_name mf = [] then m else AList.update (mf_name mf) dir m)"

text \<open>The two loops visit the map of importers in orders of Go's choice.\<close>

definition lock_members :: "(string \<Rightarrow> manifest option) \<Rightarrow> importers \<Rightarrow> importers \<Rightarrow> smap" where
  "lock_members manifest_at first_order second_order =
     fold (add_manifest manifest_at (linked_dirs first_order)) (map fst second_order) (add_links first_order)"

definition parse_npm_lock ::
    "(importers \<Rightarrow> importers) \<Rightarrow> (importers \<Rightarrow> importers) \<Rightarrow> string list \<Rightarrow> (string \<Rightarrow> manifest option) \<Rightarrow> npm_lock" where
  "parse_npm_lock order1 order2 ls manifest_at =
     (let imps = parse_importers ls in
      \<lparr>nl_names = lock_names ls @ concat (map (\<lambda>(_, imp). map fst (im_deps imp)) imps),
       nl_importers = imps,
       nl_members = lock_members manifest_at (order1 imps) (order2 imps)\<rparr>)"

section \<open>Names\<close>

definition npmPackageName :: "string \<Rightarrow> string" where
  "npmPackageName file_path =
     (let p = SL # file_path in
      case str_last_index p ''/node_modules/'' of
        None \<Rightarrow> []
      | Some i \<Rightarrow>
          let parts = split_n SL 3 (drop (i + length ''/node_modules/'') p) in
          if has_prefix (hd parts) ''@'' then
            (if length parts < 3 then [] else parts ! 0 @ ''/'' @ parts ! 1)
          else if length parts < 2 then [] else hd parts)"

definition npmPackageToLabelName :: "string \<Rightarrow> string" where
  "npmPackageToLabelName name = replace_all (trim_prefix name ''@'') ''/'' ''_''"

definition isBareSpecifier :: "string \<Rightarrow> bool" where
  "isBareSpecifier spec \<longleftrightarrow>
     spec \<noteq> [] \<and> \<not> has_prefix spec ''.'' \<and> \<not> has_prefix spec ''/'' \<and> \<not> has_prefix spec ''#'' \<and>
     \<not> contains_str spec '':''"

definition barePackageName :: "string \<Rightarrow> string" where
  "barePackageName spec =
     (if has_prefix spec ''@'' then
        (let parts = split_n SL 3 (drop 1 spec) in
         if 2 \<le> length parts then ''@'' @ parts ! 0 @ ''/'' @ parts ! 1 else spec)
      else hd (split_n SL 2 spec))"

text \<open>\<open>strings.Replace(s, old, new, 1)\<close>.\<close>

definition replace_first :: "string \<Rightarrow> string \<Rightarrow> string \<Rightarrow> string" where
  "replace_first s old new =
     (case str_index s old of None \<Rightarrow> s | Some i \<Rightarrow> take i s @ new @ drop (i + length old) s)"

definition typesPackage :: "string \<Rightarrow> string" where
  "typesPackage spec =
     (let name = barePackageName spec in
      if has_prefix name ''@'' then ''@types/'' @ replace_first (drop 1 name) ''/'' ''__''
      else ''@types/'' @ name)"

section \<open>The chain of importers\<close>

definition importer_at :: "npm_lock \<Rightarrow> string \<Rightarrow> importer option" where
  "importer_at l dir = map_of (nl_importers l) dir"

definition importer_above :: "npm_lock \<Rightarrow> string \<Rightarrow> string option" where
  "importer_above l dir =
     climb (\<lambda>d. if d = [] then Some [] else if importer_at l d \<noteq> None then Some d else None) dir"

text \<open>A missing link reads as the empty string.\<close>

definition link_of :: "importer \<Rightarrow> string \<Rightarrow> string" where
  "link_of imp name = (case map_of (im_links imp) name of None \<Rightarrow> [] | Some dir \<Rightarrow> dir)"

definition declares :: "npm_lock \<Rightarrow> string \<Rightarrow> bool \<Rightarrow> string \<Rightarrow> bool" where
  "declares l name member dir \<longleftrightarrow>
     (case importer_at l dir of
        None \<Rightarrow> False
      | Some imp \<Rightarrow> member \<and> link_of imp name \<noteq> [] \<or> map_of (im_deps imp) name \<noteq> None)"

lemma climb_shorter: "climb f d = Some x \<Longrightarrow> (\<And>a y. f a = Some y \<Longrightarrow> length y \<le> length a) \<Longrightarrow> length x \<le> length d"
proof (induction f d rule: climb.induct)
  case (1 f d)
  show ?case
  proof (cases "f d")
    case None
    then have n: "d \<noteq> []" "d \<noteq> [SL]" "climb f (parent_dir d) = Some x"
      using "1.prems"(1) None by (auto simp: climb.simps[of f d] split: if_splits)
    with "1.IH"[OF None] "1.prems"(2) have "length x \<le> length (parent_dir d)" by simp
    then show ?thesis using parent_dir_shorter[OF n(1,2)] by simp
  next
    case (Some y)
    then show ?thesis using "1.prems" climb_at[of f d y] Some by simp
  qed
qed

lemma importer_above_shorter: "importer_above l d = Some imp \<Longrightarrow> length imp \<le> length d"
  unfolding importer_above_def by (erule climb_shorter) (auto split: if_splits)


text \<open>The loop of \<open>importerDeclaring\<close> from an importer on; at the root it answers either way.\<close>

function declaring_from :: "npm_lock \<Rightarrow> string \<Rightarrow> bool \<Rightarrow> string \<Rightarrow> (string \<times> bool) option" where
  "declaring_from l name member imp =
     (if declares l name member imp then Some (imp, True)
      else if imp = [] then Some ([], False)
      else if imp = [SL] then None
      else case importer_above l (parent_dir imp) of
        None \<Rightarrow> None
      | Some up \<Rightarrow> declaring_from l name member up)"
  by pat_completeness auto
termination
proof (relation "measure (\<lambda>(l, name, member, imp). length imp)")
  fix l name member imp up
  assume "imp \<noteq> []" "imp \<noteq> [SL]" "importer_above l (parent_dir imp) = Some up"
  then have "length up < length imp"
    using importer_above_shorter[of l "parent_dir imp" up] parent_dir_shorter[of imp] by simp
  then show "((l, name, member, up), (l, name, member, imp)) \<in> measure (\<lambda>(l, name, member, imp). length imp)"
    by simp
qed simp

declare declaring_from.simps [simp del]

definition importer_declaring :: "npm_lock \<Rightarrow> string \<Rightarrow> string \<Rightarrow> bool \<Rightarrow> (string \<times> bool) option" where
  "importer_declaring l name dir member =
     (case importer_above l dir of None \<Rightarrow> None | Some imp \<Rightarrow> declaring_from l name member imp)"

definition declaring :: "npm_lock \<Rightarrow> string \<Rightarrow> string \<Rightarrow> (string \<times> bool) option" where
  "declaring l name dir = importer_declaring l name dir False"

section \<open>Labels\<close>

type_synonym rel_label = "string \<Rightarrow> string \<Rightarrow> string \<Rightarrow> string"

definition nodeModulesTargetName :: string where
  "nodeModulesTargetName = ''node_modules''"

definition storeTargetName :: string where
  "storeTargetName = ''node_modules/.pnpm''"

definition nodeModulesLabel :: "rel_label \<Rightarrow> npm_lock \<Rightarrow> string \<Rightarrow> string option" where
  "nodeModulesLabel rl l pkg =
     map_option (\<lambda>imp. rl imp nodeModulesTargetName pkg) (importer_above l pkg)"

definition hub_label :: "string \<Rightarrow> string \<Rightarrow> string" where
  "hub_label imp name = ''@npm//'' @ imp @ '':'' @ npmPackageToLabelName name"

definition npm_label :: "npm_lock \<Rightarrow> string \<Rightarrow> string \<Rightarrow> string option" where
  "npm_label l name dir = map_option (\<lambda>(imp, _). hub_label imp name) (declaring l name dir)"

definition chain_types_label :: "npm_lock \<Rightarrow> edge \<Rightarrow> string \<Rightarrow> string option" where
  "chain_types_label l e pkg =
     (let name = npmPackageName (e_to e) in
      if e_kind e \<noteq> TypeReference \<or> name \<noteq> typesPackage (e_spec e) then Some []
      else map_option (\<lambda>(imp, found). if found then hub_label imp name else []) (declaring l name pkg))"

definition member_name :: "npm_lock \<Rightarrow> string \<Rightarrow> manifest option \<Rightarrow> string" where
  "member_name l spec m =
     (if \<not> isBareSpecifier spec then []
      else
        let name = barePackageName spec in
        if map_of (nl_members l) name = None then []
        else case m of
          None \<Rightarrow> name
        | Some mf \<Rightarrow> if mf_name mf = name then [] else name)"

text \<open>The empty label is the logged failure.\<close>

definition member_label :: "rel_label \<Rightarrow> npm_lock \<Rightarrow> string \<Rightarrow> string \<Rightarrow> string \<Rightarrow> string option" where
  "member_label rl l name origin pkg =
     (case importer_declaring l name origin True of
        None \<Rightarrow> None
      | Some (dir, True) \<Rightarrow>
          (if (case importer_at l dir of None \<Rightarrow> [] | Some imp \<Rightarrow> link_of imp name) \<noteq> []
           then Some (rl dir (''node_modules/'' @ name) pkg)
           else npm_label l name dir)
      | Some (dir, False) \<Rightarrow> Some [])"

definition member_view :: "rel_label \<Rightarrow> npm_lock \<Rightarrow> string \<Rightarrow> string \<Rightarrow> string \<Rightarrow> manifest option \<Rightarrow> string option" where
  "member_view rl l spec file pkg m =
     (let name = member_name l spec m in
      if name = [] then Some [] else member_label rl l name (parent_dir file) pkg)"

definition edge_name :: "npm_lock \<Rightarrow> edge \<Rightarrow> string" where
  "edge_name l e =
     (let name = npmPackageName (e_to e); bare = barePackageName (e_spec e) in
      if module_specifier (e_kind e) \<and> isBareSpecifier (e_spec e) \<and>
         (bare \<in> set (nl_names l) \<or> name \<notin> set (nl_names l)) then bare else name)"

definition edge_label :: "rel_label \<Rightarrow> npm_lock \<Rightarrow> edge \<Rightarrow> string \<Rightarrow> manifest option \<Rightarrow> string option" where
  "edge_label rl l e pkg m =
     (if \<not> firstParty (e_from e) then chain_types_label l e pkg
      else case member_view rl l (e_spec e) (e_from e) pkg m of
        None \<Rightarrow> None
      | Some view \<Rightarrow>
          if view \<noteq> [] then Some view
          else
            let name = edge_name l e in
            if name \<notin> set (nl_names l) then Some [] else npm_label l name (parent_dir (e_from e)))"

definition runtime_package :: "npm_lock \<Rightarrow> edge \<Rightarrow> manifest option \<Rightarrow> bool \<Rightarrow> (string \<times> bool) option" where
  "runtime_package l e m generated =
     (if \<not> module_specifier (e_kind e) \<or> \<not> isBareSpecifier (e_spec e) \<or> \<not> is_declaration_file (e_to e) \<and> \<not> generated
      then Some ([], False)
      else
        let name = barePackageName (e_spec e) in
        if map_of (nl_members l) name \<noteq> None then Some (member_name l (e_spec e) m, True)
        else map_option (\<lambda>(_, declared). if declared then (name, False) else ([], False))
               (declaring l name (parent_dir (e_from e))))"

fun edge_scope :: "npm_lock \<Rightarrow> string \<Rightarrow> string \<Rightarrow> (string \<times> bool) list \<Rightarrow> string \<Rightarrow> bool \<Rightarrow> (string \<times> bool) option" where
  "edge_scope l origin pkg [] scope needed = Some (scope, needed)"
| "edge_scope l origin pkg ((name, member) # ns) scope needed =
     (if name = [] then edge_scope l origin pkg ns scope needed
      else case importer_declaring l name origin member of
        None \<Rightarrow> None
      | Some (dir, False) \<Rightarrow> edge_scope l origin pkg ns scope needed
      | Some (dir, True) \<Rightarrow>
          (case importer_declaring l name pkg member of
             None \<Rightarrow> None
           | Some (consumer, supplied) \<Rightarrow>
               edge_scope l origin pkg ns (if length scope < length dir then dir else scope)
                 (needed \<or> \<not> supplied \<or> consumer \<noteq> dir)))"

definition edge_importer :: "npm_lock \<Rightarrow> edge \<Rightarrow> manifest option \<Rightarrow> string \<Rightarrow> bool \<Rightarrow> (string \<times> bool) option" where
  "edge_importer l e m pkg generated =
     (if \<not> firstParty (e_from e) then Some ([], False)
      else
        let origin = parent_dir (e_from e); base = npmPackageName (e_to e); mem = member_name l (e_spec e) m;
            go = (\<lambda>ns. edge_scope l origin pkg ((base, False) # ns) [] False)
        in if mem \<noteq> [] then go [(mem, True)]
           else case runtime_package l e m generated of
             None \<Rightarrow> None
           | Some (name, member) \<Rightarrow>
               if name \<noteq> [] then go [(name, member)]
               else if base \<noteq> [] then go [(edge_name l e, False)] else go [])"

fun manifest_labels_of :: "rel_label \<Rightarrow> npm_lock \<Rightarrow> manifest \<Rightarrow> string \<Rightarrow> string list \<Rightarrow> string list option" where
  "manifest_labels_of rl l m pkg [] = Some []"
| "manifest_labels_of rl l m pkg (name # ns) =
     (case (if map_of (nl_members l) name \<noteq> None then member_label rl l name pkg pkg
            else if name \<in> set (nl_names l) then npm_label l name (mf_dir m) else Some []) of
        None \<Rightarrow> None
      | Some lbl \<Rightarrow>
          map_option (\<lambda>ls. if lbl \<noteq> [] then lbl # ls else ls) (manifest_labels_of rl l m pkg ns))"

definition manifest_labels :: "rel_label \<Rightarrow> npm_lock \<Rightarrow> manifest option \<Rightarrow> string \<Rightarrow> string list option" where
  "manifest_labels rl l m pkg =
     (case m of None \<Rightarrow> Some [] | Some mf \<Rightarrow> manifest_labels_of rl l mf pkg (mf_deps mf))"

section \<open>The rules of an importer\<close>

datatype attr = StrAttr string | ListAttr "string list"

record rule_text =
  rt_kind :: string
  rt_name :: string
  rt_attrs :: "(string \<times> attr) list"

definition public_visibility :: attr where
  "public_visibility = ListAttr [''//visibility:public'']"

definition option_list :: "'a option list \<Rightarrow> 'a list option" where
  "option_list xs = (if None \<in> set xs then None else Some (map the xs))"

definition node_modules_rule :: "string \<Rightarrow> string list \<Rightarrow> string \<Rightarrow> rule_text" where
  "node_modules_rule rel deps up =
     \<lparr>rt_kind = ''node_modules'', rt_name = nodeModulesTargetName,
      rt_attrs =
        (if deps \<noteq> [] then [(''deps'', ListAttr (sort_strings deps))] else []) @
        (if rel = [] then [(''hoist'', StrAttr ('':'' @ storeTargetName @ ''/node_modules''))]
         else [(''parent'', StrAttr (''//'' @ up @ '':'' @ nodeModulesTargetName))]) @
        [(''visibility'', public_visibility)]\<rparr>"

definition member_rule :: "string \<Rightarrow> rule_text" where
  "member_rule name =
     \<lparr>rt_kind = ''node_modules_member'', rt_name = ''node_modules/'' @ name,
      rt_attrs = [(''member'', StrAttr (''@npm//:'' @ npmPackageToLabelName name)), (''visibility'', public_visibility)]\<rparr>"

definition importer_rules :: "npm_lock \<Rightarrow> string \<Rightarrow> rule_text list option" where
  "importer_rules l rel =
     (case importer_at l rel of
        None \<Rightarrow> Some []
      | Some imp \<Rightarrow>
          (case (option_list (map (\<lambda>(name, _). npm_label l name rel) (im_deps imp)),
                 if rel = [] then Some [] else importer_above l (parent_dir rel)) of
             (Some deps, Some up) \<Rightarrow>
               Some ((if rel = [] then [\<lparr>rt_kind = ''npm_virtual_store'', rt_name = storeTargetName, rt_attrs = []\<rparr>] else []) @
                     [node_modules_rule rel deps up] @
                     map member_rule (sort_strings (map fst (im_links imp))))
           | _ \<Rightarrow> None))"

definition rule_key :: "rule_text \<Rightarrow> string" where
  "rule_key r = rt_kind r @ '' '' @ rt_name r"

definition bare_rule :: "string \<Rightarrow> string \<Rightarrow> rule_text" where
  "bare_rule k n = \<lparr>rt_kind = k, rt_name = n, rt_attrs = []\<rparr>"

definition importer_empties :: "rule_text list option \<Rightarrow> rule_text list \<Rightarrow> rule_text list" where
  \<comment> \<open>the rules of the BUILD file, when there is one, and the generated ones\<close>
  "importer_empties file_rules gen =
     (let kept = set (map rule_key gen) in
      (if ''node_modules '' @ nodeModulesTargetName \<notin> kept
       then [bare_rule ''node_modules'' nodeModulesTargetName] else []) @
      (case file_rules of
         None \<Rightarrow> []
       | Some rs \<Rightarrow> map (\<lambda>r. bare_rule (rt_kind r) (rt_name r))
             (filter (\<lambda>r. rt_kind r = ''node_modules_member'' \<and> rule_key r \<notin> kept) rs)))"

section \<open>The chain finds the nearest importer that declares\<close>

text \<open>The walk over importers is a walk over directories.\<close>

definition declares_at :: "npm_lock \<Rightarrow> string \<Rightarrow> bool \<Rightarrow> string \<Rightarrow> (string \<times> bool) option" where
  "declares_at l name member d =
     (if declares l name member d then Some (d, True) else if d = [] then Some ([], False) else None)"

lemma declares_importer: "declares l name member d \<Longrightarrow> importer_at l d \<noteq> None"
  by (cases "importer_at l d") (auto simp: declares_def)

lemma climb_None_mono: "climb g d = None \<Longrightarrow> (\<And>a. g a = None \<Longrightarrow> f a = None) \<Longrightarrow> climb f d = None"
proof (induction g d rule: climb.induct)
  case (1 g d)
  show ?case
  proof (cases "g d")
    case None
    then have "d = [] \<or> d = [SL] \<or> climb g (parent_dir d) = None"
      using "1.prems"(1) by (cases "d = [] \<or> d = [SL]") (auto simp: climb.simps[of g d])
    then show ?thesis using "1.IH"[OF None] "1.prems"(2) None by (auto simp: climb.simps[of f d])
  next
    case (Some x)
    then show ?thesis using "1.prems"(1) by (simp add: climb.simps[of g d])
  qed
qed

lemma climb_over_gap:
  "importer_above l d = Some imp \<Longrightarrow> climb (declares_at l name member) d = climb (declares_at l name member) imp"
proof (induction "\<lambda>d. if d = [] then Some [] else if importer_at l d \<noteq> None then Some d else None" d rule: climb.induct)
  case (1 d)
  show ?case
  proof (cases "d = [] \<or> importer_at l d \<noteq> None")
    case True
    then have "importer_above l d = Some d" unfolding importer_above_def by (intro climb_at) auto
    with "1.prems" show ?thesis by simp
  next
    case False
    then have d: "(if d = [] then Some [] else if importer_at l d \<noteq> None then Some d else None) = None" by simp
    with "1.prems" have s: "d \<noteq> [SL]" and up: "importer_above l (parent_dir d) = Some imp"
      unfolding importer_above_def by (subst (asm) climb.simps, auto split: if_splits)+
    have n: "declares_at l name member d = None"
      using False declares_importer[of l name member d] by (auto simp: declares_at_def)
    have "climb (declares_at l name member) d = climb (declares_at l name member) (parent_dir d)"
      using n s False by (subst climb.simps) simp
    also have "\<dots> = climb (declares_at l name member) imp"
      using "1.hyps"[OF d] s up False by simp
    finally show ?thesis .
  qed
qed

lemma importer_above_at: "importer_above l d = Some imp \<Longrightarrow> imp = [] \<or> importer_at l imp \<noteq> None"
  unfolding importer_above_def by (erule climb_nearest) (auto split: if_splits)

lemma declaring_from_climb:
  "declaring_from l name member imp = climb (declares_at l name member) imp"
proof (induction l name member imp rule: declaring_from.induct)
  case (1 l name member imp)
  show ?case
  proof (cases "declares l name member imp \<or> imp = [] \<or> imp = [SL]")
    case True
    then show ?thesis by (subst declaring_from.simps, subst climb.simps) (auto simp: declares_at_def)
  next
    case False
    then have c: "climb (declares_at l name member) imp = climb (declares_at l name member) (parent_dir imp)"
      by (subst climb.simps) (simp add: declares_at_def)
    show ?thesis
    proof (cases "importer_above l (parent_dir imp)")
      case None
      have "climb (declares_at l name member) (parent_dir imp) = None"
        using None unfolding importer_above_def
        by (rule climb_None_mono) (auto simp: declares_at_def dest: declares_importer split: if_splits)
      then show ?thesis using None False c by (subst declaring_from.simps) simp
    next
      case (Some up)
      then have "declaring_from l name member up = climb (declares_at l name member) (parent_dir imp)"
        using "1.IH"[of up] False climb_over_gap[OF Some] by simp
      then show ?thesis using Some False c by (subst declaring_from.simps) simp
    qed
  qed
qed

lemma importer_above_total: "\<not> is_abs d \<Longrightarrow> importer_above l d \<noteq> None"
  unfolding importer_above_def by (rule climb_total) simp_all

lemma importer_declaring_climb: "importer_declaring l name dir member = climb (declares_at l name member) dir"
proof (cases "importer_above l dir")
  case None
  then have "climb (declares_at l name member) dir = None"
    unfolding importer_above_def
    by (rule climb_None_mono) (auto simp: declares_at_def dest: declares_importer split: if_splits)
  then show ?thesis using None by (simp add: importer_declaring_def)
next
  case (Some imp)
  then show ?thesis using climb_over_gap[OF Some] by (simp add: importer_declaring_def declaring_from_climb)
qed

lemma find_declares:
  "find (\<lambda>a. declares_at l name member a \<noteq> None) (dirs_up d) =
   find (\<lambda>a. declares l name member a \<or> a = []) (dirs_up d)"
proof -
  have "(\<lambda>a. declares_at l name member a \<noteq> None) = (\<lambda>a. declares l name member a \<or> a = [])"
    by (auto simp: declares_at_def fun_eq_iff)
  then show ?thesis by simp
qed

section \<open>Members do not depend on the order of the map\<close>

definition one_target :: "smap \<Rightarrow> bool" where
  "one_target m \<longleftrightarrow> (\<forall>(n, d) \<in> set m. \<forall>(n', d') \<in> set m. n = n' \<longrightarrow> d = d')"

lemma map_of_updates: "map_of (fold (\<lambda>(k, v) m. AList.update k v m) kvs m) = fold (\<lambda>(k, v) f. f(k \<mapsto> v)) kvs (map_of m)"
  by (induction kvs arbitrary: m) (auto simp: update_conv')

lemma fold_updates_one_target:
  "one_target kvs \<Longrightarrow> fold (\<lambda>(k, v) f. f(k \<mapsto> v)) kvs f k =
     (if k \<in> fst ` set kvs then Some (THE d. (k, d) \<in> set kvs) else f k)"
proof (induction kvs rule: rev_induct)
  case (snoc p kvs)
  obtain k0 d0 where p: "p = (k0, d0)" by (cases p)
  have o: "one_target kvs" using snoc.prems by (auto simp: one_target_def)
  show ?case
  proof (cases "k = k0")
    case True
    then have "(THE d. (k, d) \<in> set (kvs @ [p])) = d0"
      using snoc.prems by (intro the_equality) (auto simp: one_target_def p)
    then show ?thesis using True by (simp add: p)
  next
    case False
    then have "(k, d) \<in> set (kvs @ [p]) \<longleftrightarrow> (k, d) \<in> set kvs" for d by (simp add: p)
    then show ?thesis using False snoc.IH[OF o] by (auto simp: p)
  qed
qed simp

definition manifest_entry :: "(string \<Rightarrow> manifest option) \<Rightarrow> string list \<Rightarrow> string \<Rightarrow> (string \<times> string) option" where
  "manifest_entry manifest_at linked dir =
     (if dir = [] \<or> dir \<in> set linked then None
      else case manifest_at dir of None \<Rightarrow> None | Some mf \<Rightarrow> if mf_name mf = [] then None else Some (mf_name mf, dir))"

definition link_entries :: "importers \<Rightarrow> smap" where
  "link_entries imps = concat (map (\<lambda>(_, imp). im_links imp) imps)"

lemma fold_add_manifest:
  "fold (add_manifest manifest_at linked) dirs m =
   fold (\<lambda>(k, v) m. AList.update k v m) (List.map_filter (manifest_entry manifest_at linked) dirs) m"
  by (induction dirs arbitrary: m)
     (auto simp: add_manifest_def manifest_entry_def List.map_filter_simps split: option.splits)

lemma manifest_entry_cong: "set l1 = set l2 \<Longrightarrow> manifest_entry manifest_at l1 = manifest_entry manifest_at l2"
  by (auto simp: manifest_entry_def fun_eq_iff)

lemma lock_members_map:
  "map_of (lock_members manifest_at o1 o2) =
     fold (\<lambda>(k, v) f. f(k \<mapsto> v)) (List.map_filter (manifest_entry manifest_at (linked_dirs o1)) (map fst o2))
       (fold (\<lambda>(k, v) f. f(k \<mapsto> v)) (link_entries o1) Map.empty)"
  by (simp add: lock_members_def fold_add_manifest add_links_def link_entries_def map_of_updates)

lemma fold_updates_cong:
  assumes "one_target a" "set a = set b"
  shows "fold (\<lambda>(k, v) f. f(k \<mapsto> v)) a f = fold (\<lambda>(k, v) f. f(k \<mapsto> v)) b f"
proof -
  have "one_target b" using assms by (simp add: one_target_def)
  then show ?thesis using assms by (intro ext) (simp add: fold_updates_one_target)
qed

section \<open>Properties\<close>

text \<open>C38.  The importer that declares a name for a directory is the nearest one on the walk up to
  the root, and the walk ends for every path inside the repository.\<close>

theorem importer_declaring_nearest:
  assumes "\<not> is_abs dir"
  shows "importer_declaring l name dir member =
    Some (case find (declares l name member) (dirs_up dir) of Some d \<Rightarrow> (d, True) | None \<Rightarrow> ([], False))"
proof -
  let ?P = "declares l name member"
  have "find (\<lambda>a. ?P a \<or> a = []) (dirs_up dir) \<noteq> None"
    using dirs_up_root[OF assms] by (auto simp: find_None_iff)
  then obtain a where a: "find (\<lambda>a. ?P a \<or> a = []) (dirs_up dir) = Some a" by blast
  have r: "importer_declaring l name dir member = declares_at l name member a"
    unfolding importer_declaring_climb climb_find find_declares a by simp
  show ?thesis
  proof (cases "?P a")
    case True
    then show ?thesis using nearest_or_root[OF a True] r by (simp add: declares_at_def)
  next
    case False
    then have "a = []" using find_Some_first[OF a] by blast
    then show ?thesis using find_root_last[OF a False] False r by (simp add: declares_at_def)
  qed
qed

text \<open>The members of a lockfile are the same for every order in which the map of importers is
  visited, when no name is linked to two directories or held by two manifests.\<close>

theorem members_order_irrelevant:
  assumes "\<And>imps. set (order1 imps) = set imps" "\<And>imps. set (order2 imps) = set imps"
    and "one_target (link_entries (parse_importers ls))"
    and "one_target (List.map_filter (manifest_entry manifest_at (linked_dirs (parse_importers ls))) (map fst (parse_importers ls)))"
  shows "map_of (nl_members (parse_npm_lock order1 order2 ls manifest_at)) =
    map_of (nl_members (parse_npm_lock id id ls manifest_at))"
proof -
  let ?i = "parse_importers ls"
  have l: "set (link_entries (order1 ?i)) = set (link_entries ?i)" "set (linked_dirs (order1 ?i)) = set (linked_dirs ?i)"
    using assms(1)[of ?i] by (simp_all add: link_entries_def linked_dirs_def)
  have m: "manifest_entry manifest_at (linked_dirs (order1 ?i)) = manifest_entry manifest_at (linked_dirs ?i)"
    by (rule manifest_entry_cong[OF l(2)])
  have s: "set (List.map_filter (manifest_entry manifest_at (linked_dirs ?i)) (map fst (order2 ?i))) =
      set (List.map_filter (manifest_entry manifest_at (linked_dirs ?i)) (map fst ?i))"
    using assms(2)[of ?i] by (simp add: set_map_filter)
  have "map_of (lock_members manifest_at (order1 ?i) (order2 ?i)) = map_of (lock_members manifest_at ?i ?i)"
    unfolding lock_members_map m
    using fold_updates_cong[OF assms(3) l(1)[symmetric]] fold_updates_cong[OF assms(4) s[symmetric]] by simp
  then show ?thesis by (simp add: parse_npm_lock_def Let_def)
qed

definition demo_lines :: "string list" where
  "demo_lines = [''importers:'', ''  .:'', ''    dependencies:'', ''      lib:'', ''        version: link:a'', ''  b: {}'']"

definition demo_manifests :: "string \<Rightarrow> manifest option" where
  "demo_manifests dir = (if dir = ''b'' then Some \<lparr>mf_dir = dir, mf_name = ''@acme/b'', mf_deps = []\<rparr> else None)"

definition demo_npm_lock :: npm_lock where
  "demo_npm_lock =
     \<lparr>nl_names = [''zod''],
      nl_importers =
        [([], \<lparr>im_deps = [(''zod'', ''3.0.0'')], im_links = []\<rparr>), (''b'', \<lparr>im_deps = [], im_links = [(''ui'', ''ui'')]\<rparr>)],
      nl_members = [(''ui'', ''ui'')]\<rparr>"

theorem importer_declaring_nearest_witness:
  "importer_declaring demo_npm_lock ''zod'' ''b/src'' False = Some ([], True) \<and>
   importer_declaring demo_npm_lock ''ui'' ''b/src'' True = Some (''b'', True)"
proof -
  have a: "\<not> is_abs ''b/src''" by (simp add: is_abs_def)
  have u: "dirs_up ''b/src'' = [''b/src'', ''b'', []]" by code_simp
  have "find (declares demo_npm_lock ''zod'' False) (dirs_up ''b/src'') = Some []"
    "find (declares demo_npm_lock ''ui'' True) (dirs_up ''b/src'') = Some ''b''"
    unfolding u by (simp_all add: declares_def importer_at_def demo_npm_lock_def link_of_def)
  then show ?thesis using importer_declaring_nearest[OF a] by simp
qed

theorem members_order_irrelevant_witness:
  "map_of (nl_members (parse_npm_lock rev rev demo_lines demo_manifests)) =
    map_of (nl_members (parse_npm_lock id id demo_lines demo_manifests))"
proof -
  have i: "parse_importers demo_lines =
      [([], \<lparr>im_deps = [], im_links = [(''lib'', ''a'')]\<rparr>), (''b'', \<lparr>im_deps = [], im_links = []\<rparr>)]"
    by code_simp
  show ?thesis
    by (rule members_order_irrelevant)
       (simp_all add: i link_entries_def linked_dirs_def manifest_entry_def demo_manifests_def List.map_filter_simps one_target_def)
qed

text \<open>Two importers that link one name to two directories: the member depends on the order.\<close>

lemma members_depend_on_order:
  "map_of (lock_members (\<lambda>_. None)
     [([], \<lparr>im_deps = [], im_links = [(''lib'', ''a'')]\<rparr>), (''web'', \<lparr>im_deps = [], im_links = [(''lib'', ''b'')]\<rparr>)] []) ''lib'' = Some ''b'' \<and>
   map_of (lock_members (\<lambda>_. None)
     [(''web'', \<lparr>im_deps = [], im_links = [(''lib'', ''b'')]\<rparr>), ([], \<lparr>im_deps = [], im_links = [(''lib'', ''a'')]\<rparr>)] []) ''lib'' = Some ''a''"
  by code_simp

end
