(* ===== verification/BuildRules.thy ===== *)
theory BuildRules imports GoPath begin

text \<open>
  What the sources see of Gazelle and buildtools: a rule is the answers its accessors give, a label
  the fields of \<open>label.Label\<close>, and parsing, printing and resolving labels are the parameter
  \<open>label_api\<close>.  The expressions are the shapes of buildtools' syntax tree the sources tell apart;
  the flag of a string is \<open>rule.ShouldKeep\<close> of its node.
\<close>

section \<open>Expressions and rules\<close>

datatype expr =
    StringExpr string bool
  | IdentExpr string
  | ListExpr "expr list"
  | OtherExpr

record comments =
  cm_before :: "string list"
  cm_suffix :: "string list"

record build_rule =
  ru_kind :: string
  ru_name :: string
  ru_attr :: "string \<Rightarrow> expr option"
  ru_string :: "string \<Rightarrow> string"
  ru_strings :: "string \<Rightarrow> string list"
  ru_comments :: "string \<Rightarrow> comments option"
  ru_keep :: bool

fun string_values :: "expr list \<Rightarrow> string list" where
  "string_values [] = []"
| "string_values (StringExpr s _ # es) = s # string_values es"
| "string_values (_ # es) = string_values es"

text \<open>The documented behaviour of \<open>AttrString\<close> and \<open>AttrStrings\<close>: the value of a string, the
  strings of a list, and nothing for another shape.\<close>

definition reads_attrs :: "build_rule \<Rightarrow> bool" where
  "reads_attrs r \<longleftrightarrow>
     (\<forall>k. ru_string r k = (case ru_attr r k of Some (StringExpr s _) \<Rightarrow> s | _ \<Rightarrow> []) \<and>
          ru_strings r k = (case ru_attr r k of Some (ListExpr es) \<Rightarrow> string_values es | _ \<Rightarrow> []))"

lemma string_values_mem: "s \<in> set (string_values es) \<longleftrightarrow> (\<exists>k. StringExpr s k \<in> set es)"
  by (induction es rule: string_values.induct) auto

section \<open>Labels\<close>

record label =
  lb_repo :: string
  lb_pkg :: string
  lb_name :: string
  lb_relative :: bool
  lb_canonical :: bool

record label_api =
  la_parse :: "string \<Rightarrow> label option"
  la_string :: "label \<Rightarrow> string"
  la_abs :: "label \<Rightarrow> string \<Rightarrow> string \<Rightarrow> label"
  la_rel :: "label \<Rightarrow> string \<Rightarrow> string \<Rightarrow> label"

text \<open>\<open>parseLabel\<close> remembers what \<open>label.Parse\<close> answered.\<close>

definition parse_label :: "label_api \<Rightarrow> string \<Rightarrow> label option" where
  "parse_label api s = la_parse api s"

definition label_identity :: "label_api \<Rightarrow> label \<Rightarrow> string \<Rightarrow> string \<Rightarrow> label" where
  "label_identity api lbl repo pkg =
     (let l = la_abs api lbl repo pkg in
      if lb_repo l = [] \<or> lb_repo l = ''@'' then l\<lparr>lb_repo := repo, lb_canonical := False\<rparr> else l)"

definition relative_label :: "label_api \<Rightarrow> label \<Rightarrow> string \<Rightarrow> string \<Rightarrow> label" where
  "relative_label api lbl repo pkg =
     (let l = label_identity api lbl repo pkg in if lb_canonical l then l else la_rel api l repo pkg)"

text \<open>The memo of \<open>emissionLabel\<close> is transparent, so it is not in the model.\<close>

definition resolve_emission_label :: "label_api \<Rightarrow> string \<Rightarrow> string \<Rightarrow> string \<Rightarrow> string" where
  "resolve_emission_label api repo pkg name =
     (case parse_label api name of
        None \<Rightarrow> []
      | Some l0 \<Rightarrow>
          let l = label_identity api l0 repo pkg in
          la_string api (if \<not> lb_canonical l \<and> lb_repo l = repo then l\<lparr>lb_repo := []\<rparr> else l))"

definition emission_label :: "label_api \<Rightarrow> string \<Rightarrow> string \<Rightarrow> string \<Rightarrow> string" where
  "emission_label api repo pkg name = (if name = [] then [] else resolve_emission_label api repo pkg name)"

section \<open>Names of sources\<close>

definition srcLabel :: "string \<Rightarrow> string option" where
  "srcLabel name =
     (if contains_str name '':'' then None
      else if has_prefix name ''@'' \<or> has_prefix name ''//'' then Some ('':'' @ name)
      else Some name)"

definition srcLabels :: "string list \<Rightarrow> string list" where
  "srcLabels names = List.map_filter srcLabel names"

definition or_repo_root :: "string \<Rightarrow> string" where
  "or_repo_root rel = (if rel = [] then ''the workspace root'' else rel)"

text \<open>A source label always names a file of the package: it opens neither a repository nor a
  package, and its only colon is the first byte.\<close>

lemma srcLabel_local:
  assumes "srcLabel name = Some l"
  shows "\<not> has_prefix l ''@'' \<and> \<not> has_prefix l ''//'' \<and> (l = name \<or> l = '':'' @ name) \<and> CHR '':'' \<notin> set name"
proof -
  have "CHR '':'' \<notin> set name"
    using assms by (auto simp: srcLabel_def sublist_singleton split: if_splits)
  then show ?thesis using assms by (auto simp: srcLabel_def split: if_splits)
qed

section \<open>Kept attributes\<close>

definition kept_comment :: "string \<Rightarrow> bool" where
  "kept_comment token =
     (let t = trim_space (trim_prefix token ''#'') in t = ''keep'' \<or> has_prefix t ''keep: '')"

definition attr_kept :: "build_rule \<Rightarrow> string \<Rightarrow> bool" where
  "attr_kept r key =
     (case ru_comments r key of
        None \<Rightarrow> False
      | Some cs \<Rightarrow> list_ex kept_comment (cm_before cs @ cm_suffix cs))"

end
