(* ===== verification/Keep.thy ===== *)
theory Keep imports BuildRules GoRegexp begin

text \<open>
  What a regeneration says of the values it drops, \<open>gazelle/keep.go\<close>, over the table of kinds of
  \<open>gazelle/language.go\<close>.  The disk is the parameter \<open>exists\<close>; a log line is an event.
\<close>

section \<open>The kinds\<close>

record kind_info =
  ki_match :: "string list"
  ki_nonempty :: "string list"
  ki_mergeable :: "string list"
  ki_resolve :: "string list"

definition no_kind :: kind_info where
  "no_kind = \<lparr>ki_match = [], ki_nonempty = [], ki_mergeable = [], ki_resolve = []\<rparr>"

definition kinds :: "(string \<times> kind_info) list" where
  "kinds =
     [(''exports_files'', no_kind\<lparr>ki_match := [''srcs'']\<rparr>),
      (''ts_compile'',
       no_kind\<lparr>ki_nonempty := [''srcs'', ''package_scopes''],
         ki_mergeable := [''srcs'', ''type_inputs'', ''package_scopes'', ''deps'', ''visibility'', ''tsconfig'',
           ''node_modules'', ''source_node_modules'', ''emit''],
         ki_resolve := [''source_node_modules'', ''srcs'', ''type_inputs'', ''package_scopes'', ''deps'']\<rparr>),
      (''ts_test'',
       no_kind\<lparr>ki_nonempty := [''srcs''],
         ki_mergeable := [''srcs'', ''type_inputs'', ''package_scopes'', ''deps'', ''tsconfig'', ''config'',
           ''node_modules'', ''source_node_modules'', ''emit''],
         ki_resolve := [''source_node_modules'', ''srcs'', ''type_inputs'', ''package_scopes'', ''test_srcs'', ''deps'',
           ''config_srcs'', ''config_node_modules'', ''workers_pool'', ''wrangler_config'', ''coverage_provider'']\<rparr>),
      (''ts_config'',
       no_kind\<lparr>ki_nonempty := [''src''], ki_mergeable := [''src'', ''deps'', ''jsx'', ''module'', ''visibility'']\<rparr>),
      (''ts_codegen'', no_kind),
      (''ts_proto_config'', no_kind),
      (''ts_proto_library'',
       no_kind\<lparr>ki_nonempty := [''proto''],
         ki_mergeable := [''proto'', ''out_dir'', ''tsconfig'', ''node_modules'', ''source_node_modules'', ''options'',
           ''deps'', ''type_inputs'', ''visibility''],
         ki_resolve := [''deps'', ''type_inputs'', ''source_node_modules'']\<rparr>),
      (''ts_dev_server'',
       no_kind\<lparr>ki_nonempty := [''entry_point''],
         ki_mergeable := [''entry_point'', ''node_modules'', ''plugin'', ''visibility'']\<rparr>),
      (''filegroup'', no_kind\<lparr>ki_nonempty := [''srcs''], ki_mergeable := [''srcs'', ''visibility'']\<rparr>),
      (''node_modules'',
       no_kind\<lparr>ki_nonempty := [''deps'', ''parent'', ''hoist''],
         ki_mergeable := [''deps'', ''parent'', ''hoist'', ''visibility'']\<rparr>),
      (''node_modules_member'',
       no_kind\<lparr>ki_nonempty := [''member''], ki_mergeable := [''member'', ''visibility'']\<rparr>),
      (''npm_virtual_store'', no_kind)]"

definition kind_loads :: "(string \<times> string) list" where
  "kind_loads =
     [(''ts_codegen'', ''//ts:defs.bzl''), (''ts_proto_library'', ''//proto:defs.bzl''),
      (''ts_proto_config'', ''//proto:defs.bzl''), (''ts_compile'', ''//ts:defs.bzl''),
      (''ts_config'', ''//ts:defs.bzl''), (''ts_dev_server'', ''//ts:defs.bzl''), (''ts_test'', ''//ts:defs.bzl''),
      (''node_modules'', ''//npm:defs.bzl''), (''node_modules_member'', ''//npm:defs.bzl''),
      (''npm_virtual_store'', ''@npm//:defs.bzl'')]"

definition load_file :: "string \<Rightarrow> string \<Rightarrow> string" where
  "load_file rulesTs file = (if has_prefix file ''@'' then file else ''@'' @ rulesTs @ file)"

text \<open>The symbols loaded from each file, by file name.\<close>

definition apparent_loads :: "(string \<Rightarrow> string) \<Rightarrow> (string \<times> string list) list" where
  "apparent_loads moduleToApparentName =
     (let apparent = moduleToApparentName ''rules_typescript'';
          rulesTs = (if apparent = [] then ''rules_typescript'' else apparent);
          loads = List.map_filter (\<lambda>(k, _). map_option (\<lambda>f. (load_file rulesTs f, k)) (map_of kind_loads k)) kinds
      in map (\<lambda>file. (file, sort_strings (map snd (filter (\<lambda>(f, _). f = file) loads))))
           (sort_strings (remdups (map fst loads))))"

definition managed_attrs :: "string \<Rightarrow> string list \<times> string list" where
  "managed_attrs k =
     (case map_of kinds k of
        None \<Rightarrow> ([], [])
      | Some info \<Rightarrow>
          (sort_strings (ki_mergeable info),
           sort_strings (filter (\<lambda>a. a \<in> set (ki_resolve info)) (ki_mergeable info))))"

section \<open>Values\<close>

record generate_args =
  ga_repo_root :: string
  ga_repo_name :: string
  ga_dir :: string
  ga_rel :: string
  ga_rules :: "build_rule list option"  \<comment> \<open>the rules of the BUILD file, None without one\<close>

definition is_string_expr :: "expr \<Rightarrow> bool" where
  "is_string_expr e \<longleftrightarrow> (case e of StringExpr _ _ \<Rightarrow> True | _ \<Rightarrow> False)"

fun is_literal_attr_value :: "expr option \<Rightarrow> bool" where
  "is_literal_attr_value None = True"
| "is_literal_attr_value (Some (IdentExpr n)) = (n = ''True'' \<or> n = ''False'')"
| "is_literal_attr_value (Some (StringExpr _ _)) = True"
| "is_literal_attr_value (Some (ListExpr es)) = list_all is_string_expr es"
| "is_literal_attr_value (Some OtherExpr) = False"

fun list_elements :: "expr option \<Rightarrow> expr list" where
  "list_elements (Some (ListExpr es)) = es"
| "list_elements _ = []"

definition alnum :: "char \<Rightarrow> bool" where
  "alnum c \<longleftrightarrow> is_digit c \<or> is_lower c \<or> is_upper c"

primrec up_to :: "nat \<Rightarrow> re \<Rightarrow> re" where
  "up_to 0 r = Eps"
| "up_to (Suc n) r = Alt (Seq r (up_to n r)) Eps"

definition fileExtension :: re where
  "fileExtension = Seq (Lit ''.'') (Seq (Seq (Cls alnum) (up_to 5 (Cls alnum))) Eot)"

definition path_exists :: "(string \<Rightarrow> bool) \<Rightarrow> string \<Rightarrow> string \<Rightarrow> bool" where
  "path_exists exists base rel = exists (path_join [base, rel])"

definition derivable_value :: "(string \<Rightarrow> bool) \<Rightarrow> generate_args \<Rightarrow> string \<Rightarrow> bool" where
  "derivable_value exists args v =
     (if v = [] \<or> has_prefix v ''@'' \<or> has_prefix v '':'' then True
      else if has_prefix v ''//'' then
        (let (pkg, _, _) = cut_at (trim_prefix v ''//'') '':'' in
         pkg = [] \<or> path_exists exists (ga_repo_root args) pkg)
      else if contains_str v '':'' then True
      else if contains_str v ''/'' \<or> match_string fileExtension v then path_exists exists (ga_dir args) v
      else True)"

definition dropped_attr_values ::
    "(string \<Rightarrow> bool) \<Rightarrow> generate_args \<Rightarrow> build_rule \<Rightarrow> build_rule \<Rightarrow> string \<Rightarrow> string list" where
  "dropped_attr_values exists args hav want attr =
     (let s = ru_string hav attr in
      if s \<noteq> [] then
        (if ru_string want attr = s \<or> \<not> derivable_value exists args s then [] else [s])
      else
        List.map_filter (\<lambda>e.
          case e of
            StringExpr v kept \<Rightarrow>
              if kept \<or> v \<in> set (ru_strings want attr) \<or> \<not> derivable_value exists args v then None else Some v
          | _ \<Rightarrow> None) (list_elements (ru_attr hav attr)))"

section \<open>Reports\<close>

datatype drop_event =
    Unmergeable build_rule string
  | Dropped build_rule string "string list"
  | AfterResolve nat build_rule "string list"  \<comment> \<open>\<open>reportSrcDrops\<close> of the imports at this index\<close>

definition attr_event ::
    "(string \<Rightarrow> bool) \<Rightarrow> generate_args \<Rightarrow> bool list \<Rightarrow> nat \<Rightarrow> build_rule \<Rightarrow> build_rule \<Rightarrow> string \<Rightarrow> drop_event list" where
  "attr_event exists args rule_imports i want hav attr =
     (if attr_kept hav attr then []
      else case ru_attr hav attr of
        None \<Rightarrow> []
      | Some e \<Rightarrow>
          if \<not> is_literal_attr_value (Some e) then [Unmergeable hav attr]
          else if attr \<in> set (snd (managed_attrs (ru_kind want))) \<and> attr \<noteq> ''srcs'' then []
          else
            let dropped = dropped_attr_values exists args hav want attr in
            if attr = ''srcs'' \<and> dropped \<noteq> [] \<and> i < length rule_imports \<and> rule_imports ! i
            then [AfterResolve i hav dropped]
            else if dropped = [] then [] else [Dropped hav attr dropped])"

definition rule_events ::
    "(string \<Rightarrow> bool) \<Rightarrow> generate_args \<Rightarrow> bool list \<Rightarrow> nat \<Rightarrow> build_rule \<Rightarrow> build_rule list \<Rightarrow> drop_event list" where
  "rule_events exists args rule_imports i want rules =
     concat (map (\<lambda>hav. concat (map (attr_event exists args rule_imports i want hav) (fst (managed_attrs (ru_kind want)))))
       (filter (\<lambda>hav. ru_kind hav = ru_kind want \<and> ru_name hav = ru_name want \<and> \<not> ru_keep hav) rules))"

definition report_managed_attr_drops ::
    "(string \<Rightarrow> bool) \<Rightarrow> generate_args \<Rightarrow> build_rule list \<Rightarrow> bool list \<Rightarrow> drop_event list" where
  "report_managed_attr_drops exists args gen rule_imports =
     (case ga_rules args of
        None \<Rightarrow> []
      | Some rules \<Rightarrow> concat (map (\<lambda>(i, want). rule_events exists args rule_imports i want rules) (enumerate 0 gen)))"

definition source_label_identity :: "label_api \<Rightarrow> generate_args \<Rightarrow> label \<Rightarrow> label" where
  "source_label_identity api args lbl = label_identity api lbl (ga_repo_name args) (ga_rel args)"

text \<open>The report once the rule is resolved: a source the final rule holds under any spelling is
  not dropped.\<close>

definition report_src_drops :: "label_api \<Rightarrow> generate_args \<Rightarrow> build_rule \<Rightarrow> build_rule \<Rightarrow> string list \<Rightarrow> drop_event list" where
  "report_src_drops api args final hav dropped =
     (let retained = set (List.map_filter (\<lambda>v. map_option (source_label_identity api args) (parse_label api v))
            (ru_strings final ''srcs''));
          left = filter (\<lambda>v. case parse_label api v of None \<Rightarrow> True | Some l \<Rightarrow> source_label_identity api args l \<notin> retained) dropped
      in if left = [] then [] else [Dropped hav ''srcs'' left])"

section \<open>No value is dropped in silence\<close>

lemma dropped_in_list:
  assumes "reads_attrs hav" "ru_attr hav attr = Some (ListExpr es)"
  shows "v \<in> set (dropped_attr_values exists args hav want attr) \<longleftrightarrow>
    StringExpr v False \<in> set es \<and> v \<notin> set (ru_strings want attr) \<and> derivable_value exists args v"
proof -
  have n: "ru_string hav attr = []" using assms by (simp add: reads_attrs_def)
  have "(case e of StringExpr w kept \<Rightarrow> if kept \<or> C w then None else Some w | _ \<Rightarrow> None) = Some v \<longleftrightarrow>
      e = StringExpr v False \<and> \<not> C v" for e C
    by (cases e) auto
  then show ?thesis
    by (auto simp: dropped_attr_values_def n set_map_filter assms(2))
qed

text \<open>A value of a list Gazelle maintains that the new rule lacks is reported, at once or, for a
  source, when the rule is resolved, unless it is kept or no longer there.\<close>

lemma no_silent_drop:
  assumes "reads_attrs hav" "ga_rules args = Some rules" "hav \<in> set rules" "i < length gen"
    and "ru_kind hav = ru_kind (gen ! i)" "ru_name hav = ru_name (gen ! i)" "\<not> ru_keep hav"
    and "attr \<in> set (fst (managed_attrs (ru_kind (gen ! i))))" "attr = ''srcs'' \<or> attr \<notin> set (snd (managed_attrs (ru_kind (gen ! i))))"
    and "\<not> attr_kept hav attr" "ru_attr hav attr = Some (ListExpr es)" "list_all is_string_expr es"
    and "StringExpr v False \<in> set es" "v \<notin> set (ru_strings (gen ! i) attr)" "derivable_value exists args v"
  shows "\<exists>vs. v \<in> set vs \<and>
    (Dropped hav attr vs \<in> set (report_managed_attr_drops exists args gen imps) \<or>
     attr = ''srcs'' \<and> AfterResolve i hav vs \<in> set (report_managed_attr_drops exists args gen imps))"
proof -
  let ?d = "dropped_attr_values exists args hav (gen ! i) attr"
  have v: "v \<in> set ?d" using dropped_in_list[OF assms(1,11)] assms(13,14,15) by blast
  then have n: "?d \<noteq> []" by auto
  have e: "attr_event exists args imps i (gen ! i) hav attr =
      (if attr = ''srcs'' \<and> i < length imps \<and> imps ! i then [AfterResolve i hav ?d] else [Dropped hav attr ?d])"
    using assms(9,10,11,12) n by (auto simp: attr_event_def Let_def)
  have "set (attr_event exists args imps i (gen ! i) hav attr) \<subseteq> set (report_managed_attr_drops exists args gen imps)"
    using assms(2,3,4,5,6,7,8)
    by (fastforce simp: report_managed_attr_drops_def rule_events_def in_set_enumerate_eq intro!: bexI[of _ "(i, gen ! i)"])
  with e v show ?thesis by (auto split: if_splits)
qed

end
