(* ===== verification/ProtoGraph.thy ===== *)
theory ProtoGraph imports BuildRules "HOL-Library.AList" begin

text \<open>
  The graph of native proto libraries, \<open>gazelle/proto_graph.go\<close>: loading it, the owners of a node
  and the wrappers a set of local libraries needs.  The recursive closures of the sources are loops
  over the list of the calls still to make, in the order the recursion makes them.  A nil node is an
  error of the result, as is a fatal log line.
\<close>

section \<open>Loading\<close>

record proto_node =
  pn_label :: string
  pn_sources :: "string list"
  pn_deps :: "string list"

text \<open>The maps of the Go struct as association lists; \<open>sources\<close> holds a pair per entry.\<close>

record proto_graph =
  pg_nodes :: "(string \<times> proto_node) list"
  pg_sources :: "(string \<times> proto_node) list"
  pg_labels :: "(string \<times> label) list"

datatype graph_error =
    NotCanonical string
  | DuplicateOwner string
  | MissingOwner string string
  | BadRoot string
  | RootWithoutOwner string
  | NilNode
  | ApparentOverride label
  | ManyOwners string nat

fun and_then :: "'e + 'a \<Rightarrow> ('a \<Rightarrow> 'e + 'b) \<Rightarrow> 'e + 'b" where
  "and_then (Inl e) f = Inl e"
| "and_then (Inr x) f = f x"

lemma and_then_Inr: "and_then a f = Inr y \<longleftrightarrow> (\<exists>x. a = Inr x \<and> f x = Inr y)"
  by (cases a) auto

definition no_graph :: proto_graph where
  "no_graph = \<lparr>pg_nodes = [], pg_sources = [], pg_labels = []\<rparr>"

fun load_nodes :: "label_api \<Rightarrow> proto_node list \<Rightarrow> proto_graph \<Rightarrow> graph_error + proto_graph" where
  "load_nodes api [] g = Inr g"
| "load_nodes api (n # ns) g =
     (case parse_label api (pn_label n) of
        None \<Rightarrow> Inl (NotCanonical (pn_label n))
      | Some l \<Rightarrow>
          if \<not> lb_canonical l \<or> lb_repo l = [] then Inl (NotCanonical (pn_label n))
          else if map_of (pg_nodes g) (pn_label n) \<noteq> None then Inl (DuplicateOwner (pn_label n))
          else load_nodes api ns
            (g\<lparr>pg_nodes := pg_nodes g @ [(pn_label n, n)], pg_labels := AList.update (pn_label n) l (pg_labels g),
               pg_sources := pg_sources g @ map (\<lambda>s. (s, n)) (pn_sources n)\<rparr>))"

definition missing_dep :: "proto_graph \<Rightarrow> proto_node list \<Rightarrow> (string \<times> string) option" where
  "missing_dep g ns =
     find (\<lambda>(_, dep). map_of (pg_nodes g) dep = None)
       (concat (map (\<lambda>n. map (\<lambda>dep. (pn_label n, dep)) (pn_deps n)) ns))"

fun load_roots :: "label_api \<Rightarrow> (string \<times> string) list \<Rightarrow> proto_graph \<Rightarrow> graph_error + proto_graph" where
  "load_roots api [] g = Inr g"
| "load_roots api ((spelling, native) # rs) g =
     (case parse_label api spelling of
        None \<Rightarrow> Inl (BadRoot spelling)
      | Some l \<Rightarrow>
          (case map_of (pg_labels g) native of
             None \<Rightarrow> Inl (RootWithoutOwner spelling)
           | Some target \<Rightarrow> load_roots api rs (g\<lparr>pg_labels := AList.update (la_string api l) target (pg_labels g)\<rparr>)))"

text \<open>The roots come in an order of Go's choice.\<close>

definition load_proto_graph :: "label_api \<Rightarrow> proto_node list \<Rightarrow> (string \<times> string) list \<Rightarrow> graph_error + proto_graph" where
  "load_proto_graph api nodes roots =
     and_then (load_nodes api nodes no_graph) (\<lambda>g.
       case missing_dep g nodes of
         Some (n, dep) \<Rightarrow> Inl (MissingOwner n dep)
       | None \<Rightarrow> load_roots api roots g)"

section \<open>Owners\<close>

definition normalize :: "label_api \<Rightarrow> proto_graph option \<Rightarrow> label \<Rightarrow> label" where
  "normalize api g l =
     (case g of
        None \<Rightarrow> l
      | Some g \<Rightarrow> (case map_of (pg_labels g) (la_string api l) of None \<Rightarrow> l | Some target \<Rightarrow> target))"

definition child_nodes :: "proto_graph \<Rightarrow> proto_node \<Rightarrow> proto_node option list" where
  "child_nodes g n = map (map_of (pg_nodes g)) (pn_deps n)"

text \<open>The calls of \<open>visit\<close> still to make, the labels seen and the result so far.\<close>

definition unseen :: "proto_graph \<Rightarrow> proto_node option list \<Rightarrow> string list \<Rightarrow> string set" where
  "unseen g ps seen = (pn_label ` snd ` set (pg_nodes g) \<union> {pn_label n |n. Some n \<in> set ps}) - set seen"

lemma finite_unseen [simp]: "finite (unseen g ps seen)"
proof -
  have "{pn_label n |n. Some n \<in> set ps} \<subseteq> (\<lambda>x. case x of None \<Rightarrow> [] | Some n \<Rightarrow> pn_label n) ` set ps"
    by force
  then show ?thesis unfolding unseen_def by (simp add: finite_subset)
qed

lemma unseen_tail: "unseen g ps seen \<subseteq> unseen g (p # ps) seen"
  by (auto simp: unseen_def)

lemma unseen_visit:
  assumes "pn_label n \<notin> set seen"
  shows "unseen g (child_nodes g n @ ps) (pn_label n # seen) \<subset> unseen g (Some n # ps) seen"
proof
  have "Some m \<in> set (child_nodes g n) \<Longrightarrow> pn_label m \<in> pn_label ` snd ` set (pg_nodes g)" for m
    by (auto simp: child_nodes_def image_iff dest!: map_of_SomeD[OF sym]) force
  then show "unseen g (child_nodes g n @ ps) (pn_label n # seen) \<subseteq> unseen g (Some n # ps) seen"
    by (auto simp: unseen_def)
  show "unseen g (child_nodes g n @ ps) (pn_label n # seen) \<noteq> unseen g (Some n # ps) seen"
    using assms by (auto simp: unseen_def)
qed

lemma unseen_own:
  assumes "pn_label n \<notin> set seen"
  shows "unseen g ps (pn_label n # seen) \<subset> unseen g (Some n # ps) seen"
  using assms by (auto simp: unseen_def)

function visit_owners ::
    "proto_graph \<Rightarrow> proto_node option list \<Rightarrow> string list \<Rightarrow> proto_node list \<Rightarrow> graph_error + proto_node list" where
  "visit_owners g [] seen res = Inr res"
| "visit_owners g (None # ps) seen res = Inl NilNode"
| "visit_owners g (Some n # ps) seen res =
     (if pn_label n \<in> set seen then visit_owners g ps seen res
      else if pn_sources n \<noteq> [] then visit_owners g ps (pn_label n # seen) (res @ [n])
      else visit_owners g (child_nodes g n @ ps) (pn_label n # seen) res)"
  by pat_completeness auto
termination
proof (relation "inv_image (finite_psubset <*lex*> less_than) (\<lambda>(g, ps, seen, res). (unseen g ps seen, length ps))",
    goal_cases)
  case (2 g n ps seen res)
  then show ?case using unseen_tail[of g ps seen "Some n"] by (auto simp: finite_psubset_def)
next
  case (3 g n ps seen res)
  then show ?case using unseen_own[of n seen g ps] by (auto simp: finite_psubset_def)
next
  case (4 g n ps seen res)
  then show ?case using unseen_visit[of n seen g ps] by (auto simp: finite_psubset_def)
qed (intro wf_inv_image wf_lex_prod wf_finite_psubset wf_less_than)

definition direct_owners :: "proto_graph \<Rightarrow> proto_node option \<Rightarrow> graph_error + proto_node list" where
  "direct_owners g n = visit_owners g [n] [] []"

text \<open>The config of a Gazelle package is opaque; its resolve override and its repository name are
  parameters.\<close>

definition providers ::
    "label_api \<Rightarrow> (string \<Rightarrow> label option) \<Rightarrow> string \<Rightarrow> proto_graph option \<Rightarrow> string \<Rightarrow> graph_error + proto_node list" where
  "providers api override repoName g imp =
     (case g of
        None \<Rightarrow> Inr []
      | Some g0 \<Rightarrow>
          (case override imp of
             Some o' \<Rightarrow>
               (let normalized = normalize api g o' in
                if lb_repo o' \<noteq> [] \<and> lb_repo o' \<noteq> repoName \<and> \<not> lb_canonical normalized then Inl (ApparentOverride o')
                else case map_of (pg_nodes g0) (la_string api normalized) of
                  None \<Rightarrow> Inr []
                | Some node \<Rightarrow>
                    and_then (direct_owners g0 (Some node)) (\<lambda>owners. Inr (filter (\<lambda>n. imp \<in> set (pn_sources n)) owners)))
           | None \<Rightarrow> Inr (map snd (filter (\<lambda>(s, _). s = imp) (pg_sources g0)))))"

section \<open>Observations\<close>

record proto_identity =
  pi_name :: string
  pi_outDir :: string
  pi_tsconfig :: string
  pi_nodeModules :: string
  pi_deps :: "string list"
  pi_options :: "string list"
  pi_owner :: string

record 'c proto_observation =
  ob_nativeDeps :: "label list"
  ob_config :: 'c
  ob_native :: label
  ob_identity :: proto_identity
  ob_paths :: "string list"
  ob_imports :: "string list"

definition bootstraps :: "proto_identity \<Rightarrow> bool" where
  "bootstraps i \<longleftrightarrow> ''bootstrap_wkt=true'' \<in> set (pi_options i)"

definition runtime_import :: "(string \<times> string) list \<Rightarrow> string \<Rightarrow> string" where
  "runtime_import rt source = (case map_of rt source of None \<Rightarrow> [] | Some x \<Rightarrow> x)"

definition needs_wrapper :: "(string \<times> string) list \<Rightarrow> proto_node \<Rightarrow> proto_identity \<Rightarrow> bool" where
  "needs_wrapper rt n i \<longleftrightarrow> list_ex (\<lambda>s. runtime_import rt s = [] \<or> bootstraps i) (pn_sources n)"

definition label_of :: "proto_graph \<Rightarrow> string \<Rightarrow> label" where
  "label_of g s = (case map_of (pg_labels g) s of Some l \<Rightarrow> l | None \<Rightarrow> \<lparr>lb_repo = [], lb_pkg = [], lb_name = [], lb_relative = False, lb_canonical = False\<rparr>)"

fun owners_of_all :: "proto_graph \<Rightarrow> proto_node option list \<Rightarrow> graph_error + proto_node list" where
  "owners_of_all g [] = Inr []"
| "owners_of_all g (n # ns) = and_then (direct_owners g n) (\<lambda>a. and_then (owners_of_all g ns) (\<lambda>b. Inr (a @ b)))"

text \<open>The direct owners of an owner's dependencies that need a wrapper.\<close>

definition wrapped_deps :: "proto_graph \<Rightarrow> (string \<times> string) list \<Rightarrow> proto_identity \<Rightarrow> proto_node \<Rightarrow> graph_error + proto_node list" where
  "wrapped_deps g rt i owner =
     and_then (owners_of_all g (child_nodes g owner)) (\<lambda>directs. Inr (filter (\<lambda>d. needs_wrapper rt d i) directs))"

text \<open>What is left of a call of \<open>add\<close>: an owner to look at, or an observation to append.\<close>

datatype 'c task = Look proto_node | Append "'c proto_observation"

definition seen_key :: "proto_identity \<Rightarrow> string \<Rightarrow> string" where
  "seen_key i l = pi_name i @ '':'' @ l"

definition observe :: "proto_graph \<Rightarrow> 'c proto_observation \<Rightarrow> proto_node \<Rightarrow> proto_node list \<Rightarrow> 'c proto_observation" where
  "observe g ob owner directs =
     \<lparr>ob_nativeDeps = map (\<lambda>d. label_of g (pn_label d)) directs, ob_config = ob_config ob,
      ob_native = label_of g (pn_label owner), ob_identity = ob_identity ob, ob_paths = pn_sources owner, ob_imports = []\<rparr>"

lemma child_nodes_in: "Some m \<in> set (child_nodes g n) \<Longrightarrow> m \<in> snd ` set (pg_nodes g)"
  by (auto simp: child_nodes_def image_iff dest!: map_of_SomeD[OF sym]) force

lemma visit_owners_from:
  "visit_owners g ps seen res = Inr out \<Longrightarrow> set out \<subseteq> set res \<union> {n. Some n \<in> set ps} \<union> snd ` set (pg_nodes g)"
proof (induction g ps seen res rule: visit_owners.induct)
  case (3 g n ps seen res)
  then show ?case by (auto split: if_splits dest: child_nodes_in)
qed auto

lemma direct_owners_from: "direct_owners g n = Inr out \<Longrightarrow> set out \<subseteq> {m. n = Some m} \<union> snd ` set (pg_nodes g)"
  unfolding direct_owners_def by (drule visit_owners_from) auto

lemma owners_of_all_from:
  "owners_of_all g ns = Inr out \<Longrightarrow> set out \<subseteq> {m. Some m \<in> set ns} \<union> snd ` set (pg_nodes g)"
proof (induction ns arbitrary: out)
  case (Cons n ns)
  then obtain a b where "direct_owners g n = Inr a" "owners_of_all g ns = Inr b" "out = a @ b"
    by (auto simp: and_then_Inr)
  then show ?case using direct_owners_from[of g n a] Cons.IH[of b] by fastforce
qed simp

lemma wrapped_deps_from: "wrapped_deps g rt i n = Inr ds \<Longrightarrow> set ds \<subseteq> snd ` set (pg_nodes g)"
  by (auto simp: wrapped_deps_def and_then_Inr dest!: owners_of_all_from dest: child_nodes_in)

definition unlooked :: "proto_graph \<Rightarrow> proto_identity \<Rightarrow> 'c task list \<Rightarrow> string list \<Rightarrow> string set" where
  "unlooked g i ts seen =
     seen_key i ` (pn_label ` snd ` set (pg_nodes g) \<union> {pn_label n |n. Look n \<in> set ts}) - set seen"

lemma finite_unlooked [simp]: "finite (unlooked g i ts seen)"
proof -
  have "{pn_label n |n. Look n \<in> set ts} \<subseteq> (\<lambda>t. case t of Look n \<Rightarrow> pn_label n | Append _ \<Rightarrow> []) ` set ts"
    by force
  then show ?thesis unfolding unlooked_def by (simp add: finite_subset)
qed

lemma unlooked_tail: "unlooked g i ts seen \<subseteq> unlooked g i (t # ts) seen"
  by (auto simp: unlooked_def)

lemma unlooked_own:
  assumes "seen_key i (pn_label n) \<notin> set seen"
    and "\<And>m. Look m \<in> set new \<Longrightarrow> m \<in> snd ` set (pg_nodes g)"
  shows "unlooked g i (new @ ts) (seen_key i (pn_label n) # seen) \<subset> unlooked g i (Look n # ts) seen"
proof
  show "unlooked g i (new @ ts) (seen_key i (pn_label n) # seen) \<subseteq> unlooked g i (Look n # ts) seen"
    using assms(2) by (auto simp: unlooked_def)
  have "seen_key i (pn_label n) \<in> unlooked g i (Look n # ts) seen" using assms(1) by (auto simp: unlooked_def)
  then show "unlooked g i (new @ ts) (seen_key i (pn_label n) # seen) \<noteq> unlooked g i (Look n # ts) seen"
    by (auto simp: unlooked_def)
qed

function run_add ::
    "proto_graph \<Rightarrow> (string \<times> string) list \<Rightarrow> 'c proto_observation \<Rightarrow> 'c task list \<Rightarrow> string list \<Rightarrow> 'c proto_observation list
     \<Rightarrow> graph_error + string list \<times> 'c proto_observation list" where
  "run_add g rt ob [] seen res = Inr (seen, res)"
| "run_add g rt ob (Append x # ts) seen res = run_add g rt ob ts seen (res @ [x])"
| "run_add g rt ob (Look owner # ts) seen res =
     (let i = ob_identity ob; key = seen_key i (pn_label owner) in
      if key \<in> set seen then run_add g rt ob ts seen res
      else if \<not> needs_wrapper rt owner i then run_add g rt ob ts (key # seen) res
      else case wrapped_deps g rt i owner of
        Inl e \<Rightarrow> Inl e
      | Inr directs \<Rightarrow>
          (case owners_of_all g (map Some directs) of
             Inl e \<Rightarrow> Inl e
           | Inr nexts \<Rightarrow>
               run_add g rt ob (map Look nexts @ Append (observe g ob owner directs) # ts) (key # seen) res))"
  by pat_completeness auto
termination
proof (relation "inv_image (finite_psubset <*lex*> less_than)
    (\<lambda>(g, rt, ob, ts, seen, res). (unlooked g (ob_identity ob) ts seen, length ts))", goal_cases)
  case (2 g rt ob x ts seen res)
  then show ?case using unlooked_tail[of g "ob_identity ob" ts seen "Append x"] by (auto simp: finite_psubset_def)
next
  case (3 g rt ob owner ts seen res i key)
  then show ?case using unlooked_tail[of g i ts seen "Look owner"] by (auto simp: finite_psubset_def)
next
  case (4 g rt ob owner ts seen res i key)
  then show ?case using unlooked_own[of i owner seen "[]" g ts] by (auto simp: finite_psubset_def)
next
  case (5 g rt ob owner ts seen res i key directs nexts)
  have "unlooked g i ((map Look nexts @ [Append (observe g ob owner directs)]) @ ts) (seen_key i (pn_label owner) # seen)
      \<subset> unlooked g i (Look owner # ts) seen"
    by (rule unlooked_own) (use 5 owners_of_all_from[OF 5(6)] wrapped_deps_from[OF 5(5)] in auto)
  then show ?case using 5 by (auto simp: finite_psubset_def)
qed (intro wf_inv_image wf_lex_prod wf_finite_psubset wf_less_than)

definition add_node ::
    "proto_graph \<Rightarrow> (string \<times> string) list \<Rightarrow> 'c proto_observation \<Rightarrow> proto_node \<Rightarrow> string list \<Rightarrow> 'c proto_observation list
     \<Rightarrow> graph_error + string list \<times> 'c proto_observation list" where
  "add_node g rt ob n seen res =
     and_then (direct_owners g (Some n)) (\<lambda>owners. run_add g rt ob (map Look owners) seen res)"

text \<open>The imports of the local observations, in order: each skipped, unprovided, ambiguous or added.\<close>

definition skips_import ::
    "('c \<Rightarrow> string \<Rightarrow> label option) \<Rightarrow> (string \<times> string) list \<Rightarrow> string list \<Rightarrow> 'c proto_observation \<Rightarrow> string \<Rightarrow> bool" where
  "skips_import override rt localSources ob imp \<longleftrightarrow>
     override (ob_config ob) imp = None \<and> seen_key (ob_identity ob) imp \<in> set localSources \<or>
     runtime_import rt imp \<noteq> [] \<and> \<not> bootstraps (ob_identity ob)"

fun add_imports ::
    "label_api \<Rightarrow> ('c \<Rightarrow> string \<Rightarrow> label option) \<Rightarrow> ('c \<Rightarrow> string) \<Rightarrow> proto_graph \<Rightarrow> (string \<times> string) list \<Rightarrow> string list
     \<Rightarrow> ('c proto_observation \<times> string) list \<Rightarrow> string list \<Rightarrow> 'c proto_observation list
     \<Rightarrow> graph_error + 'c proto_observation list" where
  "add_imports api override repo g rt localSources [] seen res = Inr res"
| "add_imports api override repo g rt localSources ((ob, imp) # ims) seen res =
     (if skips_import override rt localSources ob imp then add_imports api override repo g rt localSources ims seen res
      else case providers api (override (ob_config ob)) (repo (ob_config ob)) (Some g) imp of
        Inl e \<Rightarrow> Inl e
      | Inr [] \<Rightarrow> add_imports api override repo g rt localSources ims seen res
      | Inr [n] \<Rightarrow>
          (case add_node g rt ob n seen res of
             Inl e \<Rightarrow> Inl e
           | Inr (seen', res') \<Rightarrow> add_imports api override repo g rt localSources ims seen' res')
      | Inr ms \<Rightarrow> Inl (ManyOwners imp (length ms)))"

definition external_observations ::
    "label_api \<Rightarrow> ('c \<Rightarrow> string \<Rightarrow> label option) \<Rightarrow> ('c \<Rightarrow> string) \<Rightarrow> proto_graph option \<Rightarrow> (string \<times> string) list
     \<Rightarrow> 'c proto_observation list \<Rightarrow> graph_error + 'c proto_observation list" where
  "external_observations api override repo graph rt loc =
     (case graph of
        None \<Rightarrow> Inr loc
      | Some g \<Rightarrow>
          add_imports api override repo g rt
            (concat (map (\<lambda>ob. map (seen_key (ob_identity ob)) (ob_paths ob)) loc))
            (concat (map (\<lambda>ob. map (\<lambda>imp. (ob, imp)) (ob_imports ob)) loc)) [] loc)"

section \<open>A loaded graph\<close>

definition graph_ok :: "proto_graph \<Rightarrow> bool" where
  "graph_ok g \<longleftrightarrow>
     distinct (map fst (pg_nodes g)) \<and>
     (\<forall>(l, n) \<in> set (pg_nodes g). pn_label n = l \<and> (\<forall>d \<in> set (pn_deps n). map_of (pg_nodes g) d \<noteq> None))"

abbreviation graph_nodes :: "proto_graph \<Rightarrow> proto_node set" where
  "graph_nodes g \<equiv> snd ` set (pg_nodes g)"

lemma load_nodes_ok:
  "load_nodes api ns g = Inr g' \<Longrightarrow> distinct (map fst (pg_nodes g)) \<Longrightarrow> \<forall>(l, n) \<in> set (pg_nodes g). pn_label n = l \<Longrightarrow>
   distinct (map fst (pg_nodes g')) \<and> (\<forall>(l, n) \<in> set (pg_nodes g'). pn_label n = l) \<and> map snd (pg_nodes g') = map snd (pg_nodes g) @ ns"
proof (induction ns arbitrary: g)
  case (Cons n ns)
  from Cons.prems(1) obtain l where l: "parse_label api (pn_label n) = Some l" "map_of (pg_nodes g) (pn_label n) = None"
    and r: "load_nodes api ns
            (g\<lparr>pg_nodes := pg_nodes g @ [(pn_label n, n)], pg_labels := AList.update (pn_label n) l (pg_labels g),
               pg_sources := pg_sources g @ map (\<lambda>s. (s, n)) (pn_sources n)\<rparr>) = Inr g'"
    by (auto split: option.splits if_splits)
  have "pn_label n \<notin> fst ` set (pg_nodes g)" using l(2) by (simp add: map_of_eq_None_iff)
  then show ?case using Cons.IH[OF r] Cons.prems(2,3) by auto
qed simp

lemma load_roots_nodes: "load_roots api rs g = Inr g' \<Longrightarrow> pg_nodes g' = pg_nodes g"
  by (induction api rs g rule: load_roots.induct) (auto split: option.splits)

lemma load_proto_graph_ok:
  assumes "load_proto_graph api nodes roots = Inr g"
  shows "graph_ok g \<and> graph_nodes g = set nodes"
proof -
  obtain g0 where l: "load_nodes api nodes no_graph = Inr g0"
    and r: "(case missing_dep g0 nodes of Some (n, dep) \<Rightarrow> Inl (MissingOwner n dep) | None \<Rightarrow> load_roots api roots g0) = Inr g"
    using assms by (auto simp: load_proto_graph_def and_then_Inr)
  have g0: "load_nodes api nodes no_graph = Inr g0" "missing_dep g0 nodes = None" "load_roots api roots g0 = Inr g"
    using l r by (cases "missing_dep g0 nodes"; auto)+
  have n: "distinct (map fst (pg_nodes g0))" "\<forall>(l, n) \<in> set (pg_nodes g0). pn_label n = l" "map snd (pg_nodes g0) = nodes"
    using load_nodes_ok[OF g0(1)] by (auto simp: no_graph_def)
  have "\<forall>n \<in> set nodes. \<forall>d \<in> set (pn_deps n). map_of (pg_nodes g0) d \<noteq> None"
    using g0(2) by (fastforce simp: missing_dep_def find_None_iff)
  then have "graph_ok g0" using n by (fastforce simp: graph_ok_def)
  then have "graph_ok g" unfolding graph_ok_def load_roots_nodes[OF g0(3)] .
  moreover have "graph_nodes g0 = set nodes" using arg_cong[OF n(3), of set] by simp
  ultimately show ?thesis by (simp add: load_roots_nodes[OF g0(3)])
qed

lemma graph_ok_unique:
  "graph_ok g \<Longrightarrow> n \<in> graph_nodes g \<Longrightarrow> m \<in> graph_nodes g \<Longrightarrow> pn_label n = pn_label m \<Longrightarrow> n = m"
  by (auto simp: graph_ok_def) (metis (mono_tags, lifting) case_prodD eq_key_imp_eq_value)

lemma graph_ok_children:
  assumes "graph_ok g" "n \<in> graph_nodes g" "c \<in> set (child_nodes g n)"
  shows "\<exists>m. c = Some m \<and> m \<in> graph_nodes g"
proof -
  obtain d where "d \<in> set (pn_deps n)" "c = map_of (pg_nodes g) d" using assms(3) by (auto simp: child_nodes_def)
  then have "c \<noteq> None" using assms(1,2) by (fastforce simp: graph_ok_def)
  then show ?thesis using assms(3) child_nodes_in by (cases c) auto
qed

section \<open>The owners of a node\<close>

definition inner :: "proto_graph \<Rightarrow> proto_node \<Rightarrow> proto_node \<Rightarrow> bool" where
  "inner g n m \<longleftrightarrow> pn_sources n = [] \<and> Some m \<in> set (child_nodes g n)"

definition in_graph :: "proto_graph \<Rightarrow> proto_node option list \<Rightarrow> bool" where
  "in_graph g ps \<longleftrightarrow> (\<forall>p \<in> set ps. \<exists>n. p = Some n \<and> n \<in> graph_nodes g)"

lemma in_graph_children: "graph_ok g \<Longrightarrow> n \<in> graph_nodes g \<Longrightarrow> in_graph g (child_nodes g n)"
  by (simp add: in_graph_def graph_ok_children)

lemma visit_owners_total: "graph_ok g \<Longrightarrow> in_graph g ps \<Longrightarrow> \<exists>out. visit_owners g ps seen res = Inr out"
proof (induction g ps seen res rule: visit_owners.induct)
  case (3 g n ps seen res)
  then have "in_graph g ps" "in_graph g (child_nodes g n @ ps)"
    using in_graph_children[of g n] by (auto simp: in_graph_def)
  then show ?case using 3 by simp
qed (auto simp: in_graph_def)

lemma visit_owners_sound:
  "visit_owners g ps seen res = Inr out \<Longrightarrow> x \<in> set out \<Longrightarrow>
   x \<in> set res \<or> pn_sources x \<noteq> [] \<and> (\<exists>p. Some p \<in> set ps \<and> (inner g)\<^sup>*\<^sup>* p x)"
proof (induction g ps seen res rule: visit_owners.induct)
  case (3 g n ps seen res)
  show ?case
  proof (cases "pn_label n \<in> set seen \<or> pn_sources n \<noteq> []")
    case True
    then show ?thesis using 3 by (auto split: if_splits)
  next
    case False
    then have "x \<in> set res \<or> pn_sources x \<noteq> [] \<and> (\<exists>p. Some p \<in> set (child_nodes g n @ ps) \<and> (inner g)\<^sup>*\<^sup>* p x)"
      using "3.IH"(3) "3.prems" by simp
    moreover have "(inner g)\<^sup>*\<^sup>* n x" if "Some p \<in> set (child_nodes g n)" "(inner g)\<^sup>*\<^sup>* p x" for p
      using False that by (intro converse_rtranclp_into_rtranclp[of "inner g" n p]) (auto simp: inner_def)
    ultimately show ?thesis by auto
  qed
qed auto

text \<open>Every seen node is settled: in the result, or its children are seen or still to visit.\<close>

definition settled :: "proto_graph \<Rightarrow> proto_node option list \<Rightarrow> string list \<Rightarrow> proto_node list \<Rightarrow> bool" where
  "settled g ps seen res \<longleftrightarrow>
     (\<forall>n \<in> graph_nodes g. pn_label n \<in> set seen \<longrightarrow>
        (if pn_sources n \<noteq> [] then n \<in> set res
         else \<forall>m. Some m \<in> set (child_nodes g n) \<longrightarrow> pn_label m \<in> set seen \<or> Some m \<in> set ps))"

lemma settled_step:
  assumes "graph_ok g" "n \<in> graph_nodes g" "settled g (Some n # ps) seen res" "set res \<subseteq> set res'" "set ps \<subseteq> set ps'"
    and "if pn_sources n \<noteq> [] then n \<in> set res' else \<forall>k. Some k \<in> set (child_nodes g n) \<longrightarrow> Some k \<in> set ps'"
  shows "settled g ps' (pn_label n # seen) res'"
  unfolding settled_def
proof (intro ballI impI)
  fix m
  assume m: "m \<in> graph_nodes g" "pn_label m \<in> set (pn_label n # seen)"
  show "if pn_sources m \<noteq> [] then m \<in> set res'
        else \<forall>k. Some k \<in> set (child_nodes g m) \<longrightarrow> pn_label k \<in> set (pn_label n # seen) \<or> Some k \<in> set ps'"
  proof (cases "pn_label m = pn_label n")
    case True
    then have "m = n" by (rule graph_ok_unique[OF assms(1) m(1) assms(2)])
    then show ?thesis using assms(6) by (cases "pn_sources n = []") simp_all
  next
    case False
    then have "if pn_sources m \<noteq> [] then m \<in> set res
         else \<forall>k. Some k \<in> set (child_nodes g m) \<longrightarrow> pn_label k \<in> set seen \<or> Some k \<in> set (Some n # ps)"
      using bspec[OF assms(3)[unfolded settled_def] m(1)] m(2) by simp
    then show ?thesis using assms(4,5) by (cases "pn_sources m = []") auto
  qed
qed

lemma settled_seen:
  assumes "settled g (Some n # ps) seen res" "pn_label n \<in> set seen"
  shows "settled g ps seen res"
  unfolding settled_def
proof (intro ballI impI)
  fix m
  assume m: "m \<in> graph_nodes g" "pn_label m \<in> set seen"
  then have "if pn_sources m \<noteq> [] then m \<in> set res
         else \<forall>k. Some k \<in> set (child_nodes g m) \<longrightarrow> pn_label k \<in> set seen \<or> Some k \<in> set (Some n # ps)"
    using bspec[OF assms(1)[unfolded settled_def] m(1)] by simp
  then show "if pn_sources m \<noteq> [] then m \<in> set res
        else \<forall>k. Some k \<in> set (child_nodes g m) \<longrightarrow> pn_label k \<in> set seen \<or> Some k \<in> set ps"
    using assms(2) by (cases "pn_sources m = []") auto
qed

lemma visit_owners_complete:
  "visit_owners g ps seen res = Inr out \<Longrightarrow> graph_ok g \<Longrightarrow> in_graph g ps \<Longrightarrow> settled g ps seen res \<Longrightarrow>
   \<exists>seen'. set seen \<subseteq> set seen' \<and> (\<forall>n. Some n \<in> set ps \<longrightarrow> pn_label n \<in> set seen') \<and> settled g [] seen' out"
proof (induction g ps seen res rule: visit_owners.induct)
  case (1 g seen res)
  then show ?case by auto
next
  case (3 g n ps seen res)
  have n: "n \<in> graph_nodes g" and ps: "in_graph g ps" "in_graph g (child_nodes g n @ ps)"
    using "3.prems"(2,3) in_graph_children[of g n] by (auto simp: in_graph_def)
  consider (old) "pn_label n \<in> set seen" | (own) "pn_label n \<notin> set seen" "pn_sources n \<noteq> []"
    | (deep) "pn_label n \<notin> set seen" "pn_sources n = []" by blast
  then show ?case
  proof cases
    case old
    have "settled g ps seen res" by (rule settled_seen[OF "3.prems"(4) old])
    from "3.IH"(1)[OF old _ "3.prems"(2) ps(1) this] obtain seen' where
      s: "set seen \<subseteq> set seen'" "\<forall>n. Some n \<in> set ps \<longrightarrow> pn_label n \<in> set seen'" "settled g [] seen' out"
      using "3.prems"(1) old by auto
    then show ?thesis using old by (intro exI[of _ seen']) auto
  next
    case own
    have "settled g ps (pn_label n # seen) (res @ [n])"
      by (rule settled_step[OF "3.prems"(2) n "3.prems"(4)]) (use own in auto)
    from "3.IH"(2)[OF own _ "3.prems"(2) ps(1) this] obtain seen' where
      s: "set (pn_label n # seen) \<subseteq> set seen'" "\<forall>n. Some n \<in> set ps \<longrightarrow> pn_label n \<in> set seen'" "settled g [] seen' out"
      using "3.prems"(1) own by auto
    then show ?thesis by (intro exI[of _ seen']) auto
  next
    case deep
    have "settled g (child_nodes g n @ ps) (pn_label n # seen) res"
      by (rule settled_step[OF "3.prems"(2) n "3.prems"(4)]) (use deep in auto)
    from "3.IH"(3)[OF deep(1) _ _ "3.prems"(2) ps(2) this] obtain seen' where
      s: "set (pn_label n # seen) \<subseteq> set seen'" "\<forall>m. Some m \<in> set (child_nodes g n @ ps) \<longrightarrow> pn_label m \<in> set seen'"
        "settled g [] seen' out"
      using "3.prems"(1) deep by auto
    then show ?thesis by (intro exI[of _ seen']) auto
  qed
qed simp

lemma visit_owners_distinct:
  "visit_owners g ps seen res = Inr out \<Longrightarrow> distinct (map pn_label res) \<Longrightarrow> pn_label ` set res \<subseteq> set seen \<Longrightarrow> distinct out"
proof (induction g ps seen res rule: visit_owners.induct)
  case (1 g seen res)
  then show ?case by (auto simp: distinct_map)
next
  case (3 g n ps seen res)
  then show ?case by (auto split: if_splits)
qed simp

lemma direct_owners_self: "pn_sources n \<noteq> [] \<Longrightarrow> direct_owners g (Some n) = Inr [n]"
  by (simp add: direct_owners_def)

lemma direct_owners_spec:
  assumes "graph_ok g" "n \<in> graph_nodes g"
  shows "\<exists>owners. direct_owners g (Some n) = Inr owners \<and> distinct owners \<and>
    set owners = {m. pn_sources m \<noteq> [] \<and> (inner g)\<^sup>*\<^sup>* n m}"
proof -
  have i: "in_graph g [Some n]" using assms(2) by (simp add: in_graph_def)
  obtain out where o: "visit_owners g [Some n] [] [] = Inr out" using visit_owners_total[OF assms(1) i] by blast
  have "settled g [Some n] [] []" by (simp add: settled_def)
  from visit_owners_complete[OF o assms(1) i this] obtain seen where
    s: "pn_label n \<in> set seen" "settled g [] seen out" by auto
  have r: "(inner g)\<^sup>*\<^sup>* n m \<Longrightarrow> m \<in> graph_nodes g \<and> pn_label m \<in> set seen" for m
  proof (induction rule: rtranclp_induct)
    case base
    show ?case using assms(2) s(1) by simp
  next
    case (step m k)
    then show ?case using s(2) child_nodes_in[of k g m] by (fastforce simp: settled_def inner_def)
  qed
  have "set out = {m. pn_sources m \<noteq> [] \<and> (inner g)\<^sup>*\<^sup>* n m}"
    using visit_owners_sound[OF o] r s(2) by (fastforce simp: settled_def)
  then show ?thesis using o visit_owners_distinct[OF o] by (simp add: direct_owners_def)
qed

section \<open>The observations of a run\<close>

definition owner_node :: "proto_graph \<Rightarrow> proto_node \<Rightarrow> bool" where
  "owner_node g n \<longleftrightarrow> n \<in> graph_nodes g \<and> pn_sources n \<noteq> []"

definition wrapper_obs :: "proto_graph \<Rightarrow> (string \<times> string) list \<Rightarrow> proto_identity \<Rightarrow> proto_node \<Rightarrow> 'c proto_observation \<Rightarrow> bool" where
  \<comment> \<open>the observation that makes the wrapper of an owner\<close>
  "wrapper_obs g rt i n x \<longleftrightarrow>
     ob_identity x = i \<and> ob_native x = label_of g (pn_label n) \<and> ob_paths x = pn_sources n \<and>
     (\<exists>ds. wrapped_deps g rt i n = Inr ds \<and> ob_nativeDeps x = map (\<lambda>d. label_of g (pn_label d)) ds)"

definition identities_ok :: "proto_identity set \<Rightarrow> bool" where
  "identities_ok I \<longleftrightarrow> (\<forall>i \<in> I. CHR '':'' \<notin> set (pi_name i) \<and> (\<forall>j \<in> I. pi_name i = pi_name j \<longrightarrow> i = j))"

lemma seen_key_inj:
  assumes "identities_ok I" "i \<in> I" "j \<in> I" "seen_key i a = seen_key j b"
  shows "i = j \<and> a = b"
proof -
  have c: "CHR '':'' \<notin> set (pi_name i)" "CHR '':'' \<notin> set (pi_name j)" using assms by (auto simp: identities_ok_def)
  have "takeWhile (\<lambda>x. x \<noteq> CHR '':'') (seen_key i a) = pi_name i" "takeWhile (\<lambda>x. x \<noteq> CHR '':'') (seen_key j b) = pi_name j"
    using c unfolding seen_key_def by (subst takeWhile_append2; auto)+
  then have "pi_name i = pi_name j" using assms(4) by simp
  then show ?thesis using assms by (auto simp: identities_ok_def seen_key_def)
qed

lemma owners_of_all_total:
  assumes "graph_ok g" "in_graph g ns"
  shows "\<exists>ds. owners_of_all g ns = Inr ds \<and> (\<forall>d \<in> set ds. owner_node g d)"
  using assms(2)
proof (induction ns)
  case (Cons n ns)
  then obtain m where m: "n = Some m" "m \<in> graph_nodes g" "in_graph g ns" by (auto simp: in_graph_def)
  obtain a where a: "direct_owners g n = Inr a" "\<forall>d \<in> set a. pn_sources d \<noteq> []"
    using direct_owners_spec[OF assms(1) m(2)] m(1) by auto
  have "\<forall>d \<in> set a. d \<in> graph_nodes g" using direct_owners_from[OF a(1)] m by auto
  then show ?case using Cons.IH[OF m(3)] a by (auto simp: owner_node_def)
qed simp

lemma wrapped_deps_total:
  assumes "graph_ok g" "owner_node g n"
  shows "\<exists>ds. wrapped_deps g rt i n = Inr ds \<and> (\<forall>d \<in> set ds. owner_node g d \<and> needs_wrapper rt d i)"
  using owners_of_all_total[OF assms(1) in_graph_children[OF assms(1)], of n] assms(2)
  by (auto simp: wrapped_deps_def owner_node_def)

lemma owners_of_owners: "\<forall>d \<in> set ds. owner_node g d \<Longrightarrow> owners_of_all g (map Some ds) = Inr ds"
  by (induction ds) (auto simp: owner_node_def direct_owners_self)

definition appended :: "'c proto_observation list \<Rightarrow> 'c task list \<Rightarrow> 'c proto_observation set" where
  "appended res ts = set res \<union> {x. Append x \<in> set ts}"

lemma appended_simps [simp]:
  "appended res [] = set res"
  "appended res (Append x # ts) = appended (res @ [x]) ts"
  "appended res (Look n # ts) = appended res ts"
  "appended res (map Look ns @ ts) = appended res ts"
  by (auto simp: appended_def)

definition seen_observed :: "proto_graph \<Rightarrow> (string \<times> string) list \<Rightarrow> proto_identity set \<Rightarrow> string list \<Rightarrow> 'c proto_observation set \<Rightarrow> bool" where
  "seen_observed g rt I seen X \<longleftrightarrow>
     (\<forall>j \<in> I. \<forall>n. owner_node g n \<longrightarrow> needs_wrapper rt n j \<longrightarrow> seen_key j (pn_label n) \<in> set seen \<longrightarrow> (\<exists>x \<in> X. wrapper_obs g rt j n x))"

definition deps_seen ::
    "proto_graph \<Rightarrow> (string \<times> string) list \<Rightarrow> string set \<Rightarrow> proto_identity \<Rightarrow> proto_node \<Rightarrow> bool" where
  "deps_seen g rt K j n \<longleftrightarrow> (\<forall>ds. wrapped_deps g rt j n = Inr ds \<longrightarrow> (\<forall>d \<in> set ds. seen_key j (pn_label d) \<in> K))"

definition observed_closed ::
    "proto_graph \<Rightarrow> (string \<times> string) list \<Rightarrow> proto_identity set \<Rightarrow> 'c proto_observation set \<Rightarrow> string set \<Rightarrow> 'c proto_observation set \<Rightarrow> bool" where
  "observed_closed g rt I L K X \<longleftrightarrow>
     (\<forall>x \<in> X. x \<in> L \<or> (\<exists>j \<in> I. \<exists>n. owner_node g n \<and> wrapper_obs g rt j n x \<and> deps_seen g rt K j n))"

definition pending :: "proto_identity \<Rightarrow> 'c task list \<Rightarrow> string set" where
  "pending i ts = {seen_key i (pn_label n) |n. Look n \<in> set ts}"

lemma pending_simps [simp]:
  "pending i [] = {}" "pending i (Append x # ts) = pending i ts"
  "pending i (Look n # ts) = insert (seen_key i (pn_label n)) (pending i ts)"
  "pending i (map Look ns @ ts) = (\<lambda>n. seen_key i (pn_label n)) ` set ns \<union> pending i ts"
  by (auto simp: pending_def)

lemma observed_closed_mono: "observed_closed g rt I L K X \<Longrightarrow> K \<subseteq> K' \<Longrightarrow> observed_closed g rt I L K' X"
  unfolding observed_closed_def deps_seen_def by blast

lemma run_add_closed:
  assumes I: "identities_ok I"
  shows "run_add g rt ob ts seen res = Inr (seen', res') \<Longrightarrow> graph_ok g \<Longrightarrow> ob_identity ob \<in> I \<Longrightarrow> \<forall>n. Look n \<in> set ts \<longrightarrow> owner_node g n \<Longrightarrow>
    seen_observed g rt I seen (appended res ts) \<Longrightarrow>
    observed_closed g rt I L (set seen \<union> pending (ob_identity ob) ts) (appended res ts) \<Longrightarrow>
    seen_observed g rt I seen' (set res') \<and> observed_closed g rt I L (set seen') (set res') \<and>
    set seen \<union> pending (ob_identity ob) ts \<subseteq> set seen' \<and> appended res ts \<subseteq> set res'"
proof (induction g rt ob ts seen res rule: run_add.induct)
  case (3 g rt ob owner ts seen res)
  let ?i = "ob_identity ob" let ?key = "seen_key (ob_identity ob) (pn_label owner)"
  have ow: "owner_node g owner" "\<forall>n. Look n \<in> set ts \<longrightarrow> owner_node g n" using "3.prems"(4) by auto
  consider (old) "?key \<in> set seen" | (bare) "?key \<notin> set seen" "\<not> needs_wrapper rt owner ?i"
    | (wrap) "?key \<notin> set seen" "needs_wrapper rt owner ?i" by blast
  then show ?case
  proof cases
    case old
    then have e: "run_add g rt ob ts seen res = Inr (seen', res')" using "3.prems"(1) by simp
    have "set seen \<union> pending ?i (Look owner # ts) = set seen \<union> pending ?i ts" using old by auto
    then show ?thesis using "3.IH"(1)[OF refl refl old e "3.prems"(2,3) ow(2)] "3.prems"(5,6) by simp
  next
    case bare
    then have e: "run_add g rt ob ts (?key # seen) res = Inr (seen', res')" using "3.prems"(1) by simp
    have "seen_observed g rt I (?key # seen) (appended res ts)"
      unfolding seen_observed_def
    proof (intro ballI allI impI)
      fix j n
      assume j: "j \<in> I" "owner_node g n" "needs_wrapper rt n j" "seen_key j (pn_label n) \<in> set (?key # seen)"
      have "seen_key j (pn_label n) \<noteq> ?key"
      proof
        assume "seen_key j (pn_label n) = ?key"
        then have "j = ?i" "n = owner"
          using seen_key_inj[OF I j(1) "3.prems"(3)] graph_ok_unique[OF "3.prems"(2), of n owner] j(2) ow(1)
          by (auto simp: owner_node_def)
        with j(3) bare(2) show False by simp
      qed
      then show "\<exists>x \<in> appended res ts. wrapper_obs g rt j n x"
        using "3.prems"(5) j by (simp add: seen_observed_def)
    qed
    moreover have "set (?key # seen) \<union> pending ?i ts = set seen \<union> pending ?i (Look owner # ts)" by auto
    ultimately show ?thesis
      using "3.IH"(2)[OF refl refl bare e "3.prems"(2,3) ow(2)] "3.prems"(6) by simp
  next
    case wrap
    obtain ds where ds: "wrapped_deps g rt ?i owner = Inr ds" "\<forall>d \<in> set ds. owner_node g d"
      using wrapped_deps_total[OF "3.prems"(2) ow(1)] by blast
    note nx = owners_of_owners[OF ds(2)]
    let ?x = "observe g ob owner ds" let ?ts = "map Look ds @ Append ?x # ts"
    have x: "wrapper_obs g rt ?i owner ?x" using ds(1) by (simp add: wrapper_obs_def observe_def)
    have e: "run_add g rt ob ?ts (?key # seen) res = Inr (seen', res')"
      using "3.prems"(1) wrap ds(1) nx by simp
    have l: "\<forall>n. Look n \<in> set ?ts \<longrightarrow> owner_node g n" using ds(2) ow(2) by auto
    have X: "appended res ?ts = insert ?x (appended res ts)" by (auto simp: appended_def)
    have "seen_observed g rt I (?key # seen) (appended res ?ts)"
      unfolding seen_observed_def X
    proof (intro ballI allI impI)
      fix j n
      assume j: "j \<in> I" "owner_node g n" "needs_wrapper rt n j" "seen_key j (pn_label n) \<in> set (?key # seen)"
      show "\<exists>x \<in> insert ?x (appended res ts). wrapper_obs g rt j n x"
      proof (cases "seen_key j (pn_label n) = ?key")
        case True
        then have "j = ?i" "n = owner"
          using seen_key_inj[OF I j(1) "3.prems"(3)] graph_ok_unique[OF "3.prems"(2), of n owner] j(2) ow(1)
          by (auto simp: owner_node_def)
        with x show ?thesis by simp
      next
        case False
        then show ?thesis using "3.prems"(5) j by (auto simp: seen_observed_def)
      qed
    qed
    moreover have "observed_closed g rt I L (set (?key # seen) \<union> pending ?i ?ts) (appended res ?ts)"
    proof -
      have "observed_closed g rt I L (set (?key # seen) \<union> pending ?i ?ts) (appended res ts)"
        by (rule observed_closed_mono[of _ _ _ _ "set seen \<union> pending ?i (Look owner # ts)"]) (use "3.prems"(6) in auto)
      moreover have "deps_seen g rt (set (?key # seen) \<union> pending ?i ?ts) ?i owner" using ds(1) by (auto simp: deps_seen_def)
      ultimately show ?thesis unfolding X observed_closed_def using x ow(1) "3.prems"(3) by blast
    qed
    ultimately have "seen_observed g rt I seen' (set res') \<and> observed_closed g rt I L (set seen') (set res') \<and>
        set (?key # seen) \<union> pending ?i ?ts \<subseteq> set seen' \<and> appended res ?ts \<subseteq> set res'"
      using "3.IH"(3)[OF refl refl wrap(1) _ ds(1) nx e "3.prems"(2,3) l] wrap(2) by simp
    then show ?thesis unfolding X by auto
  qed
qed auto

lemma load_nodes_sources:
  "load_nodes api ns g = Inr g' \<Longrightarrow> set (pg_sources g') = set (pg_sources g) \<union> {(s, n). n \<in> set ns \<and> s \<in> set (pn_sources n)}"
proof (induction api ns g rule: load_nodes.induct)
  case (2 api n ns g)
  then show ?case by (auto split: option.splits if_splits)
qed simp

lemma load_roots_sources: "load_roots api rs g = Inr g' \<Longrightarrow> pg_sources g' = pg_sources g"
  by (induction api rs g rule: load_roots.induct) (auto split: option.splits)

lemma loaded_sources:
  assumes "load_proto_graph api nodes roots = Inr g"
  shows "set (pg_sources g) = {(s, n). n \<in> set nodes \<and> s \<in> set (pn_sources n)}"
proof -
  obtain g0 where l: "load_nodes api nodes no_graph = Inr g0"
    and r: "(case missing_dep g0 nodes of Some (n, dep) \<Rightarrow> Inl (MissingOwner n dep) | None \<Rightarrow> load_roots api roots g0) = Inr g"
    using assms by (auto simp: load_proto_graph_def and_then_Inr)
  then have "load_roots api roots g0 = Inr g" by (cases "missing_dep g0 nodes") auto
  then show ?thesis using load_nodes_sources[OF l] by (simp add: load_roots_sources no_graph_def)
qed

lemma providers_in:
  assumes "load_proto_graph api nodes roots = Inr g" "providers api override repo (Some g) imp = Inr ms" "n \<in> set ms"
  shows "n \<in> graph_nodes g \<and> imp \<in> set (pn_sources n)"
proof -
  have g: "graph_nodes g = set nodes" using load_proto_graph_ok[OF assms(1)] by simp
  show ?thesis
  proof (cases "override imp")
    case None
    then show ?thesis using assms(2,3) loaded_sources[OF assms(1)] g by (auto simp: providers_def)
  next
    case (Some o')
    then obtain node owners where "map_of (pg_nodes g) (la_string api (normalize api (Some g) o')) = Some node"
      "direct_owners g (Some node) = Inr owners" "n \<in> set owners" "imp \<in> set (pn_sources n)"
      using assms(2,3) by (auto simp: providers_def Let_def and_then_Inr split: if_splits option.splits)
    then show ?thesis using direct_owners_from[of g "Some node" owners] by (force dest: map_of_SomeD)
  qed
qed

definition observed :: "proto_graph \<Rightarrow> (string \<times> string) list \<Rightarrow> proto_identity set \<Rightarrow> 'c proto_observation set \<Rightarrow> string list \<Rightarrow> 'c proto_observation list \<Rightarrow> bool" where
  "observed g rt I L seen res \<longleftrightarrow> seen_observed g rt I seen (set res) \<and> observed_closed g rt I L (set seen) (set res)"

definition looked_up :: "proto_graph \<Rightarrow> proto_identity \<Rightarrow> proto_node \<Rightarrow> string list \<Rightarrow> bool" where
  "looked_up g i n seen \<longleftrightarrow> (\<forall>d. pn_sources d \<noteq> [] \<longrightarrow> (inner g)\<^sup>*\<^sup>* n d \<longrightarrow> seen_key i (pn_label d) \<in> set seen)"

lemma add_node_observed:
  assumes "add_node g rt ob n seen res = Inr (seen', res')" "graph_ok g" "identities_ok I" "ob_identity ob \<in> I"
    and "n \<in> graph_nodes g" "observed g rt I L seen res"
  shows "observed g rt I L seen' res' \<and> set seen \<subseteq> set seen' \<and> set res \<subseteq> set res' \<and> looked_up g (ob_identity ob) n seen'"
proof -
  obtain owners where o: "direct_owners g (Some n) = Inr owners" "set owners = {m. pn_sources m \<noteq> [] \<and> (inner g)\<^sup>*\<^sup>* n m}"
    using direct_owners_spec[OF assms(2,5)] by blast
  have r: "run_add g rt ob (map Look owners @ []) seen res = Inr (seen', res')" using assms(1) o(1) by (simp add: add_node_def)
  have l: "\<forall>m. Look m \<in> set (map Look owners @ []) \<longrightarrow> owner_node g m"
    using direct_owners_from[OF o(1)] assms(5) o(2) by (auto simp: owner_node_def)
  have X: "appended res (map Look owners @ []) = set res" by (simp del: append_Nil2)
  from run_add_closed[OF assms(3) r assms(2,4) l, unfolded X, of L]
  have "seen_observed g rt I seen' (set res') \<and> observed_closed g rt I L (set seen') (set res') \<and>
      set seen \<union> pending (ob_identity ob) (map Look owners @ []) \<subseteq> set seen' \<and> set res \<subseteq> set res'"
    using assms(6) observed_closed_mono[of g rt I L "set seen" "set res"] by (simp add: observed_def del: append_Nil2)
  then show ?thesis using o(2) by (auto simp: observed_def looked_up_def simp del: append_Nil2)
qed

definition served ::
    "label_api \<Rightarrow> ('c \<Rightarrow> string \<Rightarrow> label option) \<Rightarrow> ('c \<Rightarrow> string) \<Rightarrow> proto_graph \<Rightarrow> (string \<times> string) list \<Rightarrow> string list
     \<Rightarrow> 'c proto_observation \<Rightarrow> string \<Rightarrow> string list \<Rightarrow> bool" where
  "served api override repo g rt ls ob imp seen \<longleftrightarrow>
     skips_import override rt ls ob imp \<or>
     (\<exists>ms. providers api (override (ob_config ob)) (repo (ob_config ob)) (Some g) imp = Inr ms \<and> length ms \<le> 1 \<and>
        (\<forall>n \<in> set ms. looked_up g (ob_identity ob) n seen))"

lemma served_mono: "served api override repo g rt ls ob imp seen \<Longrightarrow> set seen \<subseteq> set seen' \<Longrightarrow> served api override repo g rt ls ob imp seen'"
  unfolding served_def looked_up_def by blast

lemma add_imports_observed:
  assumes g: "load_proto_graph api nodes roots = Inr g" and I: "identities_ok I"
  shows "add_imports api override repo g rt ls ims seen res = Inr out \<Longrightarrow> \<forall>(ob, imp) \<in> set ims. ob_identity ob \<in> I \<Longrightarrow>
    observed g rt I L seen res \<Longrightarrow>
    \<exists>seen'. observed g rt I L seen' out \<and> set seen \<subseteq> set seen' \<and> set res \<subseteq> set out \<and>
      (\<forall>(ob, imp) \<in> set ims. served api override repo g rt ls ob imp seen')"
proof (induction ims arbitrary: seen res)
  case Nil
  then show ?case by auto
next
  case (Cons p ims)
  obtain ob imp where p: "p = (ob, imp)" by (cases p)
  have ok: "graph_ok g" using load_proto_graph_ok[OF g] by simp
  have rest: "\<forall>(ob, imp) \<in> set ims. ob_identity ob \<in> I" using Cons.prems(2) by simp
  obtain seen1 res1 where s1: "add_imports api override repo g rt ls ims seen1 res1 = Inr out"
    "observed g rt I L seen1 res1" "set seen \<subseteq> set seen1" "set res \<subseteq> set res1" "served api override repo g rt ls ob imp seen1"
  proof (cases "skips_import override rt ls ob imp")
    case True
    then show ?thesis using Cons.prems p by (intro that[of seen res]) (auto simp: served_def)
  next
    case False
    let ?ms = "providers api (override (ob_config ob)) (repo (ob_config ob)) (Some g) imp"
    consider "?ms = Inr []" | n where "?ms = Inr [n]"
      using Cons.prems(1) p False by (auto split: sum.splits list.splits)
    then show ?thesis
    proof cases
      case 1
      then show ?thesis using Cons.prems p False by (intro that[of seen res]) (auto simp: served_def)
    next
      case 2
      then obtain seen1 res1 where a: "add_node g rt ob n seen res = Inr (seen1, res1)"
        "add_imports api override repo g rt ls ims seen1 res1 = Inr out"
        using Cons.prems(1) p False by (auto split: sum.splits)
      have n: "n \<in> graph_nodes g" using providers_in[OF g 2] by simp
      have "ob_identity ob \<in> I" using Cons.prems(2) p by simp
      from add_node_observed[OF a(1) ok I this n Cons.prems(3)] show ?thesis
        using a(2) 2 by (intro that[of seen1 res1]) (auto simp: served_def)
    qed
  qed
  from Cons.IH[OF s1(1) rest s1(2)] obtain seen' where
    s2: "observed g rt I L seen' out" "set seen1 \<subseteq> set seen'" "set res1 \<subseteq> set out"
      "\<forall>(ob, imp) \<in> set ims. served api override repo g rt ls ob imp seen'" by blast
  have "served api override repo g rt ls ob imp seen'" by (rule served_mono[OF s1(5) s2(2)])
  then show ?case using s1 s2 p by (intro exI[of _ seen']) auto
qed

section \<open>Properties\<close>

text \<open>C20.  In a loaded graph the search for the owners of a node ends without meeting a nil node, and
  yields each owner it reaches through nodes without sources exactly once.\<close>

theorem direct_owners_exact:
  assumes "load_proto_graph api nodes roots = Inr g" "n \<in> set nodes"
  shows "\<exists>owners. direct_owners g (Some n) = Inr owners \<and> distinct owners \<and>
    set owners = {m. pn_sources m \<noteq> [] \<and> (inner g)\<^sup>*\<^sup>* n m}"
  using direct_owners_spec[of g n] load_proto_graph_ok[OF assms(1)] assms(2) by simp

lemma observed_dep:
  assumes "graph_ok g" "observed g rt I locs seen out" "j \<in> I" "owner_node g n" "deps_seen g rt (set seen) j n"
    and "wrapped_deps g rt j n = Inr ds" "d \<in> set ds"
  shows "\<exists>y \<in> set out. wrapper_obs g rt j d y"
proof -
  have "owner_node g d" "needs_wrapper rt d j" using wrapped_deps_total[OF assms(1,4), of rt j] assms(6,7) by auto
  moreover have "seen_key j (pn_label d) \<in> set seen" using assms(5-7) by (auto simp: deps_seen_def)
  ultimately show ?thesis using assms(2,3) by (auto simp: observed_def seen_observed_def)
qed

lemma observed_looked_up:
  assumes "graph_ok g" "observed g rt I locs seen out" "j \<in> I" "n \<in> graph_nodes g" "looked_up g j n seen"
  shows "\<exists>owners. direct_owners g (Some n) = Inr owners \<and>
    (\<forall>d \<in> set owners. needs_wrapper rt d j \<longrightarrow> (\<exists>y \<in> set out. wrapper_obs g rt j d y))"
proof -
  obtain owners where o: "direct_owners g (Some n) = Inr owners" "set owners = {m. pn_sources m \<noteq> [] \<and> (inner g)\<^sup>*\<^sup>* n m}"
    using direct_owners_spec[OF assms(1,4)] by blast
  have ow: "d \<in> set owners \<Longrightarrow> owner_node g d" for d
    using direct_owners_from[OF o(1)] o(2) assms(4) by (auto simp: owner_node_def)
  have "\<exists>y \<in> set out. wrapper_obs g rt j d y" if d: "d \<in> set owners" "needs_wrapper rt d j" for d
  proof -
    have "seen_key j (pn_label d) \<in> set seen" using assms(5) d(1) o(2) by (simp add: looked_up_def)
    then show ?thesis using assms(2,3) ow[OF d(1)] d(2) by (simp add: observed_def seen_observed_def)
  qed
  then show ?thesis using o(1) by blast
qed

text \<open>C39.  The observations of a run are closed: the local ones are all there, each other one makes
  the wrapper of a native owner, and every native dependency such a wrapper names has its own
  wrapper in the same identity; and every import the graph provides has at most one provider, whose
  owners have their wrappers.\<close>

theorem observations_closed:
  assumes "load_proto_graph api nodes roots = Inr g" "identities_ok (ob_identity ` set loc)"
    and "external_observations api override repo (Some g) rt loc = Inr out"
  shows "set loc \<subseteq> set out \<and>
    (\<forall>x \<in> set out. x \<in> set loc \<or>
      (\<exists>n \<in> set nodes. wrapper_obs g rt (ob_identity x) n x \<and>
        (\<forall>ds. wrapped_deps g rt (ob_identity x) n = Inr ds \<longrightarrow>
          (\<forall>d \<in> set ds. \<exists>y \<in> set out. wrapper_obs g rt (ob_identity x) d y)))) \<and>
    (\<forall>ob \<in> set loc. \<forall>imp \<in> set (ob_imports ob).
      skips_import override rt (concat (map (\<lambda>ob. map (seen_key (ob_identity ob)) (ob_paths ob)) loc)) ob imp \<or>
      (\<exists>ms. providers api (override (ob_config ob)) (repo (ob_config ob)) (Some g) imp = Inr ms \<and> length ms \<le> 1 \<and>
        (\<forall>n \<in> set ms. \<exists>owners. direct_owners g (Some n) = Inr owners \<and>
          (\<forall>d \<in> set owners. needs_wrapper rt d (ob_identity ob) \<longrightarrow> (\<exists>y \<in> set out. wrapper_obs g rt (ob_identity ob) d y)))))"
proof -
  let ?I = "ob_identity ` set loc"
  have ok: "graph_ok g" "graph_nodes g = set nodes" using load_proto_graph_ok[OF assms(1)] by simp_all
  let ?ims = "concat (map (\<lambda>ob. map (\<lambda>imp. (ob, imp)) (ob_imports ob)) loc)"
  let ?ls = "concat (map (\<lambda>ob. map (seen_key (ob_identity ob)) (ob_paths ob)) loc)"
  have start: "observed g rt ?I (set loc) [] loc" by (auto simp: observed_def seen_observed_def observed_closed_def)
  have ims: "\<forall>(ob, imp) \<in> set ?ims. ob_identity ob \<in> ?I" by auto
  have run: "add_imports api override repo g rt ?ls ?ims [] loc = Inr out" using assms(3) by (simp add: external_observations_def)
  obtain seen where s: "observed g rt ?I (set loc) seen out" "set loc \<subseteq> set out"
    "\<forall>(ob, imp) \<in> set ?ims. served api override repo g rt ?ls ob imp seen"
    using add_imports_observed[OF assms(1,2) run ims start] by blast
  have "\<exists>n \<in> set nodes. wrapper_obs g rt (ob_identity x) n x \<and>
      (\<forall>ds. wrapped_deps g rt (ob_identity x) n = Inr ds \<longrightarrow> (\<forall>d \<in> set ds. \<exists>y \<in> set out. wrapper_obs g rt (ob_identity x) d y))"
    if x: "x \<in> set out" "x \<notin> set loc" for x
  proof -
    obtain j n where j: "j \<in> ?I" "owner_node g n" "wrapper_obs g rt j n x" "deps_seen g rt (set seen) j n"
      using s(1) x unfolding observed_def observed_closed_def by blast
    have i: "ob_identity x = j" using j(3) by (simp add: wrapper_obs_def)
    show ?thesis using observed_dep[OF ok(1) s(1) j(1,2,4)] j(2,3) i ok(2) by (auto simp: owner_node_def)
  qed
  moreover have "skips_import override rt ?ls ob imp \<or>
      (\<exists>ms. providers api (override (ob_config ob)) (repo (ob_config ob)) (Some g) imp = Inr ms \<and> length ms \<le> 1 \<and>
        (\<forall>n \<in> set ms. \<exists>owners. direct_owners g (Some n) = Inr owners \<and>
          (\<forall>d \<in> set owners. needs_wrapper rt d (ob_identity ob) \<longrightarrow> (\<exists>y \<in> set out. wrapper_obs g rt (ob_identity ob) d y))))"
    if ob: "ob \<in> set loc" "imp \<in> set (ob_imports ob)" for ob imp
  proof -
    have sv: "served api override repo g rt ?ls ob imp seen" using s(3) ob by auto
    have i: "ob_identity ob \<in> ?I" using ob by simp
    show ?thesis using sv[unfolded served_def]
    proof (elim disjE exE conjE)
      fix ms
      assume m: "providers api (override (ob_config ob)) (repo (ob_config ob)) (Some g) imp = Inr ms" "length ms \<le> 1"
        "\<forall>n \<in> set ms. looked_up g (ob_identity ob) n seen"
      have "\<forall>n \<in> set ms. \<exists>owners. direct_owners g (Some n) = Inr owners \<and>
          (\<forall>d \<in> set owners. needs_wrapper rt d (ob_identity ob) \<longrightarrow> (\<exists>y \<in> set out. wrapper_obs g rt (ob_identity ob) d y))"
        using observed_looked_up[OF ok(1) s(1) i] providers_in[OF assms(1) m(1)] m(3) by simp
      with m(1,2) show ?thesis by simp
    qed simp
  qed
  ultimately show ?thesis using s(2) by blast
qed

definition demo_api :: label_api where
  "demo_api =
     \<lparr>la_parse = (\<lambda>s. Some \<lparr>lb_repo = s, lb_pkg = [], lb_name = [], lb_relative = False, lb_canonical = True\<rparr>),
      la_string = lb_repo, la_abs = (\<lambda>l _ _. l), la_rel = (\<lambda>l _ _. l)\<rparr>"

definition demo_nodes :: "proto_node list" where
  "demo_nodes =
     [\<lparr>pn_label = ''all'', pn_sources = [], pn_deps = [''a'', ''b'']\<rparr>,
      \<lparr>pn_label = ''a'', pn_sources = [''a.proto''], pn_deps = [''b'']\<rparr>,
      \<lparr>pn_label = ''b'', pn_sources = [''b.proto''], pn_deps = []\<rparr>]"

definition demo_graph :: proto_graph where
  "demo_graph = projr (load_proto_graph demo_api demo_nodes [])"

theorem direct_owners_exact_witness:
  "\<exists>owners. direct_owners demo_graph (Some (hd demo_nodes)) = Inr owners \<and> distinct owners \<and>
    set owners = {m. pn_sources m \<noteq> [] \<and> (inner demo_graph)\<^sup>*\<^sup>* (hd demo_nodes) m}"
proof -
  have "load_proto_graph demo_api demo_nodes [] = Inr demo_graph" by code_simp
  moreover have "hd demo_nodes \<in> set demo_nodes" by (simp add: demo_nodes_def)
  ultimately show ?thesis by (rule direct_owners_exact)
qed

definition demo_observation :: "unit proto_observation" where
  "demo_observation =
     \<lparr>ob_nativeDeps = [], ob_config = (), ob_native = label_of demo_graph ''l'',
      ob_identity = \<lparr>pi_name = ''es'', pi_outDir = ''gen'', pi_tsconfig = ''t'', pi_nodeModules = [], pi_deps = [],
        pi_options = [''target=ts''], pi_owner = []\<rparr>,
      ob_paths = [''l.proto''], ob_imports = [''a.proto'']\<rparr>"

theorem observations_closed_witness:
  "\<exists>out. external_observations demo_api (\<lambda>_ _. None) (\<lambda>_. []) (Some demo_graph) [] [demo_observation] = Inr out \<and>
     map ob_paths out = [[''l.proto''], [''b.proto''], [''a.proto'']] \<and> set [demo_observation] \<subseteq> set out"
proof -
  have l: "load_proto_graph demo_api demo_nodes [] = Inr demo_graph" by code_simp
  let ?e = "external_observations demo_api (\<lambda>_ _. None) (\<lambda>_. []) (Some demo_graph) [] [demo_observation]"
  have p: "map_sum id (map ob_paths) ?e = Inr [[''l.proto''], [''b.proto''], [''a.proto'']]" by code_simp
  then obtain out where o: "?e = Inr out" by (cases ?e) auto
  have i: "identities_ok (ob_identity ` set [demo_observation])"
    by (simp add: identities_ok_def demo_observation_def)
  show ?thesis using observations_closed[OF l i o] p o by simp
qed

text \<open>A root whose target is another root: whether it has an owner depends on the order.\<close>

lemma roots_depend_on_order:
  "load_proto_graph demo_api demo_nodes [(''x'', ''a''), (''y'', ''x'')] \<noteq> Inl (RootWithoutOwner ''y'') \<and>
   load_proto_graph demo_api demo_nodes [(''y'', ''x''), (''x'', ''a'')] = Inl (RootWithoutOwner ''y'')"
  by code_simp

end
