(* ===== verification/Proto.thy ===== *)
theory Proto imports ProtoGraph SourceScan NpmLabels begin

text \<open>
  The proto rules of a package, \<open>gazelle/proto.go\<close>: the identities a \<open>ts_proto_config\<close> defines, the
  directive that enables them, the wrappers of the observed libraries and the search for the
  wrapper that generates a file.  Gazelle's proto language is a parameter, as are its rule index
  and the rules another language generated.  A fatal log line is an error of the result.
\<close>

section \<open>Identities\<close>

datatype proto_error =
    NotString string string
  | NotList string string
  | NotLiterals string string
  | Incomplete string
  | OutsideOwner string
  | NoTarget string
  | OtherTarget string string
  | BadLabel string string
  | NoNativeProto
  | NoRuntimeImports
  | PartialUpdate string
  | Redefined string
  | Overlap string string
  | NoneCombined
  | Undefined string
  | Repeated string
  | DuplicateWrapper string
  | SameOutput string string string
  | Observing graph_error
  | Providers string nat

definition within :: "string \<Rightarrow> string \<Rightarrow> bool" where
  "within dir root \<longleftrightarrow> dir = root \<or> root = [] \<or> has_prefix dir (root @ ''/'')"

text \<open>The roots of a run, none when the flags were not read.\<close>

definition check_scope :: "string list option \<Rightarrow> bool \<Rightarrow> string \<Rightarrow> bool" where
  "check_scope roots recursive opkg \<longleftrightarrow>
     (case roots of
        None \<Rightarrow> True
      | Some rs \<Rightarrow>
          let complete = list_ex (\<lambda>root. recursive \<and> within opkg root) rs;
              affected = complete \<or> list_ex (\<lambda>root. within root opkg) rs
          in \<not> (affected \<and> \<not> complete))"

definition id_start :: "char \<Rightarrow> bool" where
  "id_start c \<longleftrightarrow> is_lower c \<or> is_upper c"

definition id_part :: "char \<Rightarrow> bool" where
  "id_part c \<longleftrightarrow> id_start c \<or> is_digit c \<or> c = CHR ''_'' \<or> c = CHR ''-''"

definition protoIdentityName :: re where
  "protoIdentityName = seqs [Cls id_start, StarC True id_part, Eot]"

definition identity_name :: "string \<Rightarrow> bool" where
  \<comment> \<open>\<open>protoIdentityName.MatchString\<close>; the expression is anchored at the start\<close>
  "identity_name s \<longleftrightarrow> match_here protoIdentityName s \<noteq> None"

definition literal_string :: "build_rule \<Rightarrow> string \<Rightarrow> string \<Rightarrow> proto_error + string" where
  "literal_string r key old =
     (case ru_attr r key of
        None \<Rightarrow> Inr old
      | Some (StringExpr v _) \<Rightarrow> Inr v
      | Some _ \<Rightarrow> Inl (NotString (ru_name r) key))"

definition literal_list :: "build_rule \<Rightarrow> string \<Rightarrow> string list \<Rightarrow> proto_error + string list" where
  "literal_list r key old =
     (case ru_attr r key of
        None \<Rightarrow> Inr old
      | Some (ListExpr es) \<Rightarrow>
          if list_all (\<lambda>e. case e of StringExpr _ _ \<Rightarrow> True | _ \<Rightarrow> False) es then Inr (string_values es)
          else Inl (NotLiterals (ru_name r) key)
      | Some _ \<Rightarrow> Inl (NotList (ru_name r) key))"

definition out_dir_inside :: "string \<Rightarrow> bool" where
  "out_dir_inside d \<longleftrightarrow> \<not> is_abs d \<and> path_clean d = d \<and> d \<noteq> ''.'' \<and> d \<noteq> ''..'' \<and> \<not> has_prefix d ''../''"

definition check_identity :: "label_api \<Rightarrow> proto_identity \<Rightarrow> proto_error + proto_identity" where
  "check_identity api i =
     (if \<not> identity_name (pi_name i) \<or> pi_outDir i = [] \<or> pi_tsconfig i = [] then Inl (Incomplete (pi_name i))
      else if \<not> out_dir_inside (pi_outDir i) then Inl (OutsideOwner (pi_name i))
      else if ''target=ts'' \<notin> set (pi_options i) then Inl (NoTarget (pi_name i))
      else case find (\<lambda>sel. has_prefix sel ''target='' \<and> sel \<noteq> ''target=ts'') (pi_options i) of
        Some sel \<Rightarrow> Inl (OtherTarget (pi_name i) sel)
      | None \<Rightarrow>
          (case find (\<lambda>raw. raw \<noteq> [] \<and> parse_label api raw = None) ([pi_tsconfig i] @ pi_deps i @ [pi_nodeModules i]) of
             Some raw \<Rightarrow> Inl (BadLabel (pi_name i) raw)
           | None \<Rightarrow> Inr i))"

text \<open>The attributes are read from two maps; when several are wrong the error names one of them.\<close>

definition parse_proto_identity :: "label_api \<Rightarrow> build_rule \<Rightarrow> string \<Rightarrow> proto_error + proto_identity" where
  "parse_proto_identity api r opkg =
     and_then (literal_string r ''out_dir'' []) (\<lambda>outDir.
     and_then (literal_string r ''tsconfig'' []) (\<lambda>tsconfig.
     and_then (literal_string r ''node_modules'' []) (\<lambda>nodeModules.
     and_then (literal_list r ''deps'' []) (\<lambda>deps.
     and_then (literal_list r ''options'' [''target=ts'']) (\<lambda>options.
       check_identity api
         \<lparr>pi_name = ru_name r, pi_outDir = outDir, pi_tsconfig = tsconfig, pi_nodeModules = nodeModules,
          pi_deps = deps, pi_options = options, pi_owner = opkg\<rparr>)))))"

section \<open>Wrappers\<close>

definition proto_wrapper_name :: "label \<Rightarrow> string \<Rightarrow> string \<Rightarrow> string" where
  \<comment> \<open>of the identity, its name and owner\<close>
  "proto_wrapper_name native name opkg =
     (let rel = (if lb_canonical native then path_join [''_external'', lb_repo native, lb_pkg native]
                 else trim_prefix (trim_prefix (lb_pkg native) opkg) ''/'')
      in path_join [name, rel, lb_name native])"

definition absolute_proto_label :: "label_api \<Rightarrow> proto_graph option \<Rightarrow> string \<Rightarrow> label \<Rightarrow> string \<Rightarrow> label" where
  "absolute_proto_label api g repo native pkg = label_identity api (normalize api g native) repo pkg"

definition managed_proto_wrapper :: "label_api \<Rightarrow> proto_graph option \<Rightarrow> string \<Rightarrow> string \<Rightarrow> build_rule \<Rightarrow> bool" where
  "managed_proto_wrapper api g repo opkg r \<longleftrightarrow>
     (if ru_kind r \<noteq> ''ts_proto_library'' then False
      else let (family, _, ok) = cut_at (ru_name r) ''/'' in
        if \<not> ok \<or> \<not> identity_name family then False
        else case parse_label api (ru_string r ''proto'') of
          None \<Rightarrow> False
        | Some native0 \<Rightarrow>
            let native = absolute_proto_label api g repo native0 opkg in
            (lb_repo native = repo \<and> within (lb_pkg native) opkg \<or> lb_canonical native) \<and>
            ru_name r = proto_wrapper_name native family opkg)"

section \<open>Configuration\<close>

text \<open>The identities visible in a directory, those of the run by owner and name, and the enabled
  ones.\<close>

record proto_config =
  pc_identities :: "(string \<times> proto_identity) list"
  pc_all :: "(string \<times> proto_identity) list"
  pc_enabled :: "string list"

definition overlapping :: "string \<Rightarrow> proto_identity \<Rightarrow> proto_identity \<Rightarrow> bool" where
  "overlapping rel i other \<longleftrightarrow>
     pi_owner other = rel \<and> (within (pi_outDir i) (pi_outDir other) \<or> within (pi_outDir other) (pi_outDir i))"

definition define_identity :: "string \<Rightarrow> proto_identity \<Rightarrow> proto_config \<Rightarrow> proto_error + proto_config" where
  "define_identity rel i st =
     (if map_of (pc_identities st) (pi_name i) \<noteq> None then Inl (Redefined (pi_name i))
      else case find (overlapping rel i) (map snd (pc_all st)) of
        Some other \<Rightarrow> Inl (Overlap (pi_name i) (pi_name other))
      | None \<Rightarrow>
          Inr (st\<lparr>pc_identities := AList.update (pi_name i) i (pc_identities st),
                  pc_all := AList.update (rel @ '':'' @ pi_name i) i (pc_all st)\<rparr>))"

fun define_identities ::
    "label_api \<Rightarrow> bool \<Rightarrow> bool \<Rightarrow> bool \<Rightarrow> string \<Rightarrow> build_rule list \<Rightarrow> proto_config \<Rightarrow> proto_error + proto_config" where
  "define_identities api native runtime complete rel [] st = Inr st"
| "define_identities api native runtime complete rel (r # rs) st =
     (if ru_kind r \<noteq> ''ts_proto_config'' then define_identities api native runtime complete rel rs st
      else if \<not> native then Inl NoNativeProto
      else if \<not> runtime then Inl NoRuntimeImports
      else if \<not> complete then Inl (PartialUpdate rel)
      else and_then (parse_proto_identity api r rel) (\<lambda>i.
           and_then (define_identity rel i st) (define_identities api native runtime complete rel rs)))"

fun enable_names :: "(string \<times> proto_identity) list \<Rightarrow> nat \<Rightarrow> string list \<Rightarrow> string list \<Rightarrow> proto_error + string list" where
  \<comment> \<open>the number of names in the directive, the names left, the ones enabled\<close>
  "enable_names ids n [] enabled = Inr enabled"
| "enable_names ids n (name # ns) enabled =
     (if name = ''none'' then (if n \<noteq> 1 then Inl NoneCombined else Inr enabled)
      else if map_of ids name = None then Inl (Undefined name)
      else if name \<in> set enabled then Inl (Repeated name)
      else enable_names ids n ns (enabled @ [name]))"

fun read_directives :: "(string \<times> string) list \<Rightarrow> proto_config \<Rightarrow> proto_error + proto_config" where
  "read_directives [] st = Inr st"
| "read_directives ((key, v) # ds) st =
     (if key = ''ts_proto'' then
        and_then (enable_names (pc_identities st) (length (SourceScan.fields v)) (SourceScan.fields v) [])
          (\<lambda>enabled. read_directives ds (st\<lparr>pc_enabled := enabled\<rparr>))
      else read_directives ds st)"

record proto_env =
  pe_api :: label_api
  pe_graph :: "proto_graph option"
  pe_repo :: string
  pe_native :: bool  \<comment> \<open>the native proto language is in the binary\<close>
  pe_runtime :: bool  \<comment> \<open>the runtime imports can be read\<close>
  pe_roots :: "string list option"
  pe_recursive :: bool

definition configure_proto ::
    "proto_env \<Rightarrow> string \<Rightarrow> (build_rule list \<times> (string \<times> string) list) option \<Rightarrow> proto_config \<Rightarrow> proto_error + proto_config" where
  \<comment> \<open>the rules and the directives of the BUILD file, when there is one\<close>
  "configure_proto env rel file st =
     (case file of
        None \<Rightarrow> Inr st
      | Some (rules, directives) \<Rightarrow>
          let complete = check_scope (pe_roots env) (pe_recursive env) rel in
          if list_ex (managed_proto_wrapper (pe_api env) (pe_graph env) (pe_repo env) rel) rules \<and> \<not> pe_native env then Inl NoNativeProto
          else if list_ex (managed_proto_wrapper (pe_api env) (pe_graph env) (pe_repo env) rel) rules \<and> \<not> complete then Inl (PartialUpdate rel)
          else and_then (define_identities (pe_api env) (pe_native env) (pe_runtime env) complete rel rules st) (read_directives directives))"

section \<open>The rules of a package\<close>

text \<open>A native library another language generated: its name, the files it provides and imports.\<close>

record native_library =
  nl_name :: string
  nl_paths :: "string list"
  nl_imports :: "string list"

type_synonym 'c observed_by = "(string \<times> 'c proto_observation list) list"

definition observations_of :: "'c observed_by \<Rightarrow> string \<Rightarrow> 'c proto_observation list" where
  "observations_of m opkg = (case map_of m opkg of None \<Rightarrow> [] | Some xs \<Rightarrow> xs)"

definition observe_native ::
    "'c \<Rightarrow> string \<Rightarrow> string \<Rightarrow> (string \<times> proto_identity) list \<Rightarrow> string list \<Rightarrow> native_library \<Rightarrow> 'c observed_by \<Rightarrow> 'c observed_by" where
  "observe_native c repo rel ids enabled n m =
     (if nl_paths n = [] then m
      else fold (\<lambda>name m.
        case map_of ids name of
          None \<Rightarrow> m  \<comment> \<open>no enabled name is undefined\<close>
        | Some i \<Rightarrow>
            AList.update (pi_owner i)
              (observations_of m (pi_owner i) @
               [\<lparr>ob_nativeDeps = [], ob_config = c,
                 ob_native = \<lparr>lb_repo = repo, lb_pkg = rel, lb_name = nl_name n, lb_relative = False, lb_canonical = False\<rparr>,
                 ob_identity = i, ob_paths = nl_paths n, ob_imports = nl_imports n\<rparr>]) m)
        enabled m)"

definition wrapper_name :: "'c proto_observation \<Rightarrow> string" where
  "wrapper_name ob = proto_wrapper_name (ob_native ob) (pi_name (ob_identity ob)) (pi_owner (ob_identity ob))"

definition wrapper_outputs :: "'c proto_observation \<Rightarrow> string list" where
  "wrapper_outputs ob = map (\<lambda>source. path_join [pi_outDir (ob_identity ob), source]) (ob_paths ob)"

fun claim_outputs :: "string \<Rightarrow> string list \<Rightarrow> (string \<times> string) list \<Rightarrow> proto_error + (string \<times> string) list" where
  "claim_outputs name [] outputs = Inr outputs"
| "claim_outputs name (out # outs) outputs =
     (case map_of outputs out of
        Some previous \<Rightarrow> Inl (SameOutput previous name out)
      | None \<Rightarrow> claim_outputs name outs (AList.update out name outputs))"

definition wrapper_rule :: "label_api \<Rightarrow> string \<Rightarrow> string \<Rightarrow> 'c proto_observation \<Rightarrow> rule_text" where
  "wrapper_rule api repo rel ob =
     (let i = ob_identity ob in
      \<lparr>rt_kind = ''ts_proto_library'', rt_name = wrapper_name ob,
       rt_attrs =
         [(''visibility'', public_visibility),
          (''proto'', StrAttr (la_string api (relative_label api (ob_native ob) repo rel))),
          (''out_dir'', StrAttr (pi_outDir i)), (''tsconfig'', StrAttr (pi_tsconfig i)), (''options'', ListAttr (pi_options i))] @
         (if pi_nodeModules i \<noteq> [] then [(''node_modules'', StrAttr (pi_nodeModules i))] else []) @
         (if pi_deps i \<noteq> [] then [(''deps'', ListAttr (pi_deps i))] else [])\<rparr>)"

fun wrap_observations ::
    "label_api \<Rightarrow> string \<Rightarrow> string \<Rightarrow> 'c proto_observation list \<Rightarrow> string list \<Rightarrow> (string \<times> string) list \<Rightarrow> rule_text list
     \<Rightarrow> proto_error + rule_text list" where
  "wrap_observations api repo rel [] generated outputs res = Inr res"
| "wrap_observations api repo rel (ob # obs) generated outputs res =
     (let name = wrapper_name ob in
      if name \<in> set generated then Inl (DuplicateWrapper name)
      else and_then (claim_outputs name (wrapper_outputs ob) outputs) (\<lambda>outputs'.
           wrap_observations api repo rel obs (name # generated) outputs' (res @ [wrapper_rule api repo rel ob])))"

text \<open>\<open>withProtoRules\<close>: the rules added, the rules withdrawn, and the observations the run keeps.\<close>

definition with_proto_rules ::
    "proto_env \<Rightarrow> ('c \<Rightarrow> string \<Rightarrow> label option) \<Rightarrow> ('c \<Rightarrow> string) \<Rightarrow> (string \<times> string) list \<Rightarrow> 'c \<Rightarrow> string \<Rightarrow>
     native_library list \<Rightarrow> build_rule list option \<Rightarrow> proto_config \<Rightarrow> 'c observed_by \<Rightarrow>
     proto_error + rule_text list \<times> rule_text list \<times> 'c observed_by" where
  "with_proto_rules env override repo_of rt c rel natives file_rules st m =
     (let api = pe_api env;
          m' = fold (observe_native c (pe_repo env) rel (pc_identities st) (pc_enabled st)) natives m
      in case external_observations api override repo_of (pe_graph env) rt (observations_of m' rel) of
           Inl e \<Rightarrow> Inl (Observing e)
         | Inr obs \<Rightarrow>
             and_then (wrap_observations api (pe_repo env) rel obs [] [] []) (\<lambda>gen.
               Inr (gen,
                    (case file_rules of
                       None \<Rightarrow> []
                     | Some rs \<Rightarrow>
                         map (\<lambda>r. bare_rule (ru_kind r) (ru_name r))
                           (filter (\<lambda>r. managed_proto_wrapper api (pe_graph env) (pe_repo env) rel r \<and>
                              ru_name r \<notin> wrapper_name ` set obs) rs)),
                    m')))"

section \<open>Finding a wrapper\<close>

definition proto_wrapper_key :: "label_api \<Rightarrow> string \<Rightarrow> label \<Rightarrow> string" where
  "proto_wrapper_key api root native = ''ts_proto:'' @ root @ '':'' @ la_string api native"

definition proto_imports_for_rule :: "label_api \<Rightarrow> proto_graph option \<Rightarrow> string \<Rightarrow> string \<Rightarrow> build_rule \<Rightarrow> string list" where
  "proto_imports_for_rule api g repo pkg r =
     (if ru_kind r \<noteq> ''ts_proto_library'' then []
      else case ru_attr r ''out_dir'' of
        Some (StringExpr outDir _) \<Rightarrow>
          (case parse_label api (ru_string r ''proto'') of
             None \<Rightarrow> []
           | Some native \<Rightarrow> [proto_wrapper_key api (path_join [pkg, outDir]) (absolute_proto_label api g repo native pkg)])
      | _ \<Rightarrow> [])"

text \<open>The labels of a map, sorted by their text.\<close>

fun insert_label :: "label_api \<Rightarrow> label \<Rightarrow> label list \<Rightarrow> label list" where
  "insert_label api l [] = [l]"
| "insert_label api l (m # ms) = (if bytes_le (la_string api l) (la_string api m) then l # m # ms else m # insert_label api l ms)"

definition sort_labels :: "label_api \<Rightarrow> label list \<Rightarrow> label list" where
  "sort_labels api ls = foldr (insert_label api) (remdups ls) []"

text \<open>What the wrappers and the native libraries are found in: Gazelle's index by import and by key,
  and the rules stored so far by import and by key.\<close>

record proto_index =
  ix_native :: "string \<Rightarrow> label list"
  ix_wrapper :: "string \<Rightarrow> label list"
  ix_storedNative :: "string \<Rightarrow> label list"
  ix_storedWrapper :: "string \<Rightarrow> label list"

definition proto_wrapper_providers :: "proto_env \<Rightarrow> proto_index \<Rightarrow> string \<Rightarrow> label \<Rightarrow> label list" where
  "proto_wrapper_providers env ix root native0 =
     (let native = absolute_proto_label (pe_api env) (pe_graph env) (pe_repo env) native0 [];
          key = proto_wrapper_key (pe_api env) root native
      in sort_labels (pe_api env) (ix_wrapper ix key @ ix_storedWrapper ix key))"

definition graph_natives :: "proto_env \<Rightarrow> (string \<Rightarrow> label option) \<Rightarrow> string \<Rightarrow> graph_error + label list" where
  "graph_natives env override imp =
     and_then (providers (pe_api env) override (pe_repo env) (pe_graph env) imp) (\<lambda>ns.
       Inr (map (\<lambda>n. case pe_graph env of None \<Rightarrow> label_of no_graph [] | Some g \<Rightarrow> label_of g (pn_label n)) ns))"

definition proto_provider ::
    "proto_env \<Rightarrow> (string \<Rightarrow> label option) \<Rightarrow> proto_index \<Rightarrow> 'c observed_by \<Rightarrow> string \<Rightarrow> string \<Rightarrow> graph_error + label list" where
  "proto_provider env override ix m root imp =
     (let api = pe_api env; absl = (\<lambda>l. absolute_proto_label api (pe_graph env) (pe_repo env) l []) in
      and_then (graph_natives env override imp) (\<lambda>fromGraph.
        let natives =
          (case override imp of
             Some overridden \<Rightarrow> if fromGraph = [] then [absl overridden] else fromGraph
           | None \<Rightarrow>
               map absl (ix_native ix imp) @ fromGraph @
               map ob_native (filter (\<lambda>ob. imp \<in> set (ob_paths ob)) (concat (map snd m))) @ ix_storedNative ix imp)
        in Inr (sort_labels api (concat (map (proto_wrapper_providers env ix root) (remdups natives))))))"

text \<open>The loop over the directories above a generated file.\<close>

function output_providers :: "(string \<Rightarrow> string \<Rightarrow> graph_error + label list) \<Rightarrow> string \<Rightarrow> string \<Rightarrow> graph_error + label list" where
  "output_providers provider file dir =
     (if dir = ''.'' \<or> dir = ''/'' \<or> dir = [] then Inr []
      else and_then (provider dir (trim_suffix (trim_prefix file (dir @ ''/'')) ''_pb.ts'' @ ''.proto'')) (\<lambda>found.
        if found \<noteq> [] then Inr found
        else if path_dir dir = ''.'' then Inr []
        else output_providers provider file (path_dir dir)))"
  by pat_completeness auto
termination
  by (relation "measure (\<lambda>(p, f, d). length d)") (auto intro: path_dir_shorter)

declare output_providers.simps [simp del]

definition proto_output_providers ::
    "proto_env \<Rightarrow> (string \<Rightarrow> label option) \<Rightarrow> proto_index option \<Rightarrow> 'c observed_by \<Rightarrow> string \<Rightarrow> graph_error + label list" where
  "proto_output_providers env override ix m file =
     (case ix of
        None \<Rightarrow> Inr []
      | Some x \<Rightarrow>
          if \<not> firstParty file \<or> \<not> has_suffix file ''_pb.ts'' then Inr []
          else output_providers (proto_provider env override x m) file (path_dir file))"

definition resolve_proto_output ::
    "proto_env \<Rightarrow> (string \<Rightarrow> label option) \<Rightarrow> proto_index option \<Rightarrow> 'c observed_by \<Rightarrow> string \<Rightarrow> label \<Rightarrow> proto_error + string" where
  "resolve_proto_output env override ix m file ob =
     (case proto_output_providers env override ix m file of
        Inl e \<Rightarrow> Inl (Observing e)
      | Inr [] \<Rightarrow> Inr []
      | Inr [p] \<Rightarrow> Inr (la_string (pe_api env) (relative_label (pe_api env) p (lb_repo ob) (lb_pkg ob)))
      | Inr ps \<Rightarrow> Inl (Providers file (length ps)))"

section \<open>Output roots stay apart\<close>

definition valid_identity :: "label_api \<Rightarrow> proto_identity \<Rightarrow> bool" where
  "valid_identity api i \<longleftrightarrow>
     identity_name (pi_name i) \<and> pi_outDir i \<noteq> [] \<and> out_dir_inside (pi_outDir i) \<and> pi_tsconfig i \<noteq> [] \<and>
     ''target=ts'' \<in> set (pi_options i) \<and> (\<forall>x \<in> set (pi_options i). has_prefix x ''target='' \<longrightarrow> x = ''target=ts'') \<and>
     (\<forall>raw \<in> set (pi_tsconfig i # pi_nodeModules i # pi_deps i). raw = [] \<or> parse_label api raw \<noteq> None)"

definition roots_apart :: "(string \<times> proto_identity) list \<Rightarrow> bool" where
  "roots_apart ids \<longleftrightarrow>
     (\<forall>(k, i) \<in> set ids. \<forall>(k', j) \<in> set ids. k \<noteq> k' \<longrightarrow> pi_owner i = pi_owner j \<longrightarrow> \<not> within (pi_outDir i) (pi_outDir j))"

definition registry_ok :: "label_api \<Rightarrow> (string \<times> proto_identity) list \<Rightarrow> bool" where
  "registry_ok api ids \<longleftrightarrow> roots_apart ids \<and> (\<forall>i \<in> snd ` set ids. valid_identity api i)"

definition enabled_ok :: "proto_config \<Rightarrow> bool" where
  "enabled_ok st \<longleftrightarrow> distinct (pc_enabled st) \<and> (\<forall>n \<in> set (pc_enabled st). map_of (pc_identities st) n \<noteq> None)"

lemma check_identity_valid: "check_identity api i = Inr j \<Longrightarrow> j = i \<and> valid_identity api i"
  by (auto simp: check_identity_def valid_identity_def find_None_iff split: if_splits option.splits)

lemma check_identity_owner:
  assumes "parse_proto_identity api r rel = Inr i"
  shows "pi_owner i = rel \<and> valid_identity api i"
  using assms by (auto simp: parse_proto_identity_def and_then_Inr dest!: check_identity_valid)

lemma define_identity_ok:
  assumes "define_identity rel i st = Inr st'" "registry_ok api (pc_all st)" "pi_owner i = rel" "valid_identity api i"
  shows "registry_ok api (pc_all st')"
proof -
  have f: "find (overlapping rel i) (map snd (pc_all st)) = None"
    and st': "pc_all st' = AList.update (rel @ '':'' @ pi_name i) i (pc_all st)"
    using assms(1) by (auto simp: define_identity_def split: if_splits option.splits)
  have sub: "set (pc_all st') \<subseteq> insert (rel @ '':'' @ pi_name i, i) (set (pc_all st))"
    unfolding st' by (rule set_update_subset)
  have "\<not> within (pi_outDir i) (pi_outDir j) \<and> \<not> within (pi_outDir j) (pi_outDir i)" if "(k, j) \<in> set (pc_all st)" "pi_owner j = rel" for k j
    using f that by (auto simp: find_None_iff overlapping_def)
  note new = this
  have "\<not> within (pi_outDir a) (pi_outDir b)"
    if ab: "(k, a) \<in> set (pc_all st')" "(k', b) \<in> set (pc_all st')" "k \<noteq> k'" "pi_owner a = pi_owner b" for k a k' b
  proof -
    consider "(k, a) \<in> set (pc_all st)" "(k', b) \<in> set (pc_all st)" | "a = i" "(k', b) \<in> set (pc_all st)"
      | "b = i" "(k, a) \<in> set (pc_all st)"
      using sub ab by auto
    then show ?thesis
    proof cases
      case 1
      then show ?thesis using assms(2) ab by (fastforce simp: registry_ok_def roots_apart_def)
    next
      case 2
      then show ?thesis using new ab(4) assms(3) by auto
    next
      case 3
      then show ?thesis using new ab(4) assms(3) by auto
    qed
  qed
  then have "roots_apart (pc_all st')" unfolding roots_apart_def by blast
  moreover have "\<forall>j \<in> snd ` set (pc_all st'). valid_identity api j" using sub assms(2,4) by (auto simp: registry_ok_def)
  ultimately show ?thesis by (simp add: registry_ok_def)
qed

lemma define_identity_more:
  "define_identity rel i st = Inr st' \<Longrightarrow> pc_enabled st' = pc_enabled st \<and>
   (map_of (pc_identities st) n \<noteq> None \<longrightarrow> map_of (pc_identities st') n \<noteq> None)"
  by (auto simp: define_identity_def update_conv' split: if_splits option.splits)

lemma define_identities_ok:
  "define_identities api native runtime complete rel rs st = Inr st' \<Longrightarrow> registry_ok api (pc_all st) \<Longrightarrow> enabled_ok st \<Longrightarrow>
   registry_ok api (pc_all st') \<and> enabled_ok st'"
proof (induction rs arbitrary: st)
  case (Cons r rs)
  show ?case
  proof (cases "ru_kind r = ''ts_proto_config''")
    case False
    then show ?thesis using Cons by simp
  next
    case True
    then obtain i st1 where i: "parse_proto_identity api r rel = Inr i" "define_identity rel i st = Inr st1"
      "define_identities api native runtime complete rel rs st1 = Inr st'"
      using Cons.prems(1) by (auto simp: and_then_Inr split: if_splits)
    have "enabled_ok st1" using Cons.prems(3) define_identity_more[OF i(2)] by (simp add: enabled_ok_def)
    moreover have "registry_ok api (pc_all st1)"
      using define_identity_ok[OF i(2) Cons.prems(2)] check_identity_owner[OF i(1)] by blast
    ultimately show ?thesis using Cons.IH[OF i(3)] by blast
  qed
qed simp

lemma enable_names_ok:
  "enable_names ids n names enabled = Inr out \<Longrightarrow> distinct enabled \<Longrightarrow> \<forall>x \<in> set enabled. map_of ids x \<noteq> None \<Longrightarrow>
   distinct out \<and> (\<forall>x \<in> set out. map_of ids x \<noteq> None)"
  by (induction ids n names enabled rule: enable_names.induct) (auto split: if_splits)

lemma read_directives_ok:
  "read_directives ds st = Inr st' \<Longrightarrow> enabled_ok st \<Longrightarrow> enabled_ok st' \<and> pc_all st' = pc_all st"
proof (induction ds st rule: read_directives.induct)
  case (2 key v ds st)
  show ?case
  proof (cases "key = ''ts_proto''")
    case True
    then obtain out where o: "enable_names (pc_identities st) (length (SourceScan.fields v)) (SourceScan.fields v) [] = Inr out"
      "read_directives ds (st\<lparr>pc_enabled := out\<rparr>) = Inr st'"
      using "2.prems"(1) by (auto simp: and_then_Inr)
    have "enabled_ok (st\<lparr>pc_enabled := out\<rparr>)" using enable_names_ok[OF o(1)] by (simp add: enabled_ok_def)
    then show ?thesis using "2.IH"(1)[OF True o(2)] by simp
  next
    case False
    then show ?thesis using 2 by simp
  qed
qed simp

section \<open>Wrappers do not collide\<close>

lemma claim_outputs_distinct:
  "claim_outputs name outs outputs = Inr outputs' \<Longrightarrow>
   distinct outs \<and> set outs \<inter> dom (map_of outputs) = {} \<and> dom (map_of outputs') = set outs \<union> dom (map_of outputs)"
proof (induction name outs outputs rule: claim_outputs.induct)
  case (2 name out outs outputs)
  then show ?case by (auto simp: update_conv' split: option.splits)
qed simp

lemma wrap_observations_distinct:
  "wrap_observations api repo rel obs generated outputs res = Inr gen \<Longrightarrow>
   gen = res @ map (wrapper_rule api repo rel) obs \<and> distinct (map wrapper_name obs) \<and> set generated \<inter> wrapper_name ` set obs = {} \<and>
   distinct (concat (map wrapper_outputs obs)) \<and> dom (map_of outputs) \<inter> set (concat (map wrapper_outputs obs)) = {}"
proof (induction obs arbitrary: generated outputs res)
  case (Cons ob obs)
  then obtain outputs' where c: "claim_outputs (wrapper_name ob) (wrapper_outputs ob) outputs = Inr outputs'"
    and w: "wrap_observations api repo rel obs (wrapper_name ob # generated) outputs' (res @ [wrapper_rule api repo rel ob]) = Inr gen"
    and n: "wrapper_name ob \<notin> set generated"
    by (auto simp: Let_def and_then_Inr split: if_splits)
  show ?case using Cons.IH[OF w] claim_outputs_distinct[OF c] n by auto
qed simp

lemma map_wrapper_names: "map rt_name (map (wrapper_rule api repo rel) obs) = map wrapper_name obs"
  by (simp add: wrapper_rule_def Let_def)

section \<open>Properties\<close>

text \<open>C40.  Configuring a directory keeps the output roots of the identities of one package apart, no
  root inside another, with every identity valid and every enabled name defined and enabled once.\<close>

theorem configure_keeps_roots_apart:
  assumes "configure_proto env rel build st = Inr st'" "registry_ok (pe_api env) (pc_all st)" "enabled_ok st"
  shows "registry_ok (pe_api env) (pc_all st') \<and> enabled_ok st'"
proof (cases build)
  case None
  then show ?thesis using assms by (simp add: configure_proto_def)
next
  case (Some f)
  obtain rules ds where f: "f = (rules, ds)" by (cases f)
  obtain st1 where d: "define_identities (pe_api env) (pe_native env) (pe_runtime env)
      (check_scope (pe_roots env) (pe_recursive env) rel) rel rules st = Inr st1" "read_directives ds st1 = Inr st'"
    using assms(1) unfolding configure_proto_def Some f by (auto simp: Let_def and_then_Inr split: if_splits)
  show ?thesis using define_identities_ok[OF d(1) assms(2,3)] read_directives_ok[OF d(2)] by auto
qed

text \<open>The observations of a run hold one of every native library with sources under every enabled identity.\<close>

definition native_observation :: "'c \<Rightarrow> string \<Rightarrow> string \<Rightarrow> native_library \<Rightarrow> proto_identity \<Rightarrow> 'c proto_observation" where
  "native_observation c repo rel n i =
     \<lparr>ob_nativeDeps = [], ob_config = c,
      ob_native = \<lparr>lb_repo = repo, lb_pkg = rel, lb_name = nl_name n, lb_relative = False, lb_canonical = False\<rparr>,
      ob_identity = i, ob_paths = nl_paths n, ob_imports = nl_imports n\<rparr>"

lemma observations_of_update: "observations_of (AList.update k xs m) k' = (if k' = k then xs else observations_of m k')"
  by (simp add: observations_of_def update_conv)

definition note_observation ::
    "(string \<times> proto_identity) list \<Rightarrow> (proto_identity \<Rightarrow> 'c proto_observation) \<Rightarrow> string \<Rightarrow> 'c observed_by \<Rightarrow> 'c observed_by" where
  "note_observation ids ob name m =
     (case map_of ids name of None \<Rightarrow> m | Some i \<Rightarrow> AList.update (pi_owner i) (observations_of m (pi_owner i) @ [ob i]) m)"

lemma observe_native_notes:
  "observe_native c repo rel ids enabled n m =
     (if nl_paths n = [] then m else fold (note_observation ids (native_observation c repo rel n)) enabled m)"
  by (simp add: observe_native_def note_observation_def[abs_def] native_observation_def cong: option.case_cong)

lemma note_grows: "x \<in> set (observations_of m k) \<Longrightarrow> x \<in> set (observations_of (note_observation ids ob name m) k)"
  by (auto simp: note_observation_def observations_of_update split: option.split)

lemma notes_grow: "x \<in> set (observations_of m k) \<Longrightarrow> x \<in> set (observations_of (fold (note_observation ids ob) names m) k)"
proof (induction names arbitrary: m)
  case (Cons name names)
  show ?case using Cons.IH[OF note_grows[OF Cons.prems]] by simp
qed simp

lemma notes_hold:
  assumes "map_of ids name = Some i"
  shows "name \<in> set names \<Longrightarrow> ob i \<in> set (observations_of (fold (note_observation ids ob) names m) (pi_owner i))"
proof (induction names arbitrary: m)
  case (Cons x names)
  show ?case
  proof (cases "x = name")
    case True
    then have "ob i \<in> set (observations_of (note_observation ids ob x m) (pi_owner i))"
      using assms by (simp add: note_observation_def observations_of_update)
    from notes_grow[OF this] show ?thesis by simp
  next
    case False
    then show ?thesis using Cons by simp
  qed
qed simp

lemma observe_native_grows: "x \<in> set (observations_of m k) \<Longrightarrow> x \<in> set (observations_of (observe_native c repo rel ids enabled n m) k)"
  by (simp add: observe_native_notes notes_grow)

lemma observe_native_holds:
  assumes "nl_paths n \<noteq> []" "name \<in> set enabled" "map_of ids name = Some i"
  shows "native_observation c repo rel n i \<in> set (observations_of (observe_native c repo rel ids enabled n m) (pi_owner i))"
  using notes_hold[OF assms(3,2), of "native_observation c repo rel n"] assms(1) by (simp add: observe_native_notes)

lemma observe_natives_hold:
  assumes "n \<in> set natives" "nl_paths n \<noteq> []" "name \<in> set enabled" "map_of ids name = Some i"
  shows "native_observation c repo rel n i \<in> set (observations_of (fold (observe_native c repo rel ids enabled) natives m) (pi_owner i))"
proof -
  have grow: "x \<in> set (observations_of m k) \<Longrightarrow> x \<in> set (observations_of (fold (observe_native c repo rel ids enabled) ns m) k)" for x k ns m
  proof (induction ns arbitrary: m)
    case (Cons a ns)
    show ?case using Cons.IH[OF observe_native_grows[OF Cons.prems]] by simp
  qed simp
  show ?thesis using assms(1)
  proof (induction natives arbitrary: m)
    case (Cons a ns)
    show ?case
    proof (cases "a = n")
      case True
      then show ?thesis using grow[OF observe_native_holds[OF assms(2-4)]] by simp
    next
      case False
      then show ?thesis using Cons by simp
    qed
  qed simp
qed

lemma run_add_grows: "run_add g rt ob ts seen res = Inr (seen', res') \<Longrightarrow> set res \<subseteq> set res'"
proof (induction g rt ob ts seen res rule: run_add.induct)
  case (3 g rt ob owner ts seen res)
  then show ?case by (auto simp: Let_def split: if_splits sum.splits)
qed auto

lemma add_imports_grows: "add_imports api override repo g rt ls ims seen res = Inr out \<Longrightarrow> set res \<subseteq> set out"
proof (induction api override repo g rt ls ims seen res rule: add_imports.induct)
  case (2 api override repo g rt ls ob imp ims seen res)
  show ?case
  proof (cases "skips_import override rt ls ob imp")
    case True
    then show ?thesis using 2 by simp
  next
    case False
    then obtain ms where ms: "providers api (override (ob_config ob)) (repo (ob_config ob)) (Some g) imp = Inr ms"
      using "2.prems" by (auto split: sum.splits)
    show ?thesis
    proof (cases ms)
      case Nil
      then show ?thesis using 2 False ms by simp
    next
      case (Cons n ns)
      then have "ns = []" using "2.prems" False ms by (cases ns) auto
      then obtain seen' res' where a: "add_node g rt ob n seen res = Inr (seen', res')"
          "add_imports api override repo g rt ls ims seen' res' = Inr out"
        using "2.prems" False ms Cons by (auto split: sum.splits prod.splits)
      have "set res \<subseteq> set res'" using a(1) by (auto simp: add_node_def and_then_Inr dest: run_add_grows)
      moreover have "set res' \<subseteq> set out"
        using "2.IH"(3)[OF False ms Cons \<open>ns = []\<close> a(1) refl a(2)] by simp
      ultimately show ?thesis by blast
    qed
  qed
qed simp

lemma external_observations_grow: "external_observations api override repo g rt loc = Inr out \<Longrightarrow> set loc \<subseteq> set out"
  by (auto simp: external_observations_def split: option.splits dest: add_imports_grows)

text \<open>C19.  When the proto rules of a package are generated, they are the wrappers of the run's
  observations; no two have one name and no two generate one file.  Every native library of the package
  is among them with all its sources, once for each enabled identity the package owns.\<close>

theorem wrappers_disjoint:
  fixes m m' :: "'c observed_by"
  assumes "with_proto_rules env override repo_of rt c rel natives file_rules st m = Inr (gen, empties, m')"
  shows "\<exists>obs. external_observations (pe_api env) override repo_of (pe_graph env) rt (observations_of m' rel) = Inr obs \<and>
    gen = map (wrapper_rule (pe_api env) (pe_repo env) rel) obs \<and>
    distinct (map rt_name gen) \<and> distinct (concat (map wrapper_outputs obs)) \<and>
    (\<forall>n \<in> set natives. \<forall>name \<in> set (pc_enabled st). \<forall>i. map_of (pc_identities st) name = Some i \<longrightarrow> pi_owner i = rel \<longrightarrow>
       nl_paths n \<noteq> [] \<longrightarrow> native_observation c (pe_repo env) rel n i \<in> set obs)"
proof -
  let ?m = "fold (observe_native c (pe_repo env) rel (pc_identities st) (pc_enabled st)) natives m"
  have m': "m' = ?m" using assms unfolding with_proto_rules_def Let_def by (auto simp: and_then_Inr split: sum.splits)
  obtain obs where e: "external_observations (pe_api env) override repo_of (pe_graph env) rt (observations_of ?m rel) = Inr obs"
      and w: "wrap_observations (pe_api env) (pe_repo env) rel obs [] [] [] = Inr gen"
    using assms unfolding with_proto_rules_def Let_def by (auto simp: and_then_Inr split: sum.splits)
  from wrap_observations_distinct[OF w] have d: "gen = map (wrapper_rule (pe_api env) (pe_repo env) rel) obs"
    "distinct (map wrapper_name obs)" "distinct (concat (map wrapper_outputs obs))" by auto
  have "distinct (map rt_name gen)" unfolding d(1) map_wrapper_names by (rule d(2))
  moreover have "native_observation c (pe_repo env) rel n i \<in> set obs"
    if "n \<in> set natives" "name \<in> set (pc_enabled st)" "map_of (pc_identities st) name = Some i" "pi_owner i = rel" "nl_paths n \<noteq> []" for n name i
    using observe_natives_hold[OF that(1,5,2,3), of c "pe_repo env" rel m] external_observations_grow[OF e] that(4) by auto
  ultimately show ?thesis using d(1,3) e m' by blast
qed

definition demo_env :: proto_env where
  "demo_env =
     \<lparr>pe_api = \<lparr>la_parse = (\<lambda>s. Some \<lparr>lb_repo = [], lb_pkg = [], lb_name = s, lb_relative = False, lb_canonical = False\<rparr>),
        la_string = lb_name, la_abs = (\<lambda>l _ _. l), la_rel = (\<lambda>l _ _. l)\<rparr>,
      pe_graph = None, pe_repo = ''r'', pe_native = True, pe_runtime = True, pe_roots = None, pe_recursive = True\<rparr>"

definition demo_config_rule :: build_rule where
  "demo_config_rule =
     (let attrs = (\<lambda>k. if k = ''out_dir'' then Some (StringExpr ''gen'' False)
                       else if k = ''tsconfig'' then Some (StringExpr ''t'' False) else None)
      in \<lparr>ru_kind = ''ts_proto_config'', ru_name = ''es'', ru_attr = attrs,
          ru_string = (\<lambda>_. []), ru_strings = (\<lambda>_. []), ru_comments = (\<lambda>_. None), ru_keep = False\<rparr>)"

definition no_proto_config :: proto_config where
  "no_proto_config = \<lparr>pc_identities = [], pc_all = [], pc_enabled = []\<rparr>"

definition demo_proto_config :: proto_config where
  "demo_proto_config = projr (configure_proto demo_env ''p'' (Some ([demo_config_rule], [(''ts_proto'', ''es'')])) no_proto_config)"

lemma demo_configured:
  "configure_proto demo_env ''p'' (Some ([demo_config_rule], [(''ts_proto'', ''es'')])) no_proto_config = Inr demo_proto_config"
  by code_simp

theorem configure_keeps_roots_apart_witness:
  "registry_ok (pe_api demo_env) (pc_all demo_proto_config) \<and> enabled_ok demo_proto_config \<and> pc_enabled demo_proto_config = [''es'']"
proof -
  have r: "registry_ok (pe_api demo_env) (pc_all no_proto_config)" "enabled_ok no_proto_config"
    by (simp_all add: registry_ok_def roots_apart_def enabled_ok_def no_proto_config_def)
  have "pc_enabled demo_proto_config = [''es'']" by code_simp
  then show ?thesis using configure_keeps_roots_apart[OF demo_configured r] by simp
qed

definition demo_native :: native_library where
  "demo_native = \<lparr>nl_name = ''x_proto'', nl_paths = [''p/x.proto''], nl_imports = []\<rparr>"

definition demo_wrapped :: "rule_text list \<times> rule_text list \<times> unit observed_by" where
  "demo_wrapped =
     projr (with_proto_rules demo_env (\<lambda>_ _. None) (\<lambda>_. ''r'') [] () ''p'' [demo_native] None demo_proto_config [])"

theorem wrappers_disjoint_witness:
  "map rt_name (fst demo_wrapped) = [''es/x_proto''] \<and> distinct (map rt_name (fst demo_wrapped))"
proof -
  obtain gen empties m' where g: "demo_wrapped = (gen, empties, m')" by (cases demo_wrapped)
  have w: "with_proto_rules demo_env (\<lambda>_ _. None) (\<lambda>_. ''r'') [] () ''p'' [demo_native] None demo_proto_config [] = Inr demo_wrapped"
    by code_simp
  have "map rt_name (fst demo_wrapped) = [''es/x_proto'']" by code_simp
  moreover obtain obs where "distinct (map rt_name gen)" using wrappers_disjoint[OF w[unfolded g]] by blast
  ultimately show ?thesis by (simp add: g)
qed

end
