(* ===== verification/EmissionStore.thy ===== *)
theory EmissionStore imports BuildRules "HOL-Library.AList" begin

text \<open>
  The rules a run stores, \<open>emissionGraph\<close> of \<open>gazelle/emission.go\<close>: every write bumps a version of
  its package, a callback bumps the epoch of the rule held, and a BUILD file whose rules are
  registered is not registered again while neither has moved.  Rules and files are the pointers of
  the Go maps, type variables here; what a file's list holds is the function \<open>held\<close>, which Gazelle
  edits between callbacks.  The counters are Go ints that no run can overflow.
\<close>

section \<open>The store\<close>

record ('r, 'f) registered_build =
  rb_file :: 'f
  rb_rules :: "'r list"
  rb_version :: "nat \<times> nat"
  rb_epoch :: nat

record ('r, 'f) emission_graph =
  eg_roots :: "string list"
  eg_outputs :: "string list"
  eg_rules :: "(string \<times> 'r) list"
  eg_versions :: "(string \<times> nat) list"
  eg_epoch :: nat
  eg_files :: "(string \<times> 'f) list"
  eg_registered :: "(string \<times> ('r, 'f) registered_build) list"
  eg_listEpoch :: nat
  eg_outputsGeneration :: nat
  eg_rulesGeneration :: nat
  eg_crawled :: "string list option"
  eg_crawledPkgs :: "string list"
  eg_lastTouched :: string

definition crawl_memo :: "('r, 'f) emission_graph \<Rightarrow> ('r, 'f) emission_graph" where
  "crawl_memo g = (if eg_crawled g = None then g\<lparr>eg_crawled := Some [], eg_crawledPkgs := []\<rparr> else g)"

definition touch :: "string \<Rightarrow> ('r, 'f) emission_graph \<Rightarrow> ('r, 'f) emission_graph" where
  "touch pkg g =
     (if pkg \<in> set (eg_crawledPkgs g) \<or> eg_lastTouched g \<in> set (eg_crawledPkgs g) then g\<lparr>eg_crawled := None\<rparr> else g)
       \<lparr>eg_lastTouched := pkg\<rparr>"

definition rule_lists_may_change :: "('r, 'f) emission_graph \<Rightarrow> ('r, 'f) emission_graph" where
  "rule_lists_may_change g = g\<lparr>eg_listEpoch := eg_listEpoch g + 1\<rparr>"

definition declares_outputs :: "build_rule \<Rightarrow> bool" where
  "declares_outputs r \<longleftrightarrow> ru_attr r ''out'' \<noteq> None \<or> ru_attr r ''outs'' \<noteq> None \<or> ru_attr r ''out_dir'' \<noteq> None"

definition version_of :: "string \<Rightarrow> ('r, 'f) emission_graph \<Rightarrow> nat \<times> nat" where
  "version_of pkg g = (eg_epoch g, case map_of (eg_versions g) pkg of None \<Rightarrow> 0 | Some v \<Rightarrow> v)"

definition bump :: "label_api \<Rightarrow> string \<Rightarrow> ('r, 'f) emission_graph \<Rightarrow> ('r, 'f) emission_graph" where
  "bump api key g =
     (case parse_label api key of
        None \<Rightarrow> g\<lparr>eg_epoch := eg_epoch g + 1, eg_crawled := None\<rparr>
      | Some own \<Rightarrow>
          (if lb_pkg own \<in> set (eg_crawledPkgs g) then g\<lparr>eg_crawled := None\<rparr> else g)
            \<lparr>eg_versions := AList.update (lb_pkg own) (snd (version_of (lb_pkg own) g) + 1) (eg_versions g)\<rparr>)"

text \<open>The rule a pointer leads to is the heap \<open>h\<close>; a missing rule declares nothing.\<close>

definition stored_declares :: "('r \<Rightarrow> build_rule) \<Rightarrow> string \<Rightarrow> ('r, 'f) emission_graph \<Rightarrow> bool" where
  "stored_declares h key g \<longleftrightarrow> (case map_of (eg_rules g) key of None \<Rightarrow> False | Some r \<Rightarrow> declares_outputs (h r))"

definition store_rule :: "label_api \<Rightarrow> ('r \<Rightarrow> build_rule) \<Rightarrow> string \<Rightarrow> 'r \<Rightarrow> ('r, 'f) emission_graph \<Rightarrow> ('r, 'f) emission_graph" where
  "store_rule api h key r g =
     bump api key
       (g\<lparr>eg_outputsGeneration := eg_outputsGeneration g + (if stored_declares h key g \<or> declares_outputs (h r) then 1 else 0),
          eg_rules := AList.update key r (eg_rules g)\<rparr>)"

definition set_rule :: "label_api \<Rightarrow> ('r \<Rightarrow> build_rule) \<Rightarrow> string \<Rightarrow> 'r \<Rightarrow> ('r, 'f) emission_graph \<Rightarrow> ('r, 'f) emission_graph" where
  "set_rule api h key r g = store_rule api h key r (g\<lparr>eg_rulesGeneration := eg_rulesGeneration g + 1\<rparr>)"

definition set_resolved_rule :: "label_api \<Rightarrow> ('r \<Rightarrow> build_rule) \<Rightarrow> string \<Rightarrow> 'r \<Rightarrow> ('r, 'f) emission_graph \<Rightarrow> ('r, 'f) emission_graph" where
  "set_resolved_rule api h key r g =
     store_rule api h key r
       (if map_of (eg_rules g) key \<noteq> Some r then g\<lparr>eg_rulesGeneration := eg_rulesGeneration g + 1\<rparr> else g)"

definition delete_rule :: "label_api \<Rightarrow> ('r \<Rightarrow> build_rule) \<Rightarrow> string \<Rightarrow> ('r, 'f) emission_graph \<Rightarrow> ('r, 'f) emission_graph" where
  "delete_rule api h key g =
     bump api key
       (g\<lparr>eg_outputsGeneration := eg_outputsGeneration g + (if stored_declares h key g then 1 else 0),
          eg_rulesGeneration := eg_rulesGeneration g + 1,
          eg_rules := AList.delete key (eg_rules g)\<rparr>)"

definition set_file :: "string \<Rightarrow> 'f \<Rightarrow> ('r, 'f) emission_graph \<Rightarrow> ('r, 'f) emission_graph" where
  "set_file pkg f g =
     g\<lparr>eg_outputsGeneration := eg_outputsGeneration g + (if map_of (eg_files g) pkg \<noteq> Some f then 1 else 0),
       eg_files := AList.update pkg f (eg_files g)\<rparr>"

section \<open>Registering a BUILD file\<close>

definition registered_rules :: "('f \<Rightarrow> 'r list) \<Rightarrow> string \<Rightarrow> 'f \<Rightarrow> ('r, 'f) emission_graph \<Rightarrow> bool \<times> ('r, 'f) emission_graph" where
  "registered_rules held pkg f g =
     (case map_of (eg_registered g) pkg of
        None \<Rightarrow> (False, g)
      | Some r \<Rightarrow>
          if rb_file r \<noteq> f \<or> rb_version r \<noteq> version_of pkg g \<or> rb_epoch r \<noteq> eg_listEpoch g \<and> rb_rules r \<noteq> held f
          then (False, g)
          else (True, g\<lparr>eg_registered := AList.update pkg (r\<lparr>rb_epoch := eg_listEpoch g\<rparr>) (eg_registered g)\<rparr>))"

definition record_registered :: "('f \<Rightarrow> 'r list) \<Rightarrow> string \<Rightarrow> 'f \<Rightarrow> ('r, 'f) emission_graph \<Rightarrow> ('r, 'f) emission_graph" where
  "record_registered held pkg f g =
     g\<lparr>eg_registered :=
         AList.update pkg \<lparr>rb_file = f, rb_rules = held f, rb_version = version_of pkg g, rb_epoch = eg_listEpoch g\<rparr>
           (eg_registered g)\<rparr>"

text \<open>A rule of a directory is stored under the label of its name.\<close>

definition rule_key_in :: "label_api \<Rightarrow> string \<Rightarrow> ('r \<Rightarrow> string) \<Rightarrow> string \<Rightarrow> 'r \<Rightarrow> string" where
  "rule_key_in api repo name dir r = emission_label api repo dir ('':'' @ name r)"

definition store_missing ::
    "label_api \<Rightarrow> ('r \<Rightarrow> build_rule) \<Rightarrow> string \<Rightarrow> ('r \<Rightarrow> string) \<Rightarrow> string \<Rightarrow> 'r list \<Rightarrow> ('r, 'f) emission_graph \<Rightarrow> ('r, 'f) emission_graph" where
  "store_missing api h repo name dir rs g =
     fold (\<lambda>r g. if map_of (eg_rules g) (rule_key_in api repo name dir r) = None
                 then set_rule api h (rule_key_in api repo name dir r) r g else g) rs g"

text \<open>The step of \<open>observeBuilds\<close> for one directory with a BUILD file.\<close>

definition observe_file ::
    "label_api \<Rightarrow> ('r \<Rightarrow> build_rule) \<Rightarrow> string \<Rightarrow> ('r \<Rightarrow> string) \<Rightarrow> ('f \<Rightarrow> 'r list) \<Rightarrow> string \<Rightarrow> 'f
     \<Rightarrow> ('r, 'f) emission_graph \<Rightarrow> ('r, 'f) emission_graph" where
  "observe_file api h repo name held dir f g =
     (let (known, g1) = registered_rules held dir f (set_file dir f g) in
      if known then g1 else record_registered held dir f (store_missing api h repo name dir (held f) g1))"

text \<open>\<open>recordBuild\<close>: every rule of the file is stored.\<close>

definition record_build ::
    "label_api \<Rightarrow> ('r \<Rightarrow> build_rule) \<Rightarrow> string \<Rightarrow> ('r \<Rightarrow> string) \<Rightarrow> ('f \<Rightarrow> 'r list) \<Rightarrow> string \<Rightarrow> 'f option
     \<Rightarrow> ('r, 'f) emission_graph \<Rightarrow> ('r, 'f) emission_graph" where
  "record_build api h repo name held pkg file g =
     (case file of
        None \<Rightarrow> g
      | Some f \<Rightarrow> fold (\<lambda>r. set_rule api h (rule_key_in api repo name pkg r) r) (held f) (set_file pkg f g))"

section \<open>A run\<close>

text \<open>What a run does to the store: the callbacks' writes, the reads of BUILD files, and Gazelle's
  edits of a rule list, which a callback's bump follows.\<close>

datatype ('r, 'f) op =
    Touch string
  | EditList 'f "'r list"
  | SetRule string 'r
  | SetResolved string 'r
  | DeleteRule string
  | SetFile string 'f
  | Observe string 'f
  | RecordBuild string "'f option"

type_synonym ('r, 'f) run_state = "('r, 'f) emission_graph \<times> ('f \<Rightarrow> 'r list)"

fun do_op ::
    "label_api \<Rightarrow> ('r \<Rightarrow> build_rule) \<Rightarrow> string \<Rightarrow> ('r \<Rightarrow> string) \<Rightarrow> ('r, 'f) op \<Rightarrow> ('r, 'f) run_state \<Rightarrow> ('r, 'f) run_state" where
  "do_op api h repo name (Touch pkg) (g, held) = (touch pkg g, held)"
| "do_op api h repo name (EditList f rs) (g, held) = (rule_lists_may_change g, held(f := rs))"
| "do_op api h repo name (SetRule key r) (g, held) = (set_rule api h key r g, held)"
| "do_op api h repo name (SetResolved key r) (g, held) = (set_resolved_rule api h key r g, held)"
| "do_op api h repo name (DeleteRule key) (g, held) = (delete_rule api h key g, held)"
| "do_op api h repo name (SetFile pkg f) (g, held) = (set_file pkg f g, held)"
| "do_op api h repo name (Observe dir f) (g, held) = (observe_file api h repo name held dir f g, held)"
| "do_op api h repo name (RecordBuild pkg f) (g, held) = (record_build api h repo name held pkg f g, held)"

definition empty_graph :: "('r, 'f) emission_graph" where
  "empty_graph =
     \<lparr>eg_roots = [], eg_outputs = [], eg_rules = [], eg_versions = [], eg_epoch = 0, eg_files = [], eg_registered = [],
      eg_listEpoch = 0, eg_outputsGeneration = 0, eg_rulesGeneration = 0, eg_crawled = None, eg_crawledPkgs = [], eg_lastTouched = []\<rparr>"

inductive reachable_run ::
    "label_api \<Rightarrow> string \<Rightarrow> ('r \<Rightarrow> string) \<Rightarrow> ('r, 'f) run_state \<Rightarrow> bool"
  for api :: label_api and repo :: string and name :: "'r \<Rightarrow> string" where
  Start: "reachable_run api repo name (empty_graph, held)"
| Step: "reachable_run api repo name s \<Longrightarrow> reachable_run api repo name (do_op api h repo name x s)"

text \<open>The same step without the memo: every missing rule of the file is stored.\<close>

definition observe_plainly ::
    "label_api \<Rightarrow> ('r \<Rightarrow> build_rule) \<Rightarrow> string \<Rightarrow> ('r \<Rightarrow> string) \<Rightarrow> ('f \<Rightarrow> 'r list) \<Rightarrow> string \<Rightarrow> 'f
     \<Rightarrow> ('r, 'f) emission_graph \<Rightarrow> ('r, 'f) emission_graph" where
  "observe_plainly api h repo name held dir f g = store_missing api h repo name dir (held f) (set_file dir f g)"

definition store_view :: "('r, 'f) emission_graph \<Rightarrow> (string \<rightharpoonup> 'r) \<times> (string \<rightharpoonup> 'f)" where
  "store_view g = (map_of (eg_rules g), map_of (eg_files g))"

text \<open>The text of a label of a directory's rule parses back to the directory, or not at all.\<close>

definition labels_local :: "label_api \<Rightarrow> string \<Rightarrow> bool" where
  "labels_local api repo \<longleftrightarrow>
     (\<forall>dir n own. parse_label api (emission_label api repo dir ('':'' @ n)) = Some own \<longrightarrow> lb_pkg own = dir)"

section \<open>A registered file stores nothing again\<close>

definition registry_inv :: "label_api \<Rightarrow> string \<Rightarrow> ('r \<Rightarrow> string) \<Rightarrow> ('r, 'f) run_state \<Rightarrow> bool" where
  "registry_inv api repo name s \<longleftrightarrow>
     (\<forall>dir b. map_of (eg_registered (fst s)) dir = Some b \<longrightarrow>
        fst (rb_version b) \<le> eg_epoch (fst s) \<and> snd (rb_version b) \<le> snd (version_of dir (fst s)) \<and>
        rb_epoch b \<le> eg_listEpoch (fst s) \<and>
        (rb_epoch b = eg_listEpoch (fst s) \<longrightarrow> snd s (rb_file b) = rb_rules b) \<and>
        (rb_version b = version_of dir (fst s) \<longrightarrow>
           (\<forall>r \<in> set (rb_rules b). map_of (eg_rules (fst s)) (rule_key_in api repo name dir r) \<noteq> None)))"

lemma registry_inv_cong:
  assumes "registry_inv api repo name (g, held)" "eg_registered g' = eg_registered g" "eg_epoch g' = eg_epoch g"
    "eg_versions g' = eg_versions g" "eg_listEpoch g' = eg_listEpoch g" "eg_rules g' = eg_rules g"
  shows "registry_inv api repo name (g', held)"
  using assms by (simp add: registry_inv_def version_of_def)

lemma bump_fields [simp]:
  "eg_registered (bump api key g) = eg_registered g" "eg_listEpoch (bump api key g) = eg_listEpoch g"
  "eg_rules (bump api key g) = eg_rules g" "eg_files (bump api key g) = eg_files g"
  by (auto simp: bump_def split: option.splits)

lemma bump_version:
  "version_of dir (bump api key g) =
     (case parse_label api key of
        None \<Rightarrow> (eg_epoch g + 1, snd (version_of dir g))
      | Some own \<Rightarrow> (eg_epoch g, snd (version_of dir g) + (if lb_pkg own = dir then 1 else 0)))"
  by (auto simp: bump_def version_of_def update_conv' split: option.splits)

lemma write_inv:
  assumes inv: "registry_inv api repo name (g, held)" and loc: "labels_local api repo"
    and g1: "eg_registered g1 = eg_registered g" "eg_epoch g1 = eg_epoch g" "eg_versions g1 = eg_versions g"
      "eg_listEpoch g1 = eg_listEpoch g" "\<And>k. k \<noteq> key \<Longrightarrow> map_of (eg_rules g1) k = map_of (eg_rules g) k"
  shows "registry_inv api repo name (bump api key g1, held)"
  unfolding registry_inv_def fst_conv snd_conv
proof (intro allI impI)
  fix dir b
  let ?g = "bump api key g1"
  assume "map_of (eg_registered ?g) dir = Some b"
  then have b: "map_of (eg_registered g) dir = Some b" by (simp add: g1)
  have v: "version_of dir g1 = version_of dir g" by (simp add: version_of_def g1)
  have old: "fst (rb_version b) \<le> eg_epoch g" "snd (rb_version b) \<le> snd (version_of dir g)" "rb_epoch b \<le> eg_listEpoch g"
    "rb_epoch b = eg_listEpoch g \<longrightarrow> held (rb_file b) = rb_rules b"
    "rb_version b = version_of dir g \<longrightarrow> (\<forall>r \<in> set (rb_rules b). map_of (eg_rules g) (rule_key_in api repo name dir r) \<noteq> None)"
    using inv b by (auto simp: registry_inv_def)
  have e: "fst (version_of dir ?g) = eg_epoch ?g" by (simp add: version_of_def)
  have mono: "eg_epoch g \<le> eg_epoch ?g" "snd (version_of dir g) \<le> snd (version_of dir ?g)"
    using bump_version[of dir api key g1] e by (auto simp: g1 v split: option.splits)
  have "\<forall>r \<in> set (rb_rules b). map_of (eg_rules ?g) (rule_key_in api repo name dir r) \<noteq> None" if same: "rb_version b = version_of dir ?g"
  proof -
    have le: "fst (version_of dir ?g) \<le> eg_epoch g" "snd (version_of dir ?g) \<le> snd (version_of dir g)"
      using old(1,2) same by simp_all
    obtain own where own: "parse_label api key = Some own" "lb_pkg own \<noteq> dir"
      using le bump_version[of dir api key g1] by (cases "parse_label api key") (auto simp: g1 v split: if_splits)
    have "version_of dir ?g = (eg_epoch g, snd (version_of dir g))"
      unfolding bump_version using own by (simp add: v g1)
    then have "version_of dir ?g = version_of dir g" by (simp add: version_of_def)
    then have "\<forall>r \<in> set (rb_rules b). map_of (eg_rules g) (rule_key_in api repo name dir r) \<noteq> None" using old(5) same by simp
    moreover have "rule_key_in api repo name dir r \<noteq> key" for r
      using loc own unfolding labels_local_def rule_key_in_def by blast
    ultimately show ?thesis by (simp add: g1(5))
  qed
  then show "fst (rb_version b) \<le> eg_epoch ?g \<and> snd (rb_version b) \<le> snd (version_of dir ?g) \<and> rb_epoch b \<le> eg_listEpoch ?g \<and>
      (rb_epoch b = eg_listEpoch ?g \<longrightarrow> held (rb_file b) = rb_rules b) \<and>
      (rb_version b = version_of dir ?g \<longrightarrow>
         (\<forall>r \<in> set (rb_rules b). map_of (eg_rules ?g) (rule_key_in api repo name dir r) \<noteq> None))"
    using old mono by (auto simp: g1(4))
qed

lemma set_rule_inv:
  "registry_inv api repo name (g, held) \<Longrightarrow> labels_local api repo \<Longrightarrow> registry_inv api repo name (set_rule api h key r g, held)"
  unfolding set_rule_def store_rule_def by (rule write_inv[of api repo name g]) (auto simp: update_conv')

lemma set_resolved_rule_inv:
  "registry_inv api repo name (g, held) \<Longrightarrow> labels_local api repo \<Longrightarrow> registry_inv api repo name (set_resolved_rule api h key r g, held)"
  unfolding set_resolved_rule_def store_rule_def by (rule write_inv[of api repo name g]) (auto simp: update_conv')

lemma delete_rule_inv:
  "registry_inv api repo name (g, held) \<Longrightarrow> labels_local api repo \<Longrightarrow> registry_inv api repo name (delete_rule api h key g, held)"
  unfolding delete_rule_def by (rule write_inv[of api repo name g]) (auto simp: delete_conv')

lemma set_file_inv: "registry_inv api repo name (g, held) \<Longrightarrow> registry_inv api repo name (set_file pkg f g, held)"
  by (rule registry_inv_cong[of _ _ _ g]) (auto simp: set_file_def)

lemma store_missing_inv:
  "registry_inv api repo name (g, held) \<Longrightarrow> labels_local api repo \<Longrightarrow>
   registry_inv api repo name (store_missing api h repo name dir rs g, held)"
  unfolding store_missing_def by (induction rs arbitrary: g) (auto simp: set_rule_inv)

lemma set_rule_rules: "map_of (eg_rules (set_rule api h key r g)) = (map_of (eg_rules g))(key \<mapsto> r)"
  by (simp add: set_rule_def store_rule_def update_conv')

lemma store_missing_keeps:
  "map_of (eg_rules g) k \<noteq> None \<Longrightarrow> map_of (eg_rules (store_missing api h repo name dir rs g)) k \<noteq> None"
  unfolding store_missing_def by (induction rs arbitrary: g) (auto simp: set_rule_rules)

lemma store_missing_all:
  "r \<in> set rs \<Longrightarrow> map_of (eg_rules (store_missing api h repo name dir rs g)) (rule_key_in api repo name dir r) \<noteq> None"
proof (induction rs arbitrary: g)
  case (Cons x rs)
  let ?g = "if map_of (eg_rules g) (rule_key_in api repo name dir x) = None
      then set_rule api h (rule_key_in api repo name dir x) x g else g"
  have s: "store_missing api h repo name dir (x # rs) g = store_missing api h repo name dir rs ?g" by (simp add: store_missing_def)
  show ?case
  proof (cases "r = x")
    case True
    then have "map_of (eg_rules ?g) (rule_key_in api repo name dir r) \<noteq> None" by (simp add: set_rule_rules)
    then show ?thesis unfolding s by (rule store_missing_keeps)
  next
    case False
    then show ?thesis using Cons unfolding s by simp
  qed
qed simp

lemma store_missing_none:
  "\<forall>r \<in> set rs. map_of (eg_rules g) (rule_key_in api repo name dir r) \<noteq> None \<Longrightarrow> store_missing api h repo name dir rs g = g"
  unfolding store_missing_def by (induction rs) auto

lemma registered_rules_inv:
  assumes "registry_inv api repo name (g, held)" "registered_rules held dir f g = (known, g')"
  shows "registry_inv api repo name (g', held) \<and> eg_rules g' = eg_rules g \<and> eg_files g' = eg_files g \<and>
    (known \<longrightarrow> (\<forall>r \<in> set (held f). map_of (eg_rules g) (rule_key_in api repo name dir r) \<noteq> None))"
proof (cases known)
  case False
  then have "g' = g" using assms(2) by (auto simp: registered_rules_def split: option.splits if_splits)
  then show ?thesis using False assms(1) by simp
next
  case True
  then obtain b where b: "map_of (eg_registered g) dir = Some b" "rb_file b = f" "rb_version b = version_of dir g"
    "rb_epoch b = eg_listEpoch g \<or> rb_rules b = held f"
    and g': "g' = g\<lparr>eg_registered := AList.update dir (b\<lparr>rb_epoch := eg_listEpoch g\<rparr>) (eg_registered g)\<rparr>"
    using assms(2) by (auto simp: registered_rules_def split: option.splits if_splits)
  have h: "rb_rules b = held f" using b assms(1) by (auto simp: registry_inv_def)
  have all: "\<forall>r \<in> set (rb_rules b). map_of (eg_rules g) (rule_key_in api repo name dir r) \<noteq> None"
    using b(1,3) assms(1) by (auto simp: registry_inv_def)
  have "registry_inv api repo name (g', held)"
    using assms(1) b h unfolding g' registry_inv_def by (auto simp: update_conv' version_of_def)
  then show ?thesis using all h by (simp add: g')
qed

lemma record_registered_inv:
  assumes "registry_inv api repo name (g, held)"
    and "\<forall>r \<in> set (held f). map_of (eg_rules g) (rule_key_in api repo name dir r) \<noteq> None"
  shows "registry_inv api repo name (record_registered held dir f g, held)"
  using assms unfolding registry_inv_def record_registered_def by (auto simp: update_conv' version_of_def)

lemma observe_file_inv:
  assumes "registry_inv api repo name (g, held)" "labels_local api repo"
  shows "registry_inv api repo name (observe_file api h repo name held dir f g, held)"
proof -
  obtain known g1 where k: "registered_rules held dir f (set_file dir f g) = (known, g1)" by fastforce
  have i: "registry_inv api repo name (g1, held)" using registered_rules_inv[OF set_file_inv[OF assms(1)] k] by simp
  have "registry_inv api repo name (record_registered held dir f (store_missing api h repo name dir (held f) g1), held)"
    by (rule record_registered_inv[OF store_missing_inv[OF i assms(2)]]) (simp add: store_missing_all)
  then show ?thesis using i by (simp add: observe_file_def k)
qed

lemma record_build_inv:
  assumes "registry_inv api repo name (g, held)" "labels_local api repo"
  shows "registry_inv api repo name (record_build api h repo name held pkg bf g, held)"
proof (cases bf)
  case (Some f)
  have "registry_inv api repo name (fold (\<lambda>r. set_rule api h (rule_key_in api repo name pkg r) r) rs g', held)"
    if "registry_inv api repo name (g', held)" for rs g'
    using that by (induction rs arbitrary: g') (auto simp: set_rule_inv assms(2))
  then show ?thesis using set_file_inv[OF assms(1)] by (simp add: record_build_def Some)
qed (use assms in \<open>simp add: record_build_def\<close>)

lemma edit_inv: "registry_inv api repo name (g, held) \<Longrightarrow> registry_inv api repo name (rule_lists_may_change g, held(f := rs))"
  unfolding registry_inv_def rule_lists_may_change_def by (fastforce simp: version_of_def)

lemma touch_inv: "registry_inv api repo name (g, held) \<Longrightarrow> registry_inv api repo name (touch pkg g, held)"
  by (rule registry_inv_cong[of _ _ _ g]) (auto simp: touch_def)

lemma reachable_inv: "reachable_run api repo name s \<Longrightarrow> labels_local api repo \<Longrightarrow> registry_inv api repo name s"
proof (induction rule: reachable_run.induct)
  case (Start held)
  then show ?case by (simp add: registry_inv_def empty_graph_def)
next
  case (Step s h x)
  obtain g held where s: "s = (g, held)" by (cases s)
  have i: "registry_inv api repo name (g, held)" using Step s by simp
  note l = Step.prems
  show ?case unfolding s
    by (cases x) (simp_all add: touch_inv[OF i] edit_inv[OF i] set_rule_inv[OF i l] set_resolved_rule_inv[OF i l]
        delete_rule_inv[OF i l] set_file_inv[OF i] observe_file_inv[OF i l] record_build_inv[OF i l])
qed

section \<open>Property\<close>

text \<open>C18.  In every state a run reaches, observing a BUILD file with the memo of registered files
  stores exactly what observing it without the memo stores.\<close>

theorem observe_file_refines:
  assumes "reachable_run api repo name (g, held)" "labels_local api repo"
  shows "store_view (observe_file api h repo name held dir f g) = store_view (observe_plainly api h repo name held dir f g)"
proof -
  have i: "registry_inv api repo name (set_file dir f g, held)"
    by (rule set_file_inv[OF reachable_inv[OF assms]])
  obtain known g1 where k: "registered_rules held dir f (set_file dir f g) = (known, g1)" by fastforce
  note r = registered_rules_inv[OF i k]
  show ?thesis
  proof (cases known)
    case True
    then have "store_missing api h repo name dir (held f) (set_file dir f g) = set_file dir f g"
      using r by (intro store_missing_none) simp
    then show ?thesis using r True by (simp add: observe_file_def observe_plainly_def k store_view_def)
  next
    case False
    then have "g1 = set_file dir f g" using k by (auto simp: registered_rules_def split: option.splits if_splits)
    then show ?thesis using False by (simp add: observe_file_def observe_plainly_def k store_view_def record_registered_def)
  qed
qed

text \<open>Labels of one repository: a package and a name without a colon.\<close>

definition plain_labels :: label_api where
  "plain_labels =
     \<lparr>la_parse = (\<lambda>s. map_option (\<lambda>i. \<lparr>lb_repo = [], lb_pkg = take i s, lb_name = drop (i + 1) s, lb_relative = False, lb_canonical = False\<rparr>)
        (str_last_index s '':'')),
      la_string = (\<lambda>l. lb_pkg l @ '':'' @ lb_name l),
      la_abs = (\<lambda>l repo pkg. l\<lparr>lb_repo := repo, lb_pkg := pkg\<rparr>), la_rel = (\<lambda>l repo pkg. l)\<rparr>"

lemma plain_labels_local: "labels_local plain_labels repo"
  unfolding labels_local_def
proof (intro allI impI)
  fix dir n own
  assume own: "parse_label plain_labels (emission_label plain_labels repo dir ('':'' @ n)) = Some own"
  obtain i where i: "str_last_index ('':'' @ n) '':'' = Some i"
    using str_last_index_None[of "'':'' @ n" "'':''"] by (cases "str_last_index ('':'' @ n) '':''") auto
  let ?name = "drop (i + 1) ('':'' @ n)"
  have n: "CHR '':'' \<notin> set ?name" using i by (rule str_last_index_rest)
  have "emission_label plain_labels repo dir ('':'' @ n) = dir @ '':'' @ ?name"
    using i by (simp add: emission_label_def resolve_emission_label_def parse_label_def plain_labels_def label_identity_def Let_def)
  moreover have "str_last_index (dir @ '':'' @ ?name) '':'' = Some (length dir)" using str_last_index_append[OF n] by simp
  ultimately show "lb_pkg own = dir" using own by (auto simp: parse_label_def plain_labels_def)
qed

definition demo_rule :: build_rule where
  "demo_rule = \<lparr>ru_kind = ''ts_compile'', ru_name = ''a'', ru_attr = (\<lambda>_. None), ru_string = (\<lambda>_. []), ru_strings = (\<lambda>_. []),
     ru_comments = (\<lambda>_. None), ru_keep = False\<rparr>"

definition demo_held :: "nat \<Rightarrow> nat list" where
  "demo_held f = [f, f + 1]"

definition demo_name :: "nat \<Rightarrow> string" where
  "demo_name r = (if r = 0 then ''a'' else ''b'')"

definition demo_run :: "(nat, nat) run_state" where
  "demo_run = do_op plain_labels (\<lambda>_. demo_rule) [] demo_name (Observe ''p'' 0) (empty_graph, demo_held)"

theorem observe_file_refines_witness:
  "store_view (observe_file plain_labels (\<lambda>_. demo_rule) [] demo_name demo_held ''p'' 0 (fst demo_run)) =
     store_view (observe_plainly plain_labels (\<lambda>_. demo_rule) [] demo_name demo_held ''p'' 0 (fst demo_run)) \<and>
   fst (registered_rules demo_held ''p'' 0 (fst demo_run)) \<and> map fst (eg_rules (fst demo_run)) = [''p:a'', ''p:b'']"
proof -
  have "reachable_run plain_labels [] demo_name demo_run" unfolding demo_run_def by (intro reachable_run.intros)
  moreover have "demo_run = (fst demo_run, demo_held)" by (simp add: demo_run_def)
  ultimately have r: "reachable_run plain_labels [] demo_name (fst demo_run, demo_held)" by simp
  have "fst (registered_rules demo_held ''p'' 0 (fst demo_run)) \<and> map fst (eg_rules (fst demo_run)) = [''p:a'', ''p:b'']"
    by code_simp
  then show ?thesis using observe_file_refines[OF r plain_labels_local] by simp
qed

end
