(* ===== verification/Emission.thy ===== *)
theory Emission imports Keep NpmLabels EmissionStore begin

text \<open>
  Which rules publish JavaScript, \<open>gazelle/emission.go\<close>: the canonical kind of a rule, aliases, the
  runtime dependencies a rule declares and the walk of \<open>AfterResolvingDeps\<close> that turns emission on
  for everything a runtime consumer needs.  The walk's recursion is the list of the calls still to
  make; a fatal log line is an error of the result.  What a rule's sources project to
  (\<open>declaredSourceImports\<close> of resolve.go) is a parameter, as is Gazelle's \<open>SetAttr\<close>.
\<close>

section \<open>Canonical kinds\<close>

text \<open>The aliases and the mapped kinds of a package's configuration.\<close>

record build_config =
  bc_aliases :: "(string \<times> string) list"
  bc_kinds :: "(string \<times> string) list"

function kind_chain :: "(string \<times> string) list \<Rightarrow> string list \<Rightarrow> string \<Rightarrow> string \<Rightarrow> bool" where
  \<comment> \<open>whether the chain of mapped kinds from the last argument reaches a kind\<close>
  "kind_chain km seen target k =
     (if k \<in> set seen then False
      else case map_of km k of
        None \<Rightarrow> False
      | Some k' \<Rightarrow> k' = target \<or> kind_chain km (k # seen) target k')"
  by pat_completeness auto
termination
proof (relation "measure (\<lambda>(km, seen, target, k). card (fst ` set km - set seen))", simp)
  fix km :: "(string \<times> string) list" and seen target k k'
  assume k: "k \<notin> set seen" "map_of km k = Some k'"
  then have "k \<in> fst ` set km - set seen" by (force dest: map_of_SomeD)
  then have "fst ` set km - set (k # seen) \<subset> fst ` set km - set seen" by auto
  then show "((km, k # seen, target, k'), km, seen, target, k) \<in> measure (\<lambda>(km, seen, target, k). card (fst ` set km - set seen))"
    by (simp add: psubset_card_mono)
qed

declare kind_chain.simps [simp del]

definition canonical_rule :: "build_config \<Rightarrow> build_rule \<Rightarrow> build_rule" where
  "canonical_rule c r0 =
     (let r = (case map_of (bc_aliases c) (ru_kind r0) of None \<Rightarrow> r0 | Some wrapped \<Rightarrow> r0\<lparr>ru_kind := wrapped\<rparr>) in
      if bc_kinds c = [] \<or> map_of kinds (ru_kind r) \<noteq> None then r
      else case find (\<lambda>original. kind_chain (bc_kinds c) [] (ru_kind r) original) (sort_strings (map fst kinds)) of
        None \<Rightarrow> r
      | Some original \<Rightarrow> r\<lparr>ru_kind := original\<rparr>)"

section \<open>Stored rules\<close>

record emission_env =
  ee_api :: label_api
  ee_repo :: string
  ee_config :: "string \<Rightarrow> build_config"
  ee_generated :: "string list"  \<comment> \<open>the packages whose rules Gazelle generates\<close>
  ee_lock :: "npm_lock option"
  ee_apparent :: string  \<comment> \<open>the name rules_typescript has here, empty when unknown\<close>
  ee_canonicalRepo :: string  \<comment> \<open>\<open>runfiles.CurrentRepository\<close>\<close>
  ee_set_emit :: "build_rule \<Rightarrow> build_rule"  \<comment> \<open>\<open>SetAttr("emit", true)\<close>\<close>
  ee_declared :: "string \<Rightarrow> build_rule \<Rightarrow> string list \<times> bool"  \<comment> \<open>the imports of a rule's sources, and whether they are all\<close>

type_synonym stored = "(string \<times> build_rule) list"

definition semantic_rule :: "emission_env \<Rightarrow> stored \<Rightarrow> string \<Rightarrow> build_rule option" where
  "semantic_rule env rules key =
     (case map_of rules key of
        None \<Rightarrow> None
      | Some r \<Rightarrow>
          (case parse_label (ee_api env) key of
             None \<Rightarrow> Some r
           | Some own \<Rightarrow> Some (canonical_rule (ee_config env (lb_pkg own)) r)))"

definition is_alias :: "build_rule option \<Rightarrow> bool" where
  "is_alias r \<longleftrightarrow> (case r of None \<Rightarrow> False | Some r \<Rightarrow> ru_kind r = ''alias'')"

text \<open>The loop over aliases.\<close>

function alias_loop :: "emission_env \<Rightarrow> stored \<Rightarrow> string list \<Rightarrow> string \<Rightarrow> string \<times> build_rule option" where
  "alias_loop env rules seen key =
     (if key = [] \<or> key \<in> set seen then ([], None)
      else case semantic_rule env rules key of
        None \<Rightarrow> (key, None)
      | Some r \<Rightarrow>
          if ru_kind r \<noteq> ''alias'' then (key, Some r)
          else case parse_label (ee_api env) key of
            None \<Rightarrow> ([], None)
          | Some own \<Rightarrow>
              alias_loop env rules (key # seen) (emission_label (ee_api env) (ee_repo env) (lb_pkg own) (ru_string r ''actual'')))"
  by pat_completeness auto
termination
proof (relation "measure (\<lambda>(env, rules, seen, key). card (fst ` set rules - set seen))", simp)
  fix env rules seen key r own
  assume k: "\<not> (key = [] \<or> key \<in> set seen)" "semantic_rule env rules key = Some r"
  then have "key \<in> fst ` set rules - set seen"
    by (force simp: semantic_rule_def split: option.splits dest: map_of_SomeD)
  then have "fst ` set rules - set (key # seen) \<subset> fst ` set rules - set seen" by auto
  then show "((env, rules, key # seen, emission_label (ee_api env) (ee_repo env) (lb_pkg own) (ru_string r ''actual'')), env, rules, seen, key)
      \<in> measure (\<lambda>(env, rules, seen, key). card (fst ` set rules - set seen))"
    by (simp add: psubset_card_mono)
qed

declare alias_loop.simps [simp del]

definition rule_target :: "emission_env \<Rightarrow> stored \<Rightarrow> string \<Rightarrow> string \<times> build_rule option" where
  "rule_target env rules key =
     (if key = [] then ([], None)
      else if \<not> is_alias (semantic_rule env rules key) then (key, semantic_rule env rules key)
      else alias_loop env rules [] key)"

definition runtime_consumer_target :: "emission_env \<Rightarrow> stored \<Rightarrow> string \<Rightarrow> string" where
  "runtime_consumer_target env rules key =
     (case (semantic_rule env rules key, parse_label (ee_api env) key) of
        (Some r, Some own) \<Rightarrow>
          if ru_keep r then []
          else if ru_kind r = ''ts_binary'' then key
          else if ru_kind r = ''ts_test'' then
            (let lbl = emission_label (ee_api env) (ee_repo env);
                 runner = fst (rule_target env rules (lbl (lb_pkg own) (ru_string r ''runner'')));
                 rulesRepo = (if ee_apparent env \<noteq> [] then ee_apparent env else ''rules_typescript'');
                 canonicalRepo = ee_canonicalRepo env
             in if runner = lbl [] (''@'' @ rulesRepo @ ''//ts/runners:node_test'') \<or>
                   ee_repo env = ''rules_typescript'' \<and> runner = ''//ts/runners:node_test'' \<or>
                   canonicalRepo \<noteq> [] \<and> canonicalRepo \<noteq> ''_main'' \<and> runner = ''@@'' @ canonicalRepo @ ''//ts/runners:node_test''
                then key else [])
          else []
      | _ \<Rightarrow> [])"

datatype emission_mode = UnknownEmission | OpaqueEmission | SourceEmission | EmittedEmission

definition rule_emission :: "build_rule \<Rightarrow> emission_mode" where
  "rule_emission r =
     (case ru_attr r ''emit'' of
        None \<Rightarrow> SourceEmission
      | Some (IdentExpr n) \<Rightarrow>
          if n = ''False'' then SourceEmission else if n = ''True'' then EmittedEmission else UnknownEmission
      | Some _ \<Rightarrow> UnknownEmission)"

definition runtime_labels :: "build_rule \<Rightarrow> string \<Rightarrow> bool \<Rightarrow> string list \<times> string" where
  "runtime_labels r attr repeated =
     (case ru_attr r attr of
        None \<Rightarrow> ([], [])
      | Some e \<Rightarrow>
          (case (if repeated then (case e of ListExpr es \<Rightarrow> Some es | _ \<Rightarrow> None) else Some [e]) of
             None \<Rightarrow> ([], attr)
           | Some items \<Rightarrow> (string_values items, if list_all is_string_expr items then [] else attr)))"

definition runtime_attributes :: "string \<Rightarrow> string list" where
  "runtime_attributes k =
     (if k \<in> set [''ts_compile'', ''ts_test'', ''ts_proto_library'', ''ts_npm_package'', ''node_modules''] then [''deps'']
      else if k = ''node_modules_member'' then [''member'']
      else if k = ''npm_workspace_package'' then [''target'']
      else if k = ''alias'' then [''actual'']
      else if k = ''ts_binary'' then [''entry_point'']
      else [])"

fun runtime_deps_of :: "build_rule \<Rightarrow> string list \<Rightarrow> string list \<Rightarrow> string list \<times> string" where
  "runtime_deps_of r [] deps = (deps, [])"
| "runtime_deps_of r (attr # attrs) deps =
     (let (labels, incomplete) = runtime_labels r attr (attr = ''deps'') in
      if incomplete \<noteq> [] then (deps @ labels, incomplete) else runtime_deps_of r attrs (deps @ labels))"

definition runtime_dependencies :: "build_rule \<Rightarrow> string list \<times> string" where
  "runtime_dependencies r = runtime_deps_of r (runtime_attributes (ru_kind r)) []"

definition packageName :: "string \<Rightarrow> string" where
  "packageName rel = (if rel = [] then ''root'' else path_base rel)"

text \<open>The labels of the members, the first name by order winning.\<close>

definition member_labels :: "npm_lock \<Rightarrow> (string \<times> string) list" where
  "member_labels l =
     map (\<lambda>name. (''@npm//:'' @ npmPackageToLabelName name, the (map_of (nl_members l) name)))
       (sort_strings (remdups (map fst (nl_members l))))"

definition member_compiler_target :: "emission_env \<Rightarrow> string \<Rightarrow> string" where
  "member_compiler_target env key =
     (case ee_lock env of
        None \<Rightarrow> []
      | Some l \<Rightarrow>
          if \<not> has_prefix key ''@npm//:'' then []
          else case map_of (member_labels l) key of
            None \<Rightarrow> []
          | Some dir \<Rightarrow> emission_label (ee_api env) (ee_repo env) dir ('':'' @ packageName dir))"

section \<open>The runtime closure\<close>

datatype emission_error =
    IncompleteSources string string
  | RawTypeScript string string string
  | ProtoSource string string
  | IncompleteDeps string string string

text \<open>What a call has marked: a key is visited, and whether for a consumer.\<close>

type_synonym marks = "(string \<times> bool) list"

definition marked :: "marks \<Rightarrow> string \<Rightarrow> bool \<Rightarrow> bool" where
  "marked seen key required \<longleftrightarrow> (case map_of seen key of None \<Rightarrow> False | Some q \<Rightarrow> q \<or> \<not> required)"

definition compiler_kind :: "string \<Rightarrow> bool" where
  "compiler_kind k \<longleftrightarrow> k = ''ts_compile'' \<or> k = ''ts_test''"

definition publishes :: "emission_env \<Rightarrow> build_rule \<Rightarrow> string \<Rightarrow> bool" where
  "publishes env r pkg \<longleftrightarrow> pkg \<in> set (ee_generated env) \<and> \<not> ru_keep r"

text \<open>The checks of a visited rule for its consumer, empty for none.\<close>

definition source_error :: "emission_env \<Rightarrow> string \<Rightarrow> string \<Rightarrow> string \<Rightarrow> build_rule \<Rightarrow> emission_error option" where
  "source_error env consumer key pkg r =
     (if consumer = [] \<or> rule_emission r = EmittedEmission then None
      else let (imports, complete) = ee_declared env pkg r in
        if \<not> complete then Some (IncompleteSources consumer key)
        else map_option (RawTypeScript consumer key) (find raw_typescript imports))"

text \<open>The rule \<open>key\<close> visited for \<open>consumer\<close>: the consumer its dependencies have, and the rule's new
  value.\<close>

definition visit_rule ::
    "emission_env \<Rightarrow> string \<Rightarrow> string \<Rightarrow> string \<Rightarrow> build_rule \<Rightarrow> emission_error + string \<times> build_rule" where
  "visit_rule env consumer0 key pkg r =
     (let cfg = ee_config env pkg; k = ru_kind (canonical_rule cfg r) in
      if compiler_kind k then
        (let consumer = (if consumer0 = [] \<and> publishes env r pkg then key else consumer0);
             r' = (if publishes env r pkg \<and> \<not> attr_kept r ''emit'' then ee_set_emit env r else r)
         in case source_error env consumer key pkg (canonical_rule cfg r') of
              Some e \<Rightarrow> Inl e
            | None \<Rightarrow> Inr (consumer, r'))
      else if k = ''ts_proto_library'' \<and> consumer0 \<noteq> [] then Inl (ProtoSource consumer0 key)
      else Inr (consumer0, r))"

text \<open>How much a walk can still mark: two steps for each key that has calls of its own.\<close>

definition mark_rank :: "marks \<Rightarrow> string \<Rightarrow> nat" where
  "mark_rank seen key = (case map_of seen key of None \<Rightarrow> 2 | Some q \<Rightarrow> if q then 0 else 1)"

definition walk_keys :: "emission_env \<Rightarrow> stored \<Rightarrow> string set" where
  "walk_keys env rules =
     fst ` set rules \<union> (case ee_lock env of None \<Rightarrow> {} | Some l \<Rightarrow> fst ` set (member_labels l))"

definition walk_left :: "emission_env \<Rightarrow> stored \<Rightarrow> marks \<Rightarrow> nat" where
  "walk_left env rules seen = (\<Sum>k \<in> walk_keys env rules. mark_rank seen k)"

lemma finite_walk_keys [simp]: "finite (walk_keys env rules)"
  by (simp add: walk_keys_def split: option.split)

definition mark :: "string \<Rightarrow> bool \<Rightarrow> marks \<Rightarrow> marks" where
  "mark key required seen = AList.update key required seen"

lemma mark_rank_mark: "mark_rank (mark key q seen) k = (if k = key then if q then 0 else 1 else mark_rank seen k)"
  by (simp add: mark_rank_def mark_def update_conv')

lemma walk_left_mark:
  assumes "\<not> marked seen key q"
  shows "walk_left env rules (mark key q seen) \<le> walk_left env rules seen"
    and "key \<in> walk_keys env rules \<Longrightarrow> walk_left env rules (mark key q seen) < walk_left env rules seen"
proof -
  have le: "mark_rank (mark key q seen) k \<le> mark_rank seen k" for k
    unfolding mark_rank_mark using assms by (auto simp: marked_def mark_rank_def split: option.splits if_splits)
  show "walk_left env rules (mark key q seen) \<le> walk_left env rules seen"
    unfolding walk_left_def by (intro sum_mono le)
  assume k: "key \<in> walk_keys env rules"
  have "mark_rank (mark key q seen) key < mark_rank seen key"
    unfolding mark_rank_mark using assms by (auto simp: marked_def mark_rank_def split: option.splits if_splits)
  then show "walk_left env rules (mark key q seen) < walk_left env rules seen"
    unfolding walk_left_def using k le by (intro sum_strict_mono_ex1) auto
qed

lemma walk_left_true: "walk_left env rules (mark key True seen) \<le> walk_left env rules seen"
  unfolding walk_left_def by (intro sum_mono) (auto simp: mark_rank_mark)

lemma walk_keys_update: "key \<in> fst ` set rules \<Longrightarrow> walk_keys env (AList.update key r rules) = walk_keys env rules"
  by (auto simp: walk_keys_def dom_map_of_conv_image_fst[symmetric] update_conv' split: option.splits)

lemma member_key: "member_compiler_target env key \<noteq> [] \<Longrightarrow> key \<in> walk_keys env rules"
  by (force simp: member_compiler_target_def walk_keys_def split: option.splits if_splits dest: map_of_SomeD)

function walk :: "emission_env \<Rightarrow> (string \<times> string) list \<Rightarrow> stored \<Rightarrow> marks \<Rightarrow> emission_error + stored \<times> marks" where
  "walk env [] rules seen = Inr (rules, seen)"
| "walk env ((key, consumer) # ps) rules seen =
     (if key = [] \<or> marked seen key (consumer \<noteq> []) then walk env ps rules seen
      else
        let seen1 = mark key (consumer \<noteq> []) seen; member = member_compiler_target env key in
        if member \<noteq> [] then walk env ((member, consumer) # ps) rules seen1
        else case map_of rules key of
          None \<Rightarrow> walk env ps rules seen1
        | Some r \<Rightarrow>
            (case parse_label (ee_api env) key of
               None \<Rightarrow> walk env ps rules seen1
             | Some own \<Rightarrow>
                 (case visit_rule env consumer key (lb_pkg own) r of
                    Inl e \<Rightarrow> Inl e
                  | Inr x \<Rightarrow>
                      (let consumer' = fst x; r' = snd x;
                           deps = runtime_dependencies (canonical_rule (ee_config env (lb_pkg own)) r') in
                       if consumer' \<noteq> [] \<and> snd deps \<noteq> [] then Inl (IncompleteDeps consumer' key (snd deps))
                       else walk env (map (\<lambda>d. (emission_label (ee_api env) (ee_repo env) (lb_pkg own) d, consumer')) (fst deps) @ ps)
                              (AList.update key r' rules) (if consumer' \<noteq> [] then mark key True seen1 else seen1)))))"
  by pat_completeness auto
termination
proof (relation "measures [\<lambda>(env, ps, rules, seen). walk_left env rules seen, \<lambda>(env, ps, rules, seen). length ps]", goal_cases)
  case (3 env key consumer ps rules seen seen1 member)
  then show ?case using walk_left_mark(2)[where seen = seen and key = key and q = "consumer \<noteq> []"] member_key[of env key rules] by simp
next
  case (4 env key consumer ps rules seen seen1 member)
  then show ?case using walk_left_mark(1)[where seen = seen and key = key and q = "consumer \<noteq> []" and env = env and rules = rules] by auto
next
  case (5 env key consumer ps rules seen seen1 member r)
  then show ?case using walk_left_mark(1)[where seen = seen and key = key and q = "consumer \<noteq> []" and env = env and rules = rules] by auto
next
  case (6 env key consumer ps rules seen seen1 member r own x consumer' r' deps)
  have k: "key \<in> fst ` set rules" using 6(5) by (force dest: map_of_SomeD)
  have "walk_left env rules seen1 < walk_left env rules seen"
    using 6(1,2) k by (simp add: walk_left_mark(2) walk_keys_def)
  moreover have "walk_left env rules (mark key True seen1) \<le> walk_left env rules seen1"
    by (rule walk_left_true)
  moreover have "walk_left env (AList.update key r' rules) m = walk_left env rules m" for m
    by (simp add: walk_left_def walk_keys_update k)
  ultimately show ?case by simp
qed auto

text \<open>The runtime consumers, in an order of Go's choice, and then the rooted owners.\<close>

definition start_consumer :: "emission_env \<Rightarrow> stored \<Rightarrow> string \<Rightarrow> string" where
  "start_consumer env rules key =
     (case (parse_label (ee_api env) key, map_of rules key) of
        (Some own, Some r) \<Rightarrow> if publishes env r (lb_pkg own) then key else []
      | _ \<Rightarrow> [])"

fun visit_consumers :: "emission_env \<Rightarrow> string list \<Rightarrow> stored \<Rightarrow> marks \<Rightarrow> emission_error + stored \<times> marks" where
  "visit_consumers env [] rules seen = Inr (rules, seen)"
| "visit_consumers env (key # keys) rules seen =
     (let target = runtime_consumer_target env rules key in
      if target = [] then visit_consumers env keys rules seen
      else case walk env [(target, start_consumer env rules key)] rules seen of
        Inl e \<Rightarrow> Inl e
      | Inr (rules', seen') \<Rightarrow> visit_consumers env keys rules' seen')"

definition publish_closure :: "emission_env \<Rightarrow> string list \<Rightarrow> string list \<Rightarrow> stored \<Rightarrow> emission_error + stored \<times> marks" where
  "publish_closure env keys roots rules =
     (case visit_consumers env keys rules [] of
        Inl e \<Rightarrow> Inl e
      | Inr (rules', seen) \<Rightarrow> walk env (map (\<lambda>root. (root, [])) roots) rules' seen)"

section \<open>Package outputs\<close>

definition source_outputs :: "string \<Rightarrow> string list" where
  "source_outputs ext =
     (if ext = ''.ts'' then [''.js'', ''.d.ts'']
      else if ext = ''.tsx'' then [''.js'', ''.jsx'', ''.d.ts'']
      else if ext = ''.mts'' then [''.mjs'', ''.d.mts'']
      else if ext = ''.cts'' then [''.cjs'', ''.d.cts'']
      else if ext = ''.js'' then [''.d.ts'']
      else if ext = ''.mjs'' then [''.d.mts'']
      else if ext = ''.cjs'' then [''.d.cts'']
      else [])"

text \<open>The owner of each file a package's sources emit.\<close>

definition output_owners :: "emission_env \<Rightarrow> store \<Rightarrow> (string \<times> string) list" where
  "output_owners env s =
     concat (map (\<lambda>pkg.
       concat (map (\<lambda>source.
         if is_declaration_file source \<or> owner s source \<noteq> Owned pkg then []
         else map (\<lambda>suf. (trim_suffix source (path_ext source) @ suf,
                emission_label (ee_api env) (ee_repo env) pkg ('':'' @ packageName pkg)))
           (source_outputs (path_ext source)))
         (case st_packages s pkg of None \<Rightarrow> [] | Some files \<Rightarrow> files)))
       (st_packageDirs s))"

definition count_stars :: "string \<Rightarrow> nat" where
  "count_stars pat = length (filter (\<lambda>c. c = CHR ''*'') pat)"

definition matches_export_output :: "string \<Rightarrow> string \<Rightarrow> bool" where
  "matches_export_output pat file =
     (let stars = count_stars pat; fixed = length pat - stars in
      if stars = 0 then pat = file
      else if length file < fixed \<or> (length file - fixed) mod stars \<noteq> 0 then False
      else let start = length (takeWhile (\<lambda>c. c \<noteq> CHR ''*'') pat);
               capture = take ((length file - fixed) div stars) (drop start file)
           in replace_all pat ''*'' capture = file)"

text \<open>The owners an exported output roots.\<close>

definition output_roots :: "(string \<times> string) list \<Rightarrow> string \<Rightarrow> string list" where
  "output_roots owners output =
     (case map_of owners output of None \<Rightarrow> [] | Some root \<Rightarrow> if root = [] then [] else [root]) @
     (if contains_str output ''*'' then map snd (filter (\<lambda>(file, _). matches_export_output output file) owners) else [])"

section \<open>Visibility of a package scope\<close>

fun grants_deny :: "label_api \<Rightarrow> label \<Rightarrow> label \<Rightarrow> string list \<Rightarrow> bool" where
  "grants_deny api own consumer [] = True"
| "grants_deny api own consumer (g # gs) =
     (case parse_label api g of
        None \<Rightarrow> False
      | Some grant0 \<Rightarrow>
          let grant = label_identity api grant0 (lb_repo own) (lb_pkg own);
              here = lb_repo grant = lb_repo consumer \<and> lb_canonical grant = lb_canonical consumer in
          if lb_pkg grant = ''visibility'' \<and> lb_name grant = ''public'' then False
          else if lb_pkg grant = ''visibility'' \<and> lb_name grant = ''private'' then grants_deny api own consumer gs
          else if lb_name grant = ''__pkg__'' then
            (if here \<and> lb_pkg grant = lb_pkg consumer then False else grants_deny api own consumer gs)
          else if lb_name grant = ''__subpackages__'' then
            (if here \<and> (lb_pkg consumer = lb_pkg grant \<or> lb_pkg grant = [] \<or> has_prefix (lb_pkg consumer) (lb_pkg grant @ ''/''))
             then False else grants_deny api own consumer gs)
          else False)"

definition scope_visibility_denies :: "label_api \<Rightarrow> string list \<Rightarrow> label \<Rightarrow> label \<Rightarrow> bool" where
  "scope_visibility_denies api visibility own consumer0 =
     (let consumer = label_identity api consumer0 (lb_repo own) (lb_pkg own) in
      if lb_repo own = lb_repo consumer \<and> lb_canonical own = lb_canonical consumer \<and> lb_pkg own = lb_pkg consumer then False
      else grants_deny api own consumer visibility)"

section \<open>Turning emission on changes nothing else\<close>

definition same_but_emit :: "build_rule \<Rightarrow> build_rule \<Rightarrow> bool" where
  "same_but_emit r r' \<longleftrightarrow>
     ru_kind r' = ru_kind r \<and> ru_name r' = ru_name r \<and> ru_keep r' = ru_keep r \<and> ru_comments r' = ru_comments r \<and>
     (\<forall>k. k \<noteq> ''emit'' \<longrightarrow> ru_attr r' k = ru_attr r k \<and> ru_string r' k = ru_string r k \<and> ru_strings r' k = ru_strings r k)"

text \<open>The documented behaviour of \<open>SetAttr("emit", true)\<close>.\<close>

definition sets_emit :: "emission_env \<Rightarrow> bool" where
  "sets_emit env \<longleftrightarrow> (\<forall>r. same_but_emit r (ee_set_emit env r) \<and> ru_attr (ee_set_emit env r) ''emit'' = Some (IdentExpr ''True''))"

lemma same_but_emit_refl [simp]: "same_but_emit r r"
  by (simp add: same_but_emit_def)

lemma same_but_emit_trans: "same_but_emit a b \<Longrightarrow> same_but_emit b c \<Longrightarrow> same_but_emit a c"
  by (simp add: same_but_emit_def)

lemma canonical_rule_kind_only:
  "\<exists>k. \<forall>r. ru_kind r = k0 \<longrightarrow> canonical_rule c r = r\<lparr>ru_kind := k\<rparr>"
proof -
  let ?k1 = "case map_of (bc_aliases c) k0 of None \<Rightarrow> k0 | Some w \<Rightarrow> w"
  let ?k2 = "if bc_kinds c = [] \<or> map_of kinds ?k1 \<noteq> None then ?k1
      else case find (\<lambda>original. kind_chain (bc_kinds c) [] ?k1 original) (sort_strings (map fst kinds)) of
        None \<Rightarrow> ?k1 | Some original \<Rightarrow> original"
  have u: "r = r\<lparr>ru_kind := k0\<rparr>" if "ru_kind r = k0" for r :: build_rule using that by simp
  have "canonical_rule c r = r\<lparr>ru_kind := ?k2\<rparr>" if r: "ru_kind r = k0" for r
    using u[OF r] r unfolding canonical_rule_def Let_def
    by (cases "map_of (bc_aliases c) k0";
        cases "find (\<lambda>original. kind_chain (bc_kinds c) [] ?k1 original) (sort_strings (map fst kinds))") auto
  then show ?thesis by blast
qed

lemma canonical_like:
  assumes "same_but_emit r r'"
  shows "same_but_emit (canonical_rule c r) (canonical_rule c r')" "ru_attr (canonical_rule c r') = ru_attr r'"
proof -
  obtain k where "\<forall>x. ru_kind x = ru_kind r \<longrightarrow> canonical_rule c x = x\<lparr>ru_kind := k\<rparr>"
    using canonical_rule_kind_only[of "ru_kind r" c] by blast
  moreover have "ru_kind r' = ru_kind r" using assms by (simp add: same_but_emit_def)
  ultimately have c: "canonical_rule c r = r\<lparr>ru_kind := k\<rparr>" "canonical_rule c r' = r'\<lparr>ru_kind := k\<rparr>" by simp_all
  show "same_but_emit (canonical_rule c r) (canonical_rule c r')" unfolding c using assms by (simp add: same_but_emit_def)
  show "ru_attr (canonical_rule c r') = ru_attr r'" unfolding c by simp
qed

lemma runtime_attributes_not_emit: "''emit'' \<notin> set (runtime_attributes k)"
  by (simp add: runtime_attributes_def)

lemma runtime_deps_like:
  assumes "same_but_emit r r'"
  shows "runtime_dependencies r' = runtime_dependencies r"
proof -
  have l: "runtime_labels r' attr rep = runtime_labels r attr rep" if "attr \<noteq> ''emit''" for attr rep
    using assms that by (simp add: runtime_labels_def same_but_emit_def)
  have "''emit'' \<notin> set attrs \<Longrightarrow> runtime_deps_of r' attrs ds = runtime_deps_of r attrs ds" for attrs ds
    by (induction attrs arbitrary: ds) (auto simp: l split: prod.splits)
  moreover have "ru_kind r' = ru_kind r" using assms by (simp add: same_but_emit_def)
  ultimately show ?thesis using runtime_attributes_not_emit by (simp add: runtime_dependencies_def)
qed

lemma publishes_like: "same_but_emit r r' \<Longrightarrow> publishes env r' pkg = publishes env r pkg"
  by (simp add: publishes_def same_but_emit_def)

lemma attr_kept_like: "same_but_emit r r' \<Longrightarrow> attr_kept r' k = attr_kept r k"
  by (simp add: attr_kept_def same_but_emit_def)

lemma emitted_after_set:
  assumes "sets_emit env"
  shows "rule_emission (canonical_rule c (ee_set_emit env r)) = EmittedEmission"
proof -
  have "ru_attr (canonical_rule c (ee_set_emit env r)) ''emit'' = Some (IdentExpr ''True'')"
    using assms canonical_like(2)[of r "ee_set_emit env r" c] by (simp add: sets_emit_def)
  then show ?thesis by (simp add: rule_emission_def)
qed

text \<open>Stored rules that differ in \<open>emit\<close> only.\<close>

definition rules_like :: "stored \<Rightarrow> stored \<Rightarrow> bool" where
  "rules_like rules rules' \<longleftrightarrow> (\<forall>k. rel_option same_but_emit (map_of rules k) (map_of rules' k))"

lemma rules_like_refl [simp]: "rules_like rules rules"
  by (simp add: rules_like_def option.rel_refl)

lemma rules_like_trans: "rules_like a b \<Longrightarrow> rules_like b c \<Longrightarrow> rules_like a c"
  unfolding rules_like_def by (metis (no_types, lifting) option.rel_sel same_but_emit_trans)

lemma rules_like_update:
  "map_of rules key = Some r \<Longrightarrow> same_but_emit r r' \<Longrightarrow> rules_like rules (AList.update key r' rules)"
  by (auto simp: rules_like_def update_conv' option.rel_refl)

lemma semantic_like:
  assumes "rules_like rules rules'"
  shows "rel_option same_but_emit (semantic_rule env rules key) (semantic_rule env rules' key)"
proof -
  have "rel_option same_but_emit (map_of rules key) (map_of rules' key)" using assms by (simp add: rules_like_def)
  then show ?thesis
    by (cases "map_of rules key"; cases "map_of rules' key")
       (auto simp: semantic_rule_def canonical_like split: option.split)
qed

lemma alias_loop_like:
  "rules_like rules rules' \<Longrightarrow> fst (alias_loop env rules' seen key) = fst (alias_loop env rules seen key)"
proof (induction env rules seen key rule: alias_loop.induct)
  case (1 env rules seen key)
  have s: "rel_option same_but_emit (semantic_rule env rules key) (semantic_rule env rules' key)"
    by (rule semantic_like[OF "1.prems"])
  show ?case
  proof (cases "key = [] \<or> key \<in> set seen")
    case True
    then show ?thesis by (simp add: alias_loop.simps[of env _ seen key])
  next
    case False
    show ?thesis
    proof (cases "semantic_rule env rules key")
      case None
      then have "semantic_rule env rules' key = None" using s by simp
      then show ?thesis using None by (simp add: alias_loop.simps[of env _ seen key])
    next
      case (Some x)
      then obtain x' where x': "semantic_rule env rules' key = Some x'" "same_but_emit x x'" using s by (auto simp: option_rel_Some1)
      have k: "ru_kind x' = ru_kind x" "ru_string x' ''actual'' = ru_string x ''actual''"
        using x'(2) by (auto simp: same_but_emit_def)
      show ?thesis
      proof (cases "ru_kind x = ''alias'' \<and> parse_label (ee_api env) key \<noteq> None")
        case True
        then obtain own where own: "parse_label (ee_api env) key = Some own" by blast
        show ?thesis
          using "1.IH"[OF False Some _ own "1.prems"] True False Some x'(1) k own
          by (simp add: alias_loop.simps[of env _ seen key])
      next
        case not_alias: False
        then show ?thesis using False Some x'(1) k by (auto simp: alias_loop.simps[of env _ seen key] split: option.splits)
      qed
    qed
  qed
qed

lemma rule_target_like: "rules_like rules rules' \<Longrightarrow> fst (rule_target env rules' key) = fst (rule_target env rules key)"
proof -
  assume l: "rules_like rules rules'"
  have "is_alias (semantic_rule env rules' key) = is_alias (semantic_rule env rules key)"
    using semantic_like[OF l, of env key] by (cases "semantic_rule env rules key"; cases "semantic_rule env rules' key")
      (auto simp: is_alias_def same_but_emit_def)
  then show ?thesis using alias_loop_like[OF l] by (simp add: rule_target_def)
qed

lemma consumer_target_like:
  assumes "rules_like rules rules'"
  shows "runtime_consumer_target env rules' key = runtime_consumer_target env rules key"
proof -
  have "rel_option same_but_emit (semantic_rule env rules key) (semantic_rule env rules' key)" by (rule semantic_like[OF assms])
  then show ?thesis using rule_target_like[OF assms]
    by (cases "semantic_rule env rules key"; cases "semantic_rule env rules' key")
       (auto simp: runtime_consumer_target_def same_but_emit_def Let_def split: option.split)
qed

lemma start_consumer_like:
  assumes "rules_like rules rules'"
  shows "start_consumer env rules' key = start_consumer env rules key"
proof -
  have "rel_option same_but_emit (map_of rules key) (map_of rules' key)" using assms by (simp add: rules_like_def)
  then show ?thesis using publishes_like
    by (cases "map_of rules key"; cases "map_of rules' key") (auto simp: start_consumer_def split: option.split)
qed

section \<open>What a walk has settled\<close>

text \<open>A rule checked for a consumer, and a rule whose emission is on where Gazelle maintains it.\<close>

definition runtime_checked :: "emission_env \<Rightarrow> string \<Rightarrow> build_rule \<Rightarrow> bool" where
  "runtime_checked env pkg r \<longleftrightarrow>
     (let s = canonical_rule (ee_config env pkg) r in
      ru_kind s \<noteq> ''ts_proto_library'' \<and> snd (runtime_dependencies s) = [] \<and>
      (compiler_kind (ru_kind s) \<longrightarrow>
         rule_emission s = EmittedEmission \<or>
         snd (ee_declared env pkg s) \<and> \<not> list_ex raw_typescript (fst (ee_declared env pkg s))))"

definition turned_on :: "emission_env \<Rightarrow> string \<Rightarrow> build_rule \<Rightarrow> bool" where
  "turned_on env pkg r \<longleftrightarrow>
     (let s = canonical_rule (ee_config env pkg) r in
      compiler_kind (ru_kind s) \<longrightarrow> publishes env r pkg \<longrightarrow> \<not> attr_kept r ''emit'' \<longrightarrow> rule_emission s = EmittedEmission)"

definition compiled_here :: "emission_env \<Rightarrow> string \<Rightarrow> build_rule \<Rightarrow> bool" where
  "compiled_here env pkg r \<longleftrightarrow> compiler_kind (ru_kind (canonical_rule (ee_config env pkg) r)) \<and> publishes env r pkg"

definition rule_deps :: "emission_env \<Rightarrow> string \<Rightarrow> build_rule \<Rightarrow> string list" where
  "rule_deps env pkg r =
     map (emission_label (ee_api env) (ee_repo env) pkg) (fst (runtime_dependencies (canonical_rule (ee_config env pkg) r)))"

definition covered :: "(string \<times> string) list \<Rightarrow> marks \<Rightarrow> string \<Rightarrow> bool \<Rightarrow> bool" where
  "covered ps seen k q \<longleftrightarrow> k = [] \<or> marked seen k q \<or> (\<exists>c. (k, c) \<in> set ps \<and> (q \<longrightarrow> c \<noteq> []))"

definition key_done :: "emission_env \<Rightarrow> (string \<times> string) list \<Rightarrow> stored \<Rightarrow> marks \<Rightarrow> string \<Rightarrow> bool \<Rightarrow> bool" where
  "key_done env ps rules seen key q \<longleftrightarrow>
     (if member_compiler_target env key \<noteq> [] then covered ps seen (member_compiler_target env key) q
      else \<forall>r own. map_of rules key = Some r \<longrightarrow> parse_label (ee_api env) key = Some own \<longrightarrow>
        (q \<longrightarrow> runtime_checked env (lb_pkg own) r) \<and> turned_on env (lb_pkg own) r \<and>
        (compiled_here env (lb_pkg own) r \<longrightarrow> q) \<and> (\<forall>d \<in> set (rule_deps env (lb_pkg own) r). covered ps seen d q))"

definition walk_inv :: "emission_env \<Rightarrow> (string \<times> string) list \<Rightarrow> stored \<Rightarrow> marks \<Rightarrow> bool" where
  "walk_inv env ps rules seen \<longleftrightarrow> (\<forall>key q. map_of seen key = Some q \<longrightarrow> key_done env ps rules seen key q)"

definition marks_grow :: "marks \<Rightarrow> marks \<Rightarrow> bool" where
  "marks_grow seen seen' \<longleftrightarrow> (\<forall>k q. marked seen k q \<longrightarrow> marked seen' k q)"

lemma marks_grow_refl [simp]: "marks_grow seen seen"
  by (simp add: marks_grow_def)

lemma marks_grow_trans: "marks_grow a b \<Longrightarrow> marks_grow b c \<Longrightarrow> marks_grow a c"
  by (simp add: marks_grow_def)

lemma marked_mark: "marked (mark key q seen) k p = (if k = key then q \<or> \<not> p else marked seen k p)"
  by (simp add: marked_def mark_def update_conv')

lemma marks_grow_mark: "\<not> marked seen key q \<Longrightarrow> marks_grow seen (mark key q seen)"
  unfolding marks_grow_def marked_mark by (auto simp: marked_def split: option.splits)

lemma marks_grow_true: "marks_grow seen (mark key True seen)"
  unfolding marks_grow_def marked_mark by auto

lemma map_of_mark: "map_of (mark key q seen) k = (if k = key then Some q else map_of seen k)"
  by (simp add: mark_def update_conv')

lemma covered_step:
  assumes "covered ((key, consumer) # ps) seen k q" "marks_grow seen seen'" "set ps \<subseteq> set ps'"
    and "covered ps' seen' key (consumer \<noteq> [])"
  shows "covered ps' seen' k q"
proof -
  consider "k = []" | "marked seen k q" | c where "(k, c) \<in> set ps" "q \<longrightarrow> c \<noteq> []" | "k = key" "q \<longrightarrow> consumer \<noteq> []"
    using assms(1) by (auto simp: covered_def)
  then show ?thesis
  proof cases
    case 2
    then show ?thesis using assms(2) by (simp add: covered_def marks_grow_def)
  next
    case (3 c)
    then show ?thesis using assms(3) by (auto simp: covered_def)
  next
    case 4
    then consider "marked seen' key (consumer \<noteq> [])" | "key = []" | c where "(key, c) \<in> set ps'" "consumer \<noteq> [] \<longrightarrow> c \<noteq> []"
      using assms(4) by (auto simp: covered_def)
    then show ?thesis
    proof cases
      case 1
      then have "marked seen' k q" using 4 by (cases "map_of seen' key") (auto simp: marked_def)
      then show ?thesis by (simp add: covered_def)
    qed (use 4 in \<open>auto simp: covered_def\<close>)
  qed (simp add: covered_def)
qed

lemma key_done_step:
  assumes "key_done env ((key, consumer) # ps) rules seen k q" "marks_grow seen seen'" "set ps \<subseteq> set ps'"
    and "covered ps' seen' key (consumer \<noteq> [])" "map_of rules' k = map_of rules k"
  shows "key_done env ps' rules' seen' k q"
proof -
  have c: "covered ((key, consumer) # ps) seen d q \<Longrightarrow> covered ps' seen' d q" for d
    by (erule covered_step) (rule assms)+
  show ?thesis
  proof (cases "member_compiler_target env k = []")
    case True
    then show ?thesis using assms(1,5) c by (simp add: key_done_def)
  next
    case False
    then show ?thesis using assms(1) c by (simp add: key_done_def)
  qed
qed

text \<open>A visited key becomes done, the others stay so.\<close>

lemma walk_inv_step:
  assumes inv: "walk_inv env ((key, consumer) # ps) rules seen" and grow: "marks_grow seen seen'" and ps: "set ps \<subseteq> set ps'"
    and seen': "\<And>k. k \<noteq> key \<Longrightarrow> map_of seen' k = map_of seen k"
    and rules': "\<And>k. k \<noteq> key \<Longrightarrow> map_of rules' k = map_of rules k"
    and here: "covered ps' seen' key (consumer \<noteq> [])" "\<And>q. map_of seen' key = Some q \<Longrightarrow> key_done env ps' rules' seen' key q"
  shows "walk_inv env ps' rules' seen'"
  unfolding walk_inv_def
proof (intro allI impI)
  fix k q
  assume k: "map_of seen' k = Some q"
  show "key_done env ps' rules' seen' k q"
  proof (cases "k = key")
    case True
    then show ?thesis using here(2) k by simp
  next
    case False
    then have "key_done env ((key, consumer) # ps) rules seen k q" using inv k seen' by (simp add: walk_inv_def)
    then show ?thesis by (rule key_done_step[OF _ grow ps here(1) rules'[OF False]])
  qed
qed

lemma visit_rule_spec:
  assumes env: "sets_emit env" and v: "visit_rule env consumer key pkg r = Inr (consumer', r')"
  shows "same_but_emit r r'" "consumer \<noteq> [] \<Longrightarrow> consumer' = consumer" "turned_on env pkg r'"
    "compiled_here env pkg r' \<Longrightarrow> key \<noteq> [] \<Longrightarrow> consumer' \<noteq> []"
    "consumer' \<noteq> [] \<Longrightarrow> snd (runtime_dependencies (canonical_rule (ee_config env pkg) r')) = [] \<Longrightarrow> runtime_checked env pkg r'"
proof -
  let ?cfg = "ee_config env pkg" let ?k = "ru_kind (canonical_rule ?cfg r)"
  show s: "same_but_emit r r'"
    using v env by (auto simp: visit_rule_def Let_def sets_emit_def split: if_splits option.splits)
  have k: "ru_kind (canonical_rule ?cfg r') = ?k" using canonical_like(1)[OF s] by (simp add: same_but_emit_def)
  have p: "publishes env r' pkg = publishes env r pkg" "attr_kept r' ''emit'' = attr_kept r ''emit''"
    using s by (simp_all add: publishes_like attr_kept_like)
  have c: "source_error env consumer' key pkg (canonical_rule ?cfg r') = None \<and>
      consumer' = (if consumer = [] \<and> publishes env r pkg then key else consumer) \<and>
      r' = (if publishes env r pkg \<and> \<not> attr_kept r ''emit'' then ee_set_emit env r else r)" if "compiler_kind ?k"
    using v that unfolding visit_rule_def Let_def by (simp split: option.splits) auto
  have o: "consumer' = consumer" if "\<not> compiler_kind ?k"
    using v that by (auto simp: visit_rule_def split: if_splits)
  show "consumer \<noteq> [] \<Longrightarrow> consumer' = consumer" using c o by (cases "compiler_kind ?k") auto
  show "turned_on env pkg r'"
    unfolding turned_on_def Let_def k p using c emitted_after_set[OF env] by auto
  show "compiled_here env pkg r' \<Longrightarrow> key \<noteq> [] \<Longrightarrow> consumer' \<noteq> []"
    unfolding compiled_here_def k p using c by auto
  show "consumer' \<noteq> [] \<Longrightarrow> snd (runtime_dependencies (canonical_rule ?cfg r')) = [] \<Longrightarrow> runtime_checked env pkg r'"
  proof -
    assume a: "consumer' \<noteq> []" "snd (runtime_dependencies (canonical_rule ?cfg r')) = []"
    have "?k \<noteq> ''ts_proto_library''"
      using v a(1) o by (auto simp: visit_rule_def compiler_kind_def split: if_splits)
    moreover have "rule_emission (canonical_rule ?cfg r') = EmittedEmission \<or>
        snd (ee_declared env pkg (canonical_rule ?cfg r')) \<and> \<not> list_ex raw_typescript (fst (ee_declared env pkg (canonical_rule ?cfg r')))"
      if "compiler_kind ?k"
      using c[OF that] a(1) by (auto simp: source_error_def find_None_iff list_ex_iff split: if_splits prod.splits)
    ultimately show ?thesis using a(2) k by (auto simp: runtime_checked_def Let_def)
  qed
qed

lemma walk_inv_skip:
  assumes "walk_inv env ((key, consumer) # ps) rules seen" "covered ps seen key (consumer \<noteq> [])"
  shows "walk_inv env ps rules seen"
  using assms(1) key_done_step[of env key consumer ps rules seen _ _ seen ps rules] assms(2)
  unfolding walk_inv_def by simp

declare walk.simps(2) [simp del]

lemma walk_skip: "key = [] \<or> marked seen key (consumer \<noteq> []) \<Longrightarrow> walk env ((key, consumer) # ps) rules seen = walk env ps rules seen"
  by (subst walk.simps(2)) simp

lemma walk_member:
  "\<not> (key = [] \<or> marked seen key (consumer \<noteq> [])) \<Longrightarrow> member_compiler_target env key \<noteq> [] \<Longrightarrow>
   walk env ((key, consumer) # ps) rules seen =
   walk env ((member_compiler_target env key, consumer) # ps) rules (mark key (consumer \<noteq> []) seen)"
  by (subst walk.simps(2)) simp

lemma walk_leaf:
  "\<not> (key = [] \<or> marked seen key (consumer \<noteq> [])) \<Longrightarrow> member_compiler_target env key = [] \<Longrightarrow>
   map_of rules key = None \<or> parse_label (ee_api env) key = None \<Longrightarrow>
   walk env ((key, consumer) # ps) rules seen = walk env ps rules (mark key (consumer \<noteq> []) seen)"
  by (subst walk.simps(2)) (auto simp: Let_def split: option.splits)

lemma walk_visit:
  assumes "\<not> (key = [] \<or> marked seen key (consumer \<noteq> []))" "member_compiler_target env key = []"
    and "map_of rules key = Some r" "parse_label (ee_api env) key = Some own"
    and "walk env ((key, consumer) # ps) rules seen = Inr out"
  obtains consumer' r' where "visit_rule env consumer key (lb_pkg own) r = Inr (consumer', r')"
    "\<not> (consumer' \<noteq> [] \<and> snd (runtime_dependencies (canonical_rule (ee_config env (lb_pkg own)) r')) \<noteq> [])"
    "walk env (map (\<lambda>d. (emission_label (ee_api env) (ee_repo env) (lb_pkg own) d, consumer'))
        (fst (runtime_dependencies (canonical_rule (ee_config env (lb_pkg own)) r'))) @ ps)
      (AList.update key r' rules)
      (if consumer' \<noteq> [] then mark key True (mark key (consumer \<noteq> []) seen) else mark key (consumer \<noteq> []) seen) = Inr out"
proof -
  obtain x where x: "visit_rule env consumer key (lb_pkg own) r = Inr x"
    using assms by (subst (asm) walk.simps(2)) (auto simp: Let_def split: sum.splits)
  show ?thesis
    by (rule that[of "fst x" "snd x"])
       (use assms x in \<open>auto simp: walk.simps(2)[of env key] Let_def split: if_splits\<close>)
qed

lemma walk_settles:
  "walk env ps rules seen = Inr (rules', seen') \<Longrightarrow> sets_emit env \<Longrightarrow> walk_inv env ps rules seen \<Longrightarrow>
    rules_like rules rules' \<and> marks_grow seen seen' \<and> walk_inv env [] rules' seen' \<and>
    (\<forall>(k, c) \<in> set ps. k = [] \<or> marked seen' k (c \<noteq> []))"
proof (induction env ps rules seen rule: walk.induct)
  case (2 env key consumer ps rules seen)
  let ?q = "consumer \<noteq> []" let ?seen1 = "mark key ?q seen" let ?member = "member_compiler_target env key"
  note run = "2.prems"(1) and env = "2.prems"(2) and inv = "2.prems"(3)
  show ?case
  proof (cases "key = [] \<or> marked seen key ?q")
    case True
    then have w: "walk env ps rules seen = Inr (rules', seen')" using run by (simp add: walk_skip)
    have "walk_inv env ps rules seen" by (rule walk_inv_skip[OF inv]) (use True in \<open>auto simp: covered_def\<close>)
    from "2.IH"(1)[OF True w env this] show ?thesis using True by (auto simp: marks_grow_def)
  next
    case new: False
    have grow: "marks_grow seen ?seen1" using new by (intro marks_grow_mark) simp
    have self: "marked ?seen1 key ?q" by (simp add: marked_mark)
    have cov: "covered ps' ?seen1 key ?q" for ps' using self by (simp add: covered_def)
    have other: "k \<noteq> key \<Longrightarrow> map_of ?seen1 k = map_of seen k" for k by (simp add: map_of_mark)
    show ?thesis
    proof (cases "?member = []")
      case False
      then have w: "walk env ((?member, consumer) # ps) rules ?seen1 = Inr (rules', seen')" using run walk_member[OF new] by simp
      have "walk_inv env ((?member, consumer) # ps) rules ?seen1"
        by (rule walk_inv_step[OF inv grow _ other _ cov])
           (use False in \<open>auto simp: key_done_def covered_def map_of_mark\<close>)
      from "2.IH"(2)[OF new refl refl False w env this] show ?thesis
        using grow self marks_grow_trans by (auto simp: marks_grow_def)
    next
      case no_member: True
      have leaf: ?thesis if w: "walk env ps rules ?seen1 = Inr (rules', seen')"
        and l: "\<forall>r own. map_of rules key = Some r \<longrightarrow> parse_label (ee_api env) key \<noteq> Some own"
        and IH: "walk_inv env ps rules ?seen1 \<Longrightarrow> rules_like rules rules' \<and> marks_grow ?seen1 seen' \<and> walk_inv env [] rules' seen' \<and>
          (\<forall>(k, c) \<in> set ps. k = [] \<or> marked seen' k (c \<noteq> []))"
      proof -
        have "walk_inv env ps rules ?seen1"
          by (rule walk_inv_step[OF inv grow _ other _ cov]) (use no_member l in \<open>auto simp: key_done_def\<close>)
        from IH[OF this] show ?thesis using grow self by (auto simp: marks_grow_def)
      qed
      show ?thesis
      proof (cases "map_of rules key")
        case None
        then have w: "walk env ps rules ?seen1 = Inr (rules', seen')" using run walk_leaf[OF new no_member] by simp
        show ?thesis using leaf[OF w] "2.IH"(3)[OF new refl refl _ None w env] no_member None by simp
      next
        case r: (Some r)
        show ?thesis
        proof (cases "parse_label (ee_api env) key")
          case None
          then have w: "walk env ps rules ?seen1 = Inr (rules', seen')" using run walk_leaf[OF new no_member] by simp
          show ?thesis using leaf[OF w] "2.IH"(4)[OF new refl refl _ r None w env] no_member None by simp
        next
          case own: (Some own)
          obtain consumer' r' where v: "visit_rule env consumer key (lb_pkg own) r = Inr (consumer', r')"
            and ok: "\<not> (consumer' \<noteq> [] \<and> snd (runtime_dependencies (canonical_rule (ee_config env (lb_pkg own)) r')) \<noteq> [])"
            and w: "walk env (map (\<lambda>d. (emission_label (ee_api env) (ee_repo env) (lb_pkg own) d, consumer'))
                (fst (runtime_dependencies (canonical_rule (ee_config env (lb_pkg own)) r'))) @ ps)
              (AList.update key r' rules) (if consumer' \<noteq> [] then mark key True ?seen1 else ?seen1) = Inr (rules', seen')"
            by (rule walk_visit[OF new no_member r own run])
          let ?deps = "runtime_dependencies (canonical_rule (ee_config env (lb_pkg own)) r')"
          let ?ps = "map (\<lambda>d. (emission_label (ee_api env) (ee_repo env) (lb_pkg own) d, consumer')) (fst ?deps) @ ps"
          let ?seen2 = "if consumer' \<noteq> [] then mark key True ?seen1 else ?seen1"
          let ?rules2 = "AList.update key r' rules"
          note vs = visit_rule_spec[OF env v]
          have key: "key \<noteq> []" using new by simp
          have cq: "?q \<Longrightarrow> consumer' \<noteq> []" using vs(2) by auto
          have m2: "map_of ?seen2 k = (if k = key then Some (consumer' \<noteq> []) else map_of seen k)" for k
            using cq by (auto simp: map_of_mark)
          have grow2: "marks_grow seen ?seen2"
            using grow marks_grow_true[of ?seen1 key] marks_grow_trans by (cases "consumer' = []") auto
          have here: "key_done env ?ps ?rules2 ?seen2 key (consumer' \<noteq> [])"
          proof -
            have "\<forall>d \<in> set (rule_deps env (lb_pkg own) r'). covered ?ps ?seen2 d (consumer' \<noteq> [])"
              by (auto simp: rule_deps_def covered_def)
            moreover have "compiled_here env (lb_pkg own) r' \<longrightarrow> consumer' \<noteq> []" using vs(4) key by blast
            moreover have "consumer' \<noteq> [] \<longrightarrow> runtime_checked env (lb_pkg own) r'" using vs(5) ok by blast
            ultimately show ?thesis using no_member own vs(3) by (simp add: key_done_def update_conv')
          qed
          have "walk_inv env ?ps ?rules2 ?seen2"
          proof (rule walk_inv_step[OF inv grow2])
            show "covered ?ps ?seen2 key ?q" using cq by (auto simp: covered_def marked_def m2)
            show "\<And>q. map_of ?seen2 key = Some q \<Longrightarrow> key_done env ?ps ?rules2 ?seen2 key q" using here by (simp add: m2)
          qed (auto simp: m2 update_conv')
          from "2.IH"(5)[OF new refl refl _ r own v refl refl refl _ _ env] w ok this no_member
          have i: "rules_like ?rules2 rules' \<and> marks_grow ?seen2 seen' \<and> walk_inv env [] rules' seen' \<and>
              (\<forall>(k, c) \<in> set ?ps. k = [] \<or> marked seen' k (c \<noteq> []))"
            by simp
          have "rules_like rules rules'" using rules_like_trans[OF rules_like_update[OF r vs(1)]] i by blast
          moreover have "marked ?seen2 key ?q" using cq by (auto simp: marked_def m2)
          then have "marked seen' key ?q" using i unfolding marks_grow_def by blast
          ultimately show ?thesis using i grow2 by (auto simp: marks_grow_def)
        qed
      qed
    qed
  qed
qed auto

section \<open>What a run needs\<close>

text \<open>The keys a runtime consumer or a rooted owner reaches, and whether for a consumer.\<close>

inductive needed :: "emission_env \<Rightarrow> stored \<Rightarrow> string list \<Rightarrow> string list \<Rightarrow> string \<Rightarrow> bool \<Rightarrow> bool"
  for env rules keys roots where
  consumer: "key \<in> set keys \<Longrightarrow> runtime_consumer_target env rules key \<noteq> [] \<Longrightarrow>
    needed env rules keys roots (runtime_consumer_target env rules key) (start_consumer env rules key \<noteq> [])"
| root: "root \<in> set roots \<Longrightarrow> needed env rules keys roots root False"
| member: "needed env rules keys roots k q \<Longrightarrow> member_compiler_target env k \<noteq> [] \<Longrightarrow>
    needed env rules keys roots (member_compiler_target env k) q"
| own: "needed env rules keys roots k q \<Longrightarrow> k \<noteq> [] \<Longrightarrow> member_compiler_target env k = [] \<Longrightarrow> map_of rules k = Some r \<Longrightarrow>
    parse_label (ee_api env) k = Some o1 \<Longrightarrow> compiled_here env (lb_pkg o1) r \<Longrightarrow> needed env rules keys roots k True"
| dep: "needed env rules keys roots k q \<Longrightarrow> k \<noteq> [] \<Longrightarrow> member_compiler_target env k = [] \<Longrightarrow> map_of rules k = Some r \<Longrightarrow>
    parse_label (ee_api env) k = Some o1 \<Longrightarrow> d \<in> set (rule_deps env (lb_pkg o1) r) \<Longrightarrow> needed env rules keys roots d q"

lemma member_target_Nil: "member_compiler_target env [] = []"
  by (simp add: member_compiler_target_def split: option.split)

lemma walk_inv_more: "walk_inv env [] rules seen \<Longrightarrow> walk_inv env ps rules seen"
  unfolding walk_inv_def key_done_def covered_def by fastforce

lemma visit_consumers_settles:
  "visit_consumers env keys rules seen = Inr (rules', seen') \<Longrightarrow> sets_emit env \<Longrightarrow> walk_inv env [] rules seen \<Longrightarrow>
   rules_like rules rules' \<and> marks_grow seen seen' \<and> walk_inv env [] rules' seen' \<and>
   (\<forall>key \<in> set keys. runtime_consumer_target env rules key \<noteq> [] \<longrightarrow>
      marked seen' (runtime_consumer_target env rules key) (start_consumer env rules key \<noteq> []))"
proof (induction keys arbitrary: rules seen)
  case (Cons key keys)
  let ?t = "runtime_consumer_target env rules key" let ?c = "start_consumer env rules key"
  show ?case
  proof (cases "?t = []")
    case True
    then show ?thesis using Cons by simp
  next
    case False
    then obtain rules1 seen1 where w: "walk env [(?t, ?c)] rules seen = Inr (rules1, seen1)"
      and v: "visit_consumers env keys rules1 seen1 = Inr (rules', seen')"
      using Cons.prems(1) by (auto simp: Let_def split: sum.splits)
    note w1 = walk_settles[OF w Cons.prems(2) walk_inv_more[OF Cons.prems(3)]]
    have IH: "rules_like rules1 rules' \<and> marks_grow seen1 seen' \<and> walk_inv env [] rules' seen' \<and>
        (\<forall>k \<in> set keys. runtime_consumer_target env rules1 k \<noteq> [] \<longrightarrow>
          marked seen' (runtime_consumer_target env rules1 k) (start_consumer env rules1 k \<noteq> []))"
      using Cons.IH[OF v Cons.prems(2)] w1 by blast
    have "rules_like rules rules1" using w1 by blast
    then have "runtime_consumer_target env rules1 k = runtime_consumer_target env rules k"
      "start_consumer env rules1 k = start_consumer env rules k" for k
      by (simp_all add: consumer_target_like start_consumer_like)
    moreover have "marked seen' ?t (?c \<noteq> [])" using w1 IH False by (auto simp: marks_grow_def)
    ultimately show ?thesis using w1 IH rules_like_trans[of rules rules1 rules'] marks_grow_trans[of seen seen1 seen'] by simp
  qed
qed simp

lemma publish_closure_settles:
  assumes "publish_closure env keys roots rules = Inr (rules', seen)" "sets_emit env"
  shows "rules_like rules rules' \<and> walk_inv env [] rules' seen \<and>
    (\<forall>key \<in> set keys. runtime_consumer_target env rules key \<noteq> [] \<longrightarrow>
      marked seen (runtime_consumer_target env rules key) (start_consumer env rules key \<noteq> [])) \<and>
    (\<forall>root \<in> set roots. root = [] \<or> marked seen root False)"
proof -
  obtain rules1 seen1 where v: "visit_consumers env keys rules [] = Inr (rules1, seen1)"
    and w: "walk env (map (\<lambda>root. (root, [])) roots) rules1 seen1 = Inr (rules', seen)"
    using assms(1) by (auto simp: publish_closure_def split: sum.splits)
  have "walk_inv env [] rules []" by (simp add: walk_inv_def)
  note v1 = visit_consumers_settles[OF v assms(2) this]
  have "walk_inv env [] rules1 seen1" using v1 by blast
  note w1 = walk_settles[OF w assms(2) walk_inv_more[OF this]]
  show ?thesis using v1 w1 rules_like_trans[of rules rules1 rules'] by (auto simp: marks_grow_def)
qed

lemma needed_marked:
  assumes "needed env rules' keys roots k q" "publish_closure env keys roots rules = Inr (rules', seen)" "sets_emit env"
  shows "k = [] \<or> marked seen k q"
proof -
  note p = publish_closure_settles[OF assms(2,3)]
  have like: "rules_like rules rules'" using p by blast
  have settled: "key_done env [] rules' seen key r" if "map_of seen key = Some r" for key r
    using p that by (auto simp: walk_inv_def)
  have cov: "covered [] seen d q \<Longrightarrow> d = [] \<or> marked seen d q" for d q by (simp add: covered_def)
  have weak: "marked seen d True \<Longrightarrow> marked seen d q" for d q by (auto simp: marked_def split: option.splits)
  from assms(1) show ?thesis
  proof induction
    case (consumer key)
    then show ?case using p by (simp add: consumer_target_like[OF like] start_consumer_like[OF like])
  next
    case (root root)
    then show ?case using p by blast
  next
    case (member k q)
    then have "k \<noteq> []" using member_target_Nil by auto
    then obtain r where r: "map_of seen k = Some r" "q \<longrightarrow> r" using member by (auto simp: marked_def split: option.splits)
    have "covered [] seen (member_compiler_target env k) r" using settled[OF r(1)] member(2) by (simp add: key_done_def)
    then show ?case using cov[of _ r] weak[of _ q] r(2) by (cases r) auto
  next
    case (own k q r o1)
    then obtain x where x: "map_of seen k = Some x" by (auto simp: marked_def split: option.splits)
    have "x" using settled[OF x] own by (auto simp: key_done_def)
    then show ?case using x by (simp add: marked_def)
  next
    case (dep k q r o1 d)
    then obtain x where x: "map_of seen k = Some x" "q \<longrightarrow> x" by (auto simp: marked_def split: option.splits)
    have "covered [] seen d x" using settled[OF x(1)] dep by (auto simp: key_done_def)
    then show ?case using cov[of d x] weak[of d q] x(2) by (cases x) auto
  qed
qed

section \<open>Export patterns\<close>

definition expand_stars :: "string \<Rightarrow> string \<Rightarrow> string" where
  "expand_stars star pat = concat (map (\<lambda>c. if c = CHR ''*'' then star else [c]) pat)"

lemma replace_all_stars: "replace_all pat ''*'' star = expand_stars star pat"
proof (induction pat)
  case (Cons c pat)
  then show ?case by (cases "c = CHR ''*''") (auto simp: replace_all.simps[where s = "d # e" for d e] expand_stars_def)
qed (simp add: replace_all.simps expand_stars_def)

lemma length_expand_stars: "length (expand_stars star pat) + count_stars pat = length pat + count_stars pat * length star"
  by (induction pat) (auto simp: expand_stars_def count_stars_def)

lemma length_expand: "length (expand_stars star pat) = (length pat - count_stars pat) + count_stars pat * length star"
proof -
  have "count_stars pat \<le> length pat" by (simp add: count_stars_def)
  then show ?thesis using length_expand_stars[of star pat] by linarith
qed

lemma expand_no_stars: "count_stars pat = 0 \<Longrightarrow> expand_stars star pat = pat"
  by (induction pat) (auto simp: expand_stars_def count_stars_def split: if_splits)

lemma expand_front:
  assumes "count_stars pat \<noteq> 0"
  shows "\<exists>rest'. expand_stars star pat = takeWhile (\<lambda>c. c \<noteq> CHR ''*'') pat @ star @ rest'"
proof -
  let ?a = "takeWhile (\<lambda>c. c \<noteq> CHR ''*'') pat" let ?b = "dropWhile (\<lambda>c. c \<noteq> CHR ''*'') pat"
  have "?b \<noteq> []" using assms by (auto simp: count_stars_def filter_empty_conv)
  then obtain b where b: "?b = CHR ''*'' # b" using hd_dropWhile[of "\<lambda>c. c \<noteq> CHR ''*''" pat] by (cases ?b) auto
  have "expand_stars star ?a = ?a" by (rule expand_no_stars) (auto simp: count_stars_def filter_empty_conv dest: set_takeWhileD)
  moreover have "expand_stars star pat = expand_stars star ?a @ expand_stars star ?b"
    by (simp add: expand_stars_def flip: concat_append map_append)
  ultimately show ?thesis unfolding b by (simp add: expand_stars_def)
qed

section \<open>Properties\<close>

text \<open>C1.  When the walk over the runtime consumers ends without an error, the stored rules differ
  from the ones before in \<open>emit\<close> only.  Every needed compiler rule that Gazelle maintains, and whose
  \<open>emit\<close> carries no keep comment, has its emission on.  Whatever a consumer of a generated package needs
  at run time has complete dependencies; if it is a compiler rule without emission, kept or of a
  package Gazelle does not write, its sources are completely known and none is raw TypeScript.\<close>

theorem runtime_closure_published:
  assumes "sets_emit env" "publish_closure env keys roots rules = Inr (rules', seen)"
    and "needed env rules' keys roots k q" "k \<noteq> []" "member_compiler_target env k = []"
    and "map_of rules' k = Some r" "parse_label (ee_api env) k = Some own"
  shows "rules_like rules rules' \<and> (q \<longrightarrow> runtime_checked env (lb_pkg own) r) \<and> turned_on env (lb_pkg own) r"
proof -
  note p = publish_closure_settles[OF assms(2,1)]
  have "marked seen k q" using needed_marked[OF assms(3,2,1)] assms(4) by simp
  then obtain x where x: "map_of seen k = Some x" "q \<longrightarrow> x" by (auto simp: marked_def split: option.splits)
  then have "key_done env [] rules' seen k x" using p by (auto simp: walk_inv_def)
  then show ?thesis using p x(2) assms(5,6,7) by (auto simp: key_done_def)
qed

text \<open>A binary of \<open>p\<close> runs \<open>lib\<close>, which depends on \<open>dep\<close>.\<close>

definition demo_stored :: "string \<Rightarrow> string \<Rightarrow> string \<Rightarrow> expr \<Rightarrow> string \<times> build_rule" where
  "demo_stored k n attr e =
     (''p:'' @ n, demo_rule\<lparr>ru_kind := k, ru_name := n, ru_attr := [attr \<mapsto> e]\<rparr>)"

definition demo_rules :: stored where
  "demo_rules =
     [demo_stored ''ts_binary'' ''bin'' ''entry_point'' (StringExpr '':lib'' False),
      demo_stored ''ts_compile'' ''lib'' ''deps'' (ListExpr [StringExpr '':dep'' False]),
      demo_stored ''ts_compile'' ''dep'' ''srcs'' (ListExpr [StringExpr ''dep.ts'' False])]"

definition demo_env :: emission_env where
  "demo_env =
     \<lparr>ee_api = plain_labels, ee_repo = [], ee_config = (\<lambda>_. \<lparr>bc_aliases = [], bc_kinds = []\<rparr>), ee_generated = [''p''], ee_lock = None,
      ee_apparent = [], ee_canonicalRepo = [],
      ee_set_emit = (\<lambda>r. r\<lparr>ru_attr := (ru_attr r)(''emit'' \<mapsto> IdentExpr ''True'')\<rparr>), ee_declared = (\<lambda>_ _. ([], True))\<rparr>"

lemma demo_sets: "sets_emit demo_env"
  by (simp add: sets_emit_def demo_env_def same_but_emit_def)

definition demo_holds :: "string \<Rightarrow> string list \<Rightarrow> bool \<Rightarrow> stored \<Rightarrow> bool" where
  "demo_holds key deps on rules =
     (case map_of rules key of
        None \<Rightarrow> False
      | Some r \<Rightarrow> rule_deps demo_env ''p'' r = deps \<and> (on \<longrightarrow> rule_emission r = EmittedEmission))"

lemma demo_publish:
  "(case publish_closure demo_env [''p:bin''] [] demo_rules of
      Inl _ \<Rightarrow> False
    | Inr (rules', seen) \<Rightarrow>
        demo_holds ''p:bin'' [''p:lib''] False rules' \<and> demo_holds ''p:lib'' [''p:dep''] True rules' \<and>
        demo_holds ''p:dep'' [] True rules' \<and> runtime_consumer_target demo_env rules' ''p:bin'' = ''p:bin'' \<and>
        start_consumer demo_env rules' ''p:bin'' = ''p:bin'')"
  by code_simp

theorem runtime_closure_published_witness:
  "\<exists>rules' seen r. publish_closure demo_env [''p:bin''] [] demo_rules = Inr (rules', seen) \<and> map_of rules' ''p:dep'' = Some r \<and>
     rules_like demo_rules rules' \<and> runtime_checked demo_env ''p'' r \<and> turned_on demo_env ''p'' r"
proof -
  obtain rules' seen where p: "publish_closure demo_env [''p:bin''] [] demo_rules = Inr (rules', seen)"
    using demo_publish by (auto split: sum.splits)
  note holds = demo_publish[unfolded p sum.case prod.case]
  obtain b l r where stored: "map_of rules' ''p:bin'' = Some b" "map_of rules' ''p:lib'' = Some l" "map_of rules' ''p:dep'' = Some r"
    using holds by (auto simp: demo_holds_def split: option.splits)
  have own: "parse_label (ee_api demo_env) (''p:'' @ n) =
      Some \<lparr>lb_repo = [], lb_pkg = ''p'', lb_name = n, lb_relative = False, lb_canonical = False\<rparr>"
    if "CHR '':'' \<notin> set n" for n
    using str_last_index_append[OF that, of "''p''"] by (simp add: parse_label_def plain_labels_def demo_env_def)
  note owns = own[of "''bin''", simplified] own[of "''lib''", simplified] own[of "''dep''", simplified]
  have local: "member_compiler_target demo_env k = []" for k by (simp add: member_compiler_target_def demo_env_def)
  let ?n = "needed demo_env rules' [''p:bin''] []"
  have "?n ''p:bin'' True" using needed.consumer[of "''p:bin''" "[''p:bin'']" demo_env rules' "[]"] holds by simp
  then have "?n ''p:lib'' True"
    by (rule needed.dep[OF _ _ local stored(1) owns(1)]) (use holds stored in \<open>simp_all add: demo_holds_def\<close>)
  then have "?n ''p:dep'' True"
    by (rule needed.dep[OF _ _ local stored(2) owns(2)]) (use holds stored in \<open>simp_all add: demo_holds_def\<close>)
  from runtime_closure_published[OF demo_sets p this _ local stored(3) owns(3)]
  show ?thesis using p stored by auto
qed

text \<open>An output pattern of a package export matches a file exactly when one text in place of
  every star makes the pattern the file.\<close>

theorem export_pattern_exact:
  "matches_export_output pat file \<longleftrightarrow> (\<exists>star. expand_stars star pat = file)"
proof (cases "count_stars pat = 0")
  case True
  then show ?thesis by (auto simp: matches_export_output_def expand_no_stars)
next
  case False
  let ?n = "count_stars pat" let ?fixed = "length pat - count_stars pat"
  show ?thesis
  proof
    assume "matches_export_output pat file"
    then show "\<exists>star. expand_stars star pat = file"
      using False by (auto simp: matches_export_output_def Let_def replace_all_stars split: if_splits)
  next
    assume "\<exists>star. expand_stars star pat = file"
    then obtain star where star: "expand_stars star pat = file" by blast
    have len: "length file - ?fixed = ?n * length star" "?fixed \<le> length file"
      using length_expand[of star pat] star by auto
    obtain rest' where "file = takeWhile (\<lambda>c. c \<noteq> CHR ''*'') pat @ star @ rest'"
      using expand_front[OF False, of star] star by auto
    then have "take (length star) (drop (length (takeWhile (\<lambda>c. c \<noteq> CHR ''*'') pat)) file) = star" by simp
    then show "matches_export_output pat file"
      using False len star by (simp add: matches_export_output_def Let_def replace_all_stars)
  qed
qed

end
