(* ===== verification/ActionPaths.thy ===== *)
theory ActionPaths imports GoPath begin

text \<open>
  The paths of one compiler action, \<open>ts/tools/tsaction\<close>: the spellings of \<open>showconfig.go\<close> that
  lead from the directory of a written config to a file, and the places of \<open>tsgo.go\<close> in the
  output tree and under a node_modules.  \<open>filepath_rel\<close> is \<open>filepath.Rel\<close> on Unix.
\<close>

section \<open>Spelling a path from a directory\<close>

definition segments :: "string \<Rightarrow> string list" where
  "segments p = filter (\<lambda>part. part \<noteq> [] \<and> part \<noteq> ''.'') (split_on SL p)"

fun common_prefix :: "string list \<Rightarrow> string list \<Rightarrow> nat" where
  \<comment> \<open>the loop of \<open>relativePath\<close>\<close>
  "common_prefix (x # xs) (y # ys) = (if x = y then Suc (common_prefix xs ys) else 0)"
| "common_prefix _ _ = 0"

definition relative_path :: "string \<Rightarrow> string \<Rightarrow> string" where
  "relative_path base targ =
     (let fromParts = segments base; toParts = segments targ; common = common_prefix fromParts toParts;
          parts = replicate (length fromParts - common) ''..'' @ drop common toParts
      in if parts = [] then ''.'' else join_on [SL] parts)"

definition explicitly_relative :: "string \<Rightarrow> string" where
  "explicitly_relative p =
     (if p = ''.'' \<or> p = ''..'' \<or> has_prefix p ''./'' \<or> has_prefix p ''../'' \<or> has_prefix p ''/'' then p
      else ''./'' @ p)"

definition is_relative :: "string \<Rightarrow> bool" where
  "is_relative p \<longleftrightarrow> p = ''.'' \<or> p = ''..'' \<or> has_prefix p ''./'' \<or> has_prefix p ''../''"

definition file_relative :: "string \<Rightarrow> string \<Rightarrow> string" where
  "file_relative dir f = explicitly_relative (relative_path dir (path_dir f) @ ''/'' @ path_base f)"

definition rebased :: "string \<Rightarrow> string \<Rightarrow> string list \<Rightarrow> string list" where
  \<comment> \<open>each spec written in the second directory, spelled from the first\<close>
  "rebased dir src specs =
     map (\<lambda>spec. if is_abs spec then spec else explicitly_relative (relative_path dir (path_join [src, spec]))) specs"

section \<open>The output tree and node_modules\<close>

definition outputTree :: string where
  "outputTree = ''bazel-out''"

definition under_output_tree :: "string \<Rightarrow> bool" where
  "under_output_tree p \<longleftrightarrow>
     (let p = path_clean p in p = outputTree \<or> has_prefix p (outputTree @ ''/''))"

definition bin_relative :: "string \<Rightarrow> string" where
  "bin_relative binPath =
     (if has_suffix binPath ''/bin'' then []
      else case str_index binPath ''/bin/'' of
        Some i \<Rightarrow> drop (i + length ''/bin/'') binPath
      | None \<Rightarrow> binPath)"

definition compiler_path :: "string \<Rightarrow> string" where
  "compiler_path f = (if has_prefix f (outputTree @ ''/'') then bin_relative f else f)"

definition importer_dir :: "string \<Rightarrow> string" where
  "importer_dir binDir = (let dir = path_dir (bin_relative binDir) in if dir = ''.'' then [] else dir)"

definition skips_ancestors :: "string list \<Rightarrow> bool" where
  "skips_ancestors importers \<longleftrightarrow>
     (let nearest = importer_dir (hd importers) in
      list_ex (\<lambda>binDir. let dir = importer_dir binDir in
                 dir \<noteq> [] \<and> nearest \<noteq> dir \<and> \<not> has_prefix nearest (dir @ ''/''))
        (butlast (tl importers)))"

definition npm_package_root :: "string \<Rightarrow> string" where
  "npm_package_root p =
     (case str_last_index p ''node_modules/'' of
        None \<Rightarrow> []
      | Some i \<Rightarrow>
          if 0 < i \<and> p ! (i - 1) \<noteq> SL then []
          else let start = i + length ''node_modules/''; name = fst (cut_at (drop start p) ''/'') in
            if name = [] then []
            else let end = start + length name in
              if has_prefix name ''@'' then
                (if end = length p then []
                 else let member = fst (cut_at (drop (end + 1) p) ''/'') in
                   if member = [] then [] else take (end + 1 + length member) p)
              else take end p)"

definition under_node_modules :: "string \<Rightarrow> bool" where
  "under_node_modules p \<longleftrightarrow> has_prefix p ''node_modules/'' \<or> contains_str p ''/node_modules/''"

definition is_javascript :: "string \<Rightarrow> bool" where
  "is_javascript f \<longleftrightarrow> path_ext f \<in> set [''.js'', ''.jsx'', ''.mjs'', ''.cjs'']"

text \<open>\<open>filepath.Rel\<close>: the elements of the clean paths after their common ones; a base that goes up
  where the target does not has no answer.\<close>

definition rel_elems :: "string \<Rightarrow> string list" where
  "rel_elems p = (if p = [SL] then [[]] else split_on SL p)"

definition filepath_rel :: "string \<Rightarrow> string \<Rightarrow> string option" where
  "filepath_rel base0 targ0 =
     (let base1 = path_clean base0; targ = path_clean targ0 in
      if targ = base1 then Some ''.''
      else let base = (if base1 = ''.'' then [] else base1) in
        if is_abs base \<noteq> is_abs targ then None
        else let bs = (if base = [] then [] else rel_elems base); ts = rel_elems targ; n = common_prefix bs ts in
          if drop n bs \<noteq> [] \<and> bs ! n = ''..'' then None
          else Some (join_on [SL] (replicate (length bs - n) ''..'' @ drop n ts)))"

definition below :: "string \<Rightarrow> string \<Rightarrow> string option" where
  "below dir target =
     (case filepath_rel dir target of
        None \<Rightarrow> None
      | Some rel \<Rightarrow> if rel = ''..'' \<or> has_prefix rel ''../'' then None else Some rel)"

section \<open>Plain paths\<close>

text \<open>The text of a list of elements, and the clean form of a relative path by its segments.\<close>

definition path_text :: "string list \<Rightarrow> string" where
  "path_text es = (if es = [] then ''.'' else join_on [SL] es)"

lemma segments_mem: "e \<in> set (segments p) \<Longrightarrow> e \<noteq> [] \<and> e \<noteq> ''.'' \<and> SL \<notin> set e"
  by (auto simp: segments_def dest: split_on_no_sep)

lemma segments_append: "segments (a @ SL # b) = segments a @ segments b"
  by (simp add: segments_def split_on_append_sep)

lemma segments_Nil [simp]: "segments [] = []" "segments ''.'' = []"
  by (simp_all add: segments_def)

lemma segments_join:
  assumes "\<forall>e \<in> set es. e \<noteq> [] \<and> e \<noteq> ''.'' \<and> SL \<notin> set e"
  shows "segments (path_text es) = es"
proof (cases "es = []")
  case False
  have "split_on SL (join_on [SL] es) = es" using False assms by (simp add: split_join)
  then show ?thesis using False assms by (simp add: path_text_def segments_def filter_id_conv)
qed (simp add: path_text_def)

lemma foldl_clean_segments:
  "foldl (clean_step r) st (filter (\<lambda>e. e \<noteq> [] \<and> e \<noteq> ''.'') es) = foldl (clean_step r) st es"
  by (induction es arbitrary: st) (auto simp: clean_step_def)

lemma clean_elems_segments: "clean_elems r (split_on SL p) = clean_elems r (segments p)"
  by (simp add: clean_elems_def segments_def foldl_clean_segments)

lemma path_clean_relative:
  assumes "\<not> is_abs p"
  shows "path_clean p = path_text (clean_elems False (segments p))"
proof -
  let ?es = "clean_elems False (segments p)"
  have "\<forall>e \<in> set ?es. e \<noteq> []" using clean_elems_mem[of _ False p] by (auto simp: clean_elems_segments)
  then have "join_on [SL] ?es = [] \<longleftrightarrow> ?es = []" by (rule join_elems_Nil_iff)
  then show ?thesis using assms by (simp add: path_clean_def path_text_def Let_def clean_elems_segments)
qed

lemma is_abs_path_text:
  assumes "\<forall>e \<in> set es. e \<noteq> [] \<and> SL \<notin> set e"
  shows "\<not> is_abs (path_text es)"
proof (cases es)
  case (Cons e es')
  then have "hd (join_on [SL] es) = hd e" using assms by (subst hd_join_elems) auto
  moreover have "hd e \<in> set e" using Cons assms by auto
  ultimately show ?thesis using Cons assms by (auto simp: path_text_def is_abs_def split: list.splits)
qed (simp add: path_text_def is_abs_def)

text \<open>A clean path as its elements, from the root or from the current directory.\<close>

definition plain_elems :: "string list \<Rightarrow> bool" where
  "plain_elems es \<longleftrightarrow> (\<forall>e \<in> set es. e \<noteq> [] \<and> e \<noteq> ''.'' \<and> e \<noteq> ''..'' \<and> SL \<notin> set e)"

definition place :: "bool \<Rightarrow> string list \<Rightarrow> string" where
  "place rooted es = (if rooted then SL # join_on [SL] es else path_text es)"

lemma is_abs_place: "plain_elems es \<Longrightarrow> is_abs (place rooted es) = rooted"
  using is_abs_path_text[of es] by (auto simp: place_def plain_elems_def is_abs_def)

lemma segments_place: "plain_elems es \<Longrightarrow> segments (place rooted es) = es"
proof -
  assume p: "plain_elems es"
  then have s: "segments (path_text es) = es" by (intro segments_join) (auto simp: plain_elems_def)
  have "segments (SL # join_on [SL] es) = segments (join_on [SL] es)" using segments_append[of "[]"] by simp
  moreover have "segments (join_on [SL] es) = es" using s by (cases es) (simp_all add: path_text_def)
  ultimately show ?thesis using s by (simp add: place_def)
qed

lemma path_clean_rooted: "is_abs p \<Longrightarrow> path_clean p = SL # join_on [SL] (clean_elems True (segments p))"
  by (simp add: path_clean_def clean_elems_segments)

lemma clean_plain: "plain_elems es \<Longrightarrow> clean_elems r es = es"
  by (simp add: clean_elems_def foldl_clean_plain plain_elems_def)

lemma path_clean_segments:
  "plain_elems (segments p) \<Longrightarrow> path_clean p = place (is_abs p) (segments p)"
  by (cases "is_abs p") (simp_all add: path_clean_rooted path_clean_relative clean_plain place_def)

lemma path_clean_place: "plain_elems es \<Longrightarrow> path_clean (place rooted es) = place rooted es"
  using path_clean_segments[of "place rooted es"] by (simp add: segments_place is_abs_place)

lemma plain_elems_butlast: "plain_elems es \<Longrightarrow> plain_elems (butlast es)"
  by (auto simp: plain_elems_def dest: in_set_butlastD)

lemma path_split_at: "SL \<notin> set b \<Longrightarrow> path_split (a @ SL # b) = (a @ [SL], b)"
proof -
  assume b: "SL \<notin> set b"
  have "takeWhile (\<lambda>c. c \<noteq> SL) (rev b @ SL # rev a) = rev b"
    by (subst takeWhile_append2) (use b in auto)
  moreover have "dropWhile (\<lambda>c. c \<noteq> SL) (rev b @ SL # rev a) = SL # rev a"
    by (subst dropWhile_append2) (use b in auto)
  ultimately show ?thesis by (simp add: path_split_def)
qed

lemma path_split_bare: "SL \<notin> set b \<Longrightarrow> path_split b = ([], b)"
proof -
  assume b: "SL \<notin> set b"
  then have "takeWhile (\<lambda>c. c \<noteq> SL) (rev b) = rev b" by (intro takeWhile_eq_all_conv[THEN iffD2]) auto
  moreover have "dropWhile (\<lambda>c. c \<noteq> SL) (rev b) = []" using b by (auto simp: dropWhile_eq_Nil_conv)
  ultimately show ?thesis by (simp only: path_split_def rev_rev_ident rev.simps)
qed

lemma join_snoc_elem: "join_on [SL] (es @ [e]) = (if es = [] then e else join_on [SL] es @ SL # e)"
  by (induction "[SL]" es rule: join_on.induct) auto

lemma path_dir_place:
  assumes "plain_elems es" "es \<noteq> []"
  shows "path_dir (place rooted es) = place rooted (butlast es)"
proof -
  obtain ds e where es: "es = ds @ [e]" using assms(2) by (cases es rule: rev_cases) auto
  have p: "plain_elems ds" "SL \<notin> set e" "e \<noteq> []" using assms(1) by (auto simp: es plain_elems_def)
  note nodir = path_split_bare[OF p(2)]
  have dir: "path_clean (q @ [SL]) = place (is_abs (q @ [SL])) ds" if "segments q = ds" for q
    using path_clean_segments[of "q @ [SL]"] segments_append[of q "[]"] that p(1) by simp
  show ?thesis
  proof (cases "rooted \<or> ds \<noteq> []")
    case True
    let ?q = "if rooted then (if ds = [] then [] else SL # join_on [SL] ds) else join_on [SL] ds"
    have t: "place rooted es = ?q @ SL # e" using True by (auto simp: place_def path_text_def es join_snoc_elem)
    have "segments ?q = ds" using segments_place[OF p(1), of rooted] True by (auto simp: place_def path_text_def)
    moreover have "is_abs (?q @ [SL]) = rooted"
    proof (cases rooted)
      case False
      then have "\<not> is_abs ?q" "?q \<noteq> []" using True is_abs_place[OF p(1), of False] \<open>segments ?q = ds\<close> by (auto simp: place_def path_text_def)
      then show ?thesis using False by (simp add: is_abs_append)
    qed (simp add: is_abs_def)
    ultimately show ?thesis unfolding path_dir_def t using dir[of ?q] path_split_at[OF p(2), of ?q] by (simp add: es)
  next
    case False
    then show ?thesis using nodir p(3) by (simp add: place_def path_text_def es path_dir_def path_clean_def is_abs_def clean_elems_def clean_step_def)
  qed
qed

section \<open>A spelled path leads back\<close>

lemma common_prefix_take: "take (common_prefix xs ys) xs = take (common_prefix xs ys) ys"
  by (induction xs ys rule: common_prefix.induct) auto

lemma common_prefix_le: "common_prefix xs ys \<le> length xs" "common_prefix xs ys \<le> length ys"
  by (induction xs ys rule: common_prefix.induct) auto

text \<open>Going up as often as there are plain elements on the stack removes them.\<close>

lemma foldl_clean_up:
  "\<forall>e \<in> set es. e \<noteq> ''..'' \<Longrightarrow> foldl (clean_step r) (es @ st) (replicate (length es) ''..'') = st"
  by (induction es) (auto simp: clean_step_def)

lemma clean_up_and_down:
  assumes "\<forall>e \<in> set fs. e \<noteq> [] \<and> e \<noteq> ''.'' \<and> e \<noteq> ''..''" "n = common_prefix fs ts"
  shows "clean_elems r (fs @ replicate (length fs - n) ''..'' @ drop n ts) = clean_elems r ts"
proof -
  have fs: "fs = take n fs @ drop n fs" by simp
  have top: "\<forall>e \<in> set (rev (drop n fs)). e \<noteq> ''..''" using assms(1) by (auto dest: in_set_dropD)
  have "foldl (clean_step r) [] fs = rev (drop n fs) @ rev (take n fs)"
    using foldl_clean_plain[OF assms(1), of r "[]"] by (simp flip: rev_append)
  moreover have "foldl (clean_step r) (rev (drop n fs) @ rev (take n fs)) (replicate (length fs - n) ''..'') = rev (take n fs)"
    using foldl_clean_up[OF top, of r "rev (take n fs)"] by simp
  moreover have "rev (take n fs) = foldl (clean_step r) [] (take n ts)"
  proof -
    have "take n ts = take n fs" using common_prefix_take[of fs ts] assms(2) by simp
    moreover have "\<forall>e \<in> set (take n fs). e \<noteq> [] \<and> e \<noteq> ''.'' \<and> e \<noteq> ''..''" using assms(1) by (meson in_set_takeD)
    ultimately show ?thesis by (simp add: foldl_clean_plain)
  qed
  moreover have "foldl (clean_step r) (foldl (clean_step r) [] (take n ts)) (drop n ts) = foldl (clean_step r) [] ts"
    by (simp flip: foldl_append)
  ultimately show ?thesis by (simp add: clean_elems_def)
qed

lemma relative_path_text:
  "relative_path base targ =
     path_text (replicate (length (segments base) - common_prefix (segments base) (segments targ)) ''..'' @
       drop (common_prefix (segments base) (segments targ)) (segments targ))"
  by (simp add: relative_path_def path_text_def Let_def)

lemma relative_path_elems:
  "e \<in> set (replicate n ''..'' @ drop m (segments p)) \<Longrightarrow> e \<noteq> [] \<and> e \<noteq> ''.'' \<and> SL \<notin> set e"
  using segments_mem[of e p] by (auto dest: in_set_dropD)

lemma path_join_relative:
  assumes "\<not> is_abs a" "b \<noteq> []" "\<not> is_abs b"
  shows "path_join [a, b] = path_text (clean_elems False (segments a @ segments b))"
proof (cases "a = []")
  case True
  then show ?thesis using assms by (simp add: path_join_def path_clean_relative)
next
  case False
  then have "\<not> is_abs (a @ SL # b)" using assms(1) by (simp add: is_abs_append)
  then show ?thesis using False assms(2) by (simp add: path_join_def path_clean_relative segments_append)
qed

text \<open>A spelling made explicit names the same path; so does the spelling of a file.\<close>

lemma segments_explicit: "segments (explicitly_relative p) = segments p"
  using segments_append[of "''.''" p] by (simp add: explicitly_relative_def)

lemma explicit_relative: "\<not> is_abs p \<Longrightarrow> \<not> is_abs (explicitly_relative p)"
  by (auto simp: explicitly_relative_def is_abs_def)

lemma explicit_neq_Nil: "explicitly_relative p \<noteq> []"
  by (auto simp: explicitly_relative_def)

lemma relative_path_spec:
  "\<not> is_abs (relative_path base targ) \<and> relative_path base targ \<noteq> [] \<and>
   segments (relative_path base targ) = replicate (length (segments base) - common_prefix (segments base) (segments targ)) ''..'' @
     drop (common_prefix (segments base) (segments targ)) (segments targ)"
proof -
  let ?n = "common_prefix (segments base) (segments targ)"
  let ?r = "replicate (length (segments base) - ?n) ''..'' @ drop ?n (segments targ)"
  have r: "\<forall>e \<in> set ?r. e \<noteq> [] \<and> e \<noteq> ''.'' \<and> SL \<notin> set e" using relative_path_elems by blast
  have "path_text ?r \<noteq> []" using r join_elems_Nil_iff[of ?r] by (auto simp: path_text_def)
  moreover have "\<not> is_abs (path_text ?r)" using r by (intro is_abs_path_text) blast
  ultimately show ?thesis unfolding relative_path_text using segments_join[OF r] by simp
qed

lemma path_base_place:
  assumes "plain_elems es" "es \<noteq> []"
  shows "path_base (place rooted es) = last es"
proof -
  obtain ds e where es: "es = ds @ [e]" using assms(2) by (cases es rule: rev_cases) auto
  have e: "SL \<notin> set e" "e \<noteq> []" using assms(1) by (auto simp: es plain_elems_def)
  have t: "\<exists>q. place rooted es = q @ SL # e \<or> place rooted es = e"
    by (auto simp: place_def path_text_def es join_snoc_elem)
  then have l: "rev (dropWhile (\<lambda>c. c = SL) (rev (place rooted es))) = place rooted es"
  proof -
    obtain r where "rev (place rooted es) = rev e @ r" using t by auto
    moreover have "rev e \<noteq> []" "hd (rev e) \<noteq> SL" using e by (auto simp: hd_rev) (metis last_in_set)
    ultimately have "dropWhile (\<lambda>c. c = SL) (rev (place rooted es)) = rev (place rooted es)" by (cases "rev e") auto
    then show ?thesis by simp
  qed
  have n: "place rooted es \<noteq> []" using t e(2) by auto
  have "snd (path_split (place rooted es)) = e" using t path_split_at[OF e(1)] path_split_bare[OF e(1)] by auto
  then show ?thesis using l n by (simp add: path_base_def es Let_def)
qed

lemma file_relative_resolves:
  assumes "\<not> is_abs dir" "''..'' \<notin> set (segments dir)" "plain_elems es" "es \<noteq> []"
  shows "path_join [dir, file_relative dir (place False es)] = place False es"
proof -
  let ?f = "place False es" let ?b = "last es" let ?ts = "butlast es"
  let ?n = "common_prefix (segments dir) ?ts" let ?ups = "replicate (length (segments dir) - ?n) ''..''"
  have b: "?b \<noteq> []" "?b \<noteq> ''.''" "SL \<notin> set ?b" using assms(3,4) last_in_set[of es] by (auto simp: plain_elems_def)
  have sb: "segments ?b = [?b]" using segments_join[of "[?b]"] b by (simp add: path_text_def)
  have d: "path_dir ?f = place False ?ts" and base: "path_base ?f = ?b"
    using path_dir_place[OF assms(3,4)] path_base_place[OF assms(3,4)] by simp_all
  have sd: "segments (path_dir ?f) = ?ts" unfolding d by (rule segments_place) (rule plain_elems_butlast[OF assms(3)])
  note r = relative_path_spec[of dir "path_dir ?f", unfolded sd]
  let ?p = "relative_path dir (path_dir ?f) @ ''/'' @ ?b"
  have seg: "segments (file_relative dir ?f) = ?ups @ drop ?n ?ts @ [?b]"
    using r segments_append[of "relative_path dir (path_dir ?f)" ?b] by (simp add: file_relative_def base segments_explicit sb)
  have rel: "\<not> is_abs (file_relative dir ?f)" "file_relative dir ?f \<noteq> []"
    using r by (auto simp: file_relative_def base explicit_neq_Nil is_abs_append intro!: explicit_relative)
  have "path_join [dir, file_relative dir ?f] = path_text (clean_elems False (segments dir @ ?ups @ drop ?n ?ts @ [?b]))"
    using path_join_relative[OF assms(1) rel(2,1)] seg by simp
  also have "clean_elems False (segments dir @ ?ups @ drop ?n ?ts @ [?b]) = clean_elems False (?ts @ [?b])"
  proof -
    have plain: "\<forall>e \<in> set (segments dir). e \<noteq> [] \<and> e \<noteq> ''.'' \<and> e \<noteq> ''..''" using assms(2) segments_mem by metis
    have "clean_elems False (segments dir @ ?ups @ drop ?n ?ts) = clean_elems False ?ts" by (rule clean_up_and_down[OF plain refl])
    then show ?thesis by (simp add: clean_elems_def)
  qed
  also have "path_text (clean_elems False (?ts @ [?b])) = ?f"
    using assms(3,4) clean_plain[OF assms(3), of False] by (simp add: place_def)
  finally show ?thesis .
qed

text \<open>Only the clean form of a path matters to a join.\<close>

lemma foldl_clean_again:
  "(\<forall>e \<in> set (foldl (clean_step False) [] es). e \<noteq> [] \<and> e \<noteq> ''.'') \<and>
   foldl (clean_step r) st (rev (foldl (clean_step False) [] es)) = foldl (clean_step r) st es"
proof (induction es rule: rev_induct)
  case (snoc e es)
  let ?c = "foldl (clean_step False) [] es"
  consider "e = [] \<or> e = ''.''" | "e = ''..''" "?c = []" | t ts where "e = ''..''" "?c = t # ts" | "e \<noteq> []" "e \<noteq> ''.''" "e \<noteq> ''..''"
    by (cases ?c) auto
  then show ?case
  proof cases
    case 3
    have "clean_step r (clean_step r x t) ''..'' = x" if "t \<noteq> ''..''" "t \<noteq> []" "t \<noteq> ''.''" for x
      using that by (simp add: clean_step_def)
    moreover have "foldl (clean_step False) [] (es @ [e]) = (if t = ''..'' then ''..'' # t # ts else ts)"
      unfolding foldl_append using 3 by (simp add: clean_step_def)
    moreover have t: "t \<noteq> [] \<and> t \<noteq> ''.''" and rest: "\<forall>u \<in> set ts. u \<noteq> [] \<and> u \<noteq> ''.''"
      and same: "clean_step r (foldl (clean_step r) st (rev ts)) t = foldl (clean_step r) st es"
      using snoc unfolding 3(2) by simp_all
    ultimately show ?thesis using 3(1) by (simp flip: same)
  next
    case 1
    then have "clean_step q x e = x" for q x by (simp add: clean_step_def)
    then show ?thesis using snoc by simp
  next
    case 2
    then have "foldl (clean_step r) st es = st" using snoc by (metis foldl_Nil rev.simps(1))
    moreover have "foldl (clean_step False) [] (es @ [e]) = [''..'']" unfolding foldl_append 2(2) by (simp add: clean_step_def 2(1))
    ultimately show ?thesis using 2(1) by simp
  next
    case 4
    then have "clean_step q x e = e # x" for q x by (simp add: clean_step_def)
    then show ?thesis using snoc 4 by simp
  qed
qed simp

lemma clean_elems_again: "clean_elems r (as @ clean_elems False es) = clean_elems r (as @ es)"
  using foldl_clean_again[of es r "foldl (clean_step r) [] as"] by (simp add: clean_elems_def)

lemma path_join_clean:
  assumes "\<not> is_abs a" "\<not> is_abs b" "b \<noteq> []" "\<not> is_abs c" "c \<noteq> []" "path_clean b = path_clean c"
  shows "path_join [a, b] = path_join [a, c]"
proof -
  have t: "segments (path_clean p) = clean_elems False (segments p)" if "\<not> is_abs p" for p
    unfolding path_clean_relative[OF that]
    by (rule segments_join) (use clean_elems_mem[of _ False p] in \<open>simp add: clean_elems_segments\<close>)
  have "clean_elems False (segments b) = clean_elems False (segments c)" using t[OF assms(2)] t[OF assms(4)] assms(6) by simp
  then have "clean_elems False (segments a @ segments b) = clean_elems False (segments a @ segments c)"
    using clean_elems_again[of False "segments a" "segments b"] clean_elems_again[of False "segments a" "segments c"] by simp
  then show ?thesis using path_join_relative[OF assms(1,3,2)] path_join_relative[OF assms(1,5,4)] by simp
qed

lemma file_relative_spec: "\<not> is_abs (file_relative dir f) \<and> file_relative dir f \<noteq> []"
  using relative_path_spec[of dir "path_dir f"]
  by (auto simp: file_relative_def explicit_neq_Nil is_abs_append intro!: explicit_relative)

text \<open>Joined to the directory it was spelled from, a relative path leads to its target.\<close>

theorem relative_path_resolves:
  assumes "\<not> is_abs base" "\<not> is_abs targ" "''..'' \<notin> set (segments base)"
  shows "path_join [base, relative_path base targ] = path_clean targ"
proof -
  let ?n = "common_prefix (segments base) (segments targ)"
  let ?r = "replicate (length (segments base) - ?n) ''..'' @ drop ?n (segments targ)"
  have plain: "\<forall>e \<in> set (segments base). e \<noteq> [] \<and> e \<noteq> ''.'' \<and> e \<noteq> ''..''" using assms(3) segments_mem by metis
  have r: "\<forall>e \<in> set ?r. e \<noteq> [] \<and> e \<noteq> ''.'' \<and> SL \<notin> set e" using relative_path_elems by blast
  have "path_text ?r \<noteq> []" using r join_elems_Nil_iff[of ?r] by (auto simp: path_text_def)
  moreover have "\<not> is_abs (path_text ?r)" using r by (intro is_abs_path_text) blast
  ultimately have "path_join [base, path_text ?r] = path_text (clean_elems False (segments base @ ?r))"
    using path_join_relative[OF assms(1), of "path_text ?r"] segments_join[OF r] by simp
  also have "\<dots> = path_text (clean_elems False (segments targ))" using clean_up_and_down[OF plain refl] by simp
  also have "\<dots> = path_clean targ" using assms(2) by (simp add: path_clean_relative)
  finally show ?thesis by (simp add: relative_path_text)
qed

theorem relative_path_resolves_witness:
  "path_join [''bazel-out/k8/bin/app'', relative_path ''bazel-out/k8/bin/app'' ''lib/../lib/a.ts''] = ''lib/a.ts''"
proof -
  have "path_clean ''lib/../lib/a.ts'' = ''lib/a.ts''" by code_simp
  then show ?thesis
    using relative_path_resolves[of "''bazel-out/k8/bin/app''" "''lib/../lib/a.ts''"] by (simp add: is_abs_def segments_def)
qed

end
