(* ===== verification/Producers.thy ===== *)
theory Producers imports Emission Proto ActionPaths begin

text \<open>
  Which rule produces a file, \<open>gazelle/resolve.go\<close>: the outputs a rule declares, the index of a
  package's outputs, the scan of the packages above a file, which observes the rules it meets, and
  the walk to the codegen tree that holds a file.  The memos of these answers are not in the model.
\<close>

section \<open>Declared outputs\<close>

record output_decls =
  od_files :: "string list"
  od_tree :: string
  od_incomplete :: string

definition literal_values :: "expr option \<Rightarrow> string list \<times> bool" where
  \<comment> \<open>the literal strings of an attribute, and whether they are all of it\<close>
  "literal_values e =
     (case e of
        None \<Rightarrow> ([], True)
      | Some (StringExpr s _) \<Rightarrow> ([s], True)
      | Some (ListExpr es) \<Rightarrow> (string_values es, list_all is_string_expr es)
      | Some _ \<Rightarrow> ([], False))"

definition local_output :: "label_api \<Rightarrow> string \<Rightarrow> string \<Rightarrow> string \<Rightarrow> string option" where
  "local_output api repo pkg text =
     (case parse_label api text of
        None \<Rightarrow> None
      | Some l \<Rightarrow>
          let out = label_identity api l repo pkg in
          if \<not> lb_canonical out \<and> lb_repo out = repo \<and> lb_pkg out = pkg then Some (lb_name out) else None)"

definition add_outputs :: "label_api \<Rightarrow> build_rule \<Rightarrow> string \<Rightarrow> string \<Rightarrow> string \<Rightarrow> output_decls \<Rightarrow> output_decls" where
  "add_outputs api r repo pkg key d =
     (let (values, whole) = literal_values (ru_attr r key) in
      d\<lparr>od_files := od_files d @ List.map_filter (local_output api repo pkg) values,
        od_incomplete := (if whole then od_incomplete d else key)\<rparr>)"

definition rule_outputs :: "label_api \<Rightarrow> build_rule \<Rightarrow> string \<Rightarrow> string \<Rightarrow> output_decls" where
  "rule_outputs api r repo pkg =
     (let d = fold (add_outputs api r repo pkg) [''out'', ''outs''] \<lparr>od_files = [], od_tree = [], od_incomplete = []\<rparr> in
      if ru_kind r = ''ts_codegen''
      then (case ru_attr r ''out_dir'' of
              None \<Rightarrow> d
            | Some (StringExpr s _) \<Rightarrow> d\<lparr>od_tree := s\<rparr>
            | Some _ \<Rightarrow> d\<lparr>od_incomplete := ''out_dir''\<rparr>)
      else d)"

definition codegen_tree_key :: "string \<Rightarrow> string" where
  "codegen_tree_key root = ''ts_codegen_tree:'' @ root"

definition codegen_tree_specs :: "label_api \<Rightarrow> build_rule \<Rightarrow> string \<Rightarrow> string list" where
  "codegen_tree_specs api r pkg =
     (let outDir = od_tree (rule_outputs api r [] pkg); root = path_join [pkg, outDir] in
      if outDir = [] then [] else [root, codegen_tree_key root])"

section \<open>The packages above a file\<close>

record producer_env =
  pv_env :: emission_env
  pv_files :: "(string \<times> build_rule list) list"  \<comment> \<open>\<open>emission.files\<close>: the rules of the BUILD files\<close>
  pv_indexed :: bool  \<comment> \<open>whether Gazelle's index is complete\<close>

definition pv_key :: "producer_env \<Rightarrow> string \<Rightarrow> build_rule \<Rightarrow> string" where
  "pv_key pv dir r = emission_label (ee_api (pv_env pv)) (ee_repo (pv_env pv)) dir ('':'' @ ru_name r)"

definition pv_outputs :: "producer_env \<Rightarrow> string \<Rightarrow> build_rule \<Rightarrow> output_decls" where
  "pv_outputs pv dir r = rule_outputs (ee_api (pv_env pv)) r (ee_repo (pv_env pv)) dir"

text \<open>\<open>observeBuild\<close>: the rules of a directory and of the ones above it are stored, from the root
  down, where none is stored yet.\<close>

definition observe_rules :: "(string \<times> build_rule) list \<Rightarrow> stored \<Rightarrow> stored" where
  "observe_rules = fold (\<lambda>(key, r) st. if map_of st key = None then AList.update key r st else st)"

definition dir_rules :: "producer_env \<Rightarrow> string \<Rightarrow> (string \<times> build_rule) list" where
  "dir_rules pv dir = (case map_of (pv_files pv) dir of None \<Rightarrow> [] | Some rs \<Rightarrow> map (\<lambda>r. (pv_key pv dir r, r)) rs)"

definition chain_rules :: "producer_env \<Rightarrow> string \<Rightarrow> (string \<times> build_rule) list" where
  "chain_rules pv pkg = concat (map (dir_rules pv) (rev (dirs_up pkg)))"

definition observe_build :: "producer_env \<Rightarrow> string \<Rightarrow> stored \<Rightarrow> stored" where
  "observe_build pv pkg st = observe_rules (chain_rules pv pkg) st"

definition semantic_at :: "producer_env \<Rightarrow> stored \<Rightarrow> string \<Rightarrow> build_rule \<Rightarrow> build_rule" where
  \<comment> \<open>\<open>semanticRule\<close> of a rule of a BUILD file, which is stored when it is asked for\<close>
  "semantic_at pv st dir r = (case semantic_rule (pv_env pv) st (pv_key pv dir r) of None \<Rightarrow> r | Some s \<Rightarrow> s)"

section \<open>The index of a package\<close>

record package_outputs =
  po_producers :: "build_rule list"
  po_files :: "(string \<times> nat) list"
  po_trees :: "(string \<times> nat) list"
  po_incomplete :: "nat option"

definition add_producer :: "producer_env \<Rightarrow> string \<Rightarrow> nat \<times> build_rule \<Rightarrow> package_outputs \<Rightarrow> package_outputs" where
  "add_producer pv dir ip po =
     (let (i, producer) = ip; outs = pv_outputs pv dir producer; root = path_join [dir, od_tree outs] in
      po\<lparr>po_producers := po_producers po @ [producer],
         po_incomplete := (if od_incomplete outs \<noteq> [] \<and> po_incomplete po = None then Some i else po_incomplete po),
         po_trees := po_trees po @ (if od_tree outs \<noteq> [] then [(root, i)] else []),
         po_files := fold (\<lambda>out fs. let f = path_join [dir, out] in if map_of fs f = None then fs @ [(f, i)] else fs)
           (od_files outs) (po_files po)\<rparr>)"

text \<open>None while a rule of the package is not stored.\<close>

definition package_outputs :: "producer_env \<Rightarrow> stored \<Rightarrow> string \<Rightarrow> build_rule list \<Rightarrow> package_outputs option" where
  "package_outputs pv st dir rs =
     (if list_ex (\<lambda>r. map_of st (pv_key pv dir r) = None) rs then None
      else Some (fold (add_producer pv dir) (enumerate 0 (map (semantic_at pv st dir) rs))
        \<lparr>po_producers = [], po_files = [], po_trees = [], po_incomplete = None\<rparr>))"

section \<open>The producer of a file\<close>

type_synonym found_output = "build_rule \<times> string \<times> string"  \<comment> \<open>the rule, its package, the root\<close>

definition deeper :: "string \<Rightarrow> found_output \<Rightarrow> found_output option \<Rightarrow> found_output option" where
  \<comment> \<open>a tree that holds the file replaces a shallower one\<close>
  "deeper f t best =
     (let (r, pkg, root) = t in
      if within f root \<and> (case best of None \<Rightarrow> True | Some (_, _, root') \<Rightarrow> length root' < length root) then Some t else best)"

definition index_trees :: "package_outputs \<Rightarrow> string \<Rightarrow> found_output list" where
  "index_trees po dir = map (\<lambda>(root, i). (po_producers po ! i, dir, root)) (po_trees po)"

text \<open>\<open>ancestorTrees\<close>: the trees from a directory up, and whether every package was stored.  The
  recursion from a rooted path would not end, which is None.\<close>

function ancestor_trees :: "producer_env \<Rightarrow> stored \<Rightarrow> string \<Rightarrow> (found_output list \<times> bool) option" where
  "ancestor_trees pv st dir =
     (let (trees, known) =
        (case map_of (pv_files pv) dir of
           None \<Rightarrow> ([], True)
         | Some rs \<Rightarrow>
             (case package_outputs pv st dir rs of
                None \<Rightarrow> ([], False)
              | Some po \<Rightarrow> (index_trees po dir, True)))
      in if known \<and> dir \<noteq> [] then
           (if dir = [SL] then None
            else map_option (\<lambda>(above, known'). (trees @ above, known')) (ancestor_trees pv st (parent_dir dir)))
         else Some (trees, known))"
  by pat_completeness auto
termination
  by (relation "measure (\<lambda>(pv, st, dir). length dir)") (auto simp: parent_dir_shorter)

declare ancestor_trees.simps [simp del]

text \<open>The ordered scan of a package with a rule that is not stored: it observes the package, and the
  ones above it, on the way.  The first file found ends it.\<close>

fun scan_rules ::
    "producer_env \<Rightarrow> string \<Rightarrow> bool \<Rightarrow> string \<Rightarrow> build_rule list \<Rightarrow> found_output option \<Rightarrow> stored
     \<Rightarrow> (found_output + found_output option) \<times> stored" where
  "scan_rules pv f tree dir [] best st = (Inr best, st)"
| "scan_rules pv f tree dir (r # rs) best st =
     (let st' = (if map_of st (pv_key pv dir r) = None then observe_build pv dir st else st);
          s = semantic_at pv st' dir r; outs = pv_outputs pv dir s in
      if tree
      then scan_rules pv f tree dir rs
        (if od_tree outs \<noteq> [] then deeper f (s, dir, path_join [dir, od_tree outs]) best else best) st'
      else if list_ex (\<lambda>out. path_join [dir, out] = f) (od_files outs) then (Inl (s, dir, f), st')
      else scan_rules pv f tree dir rs best st')"

definition scan_package ::
    "producer_env \<Rightarrow> string \<Rightarrow> bool \<Rightarrow> string \<Rightarrow> found_output option \<Rightarrow> stored \<Rightarrow> (found_output + found_output option) \<times> stored" where
  "scan_package pv f tree dir best st =
     (case map_of (pv_files pv) dir of
        None \<Rightarrow> (Inr best, st)
      | Some rs \<Rightarrow>
          (case package_outputs pv st dir rs of
             None \<Rightarrow> scan_rules pv f tree dir rs best st
           | Some po \<Rightarrow>
               if tree then (Inr (fold (deeper f) (index_trees po dir) best), st)
               else (case map_of (po_files po) f of
                       Some i \<Rightarrow> (Inl (po_producers po ! i, dir, f), st)
                     | None \<Rightarrow> (Inr best, st))))"

function scan_up ::
    "producer_env \<Rightarrow> string \<Rightarrow> bool \<Rightarrow> string \<Rightarrow> found_output option \<Rightarrow> stored \<Rightarrow> (found_output option \<times> stored) option" where
  "scan_up pv f tree dir best st =
     (case scan_package pv f tree dir best st of
        (Inl found, st') \<Rightarrow> Some (Some found, st')
      | (Inr best', st') \<Rightarrow>
          if dir = [] then Some (best', st')
          else if dir = [SL] then None
          else scan_up pv f tree (parent_dir dir) best' st')"
  by pat_completeness auto
termination
  by (relation "measure (\<lambda>(pv, f, tree, dir, best, st). length dir)") (auto simp: parent_dir_shorter)

declare scan_up.simps [simp del]

definition declared_output_producer ::
    "producer_env \<Rightarrow> string \<Rightarrow> bool \<Rightarrow> stored \<Rightarrow> (found_output option \<times> stored) option" where
  "declared_output_producer pv f tree st =
     (if tree \<and> pv_indexed pv
      then (case ancestor_trees pv st (parent_dir f) of
              None \<Rightarrow> None
            | Some (trees, known) \<Rightarrow>
                if known then Some (fold (deeper f) trees None, st) else scan_up pv f tree (parent_dir f) None st)
      else scan_up pv f tree (parent_dir f) None st)"

definition output_producer :: "producer_env \<Rightarrow> string \<Rightarrow> stored \<Rightarrow> ((build_rule \<times> string) option \<times> stored) option" where
  "output_producer pv f st =
     map_option (\<lambda>(r, st'). (map_option (\<lambda>(r, pkg, _). (r, pkg)) r, st')) (declared_output_producer pv f False st)"

section \<open>The codegen tree of a file\<close>

text \<open>Gazelle's index answers the rules under the key of a tree; the first is taken.\<close>

function tree_walk :: "(string \<Rightarrow> label list) option \<Rightarrow> found_output option \<Rightarrow> string \<Rightarrow> string \<Rightarrow> label option" where
  "tree_walk ix declared repo dir =
     (if dir = [] \<or> dir = ''.'' \<or> dir = [SL] \<or> dir = ''..'' then None
      else case (case ix of None \<Rightarrow> [] | Some lookup \<Rightarrow> lookup (codegen_tree_key dir)) of
        l # _ \<Rightarrow> Some l
      | [] \<Rightarrow>
          (case declared of
             Some (r, pkg, root) \<Rightarrow>
               if dir = root
               then Some \<lparr>lb_repo = repo, lb_pkg = pkg, lb_name = ru_name r, lb_relative = False, lb_canonical = False\<rparr>
               else tree_walk ix declared repo (path_dir dir)
           | None \<Rightarrow> tree_walk ix declared repo (path_dir dir)))"
  by pat_completeness auto
termination
  by (relation "measure (\<lambda>(ix, declared, repo, dir). if dir = ''.'' then 0 else Suc (length dir))") (auto intro: path_dir_shorter)

declare tree_walk.simps [simp del]

definition codegen_tree_owner ::
    "producer_env \<Rightarrow> (string \<Rightarrow> label list) option \<Rightarrow> string \<Rightarrow> stored \<Rightarrow> (label option \<times> stored) option" where
  "codegen_tree_owner pv ix imp st =
     (if imp = [] \<or> imp = ''.'' \<or> imp = ''..'' \<or> \<not> firstParty imp then Some (None, st)
      else map_option (\<lambda>(declared, st'). (tree_walk ix declared (ee_repo (pv_env pv)) imp, st')) (declared_output_producer pv imp True st))"

definition resolve_codegen_tree ::
    "producer_env \<Rightarrow> (string \<Rightarrow> label list) option \<Rightarrow> string \<Rightarrow> label \<Rightarrow> stored \<Rightarrow> (string option \<times> stored) option" where
  \<comment> \<open>Some of the empty text for a tree of the rule that asks\<close>
  "resolve_codegen_tree pv ix imp ask st =
     map_option (\<lambda>(found, st').
       (map_option (\<lambda>l. if l = ask then [] else
          la_string (ee_api (pv_env pv)) (relative_label (ee_api (pv_env pv)) l (lb_repo ask) (lb_pkg ask))) found, st'))
       (codegen_tree_owner pv ix imp st)"

section \<open>Observing adds what is missing\<close>

lemma observe_rules_map: "map_of (observe_rules L st) k = (case map_of st k of Some x \<Rightarrow> Some x | None \<Rightarrow> map_of L k)"
proof (induction L arbitrary: st)
  case (Cons kr L)
  obtain key r where kr: "kr = (key, r)" by (cases kr)
  have "observe_rules (kr # L) st = observe_rules L (if map_of st key = None then AList.update key r st else st)"
    by (simp add: observe_rules_def kr)
  then show ?case by (simp add: Cons.IH kr update_conv' split: option.split)
qed (simp add: observe_rules_def split: option.split)

lemma chain_rules_Cons:
  "dir \<noteq> [] \<Longrightarrow> dir \<noteq> [SL] \<Longrightarrow> chain_rules pv dir = chain_rules pv (parent_dir dir) @ dir_rules pv dir"
  by (subst chain_rules_def, subst dirs_up.simps) (simp add: chain_rules_def)

lemma chain_rules_dir: "\<exists>L. chain_rules pv dir = L @ dir_rules pv dir"
  by (subst chain_rules_def, subst dirs_up.simps) (simp add: chain_rules_def)

text \<open>A store between what was stored and what observing a directory stores.\<close>

definition between :: "stored \<Rightarrow> stored \<Rightarrow> stored \<Rightarrow> bool" where
  "between lo st hi \<longleftrightarrow> map_of lo \<subseteq>\<^sub>m map_of st \<and> map_of st \<subseteq>\<^sub>m map_of hi"

lemma between_observe:
  assumes "between lo st (observe_build pv d lo)" "chain_rules pv d = chain_rules pv dir @ rest"
  shows "between lo (observe_build pv dir st) (observe_build pv d lo)"
proof -
  have "map_of (observe_build pv dir st) k = Some x \<Longrightarrow> map_of (observe_build pv d lo) k = Some x" for k x
    using assms unfolding between_def map_le_def observe_build_def observe_rules_map
    by (force split: option.splits)
  moreover have "map_of lo k = Some x \<Longrightarrow> map_of (observe_build pv dir st) k = Some x" for k x
    using assms(1) by (force simp: between_def map_le_def observe_build_def observe_rules_map)
  ultimately show ?thesis by (force simp: between_def map_le_def)
qed

lemma observe_build_stored: "r \<in> set rs \<Longrightarrow> map_of (pv_files pv) dir = Some rs \<Longrightarrow> map_of (observe_build pv dir st) (pv_key pv dir r) \<noteq> None"
proof -
  assume r: "r \<in> set rs" "map_of (pv_files pv) dir = Some rs"
  obtain L where "chain_rules pv dir = L @ dir_rules pv dir" using chain_rules_dir by blast
  moreover have "map_of (dir_rules pv dir) (pv_key pv dir r) \<noteq> None" using r by (auto simp: dir_rules_def map_of_eq_None_iff image_image)
  ultimately show ?thesis by (simp add: observe_build_def observe_rules_map map_add_def split: option.split)
qed

lemma semantic_at_between:
  "between lo st hi \<Longrightarrow> map_of st (pv_key pv dir r) \<noteq> None \<Longrightarrow> semantic_at pv st dir r = semantic_at pv hi dir r"
  by (force simp: between_def map_le_def semantic_at_def semantic_rule_def split: option.splits)

section \<open>The reference: the packages above a file, all stored\<close>

definition dir_outputs :: "producer_env \<Rightarrow> stored \<Rightarrow> string \<Rightarrow> (build_rule \<times> output_decls) list" where
  "dir_outputs pv st dir =
     (case map_of (pv_files pv) dir of None \<Rightarrow> [] | Some rs \<Rightarrow> map (\<lambda>r. let s = semantic_at pv st dir r in (s, pv_outputs pv dir s)) rs)"

definition first_output :: "producer_env \<Rightarrow> stored \<Rightarrow> string \<Rightarrow> string \<Rightarrow> found_output option" where
  "first_output pv st f dir =
     map_option (\<lambda>(s, _). (s, dir, f)) (find (\<lambda>(s, outs). f \<in> (\<lambda>out. path_join [dir, out]) ` set (od_files outs)) (dir_outputs pv st dir))"

fun first_some :: "('a \<Rightarrow> 'b option) \<Rightarrow> 'a list \<Rightarrow> 'b option" where
  "first_some g [] = None"
| "first_some g (x # xs) = (case g x of Some y \<Rightarrow> Some y | None \<Rightarrow> first_some g xs)"

definition dir_trees :: "producer_env \<Rightarrow> stored \<Rightarrow> string \<Rightarrow> found_output list" where
  "dir_trees pv st dir =
     List.map_filter (\<lambda>(s, outs). if od_tree outs \<noteq> [] then Some (s, dir, path_join [dir, od_tree outs]) else None) (dir_outputs pv st dir)"

text \<open>A package answers like the reference, whether its index or its scan answers.\<close>

lemma map_filter_Cons: "List.map_filter f (x # xs) = (case f x of None \<Rightarrow> List.map_filter f xs | Some y \<Rightarrow> y # List.map_filter f xs)"
  by (simp add: List.map_filter_def split: option.split)

lemma add_producers:
  "fold (add_producer pv dir) (enumerate n ps) po =
    po\<lparr>po_producers := po_producers po @ ps,
       po_incomplete := po_incomplete (fold (add_producer pv dir) (enumerate n ps) po),
       po_trees := po_trees po @ concat (map (\<lambda>(i, p). let t = od_tree (pv_outputs pv dir p) in if t \<noteq> [] then [(path_join [dir, t], i)] else []) (enumerate n ps)),
       po_files := po_files (fold (add_producer pv dir) (enumerate n ps) po)\<rparr>"
proof (induction ps arbitrary: n po)
  case (Cons p ps)
  show ?case by (simp, subst Cons.IH) (simp add: add_producer_def Let_def)
qed simp

lemma new_files:
  "map_of (fold (\<lambda>out fs. let f = path_join [dir, out] in if map_of fs f = None then fs @ [(f, i)] else fs) outs fs) x =
    (case map_of fs x of Some j \<Rightarrow> Some j | None \<Rightarrow> if x \<in> (\<lambda>out. path_join [dir, out]) ` set outs then Some i else None)"
proof (induction outs arbitrary: fs)
  case (Cons out outs)
  show ?case unfolding fold_simps(2) Cons.IH by (auto simp: Let_def split: option.splits)
qed (simp split: option.split)

lemma producers_files:
  "map_of (po_files (fold (add_producer pv dir) (enumerate n ps) po)) x =
    (case map_of (po_files po) x of Some j \<Rightarrow> Some j
     | None \<Rightarrow> map_option fst (find (\<lambda>(i, p). x \<in> (\<lambda>out. path_join [dir, out]) ` set (od_files (pv_outputs pv dir p))) (enumerate n ps)))"
proof (induction ps arbitrary: n po)
  case (Cons p ps)
  have files: "map_of (po_files (add_producer pv dir (n, p) po)) x =
      (case map_of (po_files po) x of Some j \<Rightarrow> Some j
       | None \<Rightarrow> if x \<in> (\<lambda>out. path_join [dir, out]) ` set (od_files (pv_outputs pv dir p)) then Some n else None)"
    unfolding add_producer_def Let_def prod.case using new_files[of dir n "od_files (pv_outputs pv dir p)" "po_files po" x, unfolded Let_def] by simp
  show ?case unfolding enumerate_simps(2) fold_simps(2) Cons.IH files by (simp split: option.split)
qed (simp split: option.split)

lemma find_enumerate:
  "case find (\<lambda>(i, p). P p) (enumerate n ps) of None \<Rightarrow> find P ps = None
   | Some (i, p) \<Rightarrow> find P ps = Some p \<and> n \<le> i \<and> ps ! (i - n) = p"
proof (induction ps arbitrary: n)
  case (Cons q ps)
  show ?case
  proof (cases "P q")
    case False
    then show ?thesis using Cons.IH[of "Suc n"] by (auto simp: nth_Cons' split: option.splits prod.splits)
  qed simp
qed simp

lemma find_map: "find P (map g xs) = map_option g (find (\<lambda>x. P (g x)) xs)"
  by (induction xs) auto

lemma index_trees_list:
  assumes "\<And>j. j < length ps \<Longrightarrow> qs ! (n + j) = ps ! j"
  shows "map (\<lambda>(root, i). (qs ! i, dir, root))
      (concat (map (\<lambda>(i, p). let t = od_tree (pv_outputs pv dir p) in if t \<noteq> [] then [(path_join [dir, t], i)] else []) (enumerate n ps))) =
    List.map_filter (\<lambda>(s, outs). if od_tree outs \<noteq> [] then Some (s, dir, path_join [dir, od_tree outs]) else None) (map (\<lambda>s. (s, pv_outputs pv dir s)) ps)"
  using assms
proof (induction ps arbitrary: n)
  case (Cons p ps)
  have "qs ! n = p" using Cons.prems[of 0] by simp
  moreover have "qs ! (Suc n + j) = ps ! j" if "j < length ps" for j using Cons.prems[of "Suc j"] that by simp
  note Cons.IH[OF this]
  ultimately show ?case by (simp add: map_filter_Cons Let_def)
qed (simp add: map_filter_simps)

lemma package_outputs_reference:
  assumes "package_outputs pv st dir rs = Some po" "map_of (pv_files pv) dir = Some rs" "between lo st hi"
  shows "(case map_of (po_files po) f of None \<Rightarrow> None | Some i \<Rightarrow> Some (po_producers po ! i, dir, f)) = first_output pv hi f dir \<and>
    index_trees po dir = dir_trees pv hi dir"
proof -
  let ?ps = "map (semantic_at pv st dir) rs"
  let ?P = "\<lambda>p. f \<in> (\<lambda>out. path_join [dir, out]) ` set (od_files (pv_outputs pv dir p))"
  have stored: "\<forall>r \<in> set rs. map_of st (pv_key pv dir r) \<noteq> None" using assms(1) by (auto simp: package_outputs_def list_ex_iff split: if_splits)
  have same: "map (semantic_at pv st dir) rs = map (semantic_at pv hi dir) rs"
    by (rule map_cong[OF refl], rule semantic_at_between[OF assms(3)]) (use stored in blast)
  have po: "po = fold (add_producer pv dir) (enumerate 0 ?ps) \<lparr>po_producers = [], po_files = [], po_trees = [], po_incomplete = None\<rparr>"
    using assms(1) by (simp add: package_outputs_def split: if_splits)
  have producers: "po_producers po = ?ps" unfolding po by (subst add_producers) simp
  have outs: "dir_outputs pv hi dir = map (\<lambda>s. (s, pv_outputs pv dir s)) ?ps"
    by (simp add: dir_outputs_def assms(2) Let_def same[unfolded comp_def] flip: map_map[unfolded comp_def])
  have "map_of (po_files po) f = map_option fst (find (\<lambda>(i, p). ?P p) (enumerate 0 ?ps))"
    unfolding po by (simp add: producers_files)
  moreover have "first_output pv hi f dir = map_option (\<lambda>s. (s, dir, f)) (find ?P ?ps)"
    unfolding first_output_def outs by (simp add: find_map option.map_comp comp_def)
  ultimately have files: "(case map_of (po_files po) f of None \<Rightarrow> None | Some i \<Rightarrow> Some (po_producers po ! i, dir, f)) = first_output pv hi f dir"
    using find_enumerate[where P = ?P and n = 0 and ps = ?ps] producers by (auto split: option.splits)
  have "po_trees po = concat (map (\<lambda>(i, p). let t = od_tree (pv_outputs pv dir p) in if t \<noteq> [] then [(path_join [dir, t], i)] else []) (enumerate 0 ?ps))"
    unfolding po by (subst add_producers) simp
  then have "index_trees po dir = dir_trees pv hi dir"
    unfolding index_trees_def dir_trees_def outs producers using index_trees_list[where ps = ?ps and qs = ?ps and n = 0] by simp
  then show ?thesis using files by blast
qed

text \<open>The ordered scan.\<close>

lemma scan_rules_reference:
  assumes "map_of (pv_files pv) dir = Some all" "chain_rules pv d = chain_rules pv dir @ rest"
  shows "set rs \<subseteq> set all \<Longrightarrow> between lo st (observe_build pv d lo) \<Longrightarrow>
    \<exists>st'. between lo st' (observe_build pv d lo) \<and>
      scan_rules pv f False dir rs best st =
        (case find (\<lambda>s. f \<in> (\<lambda>out. path_join [dir, out]) ` set (od_files (pv_outputs pv dir s))) (map (semantic_at pv (observe_build pv d lo) dir) rs) of
           Some s \<Rightarrow> Inl (s, dir, f) | None \<Rightarrow> Inr best, st')"
proof (induction rs arbitrary: st)
  case (Cons r rs)
  let ?hi = "observe_build pv d lo"
  let ?st = "if map_of st (pv_key pv dir r) = None then observe_build pv dir st else st"
  have b: "between lo ?st ?hi" using Cons.prems(2) between_observe[OF Cons.prems(2) assms(2)] by simp
  have r: "r \<in> set all" using Cons.prems(1) by simp
  then have "map_of ?st (pv_key pv dir r) \<noteq> None" using observe_build_stored[OF r assms(1)] by simp
  then have s: "semantic_at pv ?st dir r = semantic_at pv ?hi dir r" by (rule semantic_at_between[OF b])
  let ?s = "semantic_at pv ?hi dir r"
  have here: "list_ex (\<lambda>out. path_join [dir, out] = f) (od_files (pv_outputs pv dir ?s)) \<longleftrightarrow>
      f \<in> (\<lambda>out. path_join [dir, out]) ` set (od_files (pv_outputs pv dir ?s))" by (auto simp: list_ex_iff)
  obtain st' where st': "between lo st' ?hi" "scan_rules pv f False dir rs best ?st =
        (case find (\<lambda>s. f \<in> (\<lambda>out. path_join [dir, out]) ` set (od_files (pv_outputs pv dir s))) (map (semantic_at pv ?hi dir) rs) of
           Some s \<Rightarrow> Inl (s, dir, f) | None \<Rightarrow> Inr best, st')" using Cons.IH[OF _ b] Cons.prems(1) by auto
  show ?case unfolding scan_rules.simps(2) Let_def s here using b st' by auto
qed auto

lemma scan_rules_trees:
  assumes "map_of (pv_files pv) dir = Some all" "chain_rules pv d = chain_rules pv dir @ rest"
  shows "set rs \<subseteq> set all \<Longrightarrow> between lo st (observe_build pv d lo) \<Longrightarrow>
    \<exists>st'. between lo st' (observe_build pv d lo) \<and>
      scan_rules pv f True dir rs best st =
        (Inr (fold (deeper f) (List.map_filter (\<lambda>(s, outs). if od_tree outs \<noteq> [] then Some (s, dir, path_join [dir, od_tree outs]) else None)
           (map (\<lambda>s. (s, pv_outputs pv dir s)) (map (semantic_at pv (observe_build pv d lo) dir) rs))) best), st')"
proof (induction rs arbitrary: st best)
  case Nil
  then show ?case by (auto simp: map_filter_simps)
next
  case (Cons r rs)
  let ?hi = "observe_build pv d lo"
  let ?st = "if map_of st (pv_key pv dir r) = None then observe_build pv dir st else st"
  have b: "between lo ?st ?hi" using Cons.prems(2) between_observe[OF Cons.prems(2) assms(2)] by simp
  have r: "r \<in> set all" using Cons.prems(1) by simp
  then have "map_of ?st (pv_key pv dir r) \<noteq> None" using observe_build_stored[OF r assms(1)] by simp
  then have s: "semantic_at pv ?st dir r = semantic_at pv ?hi dir r" by (rule semantic_at_between[OF b])
  let ?o = "pv_outputs pv dir (semantic_at pv ?hi dir r)"
  let ?best = "if od_tree ?o \<noteq> [] then deeper f (semantic_at pv ?hi dir r, dir, path_join [dir, od_tree ?o]) best else best"
  obtain st' where st': "between lo st' ?hi" "scan_rules pv f True dir rs ?best ?st =
        (Inr (fold (deeper f) (List.map_filter (\<lambda>(s, outs). if od_tree outs \<noteq> [] then Some (s, dir, path_join [dir, od_tree outs]) else None)
           (map (\<lambda>s. (s, pv_outputs pv dir s)) (map (semantic_at pv ?hi dir) rs))) ?best), st')" using Cons.IH[OF _ b] Cons.prems(1) by auto
  show ?case unfolding scan_rules.simps(2) Let_def s if_True st'(2) using st'(1) by (auto simp: map_filter_Cons)
qed

lemma scan_package_reference:
  assumes "chain_rules pv d = chain_rules pv dir @ rest" "between lo st (observe_build pv d lo)"
  shows "\<exists>st'. between lo st' (observe_build pv d lo) \<and>
    scan_package pv f False dir best st =
      (case first_output pv (observe_build pv d lo) f dir of Some x \<Rightarrow> Inl x | None \<Rightarrow> Inr best, st')"
proof (cases "map_of (pv_files pv) dir")
  case None
  then show ?thesis using assms(2) by (auto simp: scan_package_def first_output_def dir_outputs_def)
next
  case (Some rs)
  let ?hi = "observe_build pv d lo"
  show ?thesis
  proof (cases "package_outputs pv st dir rs")
    case None
    have first: "first_output pv ?hi f dir =
        map_option (\<lambda>s. (s, dir, f)) (find (\<lambda>s. f \<in> (\<lambda>out. path_join [dir, out]) ` set (od_files (pv_outputs pv dir s))) (map (semantic_at pv ?hi dir) rs))"
      by (simp add: first_output_def dir_outputs_def Some Let_def find_map option.map_comp comp_def)
    from scan_rules_reference[OF Some assms(1) subset_refl assms(2), of f best] show ?thesis
      unfolding first by (auto simp: scan_package_def Some None split: option.splits)
  next
    case po: (Some po)
    note first = conjunct1[OF package_outputs_reference[OF po Some assms(2), of f], symmetric]
    show ?thesis unfolding first using assms(2) by (auto simp: scan_package_def Some po split: option.splits)
  qed
qed

lemma scan_package_trees:
  assumes "chain_rules pv d = chain_rules pv dir @ rest" "between lo st (observe_build pv d lo)"
  shows "\<exists>st'. between lo st' (observe_build pv d lo) \<and>
    scan_package pv f True dir best st = (Inr (fold (deeper f) (dir_trees pv (observe_build pv d lo) dir) best), st')"
proof (cases "map_of (pv_files pv) dir")
  case None
  then show ?thesis using assms(2) by (auto simp: scan_package_def dir_trees_def dir_outputs_def map_filter_simps)
next
  case (Some rs)
  let ?hi = "observe_build pv d lo"
  show ?thesis
  proof (cases "package_outputs pv st dir rs")
    case None
    have trees: "dir_trees pv ?hi dir =
        List.map_filter (\<lambda>(s, outs). if od_tree outs \<noteq> [] then Some (s, dir, path_join [dir, od_tree outs]) else None)
           (map (\<lambda>s. (s, pv_outputs pv dir s)) (map (semantic_at pv ?hi dir) rs))"
      by (simp add: dir_trees_def dir_outputs_def Some Let_def comp_def)
    from scan_rules_trees[OF Some assms(1) subset_refl assms(2), of f best] show ?thesis
      unfolding trees by (auto simp: scan_package_def Some None)
  next
    case po: (Some po)
    from package_outputs_reference[OF po Some assms(2)] assms(2) show ?thesis
      by (auto simp: scan_package_def Some po)
  qed
qed

section \<open>The scan answers like the reference\<close>

definition trees_above :: "producer_env \<Rightarrow> stored \<Rightarrow> string \<Rightarrow> found_output list" where
  "trees_above pv st dir = concat (map (dir_trees pv st) (dirs_up dir))"

lemma dirs_up_step: "\<not> is_abs dir \<Longrightarrow> dirs_up dir = dir # (if dir = [] then [] else dirs_up (parent_dir dir))"
  by (subst dirs_up.simps) (auto simp: is_abs_def)

lemma chain_below: "\<not> is_abs dir \<Longrightarrow> dir \<noteq> [] \<Longrightarrow> chain_rules pv d = chain_rules pv dir @ rest \<Longrightarrow>
    \<exists>rest'. chain_rules pv d = chain_rules pv (parent_dir dir) @ rest'"
  using chain_rules_Cons[of dir pv] by (cases "dir = [SL]") (auto simp: is_abs_def)

lemma scan_up_files:
  "\<not> is_abs dir \<Longrightarrow> chain_rules pv d = chain_rules pv dir @ rest \<Longrightarrow> between lo st (observe_build pv d lo) \<Longrightarrow>
   \<exists>st'. scan_up pv f False dir None st = Some (first_some (first_output pv (observe_build pv d lo) f) (dirs_up dir), st')"
proof (induction dir arbitrary: st rest rule: measure_induct_rule[of length])
  case (less dir)
  let ?hi = "observe_build pv d lo"
  obtain st' where st': "between lo st' ?hi"
    "scan_package pv f False dir None st = (case first_output pv ?hi f dir of Some x \<Rightarrow> Inl x | None \<Rightarrow> Inr None, st')"
    using scan_package_reference[OF less.prems(2,3)] by blast
  show ?case
  proof (cases "first_output pv ?hi f dir = None \<and> dir \<noteq> []")
    case True
    have nosl: "dir \<noteq> [SL]" using less.prems(1) by (auto simp: is_abs_def)
    obtain rest' where "chain_rules pv d = chain_rules pv (parent_dir dir) @ rest'" using chain_below[OF less.prems(1) _ less.prems(2)] True by blast
    from less.IH[OF parent_dir_shorter parent_dir_relative[OF less.prems(1)] this st'(1)] True nosl show ?thesis
      by (subst scan_up.simps, subst dirs_up_step[OF less.prems(1)]) (simp add: st'(2))
  next
    case False
    then show ?thesis by (subst scan_up.simps, subst dirs_up_step[OF less.prems(1)]) (auto simp: st'(2) split: option.splits)
  qed
qed

lemma scan_up_trees:
  "\<not> is_abs dir \<Longrightarrow> chain_rules pv d = chain_rules pv dir @ rest \<Longrightarrow> between lo st (observe_build pv d lo) \<Longrightarrow>
   \<exists>st'. scan_up pv f True dir best st = Some (fold (deeper f) (trees_above pv (observe_build pv d lo) dir) best, st')"
proof (induction dir arbitrary: st rest best rule: measure_induct_rule[of length])
  case (less dir)
  let ?hi = "observe_build pv d lo"
  obtain st' where st': "between lo st' ?hi" "scan_package pv f True dir best st = (Inr (fold (deeper f) (dir_trees pv ?hi dir) best), st')"
    using scan_package_trees[OF less.prems(2,3)] by blast
  show ?case
  proof (cases "dir = []")
    case True
    then show ?thesis using st'(2) by (subst scan_up.simps) (simp add: trees_above_def dirs_up.simps)
  next
    case False
    have nosl: "dir \<noteq> [SL]" using less.prems(1) by (auto simp: is_abs_def)
    obtain rest' where "chain_rules pv d = chain_rules pv (parent_dir dir) @ rest'" using chain_below[OF less.prems(1) False less.prems(2)] by blast
    from less.IH[OF parent_dir_shorter[OF False nosl] parent_dir_relative[OF less.prems(1)] this st'(1), of "fold (deeper f) (dir_trees pv ?hi dir) best"]
    show ?thesis using False nosl
      by (subst scan_up.simps) (auto simp: st'(2) trees_above_def dirs_up_step[OF less.prems(1)])
  qed
qed

lemma ancestor_trees_reference:
  "\<not> is_abs dir \<Longrightarrow> between lo st hi \<Longrightarrow>
   \<exists>trees known. ancestor_trees pv st dir = Some (trees, known) \<and> (known \<longrightarrow> trees = trees_above pv hi dir)"
proof (induction dir rule: measure_induct_rule[of length])
  case (less dir)
  let ?here = "case map_of (pv_files pv) dir of
           None \<Rightarrow> ([], True)
         | Some rs \<Rightarrow> (case package_outputs pv st dir rs of None \<Rightarrow> ([], False) | Some po \<Rightarrow> (index_trees po dir, True))"
  obtain trees known where h: "?here = (trees, known)" by (cases ?here)
  have here: "known \<Longrightarrow> trees = dir_trees pv hi dir"
  proof (cases "map_of (pv_files pv) dir")
    case None
    then show ?thesis using h by (simp add: dir_trees_def dir_outputs_def map_filter_simps)
  next
    case (Some rs)
    assume known
    then obtain po where "package_outputs pv st dir rs = Some po" "trees = index_trees po dir"
      using h Some by (auto split: option.splits)
    then show ?thesis using package_outputs_reference[OF _ Some less.prems(2)] by simp
  qed
  show ?case
  proof (cases "known \<and> dir \<noteq> []")
    case True
    have nosl: "dir \<noteq> [SL]" using less.prems(1) by (auto simp: is_abs_def)
    from less.IH[OF parent_dir_shorter[OF _ nosl] parent_dir_relative[OF less.prems(1)] less.prems(2)] True obtain more known' where
      "ancestor_trees pv st (parent_dir dir) = Some (more, known')" "known' \<longrightarrow> more = trees_above pv hi (parent_dir dir)" by blast
    then show ?thesis using True nosl here
      by (subst ancestor_trees.simps) (auto simp: h trees_above_def dirs_up_step[OF less.prems(1)])
  next
    case False
    then show ?thesis using here by (subst ancestor_trees.simps) (auto simp: h trees_above_def dirs_up.simps)
  qed
qed

lemma between_self: "between st st (observe_build pv d st)"
  by (auto simp: between_def map_le_def observe_build_def observe_rules_map)

lemma declared_trees:
  assumes "\<not> is_abs f"
  shows "\<exists>st'. declared_output_producer pv f True st =
    Some (fold (deeper f) (trees_above pv (observe_build pv (parent_dir f) st) (parent_dir f)) None, st')"
proof -
  note rel = parent_dir_relative[OF assms]
  have scan: "\<exists>st'. scan_up pv f True (parent_dir f) None st =
      Some (fold (deeper f) (trees_above pv (observe_build pv (parent_dir f) st) (parent_dir f)) None, st')"
    by (rule scan_up_trees[OF rel _ between_self, of _ _ "[]"]) simp
  from ancestor_trees_reference[OF rel between_self[of st pv "parent_dir f"]] obtain trees known where
    "ancestor_trees pv st (parent_dir f) = Some (trees, known)"
    "known \<longrightarrow> trees = trees_above pv (observe_build pv (parent_dir f) st) (parent_dir f)" by blast
  then show ?thesis using scan by (cases "pv_indexed pv"; cases known) (simp_all add: declared_output_producer_def)
qed

text \<open>C6.  The producer of a file is the first rule that declares it in the nearest package above it
  that has one, with the rules of those packages stored: the answer is the same from the index of a
  package and from the scan that stores rules as it meets them.\<close>

theorem output_producer_nearest:
  assumes "\<not> is_abs f"
  shows "map_option fst (output_producer pv f st) =
    Some (map_option (\<lambda>(r, pkg, _). (r, pkg))
      (first_some (first_output pv (observe_build pv (parent_dir f) st) f) (dirs_up (parent_dir f))))"
proof -
  obtain st' where "scan_up pv f False (parent_dir f) None st =
      Some (first_some (first_output pv (observe_build pv (parent_dir f) st) f) (dirs_up (parent_dir f)), st')"
    using scan_up_files[OF parent_dir_relative[OF assms] _ between_self, of pv "parent_dir f" "[]"] by auto
  then show ?thesis by (simp add: output_producer_def declared_output_producer_def)
qed

section \<open>The walk meets the deepest tree\<close>

lemma deeper_best:
  "fold (deeper f) ts best = Some t \<Longrightarrow> (case best of None \<Rightarrow> True | Some (_, _, root) \<Rightarrow> within f root) \<Longrightarrow>
   (t \<in> set ts \<or> best = Some t) \<and> within f (snd (snd t)) \<and>
   (\<forall>t' \<in> set ts. within f (snd (snd t')) \<longrightarrow> length (snd (snd t')) \<le> length (snd (snd t))) \<and>
   (case best of None \<Rightarrow> True | Some b \<Rightarrow> b = t \<or> length (snd (snd b)) < length (snd (snd t)))"
proof (induction ts arbitrary: best)
  case Nil
  then show ?case by (auto split: option.splits prod.splits)
next
  case (Cons x ts)
  obtain r pkg root where x: "x = (r, pkg, root)" by (cases x)
  have ok: "case deeper f x best of None \<Rightarrow> True | Some (_, _, root) \<Rightarrow> within f root"
    using Cons.prems(2) by (auto simp: deeper_def x split: option.splits)
  note ih = Cons.IH[OF _ ok]
  have "fold (deeper f) ts (deeper f x best) = Some t" using Cons.prems(1) by simp
  from ih[OF this] show ?case
    by (auto simp: deeper_def x split: option.splits prod.splits if_splits)
qed

lemma deeper_none: "fold (deeper f) ts best = None \<longleftrightarrow> best = None \<and> (\<forall>t \<in> set ts. \<not> within f (snd (snd t)))"
proof (induction ts arbitrary: best)
  case (Cons x ts)
  show ?case unfolding fold_simps(2) Cons.IH by (cases x) (auto simp: deeper_def split: option.splits)
qed simp

text \<open>The first tree of the greatest length that holds the file.\<close>

lemma deeper_first:
  "fold (deeper f) ts best = Some t \<Longrightarrow> (case best of None \<Rightarrow> True | Some (_, _, root) \<Rightarrow> within f root) \<Longrightarrow>
   (\<And>a b. within f a \<Longrightarrow> within f b \<Longrightarrow> length a = length b \<Longrightarrow> a = b) \<Longrightarrow> best \<noteq> Some t \<Longrightarrow>
   find (\<lambda>(_, _, root). root = snd (snd t)) ts = Some t"
proof (induction ts arbitrary: best)
  case (Cons x ts)
  let ?root = "\<lambda>t. snd (snd t) :: string"
  have ok: "case deeper f x best of None \<Rightarrow> True | Some (_, _, root) \<Rightarrow> within f root"
    using Cons.prems(2) by (auto simp: deeper_def split: option.splits prod.splits)
  have run: "fold (deeper f) ts (deeper f x best) = Some t" using Cons.prems(1) by simp
  note best = deeper_best[OF run ok]
  have new: "deeper f x best = Some x" if "within f (?root x)" "\<And>b. best = Some b \<Longrightarrow> length (?root b) < length (?root x)"
    using that by (auto simp: deeper_def split: option.splits prod.splits)
  have old: "deeper f x best = Some x \<or> deeper f x best = best" by (auto simp: deeper_def split: prod.splits)
  show ?case
  proof (cases "deeper f x best = Some t")
    case True
    then have "x = t" using Cons.prems(4) old by auto
    then show ?thesis by (simp only: find.simps split_beta simp_thms if_True)
  next
    case False
    have "?root x \<noteq> ?root t"
    proof
      assume r: "?root x = ?root t"
      have short: "length (?root b) < length (?root x)" if "deeper f x best = Some b" for b
        using conjunct2[OF conjunct2[OF conjunct2[OF best]]] False that r by auto
      have "deeper f x best \<noteq> Some x" using short[of x] by auto
      then have same: "deeper f x best = best" using old by blast
      have "within f (?root x)" using best r by simp
      from new[OF this] short have "deeper f x best = Some x" unfolding same by simp
      then show False using \<open>deeper f x best \<noteq> Some x\<close> by simp
    qed
    moreover have "find (\<lambda>(_, _, root). root = snd (snd t)) ts = Some t" by (rule Cons.IH[OF run ok _ False]) (rule Cons.prems(3))
    ultimately show ?thesis by (cases x) simp
  qed
qed auto

definition tree_owner_at :: "(string \<Rightarrow> label list) option \<Rightarrow> found_output list \<Rightarrow> string \<Rightarrow> string \<Rightarrow> label option" where
  \<comment> \<open>the owner of the tree at one directory: from Gazelle's index, or declared in a package above\<close>
  "tree_owner_at ix trees repo dir =
     (case (case ix of None \<Rightarrow> [] | Some lookup \<Rightarrow> lookup (codegen_tree_key dir)) of
        l # _ \<Rightarrow> Some l
      | [] \<Rightarrow> map_option (\<lambda>(r, pkg, _). \<lparr>lb_repo = repo, lb_pkg = pkg, lb_name = ru_name r, lb_relative = False, lb_canonical = False\<rparr>)
          (find (\<lambda>(_, _, root). root = dir) trees))"

text \<open>A path and the directories above it, the root left out.\<close>

function leading :: "string list \<Rightarrow> string list" where
  "leading es = (if es = [] then [] else join_on [SL] es # leading (butlast es))"
  by pat_completeness auto
termination
  by (relation "measure length") auto

declare leading.simps [simp del]

lemma leading_Nil [simp]: "leading [] = []"
  by (simp add: leading.simps)

lemma leading_snoc: "leading (es @ [e]) = join_on [SL] (es @ [e]) # leading es"
  by (subst leading.simps) simp

lemma leading_mem: "x \<in> set (leading es) \<longleftrightarrow> (\<exists>a b. es = a @ b \<and> a \<noteq> [] \<and> x = join_on [SL] a)"
proof (induction es rule: rev_induct)
  case (snoc e es)
  have "(\<exists>a b. es @ [e] = a @ b \<and> a \<noteq> [] \<and> x = join_on [SL] a) \<longleftrightarrow>
      x = join_on [SL] (es @ [e]) \<or> (\<exists>a b. es = a @ b \<and> a \<noteq> [] \<and> x = join_on [SL] a)"
  proof
    assume "\<exists>a b. es @ [e] = a @ b \<and> a \<noteq> [] \<and> x = join_on [SL] a"
    then obtain a b where a: "es @ [e] = a @ b" "a \<noteq> []" "x = join_on [SL] a" by blast
    then show "x = join_on [SL] (es @ [e]) \<or> (\<exists>a b. es = a @ b \<and> a \<noteq> [] \<and> x = join_on [SL] a)"
      by (cases b rule: rev_cases) auto
  next
    assume "x = join_on [SL] (es @ [e]) \<or> (\<exists>a b. es = a @ b \<and> a \<noteq> [] \<and> x = join_on [SL] a)"
    then show "\<exists>a b. es @ [e] = a @ b \<and> a \<noteq> [] \<and> x = join_on [SL] a"
      by (metis append_Nil2 append_assoc snoc_eq_iff_butlast)
  qed
  then show ?case by (simp add: leading_snoc snoc.IH)
qed simp

lemma join_append: "a \<noteq> [] \<Longrightarrow> b \<noteq> [] \<Longrightarrow> join_on [SL] (a @ b) = join_on [SL] a @ SL # join_on [SL] b"
proof (induction a)
  case (Cons x xs)
  then show ?case by (cases "xs = []") (simp_all add: join_on_Cons)
qed simp

lemma snoc_not_Nil: "xs @ [x] \<noteq> []"
  by simp

lemma plain_join: "plain_elems es \<Longrightarrow> es \<noteq> [] \<Longrightarrow> join_on [SL] es \<notin> {[], ''.'', ''..''} \<and> \<not> is_abs (join_on [SL] es)"
proof -
  assume p: "plain_elems es" "es \<noteq> []"
  have s: "split_on SL (join_on [SL] es) = es" using p by (simp add: split_join plain_elems_def)
  have "join_on [SL] es \<noteq> x" if "x \<in> {[], ''.'', ''..''}" for x
  proof
    assume "join_on [SL] es = x"
    then have "es = [x]" using s that by auto
    then show False using p(1) that by (simp add: plain_elems_def)
  qed
  moreover have "\<not> is_abs (join_on [SL] es)" using is_abs_place[OF p(1), of False] p(2) by (simp add: place_def path_text_def)
  ultimately show ?thesis by blast
qed

lemma no_stop: "d \<notin> {[], ''.'', ''..''} \<and> \<not> is_abs d \<Longrightarrow> \<not> (d = [] \<or> d = ''.'' \<or> d = [SL] \<or> d = ''..'')"
  by (auto simp: is_abs_def)

lemma path_dir_join: "plain_elems (es @ [e]) \<Longrightarrow> path_dir (join_on [SL] (es @ [e])) = (if es = [] then ''.'' else join_on [SL] es)"
  using path_dir_place[of "es @ [e]" False] by (simp add: place_def path_text_def)

lemma plain_elems_init: "plain_elems (es @ [e]) \<Longrightarrow> plain_elems es"
  by (simp add: plain_elems_def)

lemma within_leading:
  assumes "plain_elems es" "es \<noteq> []" "root \<noteq> []"
  shows "within (join_on [SL] es) root \<longleftrightarrow> root \<in> set (leading es)"
proof -
  have s: "split_on SL (join_on [SL] es) = es" using assms by (simp add: split_join plain_elems_def)
  show ?thesis unfolding leading_mem
  proof
    assume "within (join_on [SL] es) root"
    then consider "join_on [SL] es = root" | z where "join_on [SL] es = root @ SL # z"
      using assms(3) by (auto simp: within_def prefix_def)
    then show "\<exists>a b. es = a @ b \<and> a \<noteq> [] \<and> root = join_on [SL] a"
    proof cases
      case 1
      then show ?thesis using assms(2) by (intro exI[of _ es] exI[of _ "[]"]) simp
    next
      case 2
      then have "es = split_on SL root @ split_on SL z" using s split_on_append_sep[of SL root z] by simp
      then show ?thesis by (intro exI[of _ "split_on SL root"] exI[of _ "split_on SL z"]) (simp add: join_split)
    qed
  next
    assume "\<exists>a b. es = a @ b \<and> a \<noteq> [] \<and> root = join_on [SL] a"
    then obtain a b where ab: "es = a @ b" "a \<noteq> []" "root = join_on [SL] a" by blast
    then show "within (join_on [SL] es) root"
      by (cases "b = []") (simp_all add: within_def join_append prefix_def)
  qed
qed

lemma within_take: "within f a \<Longrightarrow> a = take (length a) f"
  by (auto simp: within_def prefix_def)

lemma within_length: "within f a \<Longrightarrow> within f b \<Longrightarrow> length a = length b \<Longrightarrow> a = b"
  using within_take[of f a] within_take[of f b] by simp

lemma tree_walk_leading:
  assumes imp: "plain_elems es" "imp = join_on [SL] es"
    and roots: "\<forall>t \<in> set trees. snd (snd t) \<noteq> []" and declared: "declared = fold (deeper imp) trees None"
  shows "prefix es0 es \<Longrightarrow> (\<forall>t \<in> set trees. within imp (snd (snd t)) \<longrightarrow> length (snd (snd t)) \<le> length (join_on [SL] es0)) \<Longrightarrow>
    tree_walk ix declared repo (if es0 = [] then ''.'' else join_on [SL] es0) = first_some (tree_owner_at ix trees repo) (leading es0)"
proof (induction es0 rule: rev_induct)
  case Nil
  then show ?case by (simp add: tree_walk.simps)
next
  case (snoc e es1)
  let ?dir = "join_on [SL] (es1 @ [e])" and ?lookup = "case ix of None \<Rightarrow> [] | Some lookup \<Rightarrow> lookup (codegen_tree_key (join_on [SL] (es1 @ [e])))"
  obtain z0 where z0: "es = (es1 @ [e]) @ z0" using snoc.prems(1) by (elim prefixE)
  have plain: "plain_elems (es1 @ [e])" using imp(1) unfolding z0 plain_elems_def by simp
  have stop: "\<not> (?dir = [] \<or> ?dir = ''.'' \<or> ?dir = [SL] \<or> ?dir = ''..'')"
    by (rule no_stop[OF plain_join[OF plain snoc_not_Nil]])
  have "es \<noteq> []" using snoc.prems(1) by auto
  have "?dir \<in> set (leading es)" unfolding leading_mem using z0 by (intro exI[of _ "es1 @ [e]"] exI[of _ z0]) simp
  then have holds: "within imp ?dir" unfolding imp(2)
    using within_leading[OF imp(1) \<open>es \<noteq> []\<close>, of ?dir] stop by blast
  have best: "find (\<lambda>(_, _, root). root = snd (snd t)) trees = Some t" "within imp (snd (snd t))"
      "\<forall>t' \<in> set trees. within imp (snd (snd t')) \<longrightarrow> length (snd (snd t')) \<le> length (snd (snd t))" if "declared = Some t" for t
  proof -
    have run: "fold (deeper imp) trees None = Some t" using that declared by simp
    show "find (\<lambda>(_, _, root). root = snd (snd t)) trees = Some t"
      by (rule deeper_first[OF run _ within_length]) simp_all
    show "within imp (snd (snd t))" using deeper_best[OF run] by simp
    show "\<forall>t' \<in> set trees. within imp (snd (snd t')) \<longrightarrow> length (snd (snd t')) \<le> length (snd (snd t))"
      using deeper_best[OF run] by simp
  qed
  have found: "(case declared of None \<Rightarrow> True | Some t \<Rightarrow> snd (snd t) \<noteq> ?dir) \<Longrightarrow> \<forall>t \<in> set trees. snd (snd t) \<noteq> ?dir"
  proof (intro ballI notI)
    fix t assume d: "case declared of None \<Rightarrow> True | Some t \<Rightarrow> snd (snd t) \<noteq> ?dir" and t: "t \<in> set trees" "snd (snd t) = ?dir"
    show False
    proof (cases declared)
      case None
      then have "\<not> within imp (snd (snd t))" using deeper_none[of imp trees None] declared t(1) by auto
      then show False using t(2) holds by simp
    next
      case (Some b)
      have "b \<in> set trees" using best(1)[OF Some] by (auto dest!: find_Some_first)
      then have "length (snd (snd b)) \<le> length ?dir" using snoc.prems(2) best(2)[OF Some] by blast
      moreover have "length ?dir \<le> length (snd (snd b))" using best(3)[OF Some] t holds by auto
      ultimately have "snd (snd b) = ?dir" using within_length[OF best(2)[OF Some] holds] by simp
      then show False using d Some by simp
    qed
  qed
  show ?case
  proof (cases "?lookup = [] \<and> (case declared of None \<Rightarrow> True | Some t \<Rightarrow> snd (snd t) \<noteq> ?dir)")
    case True
    then have none: "\<forall>t \<in> set trees. snd (snd t) \<noteq> ?dir" using found by blast
    have left: "\<forall>t \<in> set trees. within imp (snd (snd t)) \<longrightarrow> length (snd (snd t)) \<le> length (join_on [SL] es1)"
    proof (intro ballI impI)
      fix t assume t: "t \<in> set trees" "within imp (snd (snd t))"
      then have "snd (snd t) \<in> set (leading es)" using within_leading[OF imp(1) \<open>es \<noteq> []\<close>] roots imp(2) by auto
      then obtain a b where ab: "es = a @ b" "a \<noteq> []" "snd (snd t) = join_on [SL] a" unfolding leading_mem by blast
      show "length (snd (snd t)) \<le> length (join_on [SL] es1)"
      proof (cases "length a \<le> length es1")
        case True
        have "prefix a es" using ab(1) by simp
        moreover have "prefix es1 es" unfolding z0 by simp
        ultimately have "prefix a es" "prefix es1 es" .
        from prefix_length_prefix[OF this True] obtain z where z: "es1 = a @ z" by (elim prefixE)
        then show ?thesis using ab(2,3) join_append[of a z] by (cases "z = []") simp_all
      next
        case False
        then have len: "length (es1 @ [e]) \<le> length a" by simp
        have "prefix a es" using ab(1) by simp
        from prefix_length_prefix[OF snoc.prems(1) this len] obtain z where z: "a = (es1 @ [e]) @ z" by (elim prefixE)
        have "snd (snd t) \<noteq> ?dir" using none t(1) by blast
        then have "z \<noteq> []" unfolding ab(3) z by auto
        then have "length ?dir < length (snd (snd t))" using ab(3) z join_append[of "es1 @ [e]" z] by simp
        then show ?thesis using snoc.prems(2) t by fastforce
      qed
    qed
    have up: "path_dir ?dir = (if es1 = [] then ''.'' else join_on [SL] es1)" by (rule path_dir_join[OF plain])
    have "prefix es1 es" using snoc.prems(1) by (auto simp: prefix_def)
    note ih = snoc.IH[OF this left]
    have "tree_walk ix declared repo ?dir = tree_walk ix declared repo (path_dir ?dir)"
      using True stop by (subst tree_walk.simps) (auto split: option.splits prod.splits)
    moreover have "tree_owner_at ix trees repo ?dir = None"
      using True none by (fastforce simp: tree_owner_at_def find_None_iff)
    ultimately show ?thesis using ih up by (simp add: leading_snoc)
  next
    case False
    have "tree_walk ix declared repo ?dir = tree_owner_at ix trees repo ?dir \<and> tree_owner_at ix trees repo ?dir \<noteq> None"
    proof (cases ?lookup)
      case Nil
      then obtain r pkg where d: "declared = Some (r, pkg, ?dir)" using False by (auto split: option.splits)
      from best(1)[OF this] have "find (\<lambda>(_, _, root). root = ?dir) trees = Some (r, pkg, ?dir)" by simp
      then show ?thesis using stop Nil by (subst tree_walk.simps) (simp add: tree_owner_at_def d)
    next
      case (Cons l ls)
      then show ?thesis using stop by (subst tree_walk.simps) (simp add: tree_owner_at_def)
    qed
    then show ?thesis by (auto simp: leading_snoc)
  qed
qed

lemma trees_above_root: "t \<in> set (trees_above pv st dir) \<Longrightarrow> snd (snd t) \<noteq> []"
  by (auto simp: trees_above_def dir_trees_def set_map_filter path_join_def split: if_splits)

text \<open>C11.  The codegen tree that holds a file is the one rooted at the deepest directory above it at
  which a tree is rooted, whatever package declares it; at one directory Gazelle's index comes before
  the declarations, and of those the nearest package's first rule.\<close>

theorem codegen_tree_deepest:
  assumes "plain_elems es" "es \<noteq> []" "firstParty (join_on [SL] es)"
  shows "map_option fst (codegen_tree_owner pv ix (join_on [SL] es) st) =
    Some (first_some
      (tree_owner_at ix
        (trees_above pv (observe_build pv (parent_dir (join_on [SL] es)) st) (parent_dir (join_on [SL] es)))
        (ee_repo (pv_env pv)))
      (leading es))"
proof -
  let ?imp = "join_on [SL] es" and ?trees = "trees_above pv (observe_build pv (parent_dir (join_on [SL] es)) st) (parent_dir (join_on [SL] es))"
  note stop = no_stop[OF plain_join[OF assms(1,2)]]
  obtain st' where d: "declared_output_producer pv ?imp True st = Some (fold (deeper ?imp) ?trees None, st')"
    using declared_trees[of ?imp pv st] plain_join[OF assms(1,2)] by blast
  have short: "\<forall>t \<in> set ?trees. within ?imp (snd (snd t)) \<longrightarrow> length (snd (snd t)) \<le> length ?imp"
    by (auto simp: within_def prefix_def)
  have "tree_walk ix (fold (deeper ?imp) ?trees None) (ee_repo (pv_env pv)) ?imp = first_some (tree_owner_at ix ?trees (ee_repo (pv_env pv))) (leading es)"
    using tree_walk_leading[OF assms(1) refl _ refl, of ?trees es] short trees_above_root assms(2) by auto
  then show ?thesis using stop assms(3) d by (simp add: codegen_tree_owner_def)
qed

text \<open>A package \<open>a\<close> with a generator of \<open>x.ts\<close> and of a tree, and one below it with a deeper tree.\<close>

definition demo_generator :: "string \<Rightarrow> string \<Rightarrow> string \<Rightarrow> build_rule" where
  "demo_generator n out tree =
     demo_rule\<lparr>ru_kind := ''ts_codegen'', ru_name := n,
       ru_attr := [''out'' \<mapsto> StringExpr ('':'' @ out) False, ''out_dir'' \<mapsto> StringExpr tree False]\<rparr>"

definition demo_packages :: producer_env where
  "demo_packages =
     \<lparr>pv_env = Emission.demo_env, pv_files = [(''a'', [demo_generator ''gen'' ''x.ts'' ''b'']), (''a/b'', [demo_generator ''deep'' ''y.ts'' ''c''])],
      pv_indexed = False\<rparr>"

definition found_name :: "found_output option \<Rightarrow> (string \<times> string) option" where
  "found_name = map_option (\<lambda>(r, pkg, _). (ru_name r, pkg))"

lemma demo_first:
  "found_name (first_some (first_output demo_packages (observe_build demo_packages (parent_dir ''a/x.ts'') []) ''a/x.ts'') (dirs_up (parent_dir ''a/x.ts''))) =
    Some (''gen'', ''a'')"
  by code_simp

lemma demo_deepest:
  "map_option lb_name (first_some
      (tree_owner_at None
        (trees_above demo_packages (observe_build demo_packages (parent_dir ''a/b/c/z.ts'') []) (parent_dir ''a/b/c/z.ts''))
        (ee_repo (pv_env demo_packages)))
      (leading [''a'', ''b'', ''c'', ''z.ts''])) = Some ''deep''"
  by code_simp

theorem output_producer_nearest_witness:
  "map_option (map_option (\<lambda>(r, pkg). (ru_name r, pkg)) \<circ> fst) (output_producer demo_packages ''a/x.ts'' []) = Some (Some (''gen'', ''a''))"
proof -
  have "\<not> is_abs ''a/x.ts''" by (simp add: is_abs_def)
  from output_producer_nearest[OF this, of demo_packages "[]"] demo_first show ?thesis
    by (auto simp: found_name_def)
qed

theorem codegen_tree_deepest_witness:
  "map_option (map_option lb_name \<circ> fst) (codegen_tree_owner demo_packages None ''a/b/c/z.ts'' []) = Some (Some ''deep'')"
proof -
  have "plain_elems [''a'', ''b'', ''c'', ''z.ts'']" "firstParty (join_on [SL] [''a'', ''b'', ''c'', ''z.ts''])" by code_simp+
  from codegen_tree_deepest[OF this(1) _ this(2), of demo_packages None "[]"] demo_deepest show ?thesis by auto
qed

end
