(* ===== verification/SourceImports.thy ===== *)
theory SourceImports imports Producers Owner begin

text \<open>
  The files a rule's sources stand for and the rule that holds a file, \<open>gazelle/resolve.go\<close>: sources
  are followed through filegroups and aliases to files and to the literal outputs of other rules.  The
  readers of directories Gazelle has not visited (\<open>dirInfo\<close>) are not given.  Observing a package
  stores its rules, so the store is threaded through.
\<close>

section \<open>Following a source\<close>

record projection =
  pj_imports :: "string list"
  pj_incomplete :: string

datatype source_item =
    Source string label string  \<comment> \<open>a literal text, its owner and the attribute it stands in\<close>
  | NotLiteral label string

datatype source_step =
    Leaf "string list" "(label \<times> string) list"  \<comment> \<open>the files, and what is unknown\<close>
  | Forward label "source_item list"

definition unknown :: "label_api \<Rightarrow> label \<Rightarrow> string \<Rightarrow> projection \<Rightarrow> projection" where
  "unknown api own attr p =
     (if pj_incomplete p = [] then p\<lparr>pj_incomplete := la_string api own @ '' has unsupported '' @ attr @ '' membership''\<rparr> else p)"

definition source_items :: "expr option \<Rightarrow> label \<Rightarrow> string \<Rightarrow> source_item list" where
  "source_items e own attr =
     (case e of
        None \<Rightarrow> []
      | Some (ListExpr es) \<Rightarrow> map (\<lambda>x. case x of StringExpr s _ \<Rightarrow> Source s own attr | _ \<Rightarrow> NotLiteral own attr) es
      | Some _ \<Rightarrow> [NotLiteral own attr])"

text \<open>The rule a label of the repository names, in the asking rule's own BUILD file or in an observed
  one; the stored rule comes before the one in the file.\<close>

definition named_rule :: "producer_env \<Rightarrow> stored \<Rightarrow> string \<Rightarrow> string \<Rightarrow> build_rule list \<Rightarrow> build_rule option" where
  "named_rule pv st pkg name rs =
     (case find (\<lambda>r. ru_name r = name) rs of
        None \<Rightarrow> None
      | Some r \<Rightarrow> Some (semantic_at pv st pkg r))"

definition source_producer ::
    "producer_env \<Rightarrow> string \<times> build_rule list \<Rightarrow> label \<Rightarrow> stored \<Rightarrow> build_rule option \<times> stored" where
  "source_producer pv own src st =
     (if lb_pkg src = fst own then (named_rule pv st (lb_pkg src) (lb_name src) (snd own), st)
      else
        let st' = observe_build pv (lb_pkg src) st in
        (case map_of (pv_files pv) (lb_pkg src) of
           None \<Rightarrow> None
         | Some rs \<Rightarrow> named_rule pv st' (lb_pkg src) (lb_name src) rs, st'))"

definition empty_string :: "expr option \<Rightarrow> bool" where
  "empty_string e \<longleftrightarrow> (case e of None \<Rightarrow> True | Some (StringExpr s _) \<Rightarrow> s = [] | _ \<Rightarrow> False)"

definition producer_step :: "producer_env \<Rightarrow> label \<Rightarrow> build_rule option \<Rightarrow> source_step" where
  "producer_step pv src producer =
     (case producer of
        None \<Rightarrow> Leaf [path_join [lb_pkg src, lb_name src]] []
      | Some r \<Rightarrow>
          if ru_kind r = ''filegroup'' then
            (if \<not> empty_string (ru_attr r ''output_group'') then Leaf [] [(src, ''output_group'')]
             else Forward src (source_items (ru_attr r ''srcs'') src ''srcs''))
          else if ru_kind r = ''alias'' then
            (case ru_attr r ''actual'' of
               Some (StringExpr s _) \<Rightarrow> if s \<noteq> [] then Forward src [Source s src ''actual''] else Leaf [] [(src, ''actual'')]
             | _ \<Rightarrow> Leaf [] [(src, ''actual'')])
          else
            let outs = pv_outputs pv (lb_pkg src) r in
            Leaf (map (\<lambda>name. path_join [lb_pkg src, name]) (od_files outs))
              (if od_incomplete outs \<noteq> [] then [(src, od_incomplete outs)]
               else if od_tree outs \<noteq> [] \<or> ru_attr r ''out'' = None \<and> ru_attr r ''outs'' = None then [(src, ''outputs'')] else []))"

definition source_label :: "producer_env \<Rightarrow> string \<Rightarrow> label \<Rightarrow> label option" where
  "source_label pv text own =
     map_option (\<lambda>l. label_identity (ee_api (pv_env pv)) l (ee_repo (pv_env pv)) (lb_pkg own)) (parse_label (ee_api (pv_env pv)) text)"

definition visit_source ::
    "producer_env \<Rightarrow> string \<times> build_rule list \<Rightarrow> label list \<Rightarrow> source_item \<Rightarrow> stored \<Rightarrow> source_step \<times> stored" where
  "visit_source pv own active it st =
     (case it of
        NotLiteral o1 attr \<Rightarrow> (Leaf [] [(o1, attr)], st)
      | Source text o1 attr \<Rightarrow>
          (case source_label pv text o1 of
             None \<Rightarrow> (Leaf [] [(o1, attr @ '' label '' @ text)], st)
           | Some src \<Rightarrow>
               if lb_canonical src \<or> lb_repo src \<noteq> ee_repo (pv_env pv)
               then (Leaf [] [(o1, attr @ '' (external source '' @ la_string (ee_api (pv_env pv)) src @ '')'')], st)
               else if src \<in> set active then (Leaf [] [(src, ''forwarding cycle'')], st)
               else (let (producer, st') = source_producer pv own src st in (producer_step pv src producer, st'))))"

definition add_leaf :: "label_api \<Rightarrow> string list \<Rightarrow> (label \<times> string) list \<Rightarrow> projection \<Rightarrow> projection" where
  "add_leaf api files bad p = fold (\<lambda>(l, attr). unknown api l attr) bad (p\<lparr>pj_imports := pj_imports p @ files\<rparr>)"

text \<open>Every forwarding label names a rule of the asking file or of an observed one.\<close>

definition forwarding_labels :: "producer_env \<Rightarrow> string \<times> build_rule list \<Rightarrow> label set" where
  "forwarding_labels pv own =
     (\<Union>(pkg, rs) \<in> set (own # pv_files pv). \<Union>r \<in> set rs. \<Union>rel \<in> {False, True}.
        {\<lparr>lb_repo = ee_repo (pv_env pv), lb_pkg = pkg, lb_name = ru_name r, lb_relative = rel, lb_canonical = False\<rparr>})"

lemma finite_forwarding: "finite (forwarding_labels pv own)"
  by (cases own) (auto simp: forwarding_labels_def)

lemma named_rule_name: "named_rule pv st pkg name rs = Some r \<Longrightarrow> \<exists>x \<in> set rs. ru_name x = name"
  by (auto simp: named_rule_def split: option.splits dest: find_Some_first)

lemma producer_step_forward: "producer_step pv src p = Forward src' items \<Longrightarrow> src' = src \<and> (\<exists>r. p = Some r)"
  by (auto simp: producer_step_def Let_def split: option.splits if_splits expr.splits)

lemma forwarding_visit:
  assumes "visit_source pv own active it st = (Forward src items, st')"
  shows "src \<in> forwarding_labels pv own \<and> src \<notin> set active"
proof -
  obtain lit o1 attr where it: "it = Source lit o1 attr" using assms by (cases it) (auto simp: visit_source_def)
  then have here: "\<not> lb_canonical src \<and> lb_repo src = ee_repo (pv_env pv) \<and> src \<notin> set active \<and>
      (\<exists>producer. source_producer pv own src st = (producer, st') \<and> producer_step pv src producer = Forward src items)"
    using assms by (auto simp: visit_source_def split: option.splits if_splits prod.splits dest: producer_step_forward)
  then obtain r where "fst (source_producer pv own src st) = Some r" by (auto dest: producer_step_forward)
  then have "\<exists>pr \<in> set (own # pv_files pv). fst pr = lb_pkg src \<and> (\<exists>x \<in> set (snd pr). ru_name x = lb_name src)"
    by (force simp: source_producer_def Let_def split: if_splits option.splits dest: named_rule_name map_of_SomeD)
  then obtain pr x where pr: "pr \<in> set (own # pv_files pv)" "fst pr = lb_pkg src" "x \<in> set (snd pr)" "ru_name x = lb_name src" by blast
  obtain pkg rs where p: "pr = (pkg, rs)" by (cases pr)
  have q: "(pkg, rs) \<in> set (own # pv_files pv)" "pkg = lb_pkg src" "x \<in> set rs" "ru_name x = lb_name src"
    using pr unfolding p by simp_all
  have "src = \<lparr>lb_repo = ee_repo (pv_env pv), lb_pkg = pkg, lb_name = ru_name x, lb_relative = lb_relative src, lb_canonical = False\<rparr>"
    by (rule label.equality) (use here q(2,4) in simp_all)
  moreover have "lb_relative src \<in> {False, True}" by simp
  ultimately have "src \<in> forwarding_labels pv own" unfolding forwarding_labels_def using q(1,3) by blast
  then show ?thesis using here by simp
qed

function import_items ::
    "producer_env \<Rightarrow> string \<times> build_rule list \<Rightarrow> label list \<Rightarrow> source_item list \<Rightarrow> projection \<times> stored \<Rightarrow> projection \<times> stored" where
  "import_items pv own active [] res = res"
| "import_items pv own active (it # its) res =
     (case visit_source pv own active it (snd res) of
        (Leaf files bad, st') \<Rightarrow> import_items pv own active its (add_leaf (ee_api (pv_env pv)) files bad (fst res), st')
      | (Forward src items, st') \<Rightarrow>
          import_items pv own active its (import_items pv own (src # active) items (fst res, st')))"
  by pat_completeness auto
termination
proof (relation "measures [\<lambda>(pv, own, active, items, res). card (forwarding_labels pv own - set active), \<lambda>(pv, own, active, items, res). length items]", goal_cases)
  case (3 pv own active it its res x xa src items)
  then have f: "src \<in> forwarding_labels pv own" "src \<notin> set active" using forwarding_visit by metis+
  then have "forwarding_labels pv own - set (src # active) \<subset> forwarding_labels pv own - set active" by auto
  then show ?case using finite_forwarding by (simp add: psubset_card_mono)
qed auto

declare import_items.simps(2) [simp del]

definition declared_source_imports ::
    "producer_env \<Rightarrow> string \<times> build_rule list \<Rightarrow> build_rule \<Rightarrow> stored \<Rightarrow> projection \<times> stored" where
  "declared_source_imports pv own r st =
     (let me = \<lparr>lb_repo = ee_repo (pv_env pv), lb_pkg = fst own, lb_name = ru_name r, lb_relative = False, lb_canonical = False\<rparr> in
      import_items pv own [] (source_items (ru_attr r ''srcs'') me ''srcs'') (\<lparr>pj_imports = [], pj_incomplete = []\<rparr>, st))"

definition imports_for_rule ::
    "producer_env \<Rightarrow> proto_graph option \<Rightarrow> string \<times> build_rule list \<Rightarrow> build_rule \<Rightarrow> stored \<Rightarrow> string list \<times> stored" where
  "imports_for_rule pv g own r0 st =
     (let r = canonical_rule (ee_config (pv_env pv) (fst own)) r0; api = ee_api (pv_env pv) in
      if ru_kind r = ''ts_proto_library'' then (proto_imports_for_rule api g (ee_repo (pv_env pv)) (fst own) r, st)
      else if ru_kind r = ''ts_codegen'' then (codegen_tree_specs api r (fst own), st)
      else if ru_kind r = ''ts_compile'' \<or> ru_kind r = ''ts_test''
      then (let (p, st') = declared_source_imports pv own r st in (pj_imports p, st'))
      else ([], st))"

definition input_attrs :: "string list" where
  "input_attrs = [''srcs'', ''package_scopes'', ''type_inputs'']"

definition manages_closure :: "build_rule \<Rightarrow> bool" where
  "manages_closure r \<longleftrightarrow> \<not> ru_keep r \<and> (\<not> attr_kept r ''deps'' \<or> list_ex (\<lambda>attr. \<not> attr_kept r attr) input_attrs)"

text \<open>Inl is the fatal error; the flag says that the package is walked and Gazelle writes its rules.\<close>

definition automatic_program_imports ::
    "producer_env \<Rightarrow> bool \<Rightarrow> string \<times> build_rule list \<Rightarrow> build_rule \<Rightarrow> build_rule \<Rightarrow> stored \<Rightarrow> (label \<times> string) + string list \<times> stored" where
  "automatic_program_imports pv written own consumer sources st =
     (let (p, st') = declared_source_imports pv own sources st in
      if pj_incomplete p \<noteq> [] \<and> written \<and> manages_closure consumer
      then Inl (\<lparr>lb_repo = ee_repo (pv_env pv), lb_pkg = fst own, lb_name = ru_name consumer, lb_relative = False, lb_canonical = False\<rparr>, pj_incomplete p)
      else Inr (pj_imports p, st'))"

section \<open>The files behind the sources\<close>

text \<open>The reference is the meaning of the BUILD files, apart from the recursion above.  The strings of a
  literal list attribute, the strings that declare outputs, the label a string names in a package of the
  repository, and the rule that has a label.\<close>

definition names_literally :: "build_rule \<Rightarrow> string \<Rightarrow> string \<Rightarrow> bool" where
  "names_literally r attr s \<longleftrightarrow> (\<exists>es b. ru_attr r attr = Some (ListExpr es) \<and> StringExpr s b \<in> set es)"

definition declares_out :: "build_rule \<Rightarrow> string \<Rightarrow> bool" where
  "declares_out r s \<longleftrightarrow>
     (\<exists>attr \<in> {''out'', ''outs''}. names_literally r attr s \<or> (\<exists>b. ru_attr r attr = Some (StringExpr s b)))"

definition labels_here :: "producer_env \<Rightarrow> string \<Rightarrow> string \<Rightarrow> label \<Rightarrow> bool" where
  "labels_here pv pkg s l \<longleftrightarrow>
     (\<exists>l0. parse_label (ee_api (pv_env pv)) s = Some l0 \<and> l = label_identity (ee_api (pv_env pv)) l0 (ee_repo (pv_env pv)) pkg) \<and>
     \<not> lb_canonical l \<and> lb_repo l = ee_repo (pv_env pv)"

definition rule_at :: "producer_env \<Rightarrow> string \<times> build_rule list \<Rightarrow> stored \<Rightarrow> label \<Rightarrow> build_rule \<Rightarrow> bool" where
  \<comment> \<open>the first rule of that name in the BUILD file of the package, as it is stored\<close>
  "rule_at pv own st l r \<longleftrightarrow>
     (\<exists>before x after. (if lb_pkg l = fst own then Some (snd own) else map_of (pv_files pv) (lb_pkg l)) = Some (before @ x # after) \<and>
        ru_name x = lb_name l \<and> lb_name l \<notin> ru_name ` set before \<and> r = semantic_at pv st (lb_pkg l) x)"

text \<open>A string of a rule of package \<open>pkg\<close> means the file it labels when no rule has the label; the files a
  filegroup's sources mean; the files an alias's target means; and the outputs of any other rule.\<close>

inductive means_file :: "producer_env \<Rightarrow> string \<times> build_rule list \<Rightarrow> stored \<Rightarrow> string \<Rightarrow> string \<Rightarrow> string \<Rightarrow> bool"
  for pv :: producer_env and own :: "string \<times> build_rule list" and st :: stored where
  authored: "labels_here pv pkg s l \<Longrightarrow> \<not> (\<exists>r. rule_at pv own st l r) \<Longrightarrow> means_file pv own st pkg s (path_join [lb_pkg l, lb_name l])"
| grouped: "labels_here pv pkg s l \<Longrightarrow> rule_at pv own st l r \<Longrightarrow> ru_kind r = ''filegroup'' \<Longrightarrow> names_literally r ''srcs'' s' \<Longrightarrow>
    means_file pv own st (lb_pkg l) s' x \<Longrightarrow> means_file pv own st pkg s x"
| forwarded: "labels_here pv pkg s l \<Longrightarrow> rule_at pv own st l r \<Longrightarrow> ru_kind r = ''alias'' \<Longrightarrow> ru_attr r ''actual'' = Some (StringExpr s' b) \<Longrightarrow>
    means_file pv own st (lb_pkg l) s' x \<Longrightarrow> means_file pv own st pkg s x"
| generated: "labels_here pv pkg s l \<Longrightarrow> rule_at pv own st l r \<Longrightarrow> ru_kind r \<noteq> ''filegroup'' \<Longrightarrow> ru_kind r \<noteq> ''alias'' \<Longrightarrow>
    declares_out r s' \<Longrightarrow> labels_here pv (lb_pkg l) s' out \<Longrightarrow> lb_pkg out = lb_pkg l \<Longrightarrow>
    means_file pv own st pkg s (path_join [lb_pkg l, lb_name out])"

fun item_means :: "producer_env \<Rightarrow> string \<times> build_rule list \<Rightarrow> stored \<Rightarrow> source_item \<Rightarrow> string \<Rightarrow> bool" where
  "item_means pv own st (Source s l attr) x = means_file pv own st (lb_pkg l) s x"
| "item_means pv own st (NotLiteral l attr) x = False"

definition all_stored :: "producer_env \<Rightarrow> stored \<Rightarrow> bool" where
  "all_stored pv st \<longleftrightarrow> (\<forall>(dir, rs) \<in> set (pv_files pv). \<forall>r \<in> set rs. map_of st (pv_key pv dir r) \<noteq> None)"

lemma observe_nothing: "\<forall>(k, r) \<in> set L. map_of st k \<noteq> None \<Longrightarrow> observe_rules L st = st"
  by (induction L) (auto simp: observe_rules_def)

lemma all_stored_still: "all_stored pv st \<Longrightarrow> observe_build pv pkg st = st"
  unfolding observe_build_def
  by (rule observe_nothing) (auto simp: chain_rules_def dir_rules_def all_stored_def split: option.splits dest!: map_of_SomeD[OF sym] map_of_SomeD)

lemma visit_still: "all_stored pv st \<Longrightarrow> snd (visit_source pv own active it st) = st"
  by (auto simp: visit_source_def source_producer_def Let_def all_stored_still split: source_item.splits option.splits prod.splits if_splits)

lemma visit_active:
  "visit_source pv own active it st = visit_source pv own [] it st \<or>
   (\<exists>src. visit_source pv own active it st = (Leaf [] [(src, ''forwarding cycle'')], st))"
  by (auto simp: visit_source_def split: source_item.splits option.splits)

lemma unknown_incomplete: "pj_incomplete (unknown api l attr p) \<noteq> []"
  by (simp add: unknown_def)

lemma unknown_imports [simp]: "pj_imports (unknown api l attr p) = pj_imports p"
  by (simp add: unknown_def)

lemma add_leaf_imports: "pj_imports (add_leaf api files bad p) = pj_imports p @ files"
proof -
  have "pj_imports (fold (\<lambda>(l, attr). unknown api l attr) bad q) = pj_imports q" for q
    by (induction bad arbitrary: q) auto
  then show ?thesis by (simp add: add_leaf_def)
qed

lemma add_leaf_complete: "pj_incomplete (add_leaf api files bad p) = [] \<longleftrightarrow> bad = [] \<and> pj_incomplete p = []"
proof -
  have "pj_incomplete (fold (\<lambda>(l, attr). unknown api l attr) bad q) = [] \<longleftrightarrow> bad = [] \<and> pj_incomplete q = []" for q
    by (induction bad arbitrary: q) (auto simp: unknown_incomplete)
  then show ?thesis by (simp add: add_leaf_def)
qed

lemma import_items_still: "all_stored pv (snd res) \<Longrightarrow> snd (import_items pv own active items res) = snd res"
proof (induction pv own active items res rule: import_items.induct)
  case (2 pv own active it its res)
  have s: "snd (visit_source pv own active it (snd res)) = snd res" by (rule visit_still[OF "2.prems"])
  show ?case
  proof (cases "fst (visit_source pv own active it (snd res))")
    case (Leaf files bad)
    then have "visit_source pv own active it (snd res) = (Leaf files bad, snd res)" using s by (metis prod.collapse)
    then show ?thesis using "2.IH"(1)[OF _ refl] "2.prems" by (simp add: import_items.simps(2))
  next
    case (Forward src items)
    then have v: "visit_source pv own active it (snd res) = (Forward src items, snd res)" using s by (metis prod.collapse)
    have "snd (import_items pv own (src # active) items (fst res, snd res)) = snd res"
      using "2.IH"(2)[OF v[symmetric] refl] "2.prems" by simp
    then show ?thesis using "2.IH"(3)[OF v[symmetric] refl] "2.prems" by (simp add: import_items.simps(2) v)
  qed
qed simp

lemma labels_here_source: "labels_here pv (lb_pkg o1) s l \<longleftrightarrow> source_label pv s o1 = Some l \<and> \<not> lb_canonical l \<and> lb_repo l = ee_repo (pv_env pv)"
  by (auto simp: labels_here_def source_label_def)

lemma labels_here_unique: "labels_here pv pkg s l \<Longrightarrow> labels_here pv pkg s l' \<Longrightarrow> l' = l"
  by (auto simp: labels_here_def)

lemma find_first: "find P xs = Some x \<longleftrightarrow> (\<exists>before after. xs = before @ x # after \<and> P x \<and> (\<forall>y \<in> set before. \<not> P y))"
proof (induction xs)
  case (Cons a xs)
  show ?case
  proof (cases "P a")
    case True
    then show ?thesis by (auto simp: Cons_eq_append_conv)
  next
    case False
    show ?thesis
    proof
      assume "find P (a # xs) = Some x"
      then obtain before after where "xs = before @ x # after" "P x" "\<forall>y \<in> set before. \<not> P y" using Cons False by auto
      then show "\<exists>before after. a # xs = before @ x # after \<and> P x \<and> (\<forall>y \<in> set before. \<not> P y)"
        using False by (metis append_Cons set_ConsD)
    next
      assume "\<exists>before after. a # xs = before @ x # after \<and> P x \<and> (\<forall>y \<in> set before. \<not> P y)"
      then obtain before after where b: "a # xs = before @ x # after" "P x" "\<forall>y \<in> set before. \<not> P y" by blast
      then obtain tail where "before = a # tail" using False by (cases before) auto
      then have "find P xs = Some x" using Cons b by auto
      then show "find P (a # xs) = Some x" using False by simp
    qed
  qed
qed simp

lemma named_rule_at:
  "named_rule pv st pkg name rs = Some r \<longleftrightarrow>
     (\<exists>before x after. rs = before @ x # after \<and> ru_name x = name \<and> name \<notin> ru_name ` set before \<and> r = semantic_at pv st pkg x)"
proof -
  have "named_rule pv st pkg name rs = Some r \<longleftrightarrow> (\<exists>x. find (\<lambda>r. ru_name r = name) rs = Some x \<and> r = semantic_at pv st pkg x)"
    by (auto simp: named_rule_def split: option.splits)
  also have "\<dots> \<longleftrightarrow> (\<exists>x. (\<exists>before after. rs = before @ x # after \<and> ru_name x = name \<and> (\<forall>y \<in> set before. ru_name y \<noteq> name)) \<and> r = semantic_at pv st pkg x)"
    by (simp only: find_first)
  also have "\<dots> \<longleftrightarrow> (\<exists>before x after. rs = before @ x # after \<and> ru_name x = name \<and> name \<notin> ru_name ` set before \<and> r = semantic_at pv st pkg x)"
    by (simp add: image_iff) metis
  finally show ?thesis .
qed

lemma source_producer_at:
  assumes "all_stored pv st"
  shows "fst (source_producer pv own l st) = Some r \<longleftrightarrow> rule_at pv own st l r"
proof (cases "lb_pkg l = fst own")
  case True
  then show ?thesis by (auto simp: source_producer_def rule_at_def named_rule_at)
next
  case False
  then show ?thesis using all_stored_still[OF assms]
    by (cases "map_of (pv_files pv) (lb_pkg l)") (auto simp: source_producer_def rule_at_def named_rule_at Let_def)
qed

lemma rule_at_unique:
  assumes "all_stored pv st" "rule_at pv own st l r" "rule_at pv own st l r'"
  shows "r' = r"
  using source_producer_at[OF assms(1), of own l r] source_producer_at[OF assms(1), of own l r'] assms(2,3) by simp

lemma string_values_set: "s \<in> set (string_values es) \<longleftrightarrow> (\<exists>b. StringExpr s b \<in> set es)"
  by (induction es rule: string_values.induct) auto

lemma outputs_declared:
  "x \<in> set (od_files (pv_outputs pv pkg r)) \<longleftrightarrow>
     (\<exists>s out. declares_out r s \<and> labels_here pv pkg s out \<and> lb_pkg out = pkg \<and> x = lb_name out)"
proof -
  have vals: "s \<in> set (fst (literal_values (ru_attr r attr))) \<longleftrightarrow> names_literally r attr s \<or> (\<exists>b. ru_attr r attr = Some (StringExpr s b))" for s attr
    by (auto simp: literal_values_def names_literally_def string_values_set split: option.split expr.split)
  have loc: "local_output (ee_api (pv_env pv)) (ee_repo (pv_env pv)) pkg s = Some x \<longleftrightarrow> (\<exists>out. labels_here pv pkg s out \<and> lb_pkg out = pkg \<and> x = lb_name out)" for s
    by (auto simp: local_output_def labels_here_def Let_def split: option.split)
  have outs: "set (od_files (pv_outputs pv pkg r)) =
      set (List.map_filter (local_output (ee_api (pv_env pv)) (ee_repo (pv_env pv)) pkg) (fst (literal_values (ru_attr r ''out'')))) \<union>
      set (List.map_filter (local_output (ee_api (pv_env pv)) (ee_repo (pv_env pv)) pkg) (fst (literal_values (ru_attr r ''outs''))))"
    by (auto simp: pv_outputs_def rule_outputs_def add_outputs_def Let_def split_beta split: option.split expr.split)
  have "x \<in> set (List.map_filter f xs) \<longleftrightarrow> (\<exists>s \<in> set xs. f s = Some x)" for f :: "string \<Rightarrow> string option" and xs
    by (auto simp: List.map_filter_def image_iff)
  note mf = this
  have one: "x \<in> set (List.map_filter (local_output (ee_api (pv_env pv)) (ee_repo (pv_env pv)) pkg) (fst (literal_values (ru_attr r attr)))) \<longleftrightarrow>
      (\<exists>s out. (names_literally r attr s \<or> (\<exists>b. ru_attr r attr = Some (StringExpr s b))) \<and> labels_here pv pkg s out \<and> lb_pkg out = pkg \<and> x = lb_name out)" for attr
    unfolding mf Bex_def vals loc by blast
  show ?thesis unfolding outs Un_iff one declares_out_def by blast
qed

lemma source_items_means:
  "(\<exists>it \<in> set (source_items (ru_attr r attr) l attr'). item_means pv own st it x) \<longleftrightarrow> (\<exists>s. names_literally r attr s \<and> means_file pv own st (lb_pkg l) s x)"
proof -
  have "item_means pv own st (case e of StringExpr s b \<Rightarrow> Source s l attr' | _ \<Rightarrow> NotLiteral l attr') x \<longleftrightarrow>
      (\<exists>s b. e = StringExpr s b \<and> means_file pv own st (lb_pkg l) s x)" for e
    by (cases e) auto
  note one = this
  show ?thesis
  proof (cases "\<exists>es. ru_attr r attr = Some (ListExpr es)")
    case True
    then obtain es where es: "ru_attr r attr = Some (ListExpr es)" by blast
    have "(\<exists>it \<in> set (source_items (ru_attr r attr) l attr'). item_means pv own st it x) \<longleftrightarrow>
        (\<exists>e \<in> set es. item_means pv own st (case e of StringExpr s b \<Rightarrow> Source s l attr' | _ \<Rightarrow> NotLiteral l attr') x)"
      by (simp add: source_items_def es)
    also have "\<dots> \<longleftrightarrow> (\<exists>e \<in> set es. \<exists>s b. e = StringExpr s b \<and> means_file pv own st (lb_pkg l) s x)" by (simp only: one)
    also have "\<dots> \<longleftrightarrow> (\<exists>s. names_literally r attr s \<and> means_file pv own st (lb_pkg l) s x)" by (auto simp: names_literally_def es)
    finally show ?thesis .
  next
    case False
    have "\<not> item_means pv own st it x" if "it \<in> set (source_items (ru_attr r attr) l attr')" for it
      using that False by (cases "ru_attr r attr") (auto simp: source_items_def split: expr.splits)
    then show ?thesis using False by (auto simp: names_literally_def)
  qed
qed

text \<open>What a source of the list means, by the rule that has its label.\<close>

lemma means_by_rule:
  assumes "all_stored pv st" "labels_here pv pkg s l"
  shows "means_file pv own st pkg s x \<longleftrightarrow>
    (case fst (source_producer pv own l st) of
       None \<Rightarrow> x = path_join [lb_pkg l, lb_name l]
     | Some r \<Rightarrow>
         if ru_kind r = ''filegroup'' then (\<exists>s'. names_literally r ''srcs'' s' \<and> means_file pv own st (lb_pkg l) s' x)
         else if ru_kind r = ''alias'' then (\<exists>s' b. ru_attr r ''actual'' = Some (StringExpr s' b) \<and> means_file pv own st (lb_pkg l) s' x)
         else (\<exists>name \<in> set (od_files (pv_outputs pv (lb_pkg l) r)). x = path_join [lb_pkg l, name]))"
proof -
  have l: "labels_here pv pkg s l' \<longleftrightarrow> l' = l" for l' using labels_here_unique[OF assms(2)] assms(2) by blast
  show ?thesis
  proof (cases "fst (source_producer pv own l st)")
    case None
    then have no: "\<not> rule_at pv own st l r" for r using source_producer_at[OF assms(1), of own l r] by simp
    show ?thesis using None no by (subst means_file.simps) (simp add: l)
  next
    case (Some r)
    then have r: "rule_at pv own st l r" using source_producer_at[OF assms(1)] by blast
    have u: "rule_at pv own st l r' \<longleftrightarrow> r' = r" for r' using rule_at_unique[OF assms(1) r] r by blast
    consider "ru_kind r = ''filegroup''" | "ru_kind r = ''alias''" | "ru_kind r \<noteq> ''filegroup''" "ru_kind r \<noteq> ''alias''" by blast
    then show ?thesis
    proof cases
      case 1
      then show ?thesis using Some by (subst means_file.simps) (simp add: l u)
    next
      case 2
      then show ?thesis using Some by (subst means_file.simps) (simp add: l u)
    next
      case 3
      then have "means_file pv own st pkg s x \<longleftrightarrow>
          (\<exists>s' out. declares_out r s' \<and> labels_here pv (lb_pkg l) s' out \<and> lb_pkg out = lb_pkg l \<and> x = path_join [lb_pkg l, lb_name out])"
        by (subst means_file.simps) (simp add: l u, metis)
      also have "\<dots> \<longleftrightarrow> (\<exists>name. name \<in> set (od_files (pv_outputs pv (lb_pkg l) r)) \<and> x = path_join [lb_pkg l, name])"
        unfolding outputs_declared by blast
      finally show ?thesis using Some 3 by (simp add: Bex_def)
    qed
  qed
qed

lemma visit_leaf_means:
  assumes "all_stored pv st" "visit_source pv own active it st = (Leaf files [], st')"
  shows "item_means pv own st it x \<longleftrightarrow> x \<in> set files"
proof -
  obtain s o1 attr where it: "it = Source s o1 attr" using assms(2) by (cases it) (auto simp: visit_source_def)
  obtain l where l: "source_label pv s o1 = Some l" "\<not> lb_canonical l" "lb_repo l = ee_repo (pv_env pv)"
    and p: "producer_step pv l (fst (source_producer pv own l st)) = Leaf files []"
    using assms(2) unfolding it by (auto simp: visit_source_def split: option.splits if_splits prod.splits)
  have h: "labels_here pv (lb_pkg o1) s l" using l by (simp add: labels_here_source)
  show ?thesis unfolding it item_means.simps means_by_rule[OF assms(1) h]
    using p by (auto simp: producer_step_def Let_def split: option.splits if_splits expr.splits)
qed

lemma visit_forward_means:
  assumes "all_stored pv st" "visit_source pv own active it st = (Forward src items, st')"
  shows "item_means pv own st it x \<longleftrightarrow> (\<exists>i \<in> set items. item_means pv own st i x)"
proof -
  obtain s o1 attr where it: "it = Source s o1 attr" using assms(2) by (cases it) (auto simp: visit_source_def)
  obtain l where l: "source_label pv s o1 = Some l" "\<not> lb_canonical l" "lb_repo l = ee_repo (pv_env pv)"
    and p: "producer_step pv l (fst (source_producer pv own l st)) = Forward src items"
    using assms(2) unfolding it by (auto simp: visit_source_def split: option.splits if_splits prod.splits)
  have h: "labels_here pv (lb_pkg o1) s l" using l by (simp add: labels_here_source)
  obtain r where r: "fst (source_producer pv own l st) = Some r" using p producer_step_forward by metis
  consider "ru_kind r = ''filegroup''" | "ru_kind r \<noteq> ''filegroup''" "ru_kind r = ''alias''"
    using p unfolding r by (auto simp: producer_step_def Let_def split: if_splits)
  then show ?thesis
  proof cases
    case 1
    then have "src = l" "items = source_items (ru_attr r ''srcs'') l ''srcs''"
      using p unfolding r by (auto simp: producer_step_def split: if_splits)
    then show ?thesis unfolding it item_means.simps means_by_rule[OF assms(1) h] using r 1
      by (simp add: source_items_means)
  next
    case 2
    then obtain s' b where a: "ru_attr r ''actual'' = Some (StringExpr s' b)" "items = [Source s' l ''actual'']"
      using p unfolding r by (auto simp: producer_step_def split: option.splits expr.splits if_splits)
    then show ?thesis unfolding it item_means.simps means_by_rule[OF assms(1) h] using r 2 by simp
  qed
qed

lemma import_items_exact:
  "all_stored pv (snd res) \<Longrightarrow> pj_incomplete (fst (import_items pv own active items res)) = [] \<Longrightarrow>
   pj_incomplete (fst res) = [] \<and>
   set (pj_imports (fst (import_items pv own active items res))) =
     set (pj_imports (fst res)) \<union> {x. \<exists>it \<in> set items. item_means pv own (snd res) it x}"
proof (induction pv own active items res rule: import_items.induct)
  case (2 pv own active it its res)
  have s: "snd (visit_source pv own active it (snd res)) = snd res" by (rule visit_still[OF "2.prems"(1)])
  show ?case
  proof (cases "fst (visit_source pv own active it (snd res))")
    case (Leaf files bad)
    then have v: "visit_source pv own active it (snd res) = (Leaf files bad, snd res)" using s by (metis prod.collapse)
    have step: "import_items pv own active (it # its) res = import_items pv own active its (add_leaf (ee_api (pv_env pv)) files bad (fst res), snd res)"
      by (simp add: import_items.simps(2) v)
    have ih: "pj_incomplete (add_leaf (ee_api (pv_env pv)) files bad (fst res)) = [] \<and>
        set (pj_imports (fst (import_items pv own active (it # its) res))) =
          set (pj_imports (fst res) @ files) \<union> {x. \<exists>i \<in> set its. item_means pv own (snd res) i x}"
      using "2.IH"(1)[OF v[symmetric] refl] "2.prems" unfolding step by (simp add: add_leaf_imports)
    then have bad: "bad = []" "pj_incomplete (fst res) = []" by (simp_all add: add_leaf_complete)
    show ?thesis using ih bad(2) visit_leaf_means[OF "2.prems"(1) v[unfolded bad(1)]] by auto
  next
    case (Forward src items)
    then have v: "visit_source pv own active it (snd res) = (Forward src items, snd res)" using s by (metis prod.collapse)
    let ?inner = "import_items pv own (src # active) items (fst res, snd res)"
    have step: "import_items pv own active (it # its) res = import_items pv own active its ?inner"
      by (simp add: import_items.simps(2) v)
    have st: "snd ?inner = snd res" using import_items_still[of pv "(fst res, snd res)"] "2.prems"(1) by simp
    have outer: "pj_incomplete (fst ?inner) = [] \<and>
        set (pj_imports (fst (import_items pv own active its ?inner))) =
          set (pj_imports (fst ?inner)) \<union> {x. \<exists>i \<in> set its. item_means pv own (snd res) i x}"
      using "2.IH"(3)[OF v[symmetric] refl] "2.prems" st unfolding step by simp
    then have inner: "pj_incomplete (fst res) = [] \<and>
        set (pj_imports (fst ?inner)) = set (pj_imports (fst res)) \<union> {x. \<exists>i \<in> set items. item_means pv own (snd res) i x}"
      using "2.IH"(2)[OF v[symmetric] refl] "2.prems"(1) by simp
    show ?thesis unfolding step using outer inner visit_forward_means[OF "2.prems"(1) v] by auto
  qed
qed simp

text \<open>C5.  Once the rules of the BUILD files are stored, a projection that is complete holds exactly
  the files the literal sources of the rule mean: authored files, the outputs other rules declare, and
  what filegroups and aliases stand for, however they are chained.\<close>

theorem complete_projection_exact:
  assumes "all_stored pv st" "declared_source_imports pv own r st = (p, st')" "pj_incomplete p = []"
  shows "x \<in> set (pj_imports p) \<longleftrightarrow> (\<exists>s. names_literally r ''srcs'' s \<and> means_file pv own st (fst own) s x)"
proof -
  let ?me = "\<lparr>lb_repo = ee_repo (pv_env pv), lb_pkg = fst own, lb_name = ru_name r, lb_relative = False, lb_canonical = False\<rparr>"
  let ?items = "source_items (ru_attr r ''srcs'') ?me ''srcs''"
  have p: "p = fst (import_items pv own [] ?items (\<lparr>pj_imports = [], pj_incomplete = []\<rparr>, st))"
    using assms(2) by (simp add: declared_source_imports_def)
  have "x \<in> set (pj_imports p) \<longleftrightarrow> (\<exists>it \<in> set ?items. item_means pv own st it x)"
    using import_items_exact[of pv "(\<lparr>pj_imports = [], pj_incomplete = []\<rparr>, st)" own "[]" ?items] assms(1,3) unfolding p by simp
  then show ?thesis unfolding source_items_means by simp
qed

section \<open>The selected imports of a rule\<close>

record select_env =
  sl_producers :: producer_env
  sl_graph :: "proto_graph option"
  sl_store :: store
  sl_kept :: "build_rule \<Rightarrow> build_rule"  \<comment> \<open>\<open>keptSourceRule\<close>: the sources a merge with no generated ones keeps\<close>
  sl_generated :: "string \<Rightarrow> bool"  \<comment> \<open>\<open>generatedProgramFile\<close> of a scalar file\<close>
  sl_language :: bool  \<comment> \<open>whether this language runs\<close>
  sl_bazelPackage :: "string \<Rightarrow> bool"

definition test_target_name :: "string \<Rightarrow> string" where
  "test_target_name lib = lib @ ''_test''"

definition managed_program_rule :: "build_rule \<Rightarrow> string \<Rightarrow> bool" where
  "managed_program_rule r pkg \<longleftrightarrow>
     ru_kind r = ''ts_compile'' \<and> ru_name r = packageName pkg \<or> ru_kind r = ''ts_test'' \<and> ru_name r = test_target_name (packageName pkg)"

definition dir_is_ancestor_of :: "string \<Rightarrow> string \<Rightarrow> bool" where
  "dir_is_ancestor_of anc desc \<longleftrightarrow> anc \<noteq> desc \<and> (anc = [] \<or> has_prefix desc (anc @ ''/''))"

definition nearest_package :: "store \<Rightarrow> string \<Rightarrow> string option" where
  "nearest_package s dir = climb (\<lambda>d. if st_packages s d \<noteq> None \<or> d = [] then Some d else None) dir"

definition ignored_package :: "store \<Rightarrow> string \<Rightarrow> bool" where
  "ignored_package s pkg \<longleftrightarrow> (case st_buildDirectives s pkg of None \<Rightarrow> False | Some ds \<Rightarrow> ''ignore'' \<in> set ds)"

definition selectable :: "select_env \<Rightarrow> string \<Rightarrow> string \<Rightarrow> bool" where
  \<comment> \<open>whether a managed rule of the package is given the file\<close>
  "selectable se pkg f \<longleftrightarrow>
     (let s = sl_store se; dir = parent_dir f; near = nearest_package s dir in
      \<not> sl_generated se f \<and> within f pkg \<and> (near = Some pkg \<or> (\<exists>n \<in> set_option near. dir_is_ancestor_of n pkg)) \<and>
      source_file s f \<and> st_foreign s dir = [] \<and> \<not> ignored_package s dir \<and> generation_disabled s dir = Some False)"

definition own_file :: "producer_env \<Rightarrow> string \<Rightarrow> string \<times> build_rule list" where
  "own_file pv pkg = (pkg, case map_of (pv_files pv) pkg of None \<Rightarrow> [] | Some rs \<Rightarrow> rs)"

definition selected_rule_imports :: "select_env \<Rightarrow> build_rule \<Rightarrow> string \<Rightarrow> stored \<Rightarrow> string list \<times> stored" where
  "selected_rule_imports se r0 pkg st =
     (let pv = sl_producers se; own = own_file pv pkg; r = canonical_rule (ee_config (pv_env pv) pkg) r0;
          managed = (st_walked (sl_store se) pkg = Some True \<and> managed_program_rule r pkg \<and> \<not> ignored_package (sl_store se) pkg \<and> sl_language se);
          (kept, st1) = (if managed then imports_for_rule pv (sl_graph se) own (sl_kept se r) st else ([], st));
          (imports, st2) = imports_for_rule pv (sl_graph se) own r st1
      in (kept @ filter (\<lambda>f. \<not> managed \<or> selectable se pkg f) imports, st2))"

section \<open>The rule that holds a file\<close>

definition config_src_package :: "select_env \<Rightarrow> string \<Rightarrow> string \<Rightarrow> stored \<Rightarrow> (string \<times> stored) option" where
  "config_src_package se f configDir st =
     (case output_producer (sl_producers se) f st of
        None \<Rightarrow> None
      | Some (Some (_, pkg), st') \<Rightarrow> Some (pkg, st')
      | Some (None, st') \<Rightarrow>
          map_option (\<lambda>pkg. (pkg, st'))
            (climb (\<lambda>dir. if dir = configDir \<or> dir = [] \<or> sl_bazelPackage se dir then Some dir else None) (parent_dir f)))"

text \<open>The roles of a file among the inputs of a rule, by the attribute that holds it first.\<close>

fun input_rank :: "select_env \<Rightarrow> string \<times> build_rule list \<Rightarrow> build_rule \<Rightarrow> string \<Rightarrow> (nat \<times> string) list \<Rightarrow> stored \<Rightarrow> nat option \<times> stored" where
  "input_rank se own r spec [] st = (None, st)"
| "input_rank se own r spec ((role, attr) # attrs) st =
     (let probe = r\<lparr>ru_kind := ''ts_compile'',
            ru_attr := [''srcs'' \<mapsto> ListExpr (map (\<lambda>v. StringExpr v False) (ru_strings r attr))]\<rparr>;
          (imports, st') = imports_for_rule (sl_producers se) (sl_graph se) own probe st;
          (later, st2) = input_rank se own r spec attrs st'
      in (if spec \<in> set imports then Some role else later, st2))"

text \<open>Whether a rule may hold the file in a role: 0 for a source, 1 for a package scope, 2 for an input
  of the compiler.\<close>

definition eligible :: "select_env \<Rightarrow> string \<Rightarrow> label \<Rightarrow> nat \<Rightarrow> string \<Rightarrow> label \<Rightarrow> stored \<Rightarrow> bool \<times> stored" where
  "eligible se spec ask role scopePackage found st =
     (let pv = sl_producers se; own = own_file pv (lb_pkg found);
          target = semantic_rule (pv_env pv) st (emission_label (ee_api (pv_env pv)) (ee_repo (pv_env pv)) (lb_pkg found) ('':'' @ lb_name found))
      in if (role = 1 \<or> found \<noteq> ask) \<and> (case target of None \<Rightarrow> True | Some r \<Rightarrow> ru_kind r \<noteq> ''ts_compile'') then (False, st)
         else if role = 1 \<and> lb_pkg found \<noteq> scopePackage then (False, st)
         else case target of
           None \<Rightarrow> (True, st)
         | Some r \<Rightarrow>
             (let (imports, st1) = selected_rule_imports se r (lb_pkg found) st in
              if spec \<in> set imports then (True, st1)
              else if role = 0 then (False, st1)
              else (let (rank, st2) = input_rank se own r spec (enumerate 0 input_attrs) st1 in
                    (case rank of None \<Rightarrow> False | Some k \<Rightarrow> k \<noteq> 0 \<and> k \<le> role, st2))))"

fun keep_eligible :: "select_env \<Rightarrow> string \<Rightarrow> label \<Rightarrow> nat \<Rightarrow> string \<Rightarrow> label list \<Rightarrow> stored \<Rightarrow> label list \<times> stored" where
  "keep_eligible se spec ask role scopePackage [] st = ([], st)"
| "keep_eligible se spec ask role scopePackage (l # ls) st =
     (let (ok, st1) = eligible se spec ask role scopePackage l st;
          (rest, st2) = keep_eligible se spec ask role scopePackage ls st1
      in (if ok then l # rest else rest, st2))"

definition stored_labels :: "select_env \<Rightarrow> stored \<Rightarrow> label list" where
  "stored_labels se st =
     (let api = ee_api (pv_env (sl_producers se)) in
      List.map_filter (\<lambda>(key, _). map_option (\<lambda>l. label_identity api l (ee_repo (pv_env (sl_producers se))) []) (parse_label api key)) st)"

text \<open>\<open>index\<close> is what Gazelle's index answers; the stored rules are met in the order of the map.\<close>

definition holding_owners ::
    "select_env \<Rightarrow> (string \<Rightarrow> label list) \<Rightarrow> string \<Rightarrow> label \<Rightarrow> nat \<Rightarrow> stored \<Rightarrow> (label list \<times> stored) option" where
  "holding_owners se index spec ask role st =
     (case (if role = 1 then config_src_package se spec [] st else Some ([], st)) of
        None \<Rightarrow> None
      | Some (scopePackage, st1) \<Rightarrow>
          let (owners, st2) = keep_eligible se spec ask role scopePackage (index spec) st1 in
          Some (if owners = [] then keep_eligible se spec ask role scopePackage (stored_labels se st2) st2 else (owners, st2)))"

definition rule_holding ::
    "select_env \<Rightarrow> (string \<Rightarrow> label list) \<Rightarrow> string \<Rightarrow> label \<Rightarrow> nat \<Rightarrow> stored \<Rightarrow> (string option \<times> stored) option" where
  \<comment> \<open>Some of the empty text when the asking rule holds the file itself\<close>
  "rule_holding se index spec ask role st =
     map_option (\<lambda>(owners, st').
       let api = ee_api (pv_env (sl_producers se)); sorted = remdups_adj (foldr (insert_label api) owners []) in
       (if ask \<in> set sorted then Some []
        else case sorted of [] \<Rightarrow> None | l # _ \<Rightarrow> Some (la_string api (relative_label api l (lb_repo ask) (lb_pkg ask))), st'))
       (holding_owners se index spec ask role st)"

section \<open>The producer as a dependency\<close>

definition source_producer_dep :: "label_api \<Rightarrow> (build_rule \<times> string) option \<Rightarrow> label \<Rightarrow> string" where
  "source_producer_dep api producer ask =
     (case producer of
        None \<Rightarrow> []
      | Some (r, pkg) \<Rightarrow>
          if ru_kind r \<noteq> ''ts_codegen'' then []
          else
            let l = \<lparr>lb_repo = lb_repo ask, lb_pkg = pkg, lb_name = ru_name r, lb_relative = False, lb_canonical = False\<rparr> in
            if l = ask then [] else la_string api (relative_label api l (lb_repo ask) (lb_pkg ask)))"

section \<open>The choice of an owner\<close>

text \<open>Once every rule is stored, asking changes nothing.\<close>

lemma scan_package_still: "all_stored pv st \<Longrightarrow> snd (scan_package pv f tree dir best st) = st"
proof -
  assume a: "all_stored pv st"
  show ?thesis
  proof (cases "map_of (pv_files pv) dir")
    case (Some rs)
    then have "(dir, rs) \<in> set (pv_files pv)" by (rule map_of_SomeD)
    then have "\<forall>r \<in> set rs. map_of st (pv_key pv dir r) \<noteq> None" using a unfolding all_stored_def by blast
    then obtain po where "package_outputs pv st dir rs = Some po" by (auto simp: package_outputs_def list_ex_iff)
    then show ?thesis by (simp add: scan_package_def Some split: option.split)
  qed (simp add: scan_package_def)
qed

lemma scan_up_still: "all_stored pv st \<Longrightarrow> scan_up pv f tree dir best st = Some (r, st') \<Longrightarrow> st' = st"
proof (induction pv f tree dir best st rule: scan_up.induct)
  case (1 pv f tree dir best st)
  have "snd (scan_package pv f tree dir best st) = st" by (rule scan_package_still[OF "1.prems"(1)])
  then obtain x where x: "scan_package pv f tree dir best st = (x, st)" by (metis prod.collapse)
  show ?case
  proof (cases x)
    case (Inl y)
    then show ?thesis using "1.prems"(2) by (subst (asm) scan_up.simps) (simp add: x)
  next
    case (Inr y)
    then show ?thesis using "1.prems"(2) "1.IH"[OF x[symmetric, unfolded Inr] refl] "1.prems"(1)
      by (subst (asm) scan_up.simps) (auto simp: x Inr split: if_splits)
  qed
qed

lemma config_src_package_still: "all_stored (sl_producers se) st \<Longrightarrow> config_src_package se f dir st = Some (pkg, st') \<Longrightarrow> st' = st"
  by (auto simp: config_src_package_def output_producer_def declared_output_producer_def split: option.splits prod.splits dest!: scan_up_still)

lemma imports_for_rule_still: "all_stored pv st \<Longrightarrow> snd (imports_for_rule pv g own r st) = st"
proof -
  assume a: "all_stored pv st"
  have "snd (declared_source_imports pv own r' st) = st" for r'
    using import_items_still[of pv "(\<lparr>pj_imports = [], pj_incomplete = []\<rparr>, st)"] a by (simp add: declared_source_imports_def)
  then show ?thesis by (simp add: imports_for_rule_def Let_def split_beta)
qed

lemma selected_still: "all_stored (sl_producers se) st \<Longrightarrow> snd (selected_rule_imports se r pkg st) = st"
  by (simp add: selected_rule_imports_def Let_def split_beta imports_for_rule_still)

lemma input_rank_still: "all_stored (sl_producers se) st \<Longrightarrow> snd (input_rank se own r spec attrs st) = st"
  by (induction attrs) (auto simp: Let_def split_beta imports_for_rule_still)

lemma eligible_still: "all_stored (sl_producers se) st \<Longrightarrow> snd (eligible se spec ask role sp l st) = st"
  by (auto simp: eligible_def Let_def split_beta selected_still input_rank_still split: option.splits)

lemma keep_eligible_filter:
  "all_stored (sl_producers se) st \<Longrightarrow>
   keep_eligible se spec ask role sp ls st = (filter (\<lambda>l. fst (eligible se spec ask role sp l st)) ls, st)"
  by (induction ls) (auto simp: Let_def split_beta eligible_still)

lemma set_insert_label [simp]: "set (insert_label api l ls) = insert l (set ls)"
  by (induction ls) auto

lemma set_foldr_insert [simp]: "set (foldr (insert_label api) ls []) = set ls"
  by (induction ls) auto

lemma insert_label_sorted:
  "sorted_wrt (\<lambda>a b. bytes_le (la_string api a) (la_string api b)) ls \<Longrightarrow>
   sorted_wrt (\<lambda>a b. bytes_le (la_string api a) (la_string api b)) (insert_label api l ls)"
proof (induction ls)
  case (Cons m ls)
  then show ?case using bytes_le_total[of "la_string api l" "la_string api m"] by (auto intro: bytes_le_trans)
qed simp

lemma sorted_head:
  assumes "inj_on (la_string api) (set ls)" "l \<in> set ls" "\<forall>m \<in> set ls. bytes_le (la_string api l) (la_string api m)"
  shows "\<exists>rest. remdups_adj (foldr (insert_label api) ls []) = l # rest"
proof -
  let ?s = "foldr (insert_label api) ls []"
  have set: "set ?s = set ls" by simp
  have sorted: "sorted_wrt (\<lambda>a b. bytes_le (la_string api a) (la_string api b)) ?s"
    by (induction ls) (simp_all add: insert_label_sorted)
  obtain h rest where h: "?s = h # rest" using set assms(2) by (cases ?s) auto
  have "h \<in> set ls" using set h by auto
  moreover have "bytes_le (la_string api h) (la_string api l)"
  proof -
    have "l = h \<or> l \<in> set rest" using set assms(2) h by auto
    then show ?thesis using sorted unfolding h by auto
  qed
  ultimately have "h = l" using assms bytes_le_antisym by (metis inj_onD)
  then show ?thesis by (metis h remdups_adj_Cons' list.discI remdups_adj.elims remdups_adj_Cons_alt)
qed

text \<open>C12.  The rule that holds a file is the one whose label is least by its bytes among the eligible
  ones of the index, or among the stored rules when the index has none: neither the order of the index
  nor of the map of rules matters.  A rule that holds the file itself depends on nothing.\<close>

theorem rule_holding_least:
  assumes "all_stored (sl_producers se) st"
    and "inj_on (la_string (ee_api (pv_env (sl_producers se)))) (set (index spec) \<union> set (stored_labels se st))"
    and "(if role = 1 then config_src_package se spec [] st else Some ([], st)) = Some (sp, st1)"
    and "E1 = {l \<in> set (index spec). fst (eligible se spec ask role sp l st)}"
    and "E = (if E1 = {} then {l \<in> set (stored_labels se st). fst (eligible se spec ask role sp l st)} else E1)"
    and "l \<in> E" "\<forall>m \<in> E. bytes_le (la_string (ee_api (pv_env (sl_producers se))) l) (la_string (ee_api (pv_env (sl_producers se))) m)"
  shows "rule_holding se index spec ask role st =
    Some (Some (if ask \<in> E then [] else
      la_string (ee_api (pv_env (sl_producers se))) (relative_label (ee_api (pv_env (sl_producers se))) l (lb_repo ask) (lb_pkg ask))), st)"
proof -
  let ?api = "ee_api (pv_env (sl_producers se))" and ?ok = "\<lambda>l. fst (eligible se spec ask role sp l st)"
  have st1: "st1 = st" using assms(3) config_src_package_still[OF assms(1)] by (auto split: if_splits)
  obtain owners where os: "owners = (if filter ?ok (index spec) = [] then filter ?ok (stored_labels se st) else filter ?ok (index spec))" by simp
  have E: "set owners = E" using assms(4,5) unfolding os by (auto simp: filter_empty_conv)
  have "holding_owners se index spec ask role st = Some (owners, st)"
    using assms(3) by (simp add: holding_owners_def st1 keep_eligible_filter[OF assms(1)] Let_def os)
  moreover have "inj_on (la_string ?api) (set owners)" by (rule inj_on_subset[OF assms(2)]) (auto simp: os)
  from sorted_head[OF this, of l] obtain rest where "remdups_adj (foldr (insert_label ?api) owners []) = l # rest"
    using assms(6,7) E by auto
  ultimately show ?thesis by (simp add: rule_holding_def Let_def E)
qed

text \<open>In \<open>p\<close>, \<open>:all\<close> groups \<open>a.ts\<close> and the alias \<open>:other\<close> of \<open>b.ts\<close>; \<open>:p\<close> compiles the group.\<close>

definition demo_attr_rule :: "string \<Rightarrow> string \<Rightarrow> string \<Rightarrow> expr \<Rightarrow> build_rule" where
  "demo_attr_rule k n attr e = demo_rule\<lparr>ru_kind := k, ru_name := n, ru_attr := [attr \<mapsto> e]\<rparr>"

definition demo_sources :: producer_env where
  "demo_sources =
     \<lparr>pv_env = Emission.demo_env,
      pv_files = [(''p'',
        [demo_attr_rule ''filegroup'' ''all'' ''srcs'' (ListExpr [StringExpr '':a.ts'' False, StringExpr '':other'' False]),
         demo_attr_rule ''alias'' ''other'' ''actual'' (StringExpr '':b.ts'' False),
         demo_attr_rule ''ts_compile'' ''p'' ''srcs'' (ListExpr [StringExpr '':all'' False])])],
      pv_indexed = True\<rparr>"

definition demo_compile :: build_rule where
  "demo_compile = demo_attr_rule ''ts_compile'' ''p'' ''srcs'' (ListExpr [StringExpr '':all'' False])"

definition demo_observed :: stored where
  "demo_observed = observe_build demo_sources ''p'' []"

lemma demo_all_stored: "all_stored demo_sources demo_observed"
  by code_simp

lemma demo_projection:
  "pj_imports (fst (declared_source_imports demo_sources (own_file demo_sources ''p'') demo_compile demo_observed)) = [''p/a.ts'', ''p/b.ts''] \<and>
   pj_incomplete (fst (declared_source_imports demo_sources (own_file demo_sources ''p'') demo_compile demo_observed)) = []"
  by code_simp

theorem complete_projection_exact_witness:
  "\<exists>s. names_literally demo_compile ''srcs'' s \<and> means_file demo_sources (own_file demo_sources ''p'') demo_observed ''p'' s ''p/b.ts''"
proof -
  obtain p st' where d: "declared_source_imports demo_sources (own_file demo_sources ''p'') demo_compile demo_observed = (p, st')"
    by (cases "declared_source_imports demo_sources (own_file demo_sources ''p'') demo_compile demo_observed")
  then have "pj_incomplete p = []" "''p/b.ts'' \<in> set (pj_imports p)" using demo_projection by simp_all
  with complete_projection_exact[OF demo_all_stored d, of "''p/b.ts''"] show ?thesis by (simp add: own_file_def)
qed

definition demo_select :: select_env where
  "demo_select =
     \<lparr>sl_producers = demo_sources, sl_graph = None,
      sl_store = \<lparr>st_packages = (\<lambda>d. if d = ''p'' then Some [''p/a.ts'', ''p/b.ts''] else None), st_packageDirs = [''p''],
        st_files = (\<lambda>d. if d = ''p'' then Some [''a.ts'', ''b.ts''] else None), st_walked = (\<lambda>d. Some True), st_foreign = (\<lambda>_. []),
        st_buildDirectives = (\<lambda>_. None), st_configs = (\<lambda>_. []), st_producer = (\<lambda>_. False), st_generatedFile = (\<lambda>_. False),
        st_codegenWrites = (\<lambda>_ _. False), st_skipped = False\<rparr>,
      sl_kept = (\<lambda>r. r\<lparr>ru_attr := (ru_attr r)(''srcs'' := None)\<rparr>), sl_generated = (\<lambda>_. False), sl_language = True, sl_bazelPackage = (\<lambda>_. True)\<rparr>"

definition demo_label :: "string \<Rightarrow> string \<Rightarrow> label" where
  "demo_label pkg n = \<lparr>lb_repo = [], lb_pkg = pkg, lb_name = n, lb_relative = False, lb_canonical = False\<rparr>"

definition demo_index :: "string \<Rightarrow> label list" where
  "demo_index f = (if f = ''p/b.ts'' then [demo_label ''p'' ''p''] else [])"

lemma demo_eligible: "fst (eligible demo_select ''p/b.ts'' (demo_label ''q'' ''q'') 0 [] (demo_label ''p'' ''p'') demo_observed)"
  by code_simp

lemma demo_stored_labels:
  "stored_labels demo_select demo_observed = [demo_label [] ''all'', demo_label [] ''other'', demo_label [] ''p'']"
  by code_simp

theorem rule_holding_least_witness:
  "map_option fst (rule_holding demo_select demo_index ''p/b.ts'' (demo_label ''q'' ''q'') 0 demo_observed) = Some (Some ''q:p'')"
proof -
  let ?api = "ee_api (pv_env (sl_producers demo_select))"
  have stored: "all_stored (sl_producers demo_select) demo_observed" using demo_all_stored by (simp add: demo_select_def)
  have api: "?api = plain_labels" by (simp add: demo_select_def demo_sources_def Emission.demo_env_def)
  have index: "set (demo_index ''p/b.ts'') = {demo_label ''p'' ''p''}" by (simp add: demo_index_def)
  have inj: "inj_on (la_string ?api) (set (demo_index ''p/b.ts'') \<union> set (stored_labels demo_select demo_observed))"
    unfolding api index demo_stored_labels by (simp add: inj_on_def plain_labels_def demo_label_def)
  have E: "{demo_label ''p'' ''p''} = {l \<in> set (demo_index ''p/b.ts''). fst (eligible demo_select ''p/b.ts'' (demo_label ''q'' ''q'') 0 [] l demo_observed)}"
    unfolding index using demo_eligible by auto
  have "rule_holding demo_select demo_index ''p/b.ts'' (demo_label ''q'' ''q'') 0 demo_observed =
      Some (Some (if demo_label ''q'' ''q'' \<in> {demo_label ''p'' ''p''} then []
        else la_string ?api (relative_label ?api (demo_label ''p'' ''p'') (lb_repo (demo_label ''q'' ''q'')) (lb_pkg (demo_label ''q'' ''q'')))), demo_observed)"
    by (rule rule_holding_least[where se = demo_select and index = demo_index and spec = "''p/b.ts''" and ask = "demo_label ''q'' ''q''" and role = 0 and st = demo_observed and
        sp = "[]" and ?st1.0 = demo_observed and E = "{demo_label ''p'' ''p''}" and l = "demo_label ''p'' ''p''", OF stored inj _ E])
      simp_all
  moreover have "la_string plain_labels (relative_label plain_labels (demo_label ''p'' ''p'') (lb_repo (demo_label ''q'' ''q'')) (lb_pkg (demo_label ''q'' ''q''))) = ''q:p''"
    by code_simp
  moreover have "demo_label ''q'' ''q'' \<noteq> demo_label ''p'' ''p''" by (simp add: demo_label_def)
  ultimately show ?thesis unfolding api by simp
qed

end
