(* ===== verification/Inputs.thy ===== *)
theory Inputs imports SourceImports begin

text \<open>
  What a file is to Gazelle: \<open>gazelle/owner.go\<close> and \<open>gazelle/manifest.go\<close>.  A file is generated,
  authored, unknown while an output declaration above it is not literal, or unavailable; a package.json
  is looked for upwards.  Every question may observe BUILD files, so a question is a function of the
  store; \<open>log.Fatal\<close> ends it with a fault.
\<close>

section \<open>Questions on the store\<close>

datatype fault =
    Spins  \<comment> \<open>a walk up from a rooted path\<close>
  | BadGraph graph_error
  | BadProto proto_error
  | IncompleteOutput string string string  \<comment> \<open>the package, the rule and its attribute\<close>
  | MissingInput string string unowned_reason
  | GeneratedScope string string string
  | OpaqueOwner string string
  | NotCompiled string string
  | BadExport string
  | ForeignDeclaration string string
  | GeneratedDiscovery string
  | ScopeDenied string string
  | ScopeConflict string string

type_synonym 'a query = "stored \<Rightarrow> (fault + 'a) \<times> stored"

definition ret :: "'a \<Rightarrow> 'a query" where
  "ret x st = (Inr x, st)"

definition fault :: "fault \<Rightarrow> 'a query" where
  "fault e st = (Inl e, st)"

definition bindq :: "'a query \<Rightarrow> ('a \<Rightarrow> 'b query) \<Rightarrow> 'b query" where
  "bindq q k st = (case q st of (Inl e, st') \<Rightarrow> (Inl e, st') | (Inr x, st') \<Rightarrow> k x st')"

definition total :: "(stored \<Rightarrow> 'a \<times> stored) \<Rightarrow> 'a query" where
  "total f st = (let (x, st') = f st in (Inr x, st'))"

definition walking :: "(stored \<Rightarrow> ('a \<times> stored) option) \<Rightarrow> 'a query" where
  "walking f st = (case f st of None \<Rightarrow> (Inl Spins, st) | Some (x, st') \<Rightarrow> (Inr x, st'))"

definition reading :: "(stored \<Rightarrow> fault + 'a) \<Rightarrow> 'a query" where
  "reading f st = (f st, st)"

definition known :: "fault + 'a \<Rightarrow> 'a query" where
  "known r = reading (\<lambda>_. r)"

text \<open>The loop over \<open>parentDir\<close> that a question answers at some directory, or not at all.\<close>

function ascend :: "(string \<Rightarrow> 'a option query) \<Rightarrow> string \<Rightarrow> 'a option query" where
  "ascend step dir st =
     (case step dir st of
        (Inl e, st') \<Rightarrow> (Inl e, st')
      | (Inr (Some x), st') \<Rightarrow> (Inr (Some x), st')
      | (Inr None, st') \<Rightarrow>
          if dir = [] then (Inr None, st')
          else if dir = [SL] then (Inl Spins, st')
          else ascend step (parent_dir dir) st')"
  by pat_completeness auto
termination
  by (relation "measure (\<lambda>(step, dir, st). length dir)") (auto simp: parent_dir_shorter)

declare ascend.simps [simp del]

section \<open>The identity of a file\<close>

record 'c input_env = select_env +
  in_index :: "string \<Rightarrow> label list"  \<comment> \<open>Gazelle's index of rules by import\<close>
  in_trees :: "(string \<Rightarrow> label list) option"
  in_override :: "string \<Rightarrow> label option"  \<comment> \<open>\<open># gazelle:resolve\<close>\<close>
  in_proto :: proto_env
  in_protoIndex :: "proto_index option"
  in_observed :: "'c observed_by"
  in_regular :: "string \<Rightarrow> bool"  \<comment> \<open>a regular file of the source tree\<close>
  in_manifest :: "string \<Rightarrow> manifest option"  \<comment> \<open>\<open>readManifest\<close>: the package.json of a directory, decoded\<close>
  in_content :: "string \<Rightarrow> bool"  \<comment> \<open>the BUILD file of a directory is on disk\<close>

abbreviation in_api :: "('c, 'z) input_env_scheme \<Rightarrow> label_api" where
  "in_api ie \<equiv> ee_api (pv_env (sl_producers ie))"

abbreviation in_repo :: "('c, 'z) input_env_scheme \<Rightarrow> string" where
  "in_repo ie \<equiv> ee_repo (pv_env (sl_producers ie))"

abbreviation in_select :: "('c, 'z) input_env_scheme \<Rightarrow> select_env" where
  "in_select ie \<equiv> select_env.truncate ie"

datatype input_identity = Unavailable | Authored | Generated | UnknownInput

definition generated_output :: "('c, 'z) input_env_scheme \<Rightarrow> string \<Rightarrow> bool \<Rightarrow> bool query" where
  "generated_output ie f scalar =
     (if \<not> firstParty f then ret False
      else bindq (if scalar then walking (output_producer (sl_producers ie) f) else ret None) (\<lambda>producer.
        if producer \<noteq> None then ret True
        else bindq (walking (codegen_tree_owner (sl_producers ie) (in_trees ie) f)) (\<lambda>tree. ret (tree \<noteq> None))))"

definition generated_program_file :: "('c, 'z) input_env_scheme \<Rightarrow> string \<Rightarrow> bool \<Rightarrow> bool query" where
  "generated_program_file ie f scalar =
     bindq (generated_output ie f scalar) (\<lambda>generated.
       if generated then ret True
       else if \<not> scalar then ret False
       else case proto_output_providers (in_proto ie) (in_override ie) (in_protoIndex ie) (in_observed ie) f of
         Inl e \<Rightarrow> fault (BadGraph e)
       | Inr ps \<Rightarrow> ret (ps \<noteq> []))"

text \<open>The first rule of a package whose output declarations are not literal.  Only the rules of the
  nearest BUILD file can declare the file.\<close>

definition incomplete_rule :: "producer_env \<Rightarrow> stored \<Rightarrow> string \<Rightarrow> build_rule list \<Rightarrow> (string \<times> string \<times> string) option" where
  "incomplete_rule pv st dir rs =
     (case package_outputs pv st dir rs of
        Some po \<Rightarrow>
          map_option (\<lambda>i. let r = po_producers po ! i in (dir, ru_name r, od_incomplete (pv_outputs pv dir r))) (po_incomplete po)
      | None \<Rightarrow>
          map_option (\<lambda>r. (dir, ru_name r, od_incomplete (pv_outputs pv dir r)))
            (find (\<lambda>r. od_incomplete (pv_outputs pv dir r) \<noteq> [])
              (List.map_filter (\<lambda>stored. semantic_rule (pv_env pv) st (pv_key pv dir stored)) rs)))"

definition incomplete_output :: "producer_env \<Rightarrow> string \<Rightarrow> (string \<times> string \<times> string) option query" where
  "incomplete_output pv f =
     (if \<not> firstParty f then ret None
      else reading (\<lambda>st.
        case climb (\<lambda>dir. case map_of (pv_files pv) dir of
                Some rs \<Rightarrow> Some (incomplete_rule pv st dir rs)
              | None \<Rightarrow> if dir = [] then Some None else None) (parent_dir f) of
          None \<Rightarrow> Inl Spins
        | Some found \<Rightarrow> Inr found))"

definition identity_of :: "(string \<Rightarrow> bool) \<Rightarrow> ('c, 'z) input_env_scheme \<Rightarrow> string \<Rightarrow> input_identity query" where
  "identity_of there ie f =
     bindq (generated_program_file ie f True) (\<lambda>generated.
       if generated then ret Generated
       else bindq (incomplete_output (sl_producers ie) f) (\<lambda>incomplete.
         ret (if incomplete \<noteq> None then UnknownInput else if there f then Authored else Unavailable)))"

text \<open>\<open>inputIdentity\<close> asks for a file of the walk, \<open>metadataIdentity\<close> for one of the tree.\<close>

definition input_identity :: "('c, 'z) input_env_scheme \<Rightarrow> string \<Rightarrow> input_identity query" where
  "input_identity ie f = identity_of (source_file (sl_store ie)) ie f"

definition metadata_identity :: "('c, 'z) input_env_scheme \<Rightarrow> string \<Rightarrow> input_identity query" where
  "metadata_identity ie f = identity_of (in_regular ie) ie f"

definition incomplete_fault :: "producer_env \<Rightarrow> string \<Rightarrow> 'a query" where
  "incomplete_fault pv f =
     bindq (incomplete_output pv f) (\<lambda>found. fault (case found of None \<Rightarrow> Spins | Some (pkg, name, attr) \<Rightarrow> IncompleteOutput pkg name attr))"

definition require_input :: "('c, 'z) input_env_scheme \<Rightarrow> string \<Rightarrow> string \<Rightarrow> input_identity query" where
  "require_input ie f importer =
     bindq (input_identity ie f) (\<lambda>identity.
       if identity = UnknownInput then incomplete_fault (sl_producers ie) f
       else if identity = Unavailable then fault (MissingInput importer f (why_unowned (sl_store ie) f))
       else ret identity)"

section \<open>Package scopes and manifests\<close>

definition nearest_manifest :: "('c, 'z) input_env_scheme \<Rightarrow> string \<Rightarrow> manifest option query" where
  "nearest_manifest ie dir =
     bindq (ascend (\<lambda>d. bindq (metadata_identity ie (path_join [d, ''package.json''])) (\<lambda>identity.
         ret (case identity of
                Generated \<Rightarrow> Some None
              | UnknownInput \<Rightarrow> Some None
              | Authored \<Rightarrow> (case in_manifest ie d of None \<Rightarrow> None | Some m \<Rightarrow> Some (Some m))
              | Unavailable \<Rightarrow> None))) dir)
       (\<lambda>found. ret (case found of None \<Rightarrow> None | Some m \<Rightarrow> m))"

definition package_scope :: "('c, 'z) input_env_scheme \<Rightarrow> string \<Rightarrow> string option query" where
  "package_scope ie dir =
     ascend (\<lambda>d. let f = path_join [d, ''package.json''] in
       bindq (metadata_identity ie f) (\<lambda>identity. ret (if identity \<noteq> Unavailable then Some f else None))) dir"

definition require_authored_scope :: "('c, 'z) input_env_scheme \<Rightarrow> string \<Rightarrow> string \<Rightarrow> unit query" where
  "require_authored_scope ie importer f =
     bindq (package_scope ie (parent_dir f)) (\<lambda>scope.
       case scope of
         None \<Rightarrow> ret ()
       | Some sc \<Rightarrow>
           bindq (metadata_identity ie sc) (\<lambda>identity.
             if identity = UnknownInput then incomplete_fault (sl_producers ie) sc
             else if identity = Generated then fault (GeneratedScope importer f sc)
             else ret ()))"

definition tsSourceExtensions :: "string list" where
  "tsSourceExtensions = [''.ts'', ''.tsx'', ''.mts'', ''.cts'']"

definition programExtensions :: "string list" where
  "programExtensions = [''.js'', ''.jsx'', ''.mjs'', ''.cjs''] @ tsSourceExtensions"

definition program_candidate :: "string \<Rightarrow> bool" where
  "program_candidate name \<longleftrightarrow> to_lower (path_ext name) \<in> set programExtensions"

definition required_input_scope :: "('c, 'z) input_env_scheme \<Rightarrow> string \<Rightarrow> string \<Rightarrow> string option query" where
  "required_input_scope ie f consumer =
     (if \<not> firstParty f \<or> \<not> program_candidate f then ret None
      else bindq (package_scope ie (parent_dir f)) (\<lambda>scope.
        case scope of
          None \<Rightarrow> ret None
        | Some sc \<Rightarrow>
            bindq (bindq (generated_program_file ie f True) (\<lambda>generated.
                if generated then bindq (metadata_identity ie sc) (\<lambda>identity. ret (identity \<noteq> Authored)) else ret False))
              (\<lambda>skip.
                if skip then ret None
                else bindq (require_authored_scope ie consumer f) (\<lambda>_.
                  bindq (require_input ie sc f) (\<lambda>_. ret (Some sc))))))"

section \<open>A new package must not cut off a target\<close>

datatype package_conflict =
    CrossesBoundary string string string  \<comment> \<open>the package, the target, the rule that declares it\<close>
  | UnknownOutputs string string string

definition rule_conflict :: "producer_env \<Rightarrow> stored \<Rightarrow> string \<Rightarrow> string \<Rightarrow> build_rule \<Rightarrow> package_conflict option" where
  "rule_conflict pv st pkg dir stored =
     (case semantic_rule (pv_env pv) st (pv_key pv dir stored) of
        None \<Rightarrow> None
      | Some r \<Rightarrow>
          let outs = pv_outputs pv dir r in
          case find (\<lambda>target. dir_is_ancestor_of pkg (path_join [dir, target])) (ru_name r # od_files outs) of
            Some target \<Rightarrow>
              Some (CrossesBoundary pkg (emission_label (ee_api (pv_env pv)) (ee_repo (pv_env pv)) dir ('':'' @ target)) (pv_key pv dir stored))
          | None \<Rightarrow> if od_incomplete outs \<noteq> [] then Some (UnknownOutputs dir (ru_name r) (od_incomplete outs)) else None)"

definition new_package_target_conflict :: "('c, 'z) input_env_scheme \<Rightarrow> string \<Rightarrow> package_conflict option query" where
  "new_package_target_conflict ie pkg =
     (if pkg = [] then ret None
      else reading (\<lambda>st.
        case climb (\<lambda>dir. case map_of (pv_files (sl_producers ie)) dir of
                Some rs \<Rightarrow>
                  (case first_some (rule_conflict (sl_producers ie) st pkg dir) rs of
                     Some c \<Rightarrow> Some (Some c)
                   | None \<Rightarrow> if in_content ie dir \<or> dir = [] then Some None else None)
              | None \<Rightarrow> if dir = [] then Some None else None) (parent_dir pkg) of
          None \<Rightarrow> Inl Spins
        | Some found \<Rightarrow> Inr found))"

section \<open>A settled store\<close>

text \<open>Once every rule of the BUILD files is stored, a question changes nothing.\<close>

definition settled :: "producer_env \<Rightarrow> 'a query \<Rightarrow> bool" where
  "settled pv q \<longleftrightarrow> (\<forall>st. all_stored pv st \<longrightarrow> snd (q st) = st)"

named_theorems settles "questions that leave a settled store as it is"

lemma settledD: "settled pv q \<Longrightarrow> all_stored pv st \<Longrightarrow> q st = (fst (q st), st)"
  by (simp add: settled_def prod_eq_iff)

lemma settled_ret [settles]: "settled pv (ret x)" and settled_fault [settles]: "settled pv (fault e)"
  and settled_reading [settles]: "settled pv (reading g)" and settled_known [settles]: "settled pv (known r)"
  by (simp_all add: settled_def ret_def fault_def reading_def known_def)

lemma settled_bindq [settles]: "settled pv q \<Longrightarrow> (\<And>x. settled pv (k x)) \<Longrightarrow> settled pv (bindq q k)"
  by (simp add: settled_def bindq_def split_beta split: sum.split)

lemma settled_if [settles]: "(b \<Longrightarrow> settled pv q) \<Longrightarrow> (\<not> b \<Longrightarrow> settled pv q') \<Longrightarrow> settled pv (if b then q else q')"
  by simp

lemma settled_option [settles]: "settled pv q \<Longrightarrow> (\<And>x. settled pv (k x)) \<Longrightarrow> settled pv (case o' of None \<Rightarrow> q | Some x \<Rightarrow> k x)"
  by (cases o') simp_all

lemma settled_sum [settles]: "(\<And>x. settled pv (j x)) \<Longrightarrow> (\<And>x. settled pv (k x)) \<Longrightarrow> settled pv (case r of Inl x \<Rightarrow> j x | Inr x \<Rightarrow> k x)"
  by (cases r) simp_all

lemma settled_prod [settles]: "(\<And>x y. settled pv (k x y)) \<Longrightarrow> settled pv (case r of (x, y) \<Rightarrow> k x y)"
  by (cases r) simp

lemma settled_walking: "(\<And>st x st'. all_stored pv st \<Longrightarrow> f st = Some (x, st') \<Longrightarrow> st' = st) \<Longrightarrow> settled pv (walking f)"
  by (auto simp: settled_def walking_def split: option.splits prod.splits)

lemma settled_declared [settles]: "settled pv (walking (declared_output_producer pv f tree))"
  by (rule settled_walking) (auto simp: declared_output_producer_def split: if_splits option.splits prod.splits dest: scan_up_still)

lemma settled_producer [settles]: "settled pv (walking (output_producer pv f))"
  by (rule settled_walking)
    (auto simp: output_producer_def declared_output_producer_def split: if_splits option.splits prod.splits dest: scan_up_still)

lemma codegen_tree_still: "all_stored pv st \<Longrightarrow> codegen_tree_owner pv ix f st = Some (x, st') \<Longrightarrow> st' = st"
  by (auto simp: codegen_tree_owner_def declared_output_producer_def split: if_splits option.splits prod.splits dest: scan_up_still)

lemma settled_tree [settles]: "settled pv (walking (codegen_tree_owner pv ix f))"
  by (rule settled_walking) (rule codegen_tree_still)

lemma settled_resolve_tree [settles]: "settled pv (walking (resolve_codegen_tree pv ix f ask))"
  by (rule settled_walking) (auto simp: resolve_codegen_tree_def dest: codegen_tree_still)

lemma settled_config_src [settles]: "pv = sl_producers se \<Longrightarrow> settled pv (walking (config_src_package se f dir))"
  by (rule settled_walking) (auto dest: config_src_package_still)

lemma keep_eligible_still: "all_stored (sl_producers se) st \<Longrightarrow> keep_eligible se f ask role sp ls st = (x, st') \<Longrightarrow> st' = st"
  by (simp add: keep_eligible_filter)

lemma holding_owners_still: "all_stored (sl_producers se) st \<Longrightarrow> holding_owners se ix f ask role st = Some (x, st') \<Longrightarrow> st' = st"
proof -
  assume a: "all_stored (sl_producers se) st" and h: "holding_owners se ix f ask role st = Some (x, st')"
  then obtain sp where "(if role = 1 then config_src_package se f [] st else Some ([], st)) = Some (sp, st)"
    by (auto simp: holding_owners_def split: option.splits if_splits dest: config_src_package_still)
  then show "st' = st" using a h by (simp add: holding_owners_def keep_eligible_filter split: if_splits)
qed

lemma settled_holding [settles]: "pv = sl_producers se \<Longrightarrow> settled pv (walking (rule_holding se ix f ask role))"
  by (rule settled_walking) (auto simp: rule_holding_def Let_def dest: holding_owners_still)

lemma settled_ascend [settles]: "(\<And>d. settled pv (step d)) \<Longrightarrow> settled pv (ascend step dir)"
proof -
  assume s: "\<And>d. settled pv (step d)"
  have "snd (ascend step dir st) = st" if "all_stored pv st" for st
    using that s
  proof (induction step dir st rule: ascend.induct)
    case (1 step dir st)
    then obtain x where x: "step dir st = (x, st)" by (metis settledD)
    show ?case using 1 by (subst ascend.simps) (auto simp: x split: sum.splits option.splits)
  qed
  then show ?thesis by (simp add: settled_def)
qed

lemma sl_producers_truncate [simp]: "sl_producers (in_select ie) = sl_producers ie"
  by (simp add: select_env.defs)

lemma settled_generated_output [settles]: "settled (sl_producers ie) (generated_output ie f scalar)"
  unfolding generated_output_def by (intro settles)

lemma settled_generated [settles]: "settled (sl_producers ie) (generated_program_file ie f scalar)"
  unfolding generated_program_file_def by (intro settles)

lemma settled_incomplete [settles]: "settled pv (incomplete_output pv f)"
  unfolding incomplete_output_def by (intro settles)

lemma settled_identity [settles]: "settled (sl_producers ie) (identity_of there ie f)"
  unfolding identity_of_def by (intro settles)

lemma settled_input_identity [settles]: "settled (sl_producers ie) (input_identity ie f)"
  unfolding input_identity_def by (rule settles)

lemma settled_metadata_identity [settles]: "settled (sl_producers ie) (metadata_identity ie f)"
  unfolding metadata_identity_def by (rule settles)

lemma settled_incomplete_fault [settles]: "settled pv (incomplete_fault pv f)"
  unfolding incomplete_fault_def by (intro settles)

lemma settled_require [settles]: "settled (sl_producers ie) (require_input ie f importer)"
  unfolding require_input_def by (intro settles)

lemma settled_manifest [settles]: "settled (sl_producers ie) (nearest_manifest ie dir)"
  unfolding nearest_manifest_def by (intro settles)

lemma settled_scope [settles]: "settled (sl_producers ie) (package_scope ie dir)"
  unfolding package_scope_def Let_def by (intro settles)

lemma settled_authored_scope [settles]: "settled (sl_producers ie) (require_authored_scope ie importer f)"
  unfolding require_authored_scope_def by (intro settles)

lemma settled_required_scope [settles]: "settled (sl_producers ie) (required_input_scope ie f consumer)"
  unfolding required_input_scope_def by (intro settles)

text \<open>What a question on a settled store gives.\<close>

definition gives :: "'a query \<Rightarrow> stored \<Rightarrow> 'a \<Rightarrow> bool" where
  "gives q st x \<longleftrightarrow> fst (q st) = Inr x"

lemma gives_ret [simp]: "gives (ret x) st y \<longleftrightarrow> y = x" and gives_fault [simp]: "\<not> gives (fault e) st y"
  and gives_known: "gives (known r) st y \<longleftrightarrow> r = Inr y" and gives_reading: "gives (reading g) st y \<longleftrightarrow> g st = Inr y"
  by (auto simp: gives_def ret_def fault_def known_def reading_def)

lemma gives_bindq:
  "settled pv q \<Longrightarrow> all_stored pv st \<Longrightarrow> gives (bindq q k) st y \<longleftrightarrow> (\<exists>x. gives q st x \<and> gives (k x) st y)"
  by (auto simp: gives_def bindq_def split_beta settled_def split: sum.split)

lemma gives_bindqE:
  assumes "gives (bindq q k) st y" "settled pv q" "all_stored pv st"
  obtains x where "gives q st x" "gives (k x) st y"
  using assms(1) unfolding gives_bindq[OF assms(2,3)] by (elim exE conjE) (rule that)

lemma gives_if: "gives (if b then q else q') st y \<longleftrightarrow> (if b then gives q st y else gives q' st y)"
  by simp

lemma gives_unique: "gives q st x \<Longrightarrow> gives q st y \<Longrightarrow> x = y"
  by (simp add: gives_def)

lemma run_gives: "settled pv q \<Longrightarrow> all_stored pv st \<Longrightarrow> q st = (Inr x, st') \<longleftrightarrow> gives q st x \<and> st' = st"
  using settledD[of pv q st] by (auto simp: gives_def prod_eq_iff)

lemma run_settled: "settled pv q \<Longrightarrow> all_stored pv st \<Longrightarrow> fst (q st) = Inr x \<Longrightarrow> q st = (Inr x, st)"
  by (simp add: settled_def prod_eq_iff)

lemma gives_ascend:
  assumes "\<And>d. settled pv (step d)" "all_stored pv st" "gives (ascend step dir) st (Some x)"
  shows "\<exists>nearer d outer. dirs_up dir = nearer @ d # outer \<and> gives (step d) st (Some x) \<and> (\<forall>n \<in> set nearer. gives (step n) st None)"
  using assms(2,3)
proof (induction dir rule: dirs_up.induct)
  case (1 dir)
  obtain y where y: "step dir st = (y, st)" using settledD[OF assms(1) "1.prems"(1)] by metis
  show ?case
  proof (cases "y = Inr (Some x)")
    case True
    then have "gives (step dir) st (Some x)" by (simp add: gives_def y)
    moreover have "\<exists>outer. dirs_up dir = [] @ dir # outer" by (subst dirs_up.simps) simp
    ultimately show ?thesis by fastforce
  next
    case False
    have e: "ascend step dir st = (case step dir st of (Inl e, st') \<Rightarrow> (Inl e, st') | (Inr (Some z), st') \<Rightarrow> (Inr (Some z), st')
        | (Inr None, st') \<Rightarrow> if dir = [] then (Inr None, st') else if dir = [SL] then (Inl Spins, st') else ascend step (parent_dir dir) st')"
      by (rule ascend.simps)
    have n: "y = Inr None" "dir \<noteq> []" "dir \<noteq> [SL]" "gives (ascend step (parent_dir dir)) st (Some x)"
      using "1.prems"(2) False unfolding gives_def e y by (auto split: sum.splits option.splits if_splits)
    then obtain nearer d outer where "dirs_up (parent_dir dir) = nearer @ d # outer" "gives (step d) st (Some x)"
        "\<forall>n \<in> set nearer. gives (step n) st None"
      using "1.IH" "1.prems"(1) by blast
    moreover have "dirs_up dir = dir # dirs_up (parent_dir dir)" using n(2,3) by (subst dirs_up.simps) simp
    moreover have "gives (step dir) st None" by (simp add: gives_def y n(1))
    ultimately show ?thesis by (metis append_Cons set_ConsD)
  qed
qed

lemma gives_package_scope:
  assumes "all_stored (sl_producers ie) st" "gives (package_scope ie dir) st (Some sc)"
  shows "\<exists>nearer d outer i. dirs_up dir = nearer @ d # outer \<and> sc = path_join [d, ''package.json''] \<and>
    gives (metadata_identity ie sc) st i \<and> i \<noteq> Unavailable \<and>
    (\<forall>n \<in> set nearer. gives (metadata_identity ie (path_join [n, ''package.json''])) st Unavailable)"
proof -
  let ?step = "\<lambda>d. bindq (metadata_identity ie (path_join [d, ''package.json'']))
    (\<lambda>identity. ret (if identity \<noteq> Unavailable then Some (path_join [d, ''package.json'']) else None))"
  have "settled (sl_producers ie) (?step d)" for d by (intro settles)
  from gives_ascend[of _ ?step, OF this assms(1), of dir sc] assms(2) obtain nearer d outer where
      split: "dirs_up dir = nearer @ d # outer" "gives (?step d) st (Some sc)" "\<forall>n \<in> set nearer. gives (?step n) st None"
    unfolding package_scope_def Let_def by blast
  have none: "gives (metadata_identity ie (path_join [n, ''package.json''])) st Unavailable" if "n \<in> set nearer" for n
    using split(3) that by (force simp: gives_bindq[OF settled_metadata_identity assms(1)] split: if_splits)
  have "sc = path_join [d, ''package.json''] \<and> (\<exists>i. gives (metadata_identity ie sc) st i \<and> i \<noteq> Unavailable)"
    using split(2) by (force simp: gives_bindq[OF settled_metadata_identity assms(1)] split: if_splits)
  then show ?thesis using split(1) none by blast
qed

lemma gives_identity:
  "all_stored (sl_producers ie) st \<Longrightarrow> gives (identity_of there ie f) st i \<longleftrightarrow>
     gives (generated_program_file ie f True) st True \<and> i = Generated \<or>
     gives (generated_program_file ie f True) st False \<and>
       (\<exists>inc. gives (incomplete_output (sl_producers ie) f) st inc \<and>
          i = (if inc \<noteq> None then UnknownInput else if there f then Authored else Unavailable))"
  by (simp add: identity_of_def gives_bindq[OF settled_generated] gives_bindq[OF settled_incomplete] ex_bool_eq)

text \<open>A file of the tree whose outputs are known is a required input only as a file of the walk.\<close>

lemma metadata_required:
  assumes "all_stored (sl_producers ie) st" "gives (metadata_identity ie f) st Authored" "gives (require_input ie f importer) st i"
  shows "source_file (sl_store ie) f"
proof (rule ccontr)
  assume no: "\<not> source_file (sl_store ie) f"
  obtain inc where "gives (generated_program_file ie f True) st False" "gives (incomplete_output (sl_producers ie) f) st inc" "inc = None"
    using assms(2) unfolding metadata_identity_def gives_identity[OF assms(1)]
    by (metis input_identity.distinct(1,7,9,11))
  then have u: "gives (input_identity ie f) st Unavailable"
    unfolding input_identity_def gives_identity[OF assms(1)] using no by auto
  obtain i' where i': "gives (input_identity ie f) st i'"
      "gives (if i' = UnknownInput then incomplete_fault (sl_producers ie) f
         else if i' = Unavailable then fault (MissingInput importer f (why_unowned (sl_store ie) f)) else ret i') st i"
    using assms(3) unfolding require_input_def gives_bindq[OF settled_input_identity assms(1)] by (elim exE conjE) (rule that)
  have "i' = Unavailable" by (rule gives_unique[OF i'(1) u])
  then show False using i'(2) by simp
qed

lemma settled_skip:
  "settled (sl_producers ie) (bindq (generated_program_file ie f True) (\<lambda>generated.
     if generated then bindq (metadata_identity ie sc) (\<lambda>identity. ret (identity \<noteq> Authored)) else ret False))"
  by (intro settles)

text \<open>C8.  The package scope a module requires is the nearest package.json that is there at all; it is
  authored and a file of the walk.  A generated manifest never governs an authored module.\<close>

theorem required_scope_authored:
  assumes "all_stored (sl_producers ie) st" "required_input_scope ie f consumer st = (Inr (Some sc), st')"
  shows "st' = st \<and> gives (metadata_identity ie sc) st Authored \<and> source_file (sl_store ie) sc \<and>
    (\<exists>nearer d outer. dirs_up (parent_dir f) = nearer @ d # outer \<and> sc = path_join [d, ''package.json''] \<and>
       (\<forall>n \<in> set nearer. gives (metadata_identity ie (path_join [n, ''package.json''])) st Unavailable))"
proof -
  note g = gives_bindq[OF _ assms(1)]
  have r: "gives (required_input_scope ie f consumer) st (Some sc)" and st: "st' = st"
    using assms(2) run_gives[OF settled_required_scope assms(1)] by auto
  have scope: "gives (package_scope ie (parent_dir f)) st (Some sc)"
    and need: "\<exists>i. gives (require_input ie sc f) st i" and auth: "gives (require_authored_scope ie consumer f) st ()"
    using r unfolding required_input_scope_def
    by (auto simp: g[OF settled_scope] g[OF settled_authored_scope] g[OF settled_require] g[OF settled_skip] split: if_splits option.splits)
  from gives_package_scope[OF assms(1) scope] obtain i where i: "gives (metadata_identity ie sc) st i" "i \<noteq> Unavailable" by blast
  obtain sc' where sc': "gives (package_scope ie (parent_dir f)) st sc'"
      "gives (case sc' of None \<Rightarrow> ret () | Some x \<Rightarrow> bindq (metadata_identity ie x) (\<lambda>identity.
         if identity = UnknownInput then incomplete_fault (sl_producers ie) x
         else if identity = Generated then fault (GeneratedScope consumer f x) else ret ())) st ()"
    using auth by (auto simp: require_authored_scope_def g[OF settled_scope])
  have "sc' = Some sc" using gives_unique[OF sc'(1) scope] .
  with sc'(2) obtain i' where i': "gives (metadata_identity ie sc) st i'"
      "i' = UnknownInput \<longrightarrow> gives (incomplete_fault (sl_producers ie) sc :: unit query) st ()" "i' \<noteq> Generated"
    by (auto simp: g[OF settled_metadata_identity] split: if_splits)
  have "\<not> gives (incomplete_fault (sl_producers ie) sc :: unit query) st ()"
    by (simp add: incomplete_fault_def g[OF settled_incomplete])
  then have "i = Authored" using i' gives_unique[OF i'(1) i(1)] i(2) by (cases i) auto
  then show ?thesis using i(1) need metadata_required[OF assms(1)] gives_package_scope[OF assms(1) scope] st by blast
qed

text \<open>The tree of \<open>demo_sources\<close> with a package.json beside the modules of \<open>p\<close>.\<close>

definition demo_walk :: "string \<Rightarrow> string list option" where
  "demo_walk d = (if d = ''p'' then Some [''a.ts'', ''b.ts'', ''c.ts'', ''package.json''] else None)"

definition demo_inputs :: "unit input_env" where
  "demo_inputs = select_env.extend (demo_select\<lparr>sl_store := (sl_store demo_select)\<lparr>st_files := demo_walk\<rparr>\<rparr>)
     (input_env.fields demo_index None (\<lambda>_. None) Proto.demo_env None [] (\<lambda>f. f = ''p/package.json'' \<or> f = ''p/c.ts'') (\<lambda>_. None) (\<lambda>d. d = ''p''))"

theorem required_scope_authored_witness:
  "gives (metadata_identity demo_inputs ''p/package.json'') demo_observed Authored \<and>
   source_file (sl_store demo_inputs) ''p/package.json''"
proof -
  have a: "all_stored (sl_producers demo_inputs) demo_observed" by code_simp
  have r: "required_input_scope demo_inputs ''p/a.ts'' ''c'' demo_observed = (Inr (Some ''p/package.json''), demo_observed)"
    by (rule run_settled[OF settled_required_scope a]) code_simp
  show ?thesis using required_scope_authored[OF a r] by simp
qed

section \<open>What a new package leaves alone\<close>

lemma first_some_None: "first_some f xs = None \<longleftrightarrow> (\<forall>x \<in> set xs. f x = None)"
  by (induction xs) (auto split: option.split)

lemma nearer_not_root: "dirs_up d = nearer @ x # outer \<Longrightarrow> n \<in> set nearer \<Longrightarrow> n \<noteq> []"
proof (induction d arbitrary: nearer rule: dirs_up.induct)
  case (1 d)
  show ?case
  proof (cases "d = [] \<or> d = [SL]")
    case True
    then have "nearer = []" using "1.prems"(1) by (subst (asm) dirs_up.simps) (auto simp: Cons_eq_append_conv)
    then show ?thesis using "1.prems"(2) by simp
  next
    case False
    then have "d # dirs_up (parent_dir d) = nearer @ x # outer" using "1.prems"(1) by (subst (asm) dirs_up.simps) simp
    then show ?thesis using 1 False by (cases nearer) auto
  qed
qed

text \<open>C10.  When a new package meets no conflict, no target that a stored rule declares under its own name
  or as a literal output lies strictly below the directory of the package, not in any package from its
  parent up to the nearest BUILD file on disk.  A target at the directory itself is no conflict.\<close>

theorem new_package_cuts_nothing:
  assumes "gives (new_package_target_conflict ie pkg) st None"
    and "dirs_up (parent_dir pkg) = nearer @ dir # outer" "\<forall>n \<in> set nearer. map_of (pv_files (sl_producers ie)) n = None \<or> \<not> in_content ie n"
    and "map_of (pv_files (sl_producers ie)) dir = Some rs" "r \<in> set rs" "pkg \<noteq> []"
    and "semantic_rule (pv_env (sl_producers ie)) st (pv_key (sl_producers ie) dir r) = Some s"
    and "target \<in> set (ru_name s # od_files (pv_outputs (sl_producers ie) dir s))"
  shows "\<not> dir_is_ancestor_of pkg (path_join [dir, target])"
proof
  assume cross: "dir_is_ancestor_of pkg (path_join [dir, target])"
  let ?pv = "sl_producers ie"
  define step where "step = (\<lambda>dir. case map_of (pv_files ?pv) dir of
      Some rs \<Rightarrow> (case first_some (rule_conflict ?pv st pkg dir) rs of
          Some c \<Rightarrow> Some (Some c) | None \<Rightarrow> if in_content ie dir \<or> dir = [] then Some None else None)
    | None \<Rightarrow> if dir = [] then Some None else None)"
  have none: "climb step (parent_dir pkg) = Some None"
    using assms(1,6) by (auto simp: new_package_target_conflict_def gives_reading step_def split: option.splits)
  have "\<not> rule_conflict ?pv st pkg dir r = None"
    using cross assms(7,8) by (auto simp: rule_conflict_def Let_def find_None_iff split: option.split)
  then obtain c where "first_some (rule_conflict ?pv st pkg dir) rs = Some c"
    using assms(5) first_some_None[of "rule_conflict ?pv st pkg dir" rs] by auto
  then have hit: "step dir = Some (Some c)" by (simp add: step_def assms(4))
  have pass: "step n = None \<or> (\<exists>c. step n = Some (Some c))" if "n \<in> set nearer" for n
    using that assms(3) nearer_not_root[OF assms(2) that] by (auto simp: step_def split: option.split)
  obtain a where a: "nearest (\<lambda>a. step a \<noteq> None) (parent_dir pkg) = Some a" "step a = Some None"
    using climb_nearest[OF none] by blast
  then have "find (\<lambda>a. step a \<noteq> None) (nearer @ dir # outer) = Some a" by (simp add: nearest_def assms(2))
  then have "a \<in> set nearer \<or> a = dir" using hit by (induction nearer) (auto split: if_splits)
  then show False using a(2) hit pass by fastforce
qed

theorem new_package_cuts_nothing_witness:
  "\<exists>s. semantic_rule (pv_env (sl_producers demo_inputs)) demo_observed (pv_key (sl_producers demo_inputs) ''p'' demo_compile) = Some s \<and>
     \<not> dir_is_ancestor_of ''p/sub'' (path_join [''p'', ru_name s])"
proof -
  have "semantic_rule (pv_env (sl_producers demo_inputs)) demo_observed (pv_key (sl_producers demo_inputs) ''p'' demo_compile) \<noteq> None"
    by code_simp
  then obtain s where s: "semantic_rule (pv_env (sl_producers demo_inputs)) demo_observed (pv_key (sl_producers demo_inputs) ''p'' demo_compile) = Some s"
    by auto
  have f: "map_of (pv_files (sl_producers demo_inputs)) ''p'' = Some (snd (hd (pv_files demo_sources)))"
    by (simp add: demo_inputs_def demo_select_def demo_sources_def select_env.defs)
  have g: "gives (new_package_target_conflict demo_inputs ''p/sub'') demo_observed None" unfolding gives_def by code_simp
  have d: "dirs_up (parent_dir ''p/sub'') = [] @ ''p'' # [[]]" by code_simp
  have "demo_compile \<in> set (snd (hd (pv_files demo_sources)))" by (simp add: demo_sources_def demo_compile_def)
  then have "\<not> dir_is_ancestor_of ''p/sub'' (path_join [''p'', ru_name s])"
    by (intro new_package_cuts_nothing[OF g d _ f _ _ s]) simp_all
  then show ?thesis using s by blast
qed

end
