(* ===== verification/Exports.thy ===== *)
theory Exports imports Inputs begin

text \<open>
  Who may read a source file: the literal \<open>exports_files\<close> and default visibility of its BUILD file,
  \<open>gazelle/generate.go\<close>, and the publication of a package scope in \<open>gazelle/emission.go\<close>.  The
  positional arguments of a rule and the private attributes Gazelle keeps on it are accessors of
  Gazelle, so they are parameters.
\<close>

section \<open>Literal visibility\<close>

record 'c export_env = "'c input_env" +
  xe_args :: "build_rule \<Rightarrow> expr list"
  xe_pending :: "build_rule \<Rightarrow> bool"  \<comment> \<open>\<open>_ts_source_export\<close> is pending\<close>
  xe_candidate :: "build_rule \<Rightarrow> bool"  \<comment> \<open>\<open>_ts_scope_candidate\<close>\<close>

datatype export_error =
    VisibilityExpression string
  | VisibilityLabel string string
  | MembershipExpression
  | DifferentVisibility string

fun literal_labels :: "label_api \<Rightarrow> string \<Rightarrow> string \<Rightarrow> string \<Rightarrow> expr list \<Rightarrow> export_error + string list" where
  "literal_labels api repo pkg what [] = Inr []"
| "literal_labels api repo pkg what (e # es) =
     (case e of
        StringExpr s _ \<Rightarrow>
          if parse_label api s = None then Inl (VisibilityLabel what s)
          else (case literal_labels api repo pkg what es of
                  Inl x \<Rightarrow> Inl x
                | Inr ls \<Rightarrow> Inr (emission_label api repo pkg s # ls))
      | _ \<Rightarrow> Inl (VisibilityExpression what))"

definition literal_visibility :: "label_api \<Rightarrow> string \<Rightarrow> expr \<Rightarrow> string \<Rightarrow> string \<Rightarrow> export_error + string list" where
  "literal_visibility api repo e pkg what =
     (case e of
        ListExpr es \<Rightarrow>
          if es = [] then Inr [''//visibility:private'']
          else map_sum id (\<lambda>ls. remdups_adj (sort_strings ls)) (literal_labels api repo pkg what es)
      | _ \<Rightarrow> Inl (VisibilityExpression what))"

definition export_visibility :: "label_api \<Rightarrow> string \<Rightarrow> build_rule \<Rightarrow> string \<Rightarrow> export_error + string list" where
  "export_visibility api repo r pkg =
     (case ru_attr r ''visibility'' of
        None \<Rightarrow> Inr [''//visibility:public'']
      | Some e \<Rightarrow> literal_visibility api repo e pkg ''exports_files visibility'')"

definition export_source_membership :: "('c, 'z) export_env_scheme \<Rightarrow> build_rule \<Rightarrow> export_error + string list" where
  "export_source_membership xe r =
     (let members = (\<lambda>e. case e of
            Some (ListExpr es) \<Rightarrow> if list_all is_string_expr es then Inr (string_values es) else Inl MembershipExpression
          | _ \<Rightarrow> Inl MembershipExpression)
      in case xe_args xe r of
        [] \<Rightarrow> members (ru_attr r ''srcs'')
      | [a] \<Rightarrow> if ru_attr r ''srcs'' = None then members (Some a) else Inl MembershipExpression
      | _ \<Rightarrow> Inl MembershipExpression)"

section \<open>The visibility of a source\<close>

fun exported_visibility ::
    "('c, 'z) export_env_scheme \<Rightarrow> string \<Rightarrow> string \<Rightarrow> build_rule list \<Rightarrow> string list option \<Rightarrow> export_error + string list option" where
  \<comment> \<open>the loop over the rules of a BUILD file\<close>
  "exported_visibility xe pkg src [] vis = Inr vis"
| "exported_visibility xe pkg src (r # rs) vis =
     (if ru_kind r \<noteq> ''exports_files'' \<or> xe_pending xe r then exported_visibility xe pkg src rs vis
      else case export_source_membership xe r of
        Inl e \<Rightarrow> Inl e
      | Inr items \<Rightarrow>
          if \<not> list_ex (\<lambda>v. path_clean v = path_clean src) items then exported_visibility xe pkg src rs vis
          else case export_visibility (in_api xe) (in_repo xe) r pkg of
            Inl e \<Rightarrow> Inl e
          | Inr policy \<Rightarrow>
              if vis \<noteq> None \<and> vis \<noteq> Some policy then Inl (DifferentVisibility src)
              else exported_visibility xe pkg src rs (Some policy))"

definition default_visibility :: "('c, 'z) export_env_scheme \<Rightarrow> string \<Rightarrow> build_rule list \<Rightarrow> export_error + string list" where
  "default_visibility xe pkg rs =
     (case find (\<lambda>r. ru_kind r = ''package'' \<and> ru_attr r ''default_visibility'' \<noteq> None) rs of
        Some r \<Rightarrow>
          (case ru_attr r ''default_visibility'' of
             Some e \<Rightarrow> literal_visibility (in_api xe) (in_repo xe) e pkg ''package default_visibility''
           | None \<Rightarrow> Inr [''//:__subpackages__''])
      | None \<Rightarrow> Inr [''//:__subpackages__''])"

definition rules_of :: "('c, 'z) export_env_scheme \<Rightarrow> string \<Rightarrow> build_rule list" where
  "rules_of xe pkg = (case map_of (pv_files (sl_producers xe)) pkg of None \<Rightarrow> [] | Some rs \<Rightarrow> rs)"

definition source_export_ancestor :: "('c, 'z) export_env_scheme \<Rightarrow> string \<Rightarrow> string option option" where
  "source_export_ancestor xe pkg =
     (if pkg = [] then Some None
      else climb (\<lambda>dir. if map_of (pv_files (sl_producers xe)) dir \<noteq> None \<and> in_content xe dir then Some (Some dir)
        else if dir = [] then Some None else None) (parent_dir pkg))"

text \<open>The visibility of a source and whether its own BUILD file exports it.  A new BUILD file inherits
  the exports of the nearest one on disk, which inherits nothing; None is a walk that never ends.\<close>

definition source_visibility :: "('c, 'z) export_env_scheme \<Rightarrow> string \<Rightarrow> string \<Rightarrow> (export_error + string list \<times> bool) option" where
  "source_visibility xe pkg src =
     (case exported_visibility xe pkg src (rules_of xe pkg) None of
        Inl e \<Rightarrow> Some (Inl e)
      | Inr (Some vis) \<Rightarrow> Some (Inr (vis, True))
      | Inr None \<Rightarrow>
          let own = map_sum id (\<lambda>vis. (vis, False)) (default_visibility xe pkg (rules_of xe pkg)) in
          if map_of (pv_files (sl_producers xe)) pkg = None \<or> in_content xe pkg then Some own
          else case source_export_ancestor xe pkg of
            None \<Rightarrow> None
          | Some None \<Rightarrow> Some own
          | Some (Some outer) \<Rightarrow>
              (case exported_visibility xe outer (trim_prefix (path_join [pkg, src]) (outer @ ''/'')) (rules_of xe outer) None of
                 Inl e \<Rightarrow> Some (Inl e)
               | Inr (Some vis) \<Rightarrow> Some (Inr (vis, False))
               | Inr None \<Rightarrow>
                   (case default_visibility xe outer (rules_of xe outer) of
                      Inl e \<Rightarrow> Some (Inl e)
                    | Inr _ \<Rightarrow> Some own)))"

definition visibility_query :: "('c, 'z) export_env_scheme \<Rightarrow> string \<Rightarrow> string \<Rightarrow> (string list \<times> bool) query" where
  "visibility_query xe pkg src =
     known (case source_visibility xe pkg src of
              None \<Rightarrow> Inl Spins
            | Some (Inl e) \<Rightarrow> Inl (BadExport src)
            | Some (Inr r) \<Rightarrow> Inr r)"

end
