(* ===== verification/EdgeDep.thy ===== *)
theory EdgeDep imports Exports begin

text \<open>
  What an import becomes, \<open>edgeDep\<close> of \<open>gazelle/resolve.go\<close>: the label of the rule that owns the
  imported file, or the file itself as a source of the rule, or a report.  The writes of \<open>edgeDep\<close> to
  the maps of its caller are in its answer.  \<open>owners\<close> is the caller's \<open>sourceOwner\<close>, if it has one;
  the line that says once that there is no lockfile is not modelled.
\<close>

section \<open>The owner of a generated file\<close>

definition label_text :: "('c, 'z) input_env_scheme \<Rightarrow> label \<Rightarrow> label \<Rightarrow> string" where
  "label_text ie l ask = la_string (in_api ie) (relative_label (in_api ie) l (lb_repo ask) (lb_pkg ask))"

definition plain_label :: "string \<Rightarrow> string \<Rightarrow> string \<Rightarrow> label" where
  "plain_label repo pkg name = \<lparr>lb_repo = repo, lb_pkg = pkg, lb_name = name, lb_relative = False, lb_canonical = False\<rparr>"

definition produced_dep :: "('c, 'z) input_env_scheme \<Rightarrow> string \<Rightarrow> label \<Rightarrow> (string \<times> bool) query" where
  "produced_dep ie f ask =
     bindq (walking (output_producer (sl_producers ie) f)) (\<lambda>producer.
       case producer of
         Some (r, pkg) \<Rightarrow>
           bindq (walking (rule_holding (in_select ie) (in_index ie) f ask 0)) (\<lambda>held.
             case held of
               Some own \<Rightarrow> ret (own, True)
             | None \<Rightarrow>
                 if raw_typescript f \<or> path_ext f \<in> set [''.js'', ''.mjs'', ''.cjs''] \<or> ru_kind r \<noteq> ''ts_codegen''
                 then ret (source_producer_dep (in_api ie) producer ask, False)
                 else let l = plain_label (lb_repo ask) pkg (ru_name r) in
                   ret (if l = ask then [] else label_text ie l ask, True))
       | None \<Rightarrow>
           (case resolve_proto_output (in_proto ie) (in_override ie) (in_protoIndex ie) (in_observed ie) f ask of
              Inl e \<Rightarrow> fault (BadProto e)
            | Inr lbl \<Rightarrow>
                if lbl \<noteq> [] then ret (lbl, True)
                else bindq (walking (resolve_codegen_tree (sl_producers ie) (in_trees ie) f ask)) (\<lambda>tree.
                  ret (case tree of None \<Rightarrow> ([], False) | Some l \<Rightarrow> (l, True)))))"

definition generated_dep :: "('c, 'z) input_env_scheme \<Rightarrow> string \<Rightarrow> label \<Rightarrow> (string \<times> bool) query" where
  "generated_dep ie f ask =
     (case in_override ie f of
        Some overridden \<Rightarrow>
          bindq (input_identity ie f) (\<lambda>identity.
            if identity \<noteq> Unavailable then ret (label_text ie overridden ask, identity = Generated)
            else produced_dep ie f ask)
      | None \<Rightarrow> produced_dep ie f ask)"

section \<open>Sources a rule takes over\<close>

type_synonym retained_input = "string \<times> string \<times> nat"  \<comment> \<open>the identity, the label, the role\<close>

definition source_input_label :: "('c, 'z) input_env_scheme \<Rightarrow> label \<Rightarrow> string \<Rightarrow> (label \<times> string) query" where
  "source_input_label ie ask f =
     bindq (walking (config_src_package (in_select ie) f [])) (\<lambda>pkg.
       let l = plain_label (lb_repo ask) pkg (if pkg \<noteq> [] then trim_prefix f (pkg @ ''/'') else f) in
       ret (l, la_string (in_api ie) (label_identity (in_api ie) l (in_repo ie) (lb_pkg ask))))"

definition source_input :: "('c, 'z) input_env_scheme \<Rightarrow> label \<Rightarrow> nat \<Rightarrow> string \<Rightarrow> retained_input query" where
  "source_input ie ask role f =
     bindq (source_input_label ie ask f) (\<lambda>(l, identity). ret (identity, label_text ie l ask, role))"

text \<open>\<open>retainSourceInput\<close> on the map of the caller: a stronger role wins.\<close>

definition retain_input :: "retained_input \<Rightarrow> (string \<times> string \<times> nat) list \<Rightarrow> (string \<times> string \<times> nat) list" where
  "retain_input inp held =
     (let (identity, lbl, role) = inp in
      case map_of held identity of
        None \<Rightarrow> AList.update identity (lbl, role) held
      | Some (_, previous) \<Rightarrow> if role < previous then AList.update identity (lbl, role) held else held)"

definition exported_to :: "('c, 'z) export_env_scheme \<Rightarrow> string \<Rightarrow> label \<Rightarrow> bool query" where
  "exported_to xe f consumer =
     (if \<not> source_file (sl_store xe) f then ret False
      else bindq (walking (output_producer (sl_producers xe) f)) (\<lambda>producer.
        if producer \<noteq> None then ret False
        else bindq (walking (config_src_package (in_select xe) f [])) (\<lambda>pkg.
          let name = trim_prefix f (pkg @ ''/'') in
          bindq (visibility_query xe pkg name) (\<lambda>(visibility, exported).
            ret (exported \<and> \<not> scope_visibility_denies (in_api xe) visibility (plain_label (lb_repo consumer) pkg name) consumer)))))"

section \<open>One edge\<close>

datatype edge_report = UnnameableFile | UnownedFile unowned_reason

record edge_answer =
  an_dep :: string
  an_source :: bool
  an_retained :: "retained_input list"
  an_configFile :: bool  \<comment> \<open>the file joins the files of the config\<close>
  an_report :: "edge_report option"

definition answer :: "string \<Rightarrow> bool \<Rightarrow> edge_answer" where
  "answer dep source = \<lparr>an_dep = dep, an_source = source, an_retained = [], an_configFile = False, an_report = None\<rparr>"

definition rel_text :: "('c, 'z) input_env_scheme \<Rightarrow> rel_label" where
  "rel_text ie dir name pkg = la_string (in_api ie) (la_rel (in_api ie) (plain_label [] dir name) [] pkg)"

definition in_lock :: "('c, 'z) input_env_scheme \<Rightarrow> npm_lock option" where
  "in_lock ie = ee_lock (pv_env (sl_producers ie))"

definition npm_edge :: "('c, 'z) input_env_scheme \<Rightarrow> label \<Rightarrow> edge \<Rightarrow> edge_answer query" where
  "npm_edge ie ask e =
     (if npmPackageName (e_to e) = [] then ret (answer [] False)
      else case in_lock ie of
        None \<Rightarrow> ret (answer [] False)
      | Some l \<Rightarrow>
          bindq (nearest_manifest ie (parent_dir (e_from e))) (\<lambda>m.
            known (case edge_label (rel_text ie) l e (lb_pkg ask) m of None \<Rightarrow> Inl Spins | Some lbl \<Rightarrow> Inr (answer lbl False))))"

definition dependency_target :: "('c, 'z) input_env_scheme \<Rightarrow> string \<Rightarrow> string \<Rightarrow> stored \<Rightarrow> string \<times> build_rule option" where
  "dependency_target ie pkg dep st =
     (let env = pv_env (sl_producers ie); named = emission_label (in_api ie) (in_repo ie);
          (key, target) = rule_target env st (named pkg dep)
      in case (target, parse_label (in_api ie) key) of
           (Some r, Some own) \<Rightarrow>
             if ru_kind r \<noteq> ''node_modules_member'' then (key, target)
             else let member = member_compiler_target env (named (lb_pkg own) (ru_string r ''member'')) in
               if member \<noteq> [] then rule_target env st member else ([], None)
         | _ \<Rightarrow> (key, target))"

definition reads_sources :: "(string \<Rightarrow> emission_mode) \<Rightarrow> edge \<Rightarrow> string \<Rightarrow> bool query" where
  "reads_sources owners e own =
     (let mode = owners own; decl = is_declaration_file (e_to e) in
      if mode = UnknownEmission \<and> \<not> decl then fault (OpaqueOwner (e_to e) own)
      else ret (mode = SourceEmission \<or> mode \<noteq> OpaqueEmission \<and> decl))"

text \<open>The rule that already holds an authored file, if there is one; in a config the file is its
  own source.\<close>

definition member_edge ::
    "('c, 'z) export_env_scheme \<Rightarrow> (string \<Rightarrow> emission_mode) option \<Rightarrow> label \<Rightarrow> bool \<Rightarrow> edge \<Rightarrow> edge_answer option query" where
  "member_edge xe owners ask in_config e =
     (case in_lock xe of
        None \<Rightarrow> ret None
      | Some l \<Rightarrow>
          bindq (nearest_manifest xe (parent_dir (e_from e))) (\<lambda>m.
            case member_view (rel_text xe) l (e_spec e) (e_from e) (lb_pkg ask) m of
              None \<Rightarrow> fault Spins
            | Some lbl \<Rightarrow>
                if lbl = [] then ret None
                else bindq (reading (\<lambda>st. Inr (dependency_target xe (lb_pkg ask) lbl st))) (\<lambda>(key, target).
                  case owners of
                    Some f \<Rightarrow>
                      if \<not> in_config \<and> target \<noteq> None
                      then bindq (reads_sources f e key) (\<lambda>source. ret (Some (answer lbl source)))
                      else ret (Some (answer lbl in_config))
                  | None \<Rightarrow> ret (Some (answer lbl in_config)))))"

definition owned_edge ::
    "('c, 'z) export_env_scheme \<Rightarrow> (string \<Rightarrow> emission_mode) option \<Rightarrow> label \<Rightarrow> bool \<Rightarrow> bool \<Rightarrow> edge \<Rightarrow> string \<Rightarrow> edge_answer option query" where
  "owned_edge xe owners ask has_srcs in_config e generated =
     (let cfg = in_config \<and> \<not> is_declaration_file (e_to e) in
      bindq (if generated \<noteq> [] then ret (Some generated) else walking (rule_holding (in_select xe) (in_index xe) (e_to e) ask 0))
        (\<lambda>held.
          case held of
            Some own \<Rightarrow>
              (case owners of
                 Some f \<Rightarrow>
                   if own \<noteq> [] \<and> \<not> in_config
                   then bindq (reads_sources f e own) (\<lambda>source. ret (Some (answer own source)))
                   else ret (Some ((answer own (own = [] \<and> has_srcs \<or> in_config))\<lparr>an_configFile := cfg\<rparr>))
               | None \<Rightarrow> ret (Some ((answer own (own = [] \<and> has_srcs \<or> in_config))\<lparr>an_configFile := cfg\<rparr>)))
          | None \<Rightarrow> ret (if in_config then Some ((answer [] True)\<lparr>an_configFile := cfg\<rparr>) else None)))"

definition authored_edge ::
    "('c, 'z) export_env_scheme \<Rightarrow> (string \<Rightarrow> emission_mode) option \<Rightarrow> label \<Rightarrow> bool \<Rightarrow> bool \<Rightarrow> edge \<Rightarrow> string \<Rightarrow> edge_answer option query" where
  "authored_edge xe owners ask has_srcs in_config e generated =
     bindq (require_input xe (e_to e) (e_from e)) (\<lambda>_.
       bindq (if generated = [] then member_edge xe owners ask in_config e else ret None) (\<lambda>view.
         if view \<noteq> None then ret view
         else owned_edge xe owners ask has_srcs in_config e generated))"

definition sourceExtensions :: "string list" where
  "sourceExtensions = tsSourceExtensions @ [''.js'', ''.jsx'', ''.mjs'', ''.cjs'', ''.json'']"

text \<open>The file as a source of the asking rule, with the JavaScript beside a declaration that is
  exported to the rule.\<close>

definition staged_source ::
    "('c, 'z) export_env_scheme \<Rightarrow> label \<Rightarrow> bool \<Rightarrow> string \<Rightarrow> string \<Rightarrow> edge_answer query" where
  "staged_source xe ask made f generated =
     bindq (source_input xe ask 0 f) (\<lambda>inp.
       bindq (if javascript_twin f \<noteq> [] \<and> \<not> made then exported_to xe (javascript_twin f) ask else ret False) (\<lambda>exported.
         if exported
         then bindq (source_input xe ask 0 (javascript_twin f)) (\<lambda>inp2. ret ((answer generated True)\<lparr>an_retained := [inp, inp2]\<rparr>))
         else ret ((answer generated True)\<lparr>an_retained := [inp]\<rparr>)))"

definition staged_edge ::
    "('c, 'z) export_env_scheme \<Rightarrow> label \<Rightarrow> bool \<Rightarrow> bool \<Rightarrow> edge \<Rightarrow> string \<Rightarrow> edge_answer query" where
  "staged_edge xe ask has_srcs made e generated =
     (if has_srcs \<and> path_ext (e_to e) \<in> set sourceExtensions \<and> (made \<or> in_regular xe (e_to e)) then
        (if \<not> is_declaration_file (e_to e) \<and> path_ext (e_to e) \<notin> set [''.ts'', ''.tsx'', ''.js'', ''.mjs'', ''.cjs'', ''.json'']
         then fault (NotCompiled (la_string (in_api xe) ask) (e_to e))
         else bindq (walking (config_src_package (in_select xe) (e_to e) [])) (\<lambda>pkg.
           if srcLabel (if pkg \<noteq> [] then trim_prefix (e_to e) (pkg @ ''/'') else e_to e) = None
           then ret ((answer [] False)\<lparr>an_report := Some UnnameableFile\<rparr>)
           else staged_source xe ask made (e_to e) generated))
      else ret ((answer [] False)\<lparr>an_report := Some (UnownedFile (why_unowned (sl_store xe) (e_to e)))\<rparr>))"

definition edge_dep ::
    "('c, 'z) export_env_scheme \<Rightarrow> (string \<Rightarrow> emission_mode) option \<Rightarrow> label \<Rightarrow> bool \<Rightarrow> bool \<Rightarrow> edge \<Rightarrow> edge_answer query" where
  "edge_dep xe owners ask has_srcs in_config e =
     (let f = e_to e in
      if \<not> firstParty f then npm_edge xe ask e
      else bindq (if in_config then walking (output_producer (sl_producers xe) f) else ret None) (\<lambda>staged.
        if staged \<noteq> None
        then bindq (generated_dep xe f ask) (\<lambda>(own, _). ret ((answer own False)\<lparr>an_configFile := \<not> is_declaration_file f\<rparr>))
        else bindq (generated_dep xe f ask) (\<lambda>(generated, owned).
          if owned then ret (answer generated False)
          else bindq (walking (output_producer (sl_producers xe) f)) (\<lambda>producer.
            bindq (if producer = None then authored_edge xe owners ask has_srcs in_config e generated else ret None) (\<lambda>found.
              case found of
                Some an \<Rightarrow> ret an
              | None \<Rightarrow> staged_edge xe ask has_srcs (producer \<noteq> None) e generated)))))"

section \<open>Every import is accounted for\<close>

lemma settled_produced [settles]: "settled (sl_producers ie) (produced_dep ie f ask)"
  unfolding produced_dep_def Let_def by (intro settles; simp)

lemma settled_generated_dep [settles]: "settled (sl_producers ie) (generated_dep ie f ask)"
  unfolding generated_dep_def by (intro settles)

lemma settled_source_label [settles]: "settled (sl_producers ie) (source_input_label ie ask f)"
  unfolding source_input_label_def Let_def by (intro settles; simp)

lemma settled_source_input [settles]: "settled (sl_producers ie) (source_input ie ask role f)"
  unfolding source_input_def by (intro settles)

lemma settled_visibility [settles]: "settled pv (visibility_query xe pkg src)"
  unfolding visibility_query_def by (rule settles)

lemma settled_exported [settles]: "settled (sl_producers xe) (exported_to xe f consumer)"
  unfolding exported_to_def Let_def by (intro settles; simp)

lemma settled_npm [settles]: "settled (sl_producers ie) (npm_edge ie ask e)"
  unfolding npm_edge_def by (intro settles)

lemma settled_reads [settles]: "settled pv (reads_sources owners e own)"
  unfolding reads_sources_def Let_def by (intro settles)

lemma settled_member [settles]: "settled (sl_producers xe) (member_edge xe owners ask in_config e)"
  unfolding member_edge_def by (intro settles)

lemma settled_owned [settles]: "settled (sl_producers xe) (owned_edge xe owners ask has_srcs in_config e generated)"
  unfolding owned_edge_def Let_def by (intro settles; simp)

lemma settled_authored [settles]: "settled (sl_producers xe) (authored_edge xe owners ask has_srcs in_config e generated)"
  unfolding authored_edge_def by (intro settles)

lemma settled_staged_source [settles]: "settled (sl_producers xe) (staged_source xe ask made f generated)"
  unfolding staged_source_def by (intro settles)

lemma settled_staged [settles]: "settled (sl_producers xe) (staged_edge xe ask has_srcs made e generated)"
  unfolding staged_edge_def by (intro settles; simp)

lemma settled_edge_dep [settles]: "settled (sl_producers xe) (edge_dep xe owners ask has_srcs in_config e)"
  unfolding edge_dep_def Let_def by (intro settles)

text \<open>The file stands among the sources the answer retains.\<close>

definition retains :: "('c, 'z) input_env_scheme \<Rightarrow> stored \<Rightarrow> label \<Rightarrow> string \<Rightarrow> edge_answer \<Rightarrow> bool" where
  "retains ie st ask f an \<longleftrightarrow>
     (\<exists>l identity. gives (source_input_label ie ask f) st (l, identity) \<and> (identity, label_text ie l ask, 0) \<in> set (an_retained an))"

lemma gives_source_input:
  assumes "all_stored (sl_producers ie) st" "gives (source_input ie ask 0 f) st inp" "inp \<in> set (an_retained an)"
  shows "retains ie st ask f an"
proof -
  obtain x where x: "gives (source_input_label ie ask f) st x" "gives (case x of (l, identity) \<Rightarrow> ret (identity, label_text ie l ask, 0 :: nat)) st inp"
    using assms(2) unfolding source_input_def by (rule gives_bindqE[OF _ settled_source_label assms(1)])
  obtain l identity where p: "x = (l, identity)" by (cases x)
  have "inp = (identity, label_text ie l ask, 0)" using x(2) unfolding p by simp
  then show ?thesis using x(1) assms(3) unfolding retains_def p by (intro exI conjI) simp_all
qed

lemma staged_source_accounted:
  assumes "all_stored (sl_producers xe) st" "gives (staged_source xe ask made f generated) st an"
  shows "an_source an \<and> retains xe st ask f an"
proof -
  let ?t = "if javascript_twin f \<noteq> [] \<and> \<not> made then exported_to xe (javascript_twin f) ask else ret False"
  have "settled (sl_producers xe) ?t" by (intro settles)
  note g = gives_bindq[OF this assms(1)] gives_bindq[OF settled_source_input assms(1)]
  from assms(2) obtain inp exported where inp: "gives (source_input xe ask 0 f) st inp"
      and k: "gives (if exported
         then bindq (source_input xe ask 0 (javascript_twin f)) (\<lambda>inp2. ret ((answer generated True)\<lparr>an_retained := [inp, inp2]\<rparr>))
         else ret ((answer generated True)\<lparr>an_retained := [inp]\<rparr>)) st an"
    unfolding staged_source_def g by blast
  then have "an_source an \<and> inp \<in> set (an_retained an)" unfolding gives_if g by (auto simp: answer_def split: if_splits)
  then show ?thesis using gives_source_input[OF assms(1) inp] by blast
qed

lemma staged_accounted:
  assumes "all_stored (sl_producers xe) st" "gives (staged_edge xe ask True made e generated) st an"
  shows "an_report an \<noteq> None \<or> an_source an \<and> retains xe st ask (e_to e) an"
proof (cases "an_report an")
  case None
  have c: "path_ext (e_to e) \<in> set sourceExtensions \<and> (made \<or> in_regular xe (e_to e))"
    using assms(2) None by (rule_tac ccontr) (simp add: staged_edge_def)
  have d: "\<not> (\<not> is_declaration_file (e_to e) \<and> path_ext (e_to e) \<notin> set [''.ts'', ''.tsx'', ''.js'', ''.mjs'', ''.cjs'', ''.json''])"
    using assms(2) c by (rule_tac notI) (simp add: staged_edge_def)
  have "gives (bindq (walking (config_src_package (in_select xe) (e_to e) [])) (\<lambda>pkg.
           if srcLabel (if pkg \<noteq> [] then trim_prefix (e_to e) (pkg @ ''/'') else e_to e) = None
           then ret ((answer [] False)\<lparr>an_report := Some UnnameableFile\<rparr>)
           else staged_source xe ask made (e_to e) generated)) st an"
    using assms(2) unfolding staged_edge_def by (simp only: c d if_True if_False simp_thms)
  then obtain pkg where "gives (if srcLabel (if pkg \<noteq> [] then trim_prefix (e_to e) (pkg @ ''/'') else e_to e) = None
           then ret ((answer [] False)\<lparr>an_report := Some UnnameableFile\<rparr>)
           else staged_source xe ask made (e_to e) generated) st an"
    by (rule gives_bindqE[OF _ settled_config_src assms(1)]) simp_all
  then have "gives (staged_source xe ask made (e_to e) generated) st an" using None by (auto split: if_splits)
  then show ?thesis using staged_source_accounted[OF assms(1)] by blast
qed simp

lemma member_accounted:
  assumes "all_stored (sl_producers xe) st" "gives (member_edge xe owners ask in_config e) st (Some an)"
  shows "an_dep an \<noteq> []"
proof -
  obtain l where l: "in_lock xe = Some l" using assms(2) by (auto simp: member_edge_def split: option.splits)
  from assms(2) obtain m where m: "gives (case member_view (rel_text xe) l (e_spec e) (e_from e) (lb_pkg ask) m of
      None \<Rightarrow> fault Spins
    | Some lbl \<Rightarrow>
        if lbl = [] then ret None
        else bindq (reading (\<lambda>st. Inr (dependency_target xe (lb_pkg ask) lbl st))) (\<lambda>(key, target).
          case owners of
            Some f \<Rightarrow>
              if \<not> in_config \<and> target \<noteq> None
              then bindq (reads_sources f e key) (\<lambda>source. ret (Some (answer lbl source)))
              else ret (Some (answer lbl in_config))
          | None \<Rightarrow> ret (Some (answer lbl in_config)))) st (Some an)"
    unfolding member_edge_def l option.case gives_bindq[OF settled_manifest assms(1)] by blast
  then obtain lbl where lbl: "member_view (rel_text xe) l (e_spec e) (e_from e) (lb_pkg ask) m = Some lbl" "lbl \<noteq> []"
    by (auto split: option.splits if_splits)
  then show ?thesis using m
    by (auto simp: gives_bindq[OF settled_reading assms(1)] gives_bindq[OF settled_reads assms(1)] gives_reading answer_def
        split: option.splits if_splits prod.splits)
qed

lemma owned_accounted:
  assumes "all_stored (sl_producers xe) st" "gives (owned_edge xe owners ask True False e generated) st (Some an)"
  shows "an_dep an \<noteq> [] \<or> gives (walking (rule_holding (in_select xe) (in_index xe) (e_to e) ask 0)) st (Some [])"
proof -
  let ?h = "if generated \<noteq> [] then ret (Some generated) else walking (rule_holding (in_select xe) (in_index xe) (e_to e) ask 0)"
  have sh: "settled (sl_producers xe) ?h" by (intro settles) simp
  from assms(2) obtain held where held: "gives ?h st held" "gives (case held of
      Some own \<Rightarrow>
        (case owners of
           Some f \<Rightarrow>
             if own \<noteq> [] \<and> \<not> False
             then bindq (reads_sources f e own) (\<lambda>source. ret (Some (answer own source)))
             else ret (Some ((answer own (own = [] \<and> True \<or> False))\<lparr>an_configFile := False \<and> \<not> is_declaration_file (e_to e)\<rparr>))
         | None \<Rightarrow> ret (Some ((answer own (own = [] \<and> True \<or> False))\<lparr>an_configFile := False \<and> \<not> is_declaration_file (e_to e)\<rparr>)))
    | None \<Rightarrow> ret (if False then Some ((answer [] True)\<lparr>an_configFile := False \<and> \<not> is_declaration_file (e_to e)\<rparr>) else None)) st (Some an)"
    unfolding owned_edge_def Let_def gives_bindq[OF sh assms(1)] by blast
  then obtain own where own: "held = Some own" by (cases held) auto
  have "an_dep an = own" using held(2) unfolding own
    by (auto simp: gives_bindq[OF settled_reads assms(1)] answer_def split: option.splits if_splits)
  then show ?thesis using held(1) unfolding own by (cases "own = []") (auto split: if_splits)
qed

text \<open>C7.  No import of a first-party file by a rule with sources that is no test config is lost: it becomes
  a dependency, a source of the rule, or a report, unless the rule itself generates the file or the
  search for the rule that holds it answers the empty label, as it does for the rule itself.\<close>

theorem import_accounted:
  assumes "all_stored (sl_producers xe) st" "edge_dep xe owners ask True False e st = (Inr an, st')" "firstParty (e_to e)"
  shows "st' = st \<and>
    (an_dep an \<noteq> [] \<or> an_report an \<noteq> None \<or> an_source an \<and> retains xe st ask (e_to e) an \<or>
     gives (generated_dep xe (e_to e) ask) st ([], True) \<or>
     gives (walking (rule_holding (in_select xe) (in_index xe) (e_to e) ask 0)) st (Some []))"
proof -
  let ?f = "e_to e"
  have r: "gives (edge_dep xe owners ask True False e) st an" and st: "st' = st"
    using assms(2) run_gives[OF settled_edge_dep assms(1)] by auto
  from r obtain generated owned where gen: "gives (generated_dep xe ?f ask) st (generated, owned)"
      and k: "gives (if owned then ret (answer generated False)
          else bindq (walking (output_producer (sl_producers xe) ?f)) (\<lambda>producer.
            bindq (if producer = None then authored_edge xe owners ask True False e generated else ret None) (\<lambda>found.
              case found of
                Some an \<Rightarrow> ret an
              | None \<Rightarrow> staged_edge xe ask True (producer \<noteq> None) e generated))) st an"
    by (auto simp: edge_dep_def Let_def assms(3) gives_bindq[OF settled_ret assms(1)] gives_bindq[OF settled_generated_dep assms(1)])
  show ?thesis
  proof (cases owned)
    case True
    then show ?thesis using gen k st by (auto simp: answer_def)
  next
    case False
    have k2: "gives (bindq (walking (output_producer (sl_producers xe) ?f)) (\<lambda>producer.
            bindq (if producer = None then authored_edge xe owners ask True False e generated else ret None) (\<lambda>found.
              case found of
                Some an \<Rightarrow> ret an
              | None \<Rightarrow> staged_edge xe ask True (producer \<noteq> None) e generated))) st an"
      using k by (simp only: False if_False)
    then obtain producer :: "(build_rule \<times> string) option" where p: "gives (bindq (if producer = None then authored_edge xe owners ask True False e generated else ret None) (\<lambda>found.
              case found of
                Some an \<Rightarrow> ret an
              | None \<Rightarrow> staged_edge xe ask True (producer \<noteq> None) e generated)) st an"
      by (rule gives_bindqE[OF _ settled_producer assms(1)])
    have sa: "settled (sl_producers xe) (if producer = None then authored_edge xe owners ask True False e generated else ret None)"
      by (intro settles)
    from p obtain found where found: "gives (if producer = None then authored_edge xe owners ask True False e generated else ret None) st found"
        "gives (case found of Some an \<Rightarrow> ret an | None \<Rightarrow> staged_edge xe ask True (producer \<noteq> None) e generated) st an"
      unfolding gives_bindq[OF sa assms(1)] by blast
    show ?thesis
    proof (cases found)
      case None
      have "gives (staged_edge xe ask True (producer \<noteq> None) e generated) st an" using found(2) unfolding None option.case .
      from staged_accounted[OF assms(1) this] st show ?thesis by blast
    next
      case (Some an')
      then have a: "gives (authored_edge xe owners ask True False e generated) st (Some an)" using found by (auto split: if_splits)
      have sm: "settled (sl_producers xe) (if generated = [] then member_edge xe owners ask False e else ret None)" by (intro settles)
      from a obtain view where view: "gives (if generated = [] then member_edge xe owners ask False e else ret None) st view"
          "gives (if view \<noteq> None then ret view else owned_edge xe owners ask True False e generated) st (Some an)"
        unfolding authored_edge_def gives_bindq[OF settled_require assms(1)] gives_bindq[OF sm assms(1)] by blast
      show ?thesis
      proof (cases view)
        case None
        have "gives (owned_edge xe owners ask True False e generated) st (Some an)" using view(2) None by simp
        from owned_accounted[OF assms(1) this] st show ?thesis by blast
      next
        case (Some v)
        then have "gives (member_edge xe owners ask False e) st (Some an)" using view by (auto split: if_splits)
        from member_accounted[OF assms(1) this] st show ?thesis by blast
      qed
    qed
  qed
qed

text \<open>No rule has \<open>p/c.ts\<close>, so \<open>q\<close>, which imports it, compiles it.\<close>

definition demo_exports :: "unit export_env" where
  "demo_exports = input_env.extend demo_inputs (export_env.fields (\<lambda>_. []) (\<lambda>_. False) (\<lambda>_. False))"

definition demo_import :: "string \<Rightarrow> string \<Rightarrow> edge" where
  "demo_import origin target = \<lparr>e_kind = Import, e_from = origin, e_to = target, e_spec = ''./x''\<rparr>"

theorem import_accounted_witness:
  "\<exists>an. gives (edge_dep demo_exports None (demo_label ''q'' ''q'') True False (demo_import ''q/q.ts'' ''p/c.ts'')) demo_observed an \<and>
    an_dep an = [] \<and> retains demo_exports demo_observed (demo_label ''q'' ''q'') ''p/c.ts'' an"
proof -
  let ?e = "demo_import ''q/q.ts'' ''p/c.ts''" let ?q = "demo_label ''q'' ''q''"
  let ?an = "\<lparr>an_dep = [], an_source = True, an_retained = [(''q:c.ts'', ''q:c.ts'', 0)], an_configFile = False, an_report = None\<rparr>"
  have a: "all_stored (sl_producers demo_exports) demo_observed" by code_simp
  have r: "edge_dep demo_exports None ?q True False ?e demo_observed = (Inr ?an, demo_observed)"
    by (rule run_settled[OF settled_edge_dep a]) code_simp
  have g: "\<not> gives (generated_dep demo_exports (e_to ?e) ?q) demo_observed ([], True)" unfolding gives_def by code_simp
  have h: "\<not> gives (walking (rule_holding (in_select demo_exports) (in_index demo_exports) (e_to ?e) ?q 0)) demo_observed (Some [])"
    unfolding gives_def by code_simp
  have "firstParty (e_to ?e)" by code_simp
  from import_accounted[OF a r this] g h have "retains demo_exports demo_observed ?q (e_to ?e) ?an" by simp
  moreover have "gives (edge_dep demo_exports None ?q True False ?e) demo_observed ?an" by (simp add: gives_def r)
  ultimately show ?thesis by (intro exI[of _ ?an]) (simp add: demo_import_def)
qed

end
