(* ===== verification/Minimize.thy ===== *)
theory Minimize imports Emission ExplainFiles begin

text \<open>
  What a program's dependencies supply and which of them it can do without, \<open>gazelle/resolve.go\<close>:
  the exact supply of a list of dependencies, and \<open>minimizeDependencies\<close>, which keeps the supply as
  counts once no owner can change any more.  \<open>sourceOwner\<close> is a parameter on a state \<open>'w\<close>, since a
  first call promotes and completes its owner; the rules are those of the settled owners.  The memos
  of pure lookups are not in the model; \<open>walked\<close> and \<open>walkComplete\<close>, which decide what is called, are.
\<close>

section \<open>Roles and requirements\<close>

datatype input_role = SourceRole | ScopeRole | CompilerRole

instantiation input_role :: linorder
begin

definition less_eq_input_role :: "input_role \<Rightarrow> input_role \<Rightarrow> bool" where
  "less_eq_input_role a b \<longleftrightarrow> a = SourceRole \<or> b = CompilerRole \<or> a = b"

definition less_input_role :: "input_role \<Rightarrow> input_role \<Rightarrow> bool" where
  "less_input_role a b \<longleftrightarrow> a \<noteq> b \<and> (a = SourceRole \<or> b = CompilerRole)"

instance
proof
  fix a b c :: input_role
  show "(a < b) = (a \<le> b \<and> \<not> b \<le> a)" by (cases a; cases b) (simp_all add: less_input_role_def less_eq_input_role_def)
  show "a \<le> a" by (simp add: less_eq_input_role_def)
  show "a \<le> b \<Longrightarrow> b \<le> c \<Longrightarrow> a \<le> c" by (cases a; cases b; cases c) (simp_all add: less_eq_input_role_def)
  show "a \<le> b \<Longrightarrow> b \<le> a \<Longrightarrow> a = b" by (cases a; cases b) (simp_all add: less_eq_input_role_def)
  show "a \<le> b \<or> b \<le> a" by (cases a; cases b) (simp_all add: less_eq_input_role_def)
qed

end

definition inputAttrs :: "(string \<times> input_role) list" where
  "inputAttrs = [(''srcs'', SourceRole), (''package_scopes'', ScopeRole), (''type_inputs'', CompilerRole)]"

record requirement =
  rq_edges :: "edge list"
  rq_unconditional :: bool

type_synonym roles = "(string \<times> input_role) list"

section \<open>Dependencies\<close>

record 'w supply_env =
  se_env :: emission_env
  se_rules :: stored
  se_pkg :: string
  se_name :: string
  se_owner :: "string \<Rightarrow> 'w \<Rightarrow> emission_mode \<times> 'w"  \<comment> \<open>\<open>sourceOwner\<close>\<close>
  se_called :: "'w \<Rightarrow> string \<Rightarrow> bool"
  se_imports :: "string \<Rightarrow> string list \<Rightarrow> string list"  \<comment> \<open>the imports of a program of a package with these srcs\<close>
  se_exportOwner :: "string \<Rightarrow> string"  \<comment> \<open>\<open>sourceExportOwner\<close>\<close>
  se_producer :: "string \<Rightarrow> (build_rule \<times> string) option"  \<comment> \<open>\<open>outputProducer\<close>\<close>

definition se_label :: "('w, 'z) supply_env_scheme \<Rightarrow> string \<Rightarrow> string \<Rightarrow> string" where
  "se_label se pkg name = emission_label (ee_api (se_env se)) (ee_repo (se_env se)) pkg name"

definition program_dependency_target :: "('w, 'z) supply_env_scheme \<Rightarrow> string \<Rightarrow> string \<Rightarrow> string \<times> build_rule option" where
  "program_dependency_target se pkg dep =
     (let (key, target) = rule_target (se_env se) (se_rules se) (se_label se pkg dep) in
      case (target, parse_label (ee_api (se_env se)) key) of
        (Some r, Some own) \<Rightarrow>
          if ru_kind r \<noteq> ''node_modules_member'' then (key, target)
          else let member = member_compiler_target (se_env se) (se_label se (lb_pkg own) (ru_string r ''member'')) in
            if member \<noteq> [] then rule_target (se_env se) (se_rules se) member else ([], None)
      | _ \<Rightarrow> (key, target))"

definition program_key :: "('w, 'z) supply_env_scheme \<Rightarrow> string \<Rightarrow> string \<Rightarrow> string option" where
  \<comment> \<open>the compiler rule a dependency leads to\<close>
  "program_key se pkg dep =
     (case program_dependency_target se pkg dep of
        (key, Some r) \<Rightarrow> if ru_kind r = ''ts_compile'' then Some key else None
      | (key, None) \<Rightarrow> None)"

definition dep_target :: "('w, 'z) supply_env_scheme \<Rightarrow> string \<Rightarrow> string \<Rightarrow> string \<times> build_rule option" where
  "dep_target se pkg dep = rule_target (se_env se) (se_rules se) (se_label se pkg dep)"

definition add_input :: "input_role \<Rightarrow> string \<Rightarrow> roles \<Rightarrow> roles" where
  "add_input role spec m =
     (case map_of m spec of
        None \<Rightarrow> AList.update spec role m
      | Some previous \<Rightarrow> if role < previous then AList.update spec role m else m)"

definition program_input_files :: "('w, 'z) supply_env_scheme \<Rightarrow> string \<Rightarrow> build_rule \<Rightarrow> roles" where
  "program_input_files se pkg r =
     fold (\<lambda>(attr, role). fold (add_input role) (se_imports se pkg (ru_strings r attr))) inputAttrs []"

definition key_pkg :: "('w, 'z) supply_env_scheme \<Rightarrow> string \<Rightarrow> string" where
  "key_pkg se key = (case parse_label (ee_api (se_env se)) key of None \<Rightarrow> [] | Some own \<Rightarrow> lb_pkg own)"

definition key_parses :: "('w, 'z) supply_env_scheme \<Rightarrow> string \<Rightarrow> bool" where
  "key_parses se key \<longleftrightarrow> parse_label (ee_api (se_env se)) key \<noteq> None"

definition program_inputs :: "('w, 'z) supply_env_scheme \<Rightarrow> string \<Rightarrow> roles" where
  "program_inputs se key =
     (case semantic_rule (se_env se) (se_rules se) key of
        None \<Rightarrow> []
      | Some r \<Rightarrow> program_input_files se (key_pkg se key) r)"

definition rule_deps_of :: "('w, 'z) supply_env_scheme \<Rightarrow> string \<Rightarrow> string list" where
  "rule_deps_of se key =
     (case semantic_rule (se_env se) (se_rules se) key of None \<Rightarrow> [] | Some r \<Rightarrow> ru_strings r ''deps'')"

definition dependency_targets :: "('w, 'z) supply_env_scheme \<Rightarrow> string \<Rightarrow> string list" where
  "dependency_targets se key = map (\<lambda>dep. fst (dep_target se (key_pkg se key) dep)) (rule_deps_of se key)"

definition compiler_children :: "('w, 'z) supply_env_scheme \<Rightarrow> string \<Rightarrow> string list" where
  "compiler_children se key =
     (if key_parses se key then List.map_filter (program_key se (key_pkg se key)) (rule_deps_of se key) else [])"

record direct_supply =
  ds_inputs :: roles
  ds_files :: "string list"
  ds_targets :: "string list"

text \<open>\<open>directSupply\<close>; \<open>inputs\<close> is listed in the order Go ranges over the map.\<close>

definition direct_supply :: "('w, 'z) supply_env_scheme \<Rightarrow> string \<Rightarrow> 'w \<Rightarrow> direct_supply option \<times> 'w" where
  "direct_supply se dep w =
     (case program_key se (se_pkg se) dep of
        None \<Rightarrow> (None, w)
      | Some key \<Rightarrow>
          if \<not> key_parses se key then (None, w)
          else
            let (mode, w1) = se_owner se key w;
                joined = (mode = SourceEmission);
                pkg = key_pkg se key;
                (mode2, w2) = (if pkg = se_pkg se then se_owner se key w1 else (OpaqueEmission, w1));
                packageEmitter = (mode2 = EmittedEmission);
                inputs = program_inputs se key;
                sources = map fst (filter (\<lambda>(_, role). role = SourceRole) inputs);
                given = (\<lambda>f. joined \<or> is_declaration_file f)
            in (Some \<lparr>ds_inputs = inputs,
                      ds_files = filter (\<lambda>f. given f \<or> packageEmitter \<and> se_exportOwner se f \<noteq> pkg) sources,
                      ds_targets = (if list_ex given sources
                        then (if fst (dep_target se (se_pkg se) dep) \<noteq> key then [key] else []) @ dependency_targets se key
                        else [])\<rparr>, w2))"

section \<open>The exact supply\<close>

definition claim :: "roles \<Rightarrow> roles \<times> roles \<Rightarrow> roles \<times> roles" where
  \<comment> \<open>the demanded scopes among the inputs move from the required to the supplied\<close>
  "claim inputs = fold (\<lambda>(spec, role) (required, supplied).
     case map_of required spec of
       None \<Rightarrow> (required, supplied)
     | Some wanted \<Rightarrow> if role \<le> wanted then (AList.delete spec required, AList.update spec role supplied) else (required, supplied)) inputs"

fun direct_pass ::
    "('w, 'z) supply_env_scheme \<Rightarrow> string list \<Rightarrow> roles \<Rightarrow> roles \<Rightarrow> string list \<Rightarrow> 'w \<Rightarrow> roles \<times> roles \<times> string list \<times> 'w" where
  "direct_pass se [] required supplied targets w = (required, supplied, targets, w)"
| "direct_pass se (dep # deps) required supplied targets w =
     (case direct_supply se dep w of
        (None, w') \<Rightarrow> direct_pass se deps required supplied targets w'
      | (Some ds, w') \<Rightarrow>
          let supplied1 = fold (\<lambda>f. AList.update f SourceRole) (ds_files ds) supplied;
              (required2, supplied2) = claim (ds_inputs ds) (required, supplied1)
          in direct_pass se deps required2 supplied2 (targets @ ds_targets ds) w')"

text \<open>The walk over the compiler dependencies for the scopes still required, its recursion the list of
  the calls still to make.\<close>

function scope_walk ::
    "('w, 'z) supply_env_scheme \<Rightarrow> string list \<Rightarrow> string list \<Rightarrow> roles \<Rightarrow> roles \<Rightarrow> string list \<Rightarrow> 'w \<Rightarrow> roles \<times> string list \<times> 'w" where
  "scope_walk se [] visited required supplied walked w = (supplied, walked, w)"
| "scope_walk se (key # calls) visited required supplied walked w =
     (if required = [] then (supplied, walked, w)
      else if key \<in> set visited \<and> key \<noteq> se_label se (se_pkg se) ('':'' @ se_name se) \<or> key \<notin> set walked \<and> \<not> key_parses se key
      then scope_walk se calls visited required supplied walked w
      else
        let w' = (if key \<in> set walked then w else snd (se_owner se key w));
            (required', supplied') = claim (program_inputs se key) (required, supplied)
        in if key \<in> set visited then scope_walk se calls visited required' supplied' (List.insert key walked) w'
           else scope_walk se (compiler_children se key @ calls) (key # visited) required' supplied' (List.insert key walked) w')"
  by pat_completeness auto

lemma compiler_children_stored: "key \<notin> fst ` set (se_rules se) \<Longrightarrow> compiler_children se key = []"
proof -
  assume "key \<notin> fst ` set (se_rules se)"
  then have "map_of (se_rules se) key = None" by (simp add: map_of_eq_None_iff)
  then show ?thesis by (simp add: compiler_children_def rule_deps_of_def semantic_rule_def map_filter_simps)
qed

lemma stored_left:
  assumes "key \<notin> set visited"
  shows "card (fst ` set rules - set (key # visited)) < card (fst ` set rules - set visited) \<or>
    card (fst ` set rules - set (key # visited)) = card (fst ` set rules - set visited) \<and> key \<notin> fst ` set rules"
proof (cases "key \<in> fst ` set rules")
  case True
  then have "fst ` set rules - set (key # visited) \<subset> fst ` set rules - set visited" using assms by auto
  then show ?thesis by (simp add: psubset_card_mono)
next
  case False
  then have "fst ` set rules - set (key # visited) = fst ` set rules - set visited" by auto
  then show ?thesis using False by simp
qed

termination scope_walk
proof (relation "measures [\<lambda>(se, calls, visited, _). card (fst ` set (se_rules se) - set visited), \<lambda>(se, calls, visited, _). length calls]", goal_cases)
  case (4 se key calls visited required supplied walked w w' p required' supplied')
  then have "key \<notin> set visited" by simp
  from stored_left[OF this, of "se_rules se"] show ?case using compiler_children_stored[of key se] by auto
qed auto

declare scope_walk.simps(2) [simp del]

text \<open>\<open>suppliedProgramInputs\<close>: the supplied inputs with their roles, the supplied dependencies, the
  owners walked and the state.\<close>

definition supplied_program_inputs ::
    "('w, 'z) supply_env_scheme \<Rightarrow> string list \<Rightarrow> roles \<Rightarrow> string list \<Rightarrow> 'w \<Rightarrow> roles \<times> string list \<times> string list \<times> 'w" where
  "supplied_program_inputs se deps demands walked w =
     (let (required, supplied, targets, w1) = direct_pass se deps demands [] [] w;
          self = se_label se (se_pkg se) ('':'' @ se_name se);
          (supplied2, walked2, w2) = scope_walk se (List.map_filter (program_key se (se_pkg se)) deps) [self] required supplied walked w1
      in (supplied2, targets, walked2, w2))"

section \<open>Edges a dropped dependency leaves\<close>

definition npm_package_name :: "string \<Rightarrow> string" where
  "npm_package_name file =
     (let p = ''/'' @ file in
      case str_last_index p ''/node_modules/'' of
        None \<Rightarrow> []
      | Some i \<Rightarrow>
          let parts = split_n SL 3 (drop (i + length ''/node_modules/'') p) in
          if has_prefix (hd parts) ''@'' then (if length parts < 3 then [] else hd parts @ ''/'' @ parts ! 1)
          else if length parts < 2 then [] else hd parts)"

definition static_edge_supply :: "build_rule option \<Rightarrow> edge \<Rightarrow> bool" where
  "static_edge_supply r e \<longleftrightarrow>
     (case r of None \<Rightarrow> False | Some r \<Rightarrow> ru_kind r = ''ts_compile'' \<or> ru_kind r = ''node_modules_member'') \<or> npm_package_name (e_to e) \<noteq> []"

definition codegen_edge_unsupplied :: "('w, 'z) supply_env_scheme \<Rightarrow> string \<Rightarrow> edge \<Rightarrow> bool" where
  "codegen_edge_unsupplied se key e \<longleftrightarrow>
     (case se_producer se (e_to e) of
        None \<Rightarrow> True
      | Some (producer, pkg) \<Rightarrow> ru_kind producer \<noteq> ''ts_codegen'' \<or> se_label se pkg ('':'' @ ru_name producer) \<noteq> key)"

definition plain_target :: "string \<Rightarrow> bool" where
  "plain_target f \<longleftrightarrow> is_declaration_file f \<or> path_ext f = ''.json''"

definition required_edge_unsupplied :: "('w, 'z) supply_env_scheme \<Rightarrow> string \<Rightarrow> build_rule option \<Rightarrow> edge \<Rightarrow> (string \<Rightarrow> bool) \<Rightarrow> bool" where
  "required_edge_unsupplied se key r e supplies \<longleftrightarrow>
     (if \<not> supplies (e_from e) then True
      else if static_edge_supply r e then False
      else if \<not> (plain_target (e_to e) \<or> supplies (e_to e)) then True
      else codegen_edge_unsupplied se key e)"

section \<open>The supply as counts\<close>

record dependency_supply =
  dy_files :: "string list"
  dy_targets :: "string list"
  dy_claims :: "string list"

record fixed_supply =
  fs_deps :: "(string \<times> requirement) list"
  fs_roots :: "string list"
  fs_supplies :: "(string \<times> dependency_supply) list"
  fs_files :: "string \<Rightarrow> int"
  fs_targets :: "string \<Rightarrow> int"
  fs_claims :: "(string \<times> int) list"
  fs_demands :: nat
  fs_readers :: "string \<Rightarrow> string list"
  fs_needs :: "string \<Rightarrow> string list"
  fs_blocked :: bool

definition no_supply :: dependency_supply where
  "no_supply = \<lparr>dy_files = [], dy_targets = [], dy_claims = []\<rparr>"

definition supply_at :: "fixed_supply \<Rightarrow> string \<Rightarrow> dependency_supply" where
  "supply_at f dep = (case map_of (fs_supplies f) dep of None \<Rightarrow> no_supply | Some y \<Rightarrow> y)"

text \<open>One count per element; an element whose count becomes zero is lost.\<close>

definition count_all :: "int \<Rightarrow> string list \<Rightarrow> (string \<Rightarrow> int) \<Rightarrow> string list \<times> (string \<Rightarrow> int)" where
  "count_all delta xs m =
     fold (\<lambda>x (lost, m). let n = m x + delta in (if n = 0 then lost @ [x] else lost, m(x := n))) xs ([], m)"

definition claim_count :: "(string \<times> int) list \<Rightarrow> string \<Rightarrow> int" where
  "claim_count cs spec = (case map_of cs spec of None \<Rightarrow> 0 | Some n \<Rightarrow> n)"

definition add_supply :: "string \<Rightarrow> int \<Rightarrow> fixed_supply \<Rightarrow> string list \<times> string list \<times> fixed_supply" where
  "add_supply dep delta f =
     (let y = supply_at f dep;
          (lost, files) = count_all delta (dy_files y) (fs_files f);
          (lostTargets, targets) = count_all delta (dy_targets y) (fs_targets f)
      in (lost, lostTargets,
          f\<lparr>fs_files := files, fs_targets := targets,
            fs_claims := fold (\<lambda>spec cs. AList.update spec (claim_count cs spec + delta) cs) (dy_claims y) (fs_claims f)\<rparr>))"

definition walks_past :: "string \<Rightarrow> fixed_supply \<Rightarrow> bool" where
  "walks_past candidate f \<longleftrightarrow>
     length (filter (\<lambda>(_, n). 0 < n) (fs_claims f)) < fs_demands f \<or>
     list_ex (\<lambda>spec. claim_count (fs_claims f) spec = 1) (dy_claims (supply_at f candidate))"

definition file_supplied :: "fixed_supply \<Rightarrow> string \<Rightarrow> bool" where
  "file_supplied f file \<longleftrightarrow> file \<notin> set (fs_roots f) \<and> 0 < fs_files f file"

definition requirement_at :: "(string \<times> requirement) list \<Rightarrow> string \<Rightarrow> requirement" where
  "requirement_at deps dep = (case map_of deps dep of None \<Rightarrow> \<lparr>rq_edges = [], rq_unconditional = False\<rparr> | Some r \<Rightarrow> r)"

definition add_reader :: "string \<Rightarrow> string \<Rightarrow> (string \<Rightarrow> string list) \<Rightarrow> string \<Rightarrow> string list" where
  "add_reader dep file m = m(file := m file @ [dep])"

definition index_dep :: "('w, 'z) supply_env_scheme \<Rightarrow> string \<Rightarrow> fixed_supply \<Rightarrow> fixed_supply" where
  "index_dep se dep f =
     (let (key, r) = dep_target se (se_pkg se) dep in
      f\<lparr>fs_needs := add_reader dep key (fs_needs f),
        fs_readers := fold (\<lambda>e m.
          let m1 = add_reader dep (e_from e) m in
          if \<not> static_edge_supply r e \<and> \<not> is_declaration_file (e_to e) \<and> path_ext (e_to e) \<noteq> ''.json'' then add_reader dep (e_to e) m1 else m1)
          (rq_edges (requirement_at (fs_deps f) dep)) (fs_readers f)\<rparr>)"

definition dep_unsupplied :: "('w, 'z) supply_env_scheme \<Rightarrow> fixed_supply \<Rightarrow> string \<Rightarrow> bool" where
  "dep_unsupplied se f dep \<longleftrightarrow>
     (let req = requirement_at (fs_deps f) dep; (key, r) = dep_target se (se_pkg se) dep in
      rq_unconditional req \<or> fs_targets f key = 0 \<or>
      list_ex (\<lambda>e. required_edge_unsupplied se key r e (file_supplied f)) (rq_edges req))"

definition dependency_supply ::
    "('w, 'z) supply_env_scheme \<Rightarrow> string list \<Rightarrow> string list \<Rightarrow> roles \<Rightarrow> string \<Rightarrow> 'w \<Rightarrow> dependency_supply \<times> 'w" where
  "dependency_supply se readFiles readTargets demands dep w =
     (case direct_supply se dep w of
        (None, w') \<Rightarrow> (no_supply, w')
      | (Some ds, w') \<Rightarrow>
          (\<lparr>dy_files = filter (\<lambda>x. x \<in> set readFiles) (ds_files ds),
            dy_targets = filter (\<lambda>x. x \<in> set readTargets) (ds_targets ds),
            dy_claims = map fst (filter (\<lambda>(spec, role). case map_of demands spec of None \<Rightarrow> False | Some wanted \<Rightarrow> role \<le> wanted) (ds_inputs ds))\<rparr>, w'))"

fun add_supplies ::
    "('w, 'z) supply_env_scheme \<Rightarrow> string list \<Rightarrow> string list \<Rightarrow> roles \<Rightarrow> string list \<Rightarrow> fixed_supply \<Rightarrow> 'w \<Rightarrow> fixed_supply \<times> 'w" where
  "add_supplies se readFiles readTargets demands [] f w = (f, w)"
| "add_supplies se readFiles readTargets demands (dep # deps) f w =
     (let (y, w') = dependency_supply se readFiles readTargets demands dep w;
          (_, _, f') = add_supply dep 1 (f\<lparr>fs_supplies := AList.update dep y (fs_supplies f)\<rparr>)
      in add_supplies se readFiles readTargets demands deps f' w')"

definition read_targets :: "('w, 'z) supply_env_scheme \<Rightarrow> (string \<times> requirement) list \<Rightarrow> string list" where
  "read_targets se deps = map (\<lambda>(dep, _). fst (dep_target se (se_pkg se) dep)) deps"

definition read_files :: "(string \<times> requirement) list \<Rightarrow> string list" where
  "read_files deps = concat (map (\<lambda>(_, req). concat (map (\<lambda>e. [e_from e, e_to e]) (rq_edges req))) deps)"

definition new_fixed_supply ::
    "('w, 'z) supply_env_scheme \<Rightarrow> (string \<times> requirement) list \<Rightarrow> string list \<Rightarrow> string list \<Rightarrow> roles \<Rightarrow> 'w \<Rightarrow> fixed_supply \<times> 'w" where
  "new_fixed_supply se deps retained roots demands w =
     (let f0 = \<lparr>fs_deps = deps, fs_roots = roots, fs_supplies = [], fs_files = (\<lambda>_. 0), fs_targets = (\<lambda>_. 0), fs_claims = [],
                fs_demands = length demands, fs_readers = (\<lambda>_. []), fs_needs = (\<lambda>_. []), fs_blocked = False\<rparr>;
          (f1, w1) = add_supplies se (read_files deps) (read_targets se deps) demands (sort_strings retained) f0 w
      in (fold (\<lambda>dep f.
            if dep \<in> set retained then f
            else let f' = index_dep se dep f in if dep_unsupplied se f' dep then f'\<lparr>fs_blocked := True\<rparr> else f')
          (sort_strings (map fst deps)) f1, w1))"

definition drop_candidate :: "('w, 'z) supply_env_scheme \<Rightarrow> string \<Rightarrow> fixed_supply \<Rightarrow> bool \<times> fixed_supply" where
  "drop_candidate se candidate f =
     (if fs_blocked f then (False, f)
      else
        let (lost, lostTargets, f') = add_supply candidate (- 1) f;
            affected = candidate # concat (map (fs_readers f) lost) @ concat (map (fs_needs f) lostTargets)
        in if list_ex (dep_unsupplied se f') affected then (False, snd (snd (add_supply candidate 1 f')))
           else (True, index_dep se candidate f'))"

section \<open>Minimizing\<close>

definition all_settled :: "('w, 'z) supply_env_scheme \<Rightarrow> string list \<Rightarrow> 'w \<Rightarrow> bool" where
  "all_settled se retained w \<longleftrightarrow>
     list_all (\<lambda>dep. case program_key se (se_pkg se) dep of None \<Rightarrow> True | Some key \<Rightarrow> se_called se w key) retained"

function settled_walk :: "('w, 'z) supply_env_scheme \<Rightarrow> string list \<Rightarrow> string list \<Rightarrow> 'w \<Rightarrow> bool" where
  "settled_walk se [] seen w = True"
| "settled_walk se (key # queue) seen w =
     (if key \<in> set seen then settled_walk se queue seen w
      else if \<not> se_called se w key then False
      else settled_walk se (queue @ compiler_children se key) (key # seen) w)"
  by pat_completeness auto
termination
proof (relation "measures [\<lambda>(se, queue, seen, w). card (fst ` set (se_rules se) - set seen), \<lambda>(se, queue, seen, w). length queue]", goal_cases)
  case (3 se key queue seen w)
  then show ?case using stored_left[of key seen "se_rules se"] compiler_children_stored[of key se] by auto
qed auto

declare settled_walk.simps(2) [simp del]

record min_state =
  ms_retained :: "string list"
  ms_supply :: "fixed_supply option"
  ms_walked :: "string list"
  ms_walkComplete :: bool

definition order_free :: "(string \<times> requirement) list \<Rightarrow> string list \<Rightarrow> roles \<Rightarrow> bool" where
  "order_free deps roots demands \<longleftrightarrow>
     list_all (\<lambda>(_, req). list_all (\<lambda>e. list_all (\<lambda>f. map_of demands f = None \<or> f \<in> set roots) [e_from e, e_to e]) (rq_edges req)) deps"

text \<open>The exact decision for one candidate: whether everything dropped stays supplied without it.\<close>

definition exact_drop ::
    "('w, 'z) supply_env_scheme \<Rightarrow> (string \<times> requirement) list \<Rightarrow> string list \<Rightarrow> roles \<Rightarrow> string list \<Rightarrow> string list \<Rightarrow> 'w \<Rightarrow> bool \<times> string list \<times> 'w" where
  "exact_drop se deps roots demands rest walked w =
     (let (supplied, suppliedDeps, walked', w') = supplied_program_inputs se (sort_strings rest) demands walked w;
          supplies = (\<lambda>file. file \<notin> set roots \<and> map_of supplied file = Some SourceRole)
      in (list_all (\<lambda>(dep, req).
            dep \<in> set rest \<or>
            (let (key, r) = dep_target se (se_pkg se) dep in
             \<not> rq_unconditional req \<and> key \<in> set suppliedDeps \<and>
             \<not> list_ex (\<lambda>e. required_edge_unsupplied se key r e supplies) (rq_edges req))) deps, walked', w'))"

definition min_step ::
    "('w, 'z) supply_env_scheme \<Rightarrow> (string \<times> requirement) list \<Rightarrow> string list \<Rightarrow> roles \<Rightarrow> string \<Rightarrow> min_state \<times> 'w \<Rightarrow> min_state \<times> 'w" where
  "min_step se deps roots demands candidate sw =
     (let (st, w) = sw;
          (supply, w1) =
            (if order_free deps roots demands \<and> ms_supply st = None \<and> all_settled se (ms_retained st) w
             then (let (f, w') = new_fixed_supply se deps (ms_retained st) roots demands w in (Some f, w'))
             else (ms_supply st, w));
          past = (case supply of None \<Rightarrow> True | Some f \<Rightarrow> walks_past candidate f);
          complete = (ms_walkComplete st \<or>
            settled_walk se (List.map_filter (program_key se (se_pkg se)) (ms_retained st)) [] w1);
          st1 = (if supply \<noteq> None \<and> past then st\<lparr>ms_walkComplete := complete\<rparr> else st);
          rest = filter (\<lambda>d. d \<noteq> candidate) (ms_retained st)
      in case supply of
        Some f \<Rightarrow>
          if \<not> past \<or> complete
          then (let (dropped, f') = drop_candidate se candidate f in
                (st1\<lparr>ms_supply := Some f', ms_retained := (if dropped then rest else ms_retained st)\<rparr>, w1))
          else (let (dropped, walked', w2) = exact_drop se deps roots demands rest (ms_walked st) w1 in
                (st1\<lparr>ms_supply := None, ms_walked := walked', ms_retained := (if dropped then rest else ms_retained st)\<rparr>, w2))
      | None \<Rightarrow>
          (let (dropped, walked', w2) = exact_drop se deps roots demands rest (ms_walked st) w1 in
           (st1\<lparr>ms_supply := None, ms_walked := walked', ms_retained := (if dropped then rest else ms_retained st)\<rparr>, w2)))"

definition minimize_dependencies ::
    "('w, 'z) supply_env_scheme \<Rightarrow> (string \<times> requirement) list \<Rightarrow> string list \<Rightarrow> roles \<Rightarrow> 'w \<Rightarrow> string list \<times> 'w" where
  "minimize_dependencies se deps roots demands w =
     (let retained = map fst deps;
          (st, w') = fold (min_step se deps roots demands) (sort_strings retained)
            (\<lparr>ms_retained = retained, ms_supply = None, ms_walked = [], ms_walkComplete = False\<rparr>, w)
      in (sort_strings (ms_retained st), w'))"

text \<open>The same with the supply computed anew for every candidate.\<close>

definition exact_step ::
    "('w, 'z) supply_env_scheme \<Rightarrow> (string \<times> requirement) list \<Rightarrow> string list \<Rightarrow> roles \<Rightarrow> string \<Rightarrow> string list \<times> string list \<times> 'w \<Rightarrow> string list \<times> string list \<times> 'w" where
  "exact_step se deps roots demands candidate s =
     (let (retained, walked, w) = s;
          rest = filter (\<lambda>d. d \<noteq> candidate) retained;
          (dropped, walked', w') = exact_drop se deps roots demands rest walked w
      in (if dropped then rest else retained, walked', w'))"

definition minimize_exactly ::
    "('w, 'z) supply_env_scheme \<Rightarrow> (string \<times> requirement) list \<Rightarrow> string list \<Rightarrow> roles \<Rightarrow> 'w \<Rightarrow> string list \<times> 'w" where
  "minimize_exactly se deps roots demands w =
     (let (retained, walked, w') = fold (exact_step se deps roots demands) (sort_strings (map fst deps)) (map fst deps, [], w)
      in (sort_strings retained, w'))"

section \<open>Settled owners\<close>

text \<open>What is relied on of \<open>sourceOwner\<close>: a call records its owner, and a repeated call changes nothing.\<close>

definition settles :: "('w, 'z) supply_env_scheme \<Rightarrow> bool" where
  "settles se \<longleftrightarrow>
     (\<forall>k w. se_called se (snd (se_owner se k w)) k) \<and>
     (\<forall>k w j. se_called se w j \<longrightarrow> se_called se (snd (se_owner se k w)) j) \<and>
     (\<forall>k w. se_called se w k \<longrightarrow> snd (se_owner se k w) = w)"

lemma settles_called: "settles se \<Longrightarrow> se_called se (snd (se_owner se k w)) k"
  by (simp add: settles_def)

lemma settles_mono: "settles se \<Longrightarrow> se_called se w j \<Longrightarrow> se_called se (snd (se_owner se k w)) j"
  by (simp add: settles_def)

lemma settles_same: "settles se \<Longrightarrow> se_called se w k \<Longrightarrow> snd (se_owner se k w) = w"
  by (simp add: settles_def)

definition dep_called :: "('w, 'z) supply_env_scheme \<Rightarrow> 'w \<Rightarrow> string \<Rightarrow> bool" where
  "dep_called se w dep \<longleftrightarrow> (case program_key se (se_pkg se) dep of None \<Rightarrow> True | Some key \<Rightarrow> se_called se w key)"

lemma all_settled_called: "all_settled se retained w \<longleftrightarrow> (\<forall>dep \<in> set retained. dep_called se w dep)"
  by (simp add: all_settled_def dep_called_def list_all_iff)

lemma direct_supply_mono: "settles se \<Longrightarrow> se_called se w j \<Longrightarrow> se_called se (snd (direct_supply se dep w)) j"
  by (auto simp: direct_supply_def Let_def split: option.splits prod.splits if_splits)
    (metis settles_mono snd_conv)+

lemma direct_supply_same: "settles se \<Longrightarrow> dep_called se w dep \<Longrightarrow> snd (direct_supply se dep w) = w"
  by (auto simp: direct_supply_def dep_called_def Let_def split: option.splits prod.splits if_splits)
    (metis settles_same snd_conv)+

text \<open>What a dependency supplies when the state stays as it is.\<close>

definition supply_of :: "('w, 'z) supply_env_scheme \<Rightarrow> 'w \<Rightarrow> string \<Rightarrow> direct_supply" where
  "supply_of se w dep = (case fst (direct_supply se dep w) of None \<Rightarrow> \<lparr>ds_inputs = [], ds_files = [], ds_targets = []\<rparr> | Some ds \<Rightarrow> ds)"

definition claims_spec :: "roles \<Rightarrow> roles \<Rightarrow> string \<Rightarrow> bool" where
  "claims_spec inputs demands s \<longleftrightarrow> (\<exists>role wanted. (s, role) \<in> set inputs \<and> map_of demands s = Some wanted \<and> role \<le> wanted)"

lemma claim_Nil: "claim [] p = p"
  by (simp add: claim_def)

lemma claim_Cons:
  "claim ((spec, role) # inputs) (required, supplied) =
     (case map_of required spec of
        None \<Rightarrow> claim inputs (required, supplied)
      | Some wanted \<Rightarrow>
          if role \<le> wanted then claim inputs (AList.delete spec required, AList.update spec role supplied)
          else claim inputs (required, supplied))"
  by (simp add: claim_def split: option.splits)

lemma claim_required:
  "map_of (fst (claim inputs (required, supplied))) s = (if claims_spec inputs required s then None else map_of required s)"
proof (induction inputs arbitrary: required supplied)
  case Nil
  then show ?case by (simp add: claim_Nil claims_spec_def)
next
  case (Cons i inputs)
  obtain spec role where i: "i = (spec, role)" by (cases i)
  show ?case
  proof (cases "\<exists>wanted. map_of required spec = Some wanted \<and> role \<le> wanted")
    case True
    then have step: "claim (i # inputs) (required, supplied) = claim inputs (AList.delete spec required, AList.update spec role supplied)"
      by (auto simp: i claim_Cons)
    show ?thesis unfolding step Cons.IH using True by (auto simp: claims_spec_def i delete_conv')
  next
    case False
    then have step: "claim (i # inputs) (required, supplied) = claim inputs (required, supplied)"
      by (auto simp: i claim_Cons split: option.splits)
    have "claims_spec (i # inputs) required s \<longleftrightarrow> claims_spec inputs required s" using False by (auto simp: claims_spec_def i)
    then show ?thesis unfolding step Cons.IH by simp
  qed
qed

lemma claim_supplied:
  "map_of required f = None \<Longrightarrow> map_of (snd (claim inputs (required, supplied))) f = map_of supplied f"
proof (induction inputs arbitrary: required supplied)
  case Nil
  then show ?case by (simp add: claim_Nil)
next
  case (Cons i inputs)
  obtain spec role where i: "i = (spec, role)" by (cases i)
  show ?case
  proof (cases "\<exists>wanted. map_of required spec = Some wanted \<and> role \<le> wanted")
    case True
    then have "claim (i # inputs) (required, supplied) = claim inputs (AList.delete spec required, AList.update spec role supplied)"
      by (auto simp: i claim_Cons)
    moreover have "map_of (AList.delete spec required) f = None" using Cons.prems by (simp add: delete_conv')
    moreover have "f \<noteq> spec" using True Cons.prems by auto
    ultimately show ?thesis using Cons.IH by (simp add: update_conv')
  next
    case False
    then have "claim (i # inputs) (required, supplied) = claim inputs (required, supplied)"
      by (auto simp: i claim_Cons split: option.splits)
    then show ?thesis using Cons by simp
  qed
qed

lemma map_of_nothing: "(\<And>s. map_of xs s = None) \<Longrightarrow> xs = []"
  by (metis list.exhaust map_of_Cons_code(2) option.distinct(1) surj_pair)

lemma map_of_give_files:
  "map_of (fold (\<lambda>f. AList.update f SourceRole) files supplied) f = (if f \<in> set files then Some SourceRole else map_of supplied f)"
  by (induction files arbitrary: supplied) (auto simp: update_conv')

lemma direct_pass_settled:
  assumes "settles se"
  shows "\<forall>dep \<in> set deps. dep_called se w dep \<Longrightarrow>
    \<exists>req spl. direct_pass se deps required supplied targets w = (req, spl, targets @ concat (map (\<lambda>d. ds_targets (supply_of se w d)) deps), w) \<and>
      (\<forall>s. map_of req s = (if \<exists>dep \<in> set deps. claims_spec (ds_inputs (supply_of se w dep)) required s then None else map_of required s)) \<and>
      (\<forall>f. map_of required f = None \<longrightarrow>
         (map_of spl f = Some SourceRole \<longleftrightarrow> map_of supplied f = Some SourceRole \<or> (\<exists>dep \<in> set deps. f \<in> set (ds_files (supply_of se w dep)))))"
proof (induction deps arbitrary: required supplied targets)
  case (Cons dep deps)
  have same: "snd (direct_supply se dep w) = w" using direct_supply_same[OF assms] Cons.prems by simp
  show ?case
  proof (cases "fst (direct_supply se dep w)")
    case None
    then have d: "direct_supply se dep w = (None, w)" using same by (metis prod.collapse)
    then have "supply_of se w dep = \<lparr>ds_inputs = [], ds_files = [], ds_targets = []\<rparr>" by (simp add: supply_of_def)
    then show ?thesis using Cons.IH[of required supplied targets] Cons.prems d by (simp add: claims_spec_def)
  next
    case (Some ds)
    then have d: "direct_supply se dep w = (Some ds, w)" using same by (metis prod.collapse)
    then have ds: "supply_of se w dep = ds" by (simp add: supply_of_def)
    let ?s1 = "fold (\<lambda>f. AList.update f SourceRole) (ds_files ds) supplied"
    obtain req2 spl2 where c: "claim (ds_inputs ds) (required, ?s1) = (req2, spl2)" by (cases "claim (ds_inputs ds) (required, ?s1)")
    have req2: "map_of req2 s = (if claims_spec (ds_inputs ds) required s then None else map_of required s)" for s
      using claim_required[of "ds_inputs ds" required ?s1 s] c by simp
    have spl2: "map_of spl2 f = (if f \<in> set (ds_files ds) then Some SourceRole else map_of supplied f)" if "map_of required f = None" for f
      using claim_supplied[OF that, of "ds_inputs ds" ?s1] c by (simp add: map_of_give_files)
    obtain req spl where r: "direct_pass se deps req2 spl2 (targets @ ds_targets ds) w = (req, spl, (targets @ ds_targets ds) @ concat (map (\<lambda>d. ds_targets (supply_of se w d)) deps), w)"
      and req: "\<forall>s. map_of req s = (if \<exists>dep \<in> set deps. claims_spec (ds_inputs (supply_of se w dep)) req2 s then None else map_of req2 s)"
      and spl: "\<forall>f. map_of req2 f = None \<longrightarrow>
         (map_of spl f = Some SourceRole \<longleftrightarrow> map_of spl2 f = Some SourceRole \<or> (\<exists>dep \<in> set deps. f \<in> set (ds_files (supply_of se w dep))))"
      using Cons.IH[of req2 spl2 "targets @ ds_targets ds"] Cons.prems by auto
    have again: "claims_spec inputs req2 s \<longleftrightarrow> claims_spec inputs required s \<and> \<not> claims_spec (ds_inputs ds) required s" for inputs s
      by (auto simp: claims_spec_def req2)
    show ?thesis
    proof (intro exI conjI)
      show "direct_pass se (dep # deps) required supplied targets w =
          (req, spl, targets @ concat (map (\<lambda>d. ds_targets (supply_of se w d)) (dep # deps)), w)" using r c by (simp add: d ds Let_def)
      show "\<forall>s. map_of req s = (if \<exists>d \<in> set (dep # deps). claims_spec (ds_inputs (supply_of se w d)) required s then None else map_of required s)"
        using req by (auto simp: ds req2 again)
      show "\<forall>f. map_of required f = None \<longrightarrow>
         (map_of spl f = Some SourceRole \<longleftrightarrow> map_of supplied f = Some SourceRole \<or> (\<exists>d \<in> set (dep # deps). f \<in> set (ds_files (supply_of se w d))))"
        using spl by (auto simp: ds req2 spl2)
    qed
  qed
qed simp

lemma direct_pass_mono: "settles se \<Longrightarrow> direct_pass se deps required supplied targets w = (req, spl, ts, w') \<Longrightarrow> se_called se w j \<Longrightarrow> se_called se w' j"
proof (induction deps arbitrary: required supplied targets w)
  case (Cons dep deps)
  have "se_called se (snd (direct_supply se dep w)) j" by (rule direct_supply_mono[OF Cons.prems(1,3)])
  then show ?case using Cons by (auto simp: Let_def split: prod.splits option.splits)
qed simp

section \<open>The walk calls an owner once\<close>

definition walked_ok :: "('w, 'z) supply_env_scheme \<Rightarrow> string list \<Rightarrow> 'w \<Rightarrow> bool" where
  "walked_ok se walked w \<longleftrightarrow> (\<forall>k \<in> set walked. se_called se w k \<and> key_parses se k)"

lemma scope_walk_same:
  "settles se \<Longrightarrow> walked_ok se walked w \<Longrightarrow> walked_ok se walked2 w \<Longrightarrow>
   \<exists>v1 v2 spl w'. scope_walk se calls visited required supplied walked w = (spl, v1, w') \<and>
     scope_walk se calls visited required supplied walked2 w = (spl, v2, w') \<and> walked_ok se v1 w' \<and> walked_ok se v2 w' \<and>
     (\<forall>j. se_called se w j \<longrightarrow> se_called se w' j)"
proof (induction se calls visited required supplied walked w arbitrary: walked2 rule: scope_walk.induct)
  case (2 se key calls visited required supplied walked w)
  let ?self = "se_label se (se_pkg se) ('':'' @ se_name se)"
  let ?skip = "key \<in> set visited \<and> key \<noteq> ?self \<or> \<not> key_parses se key"
  have skip: "(key \<in> set visited \<and> key \<noteq> ?self \<or> key \<notin> set u \<and> \<not> key_parses se key) = ?skip" if "walked_ok se u w" for u
    using that by (auto simp: walked_ok_def)
  have world: "(if key \<in> set u then w else snd (se_owner se key w)) = snd (se_owner se key w)" if "walked_ok se u w" for u
    using that settles_same[OF "2.prems"(1), of w key] by (auto simp: walked_ok_def)
  show ?case
  proof (cases "required = [] \<or> ?skip")
    case True
    then show ?thesis
    proof (cases "required = []")
      case True
      then show ?thesis using "2.prems" by (auto simp: scope_walk.simps(2))
    next
      case False
      then have k: ?skip using True by simp
      show ?thesis using "2.IH"(1)[OF False] k skip "2.prems" False by (simp add: scope_walk.simps(2))
    qed
  next
    case False
    let ?w = "snd (se_owner se key w)"
    obtain req spl where c: "claim (program_inputs se key) (required, supplied) = (req, spl)" by (cases "claim (program_inputs se key) (required, supplied)")
    have ok: "walked_ok se (List.insert key u) ?w" if "walked_ok se u w" for u
      using that False settles_called[OF "2.prems"(1)] settles_mono[OF "2.prems"(1)] by (auto simp: walked_ok_def)
    have mono: "se_called se ?w j" if "se_called se w j" for j using settles_mono[OF "2.prems"(1) that] .
    let ?next = "\<lambda>u. if key \<in> set visited then scope_walk se calls visited req spl (List.insert key u) ?w
        else scope_walk se (compiler_children se key @ calls) (key # visited) req spl (List.insert key u) ?w"
    have step: "scope_walk se (key # calls) visited required supplied u w = ?next u" if "walked_ok se u w" for u
      using False skip[OF that] world[OF that] c by (simp add: scope_walk.simps(2) Let_def)
    have "\<exists>v1 v2 spl' w'. ?next walked = (spl', v1, w') \<and> ?next walked2 = (spl', v2, w') \<and> walked_ok se v1 w' \<and> walked_ok se v2 w' \<and>
        (\<forall>j. se_called se ?w j \<longrightarrow> se_called se w' j)"
    proof (cases "key \<in> set visited")
      case True
      then show ?thesis
        using "2.IH"(2)[OF _ _ refl c[symmetric] refl True "2.prems"(1)] ok[OF "2.prems"(2)] ok[OF "2.prems"(3)] False skip[OF "2.prems"(2)] world[OF "2.prems"(2)] by simp
    next
      case nv: False
      then show ?thesis
        using "2.IH"(3)[OF _ _ refl c[symmetric] refl nv "2.prems"(1)] ok[OF "2.prems"(2)] ok[OF "2.prems"(3)] False skip[OF "2.prems"(2)] world[OF "2.prems"(2)] by simp
    qed
    then show ?thesis unfolding step[OF "2.prems"(2)] step[OF "2.prems"(3)] using mono by blast
  qed
qed auto

lemma scope_walk_step:
  assumes "required \<noteq> []"
    "\<not> (key \<in> set visited \<and> key \<noteq> se_label se (se_pkg se) ('':'' @ se_name se) \<or> key \<notin> set walked \<and> \<not> key_parses se key)"
    "claim (program_inputs se key) (required, supplied) = (req, spl)"
    "w' = (if key \<in> set walked then w else snd (se_owner se key w))"
  shows "scope_walk se (key # calls) visited required supplied walked w =
    (if key \<in> set visited then scope_walk se calls visited req spl (List.insert key walked) w'
     else scope_walk se (compiler_children se key @ calls) (key # visited) req spl (List.insert key walked) w')"
  unfolding scope_walk.simps(2) if_not_P[OF assms(1)] if_not_P[OF assms(2)] assms(3,4) Let_def by simp

lemma scope_walk_keeps:
  "\<exists>spl walked' w'. scope_walk se calls visited required supplied walked w = (spl, walked', w') \<and>
     (\<forall>f. map_of required f = None \<longrightarrow> map_of spl f = map_of supplied f)"
proof (induction se calls visited required supplied walked w rule: scope_walk.induct)
  case (2 se key calls visited required supplied walked w)
  let ?skip = "key \<in> set visited \<and> key \<noteq> se_label se (se_pkg se) ('':'' @ se_name se) \<or> key \<notin> set walked \<and> \<not> key_parses se key"
  let ?w = "if key \<in> set walked then w else snd (se_owner se key w)"
  obtain req spl where c: "claim (program_inputs se key) (required, supplied) = (req, spl)" by (cases "claim (program_inputs se key) (required, supplied)")
  have keep: "map_of req f = None \<and> map_of spl f = map_of supplied f" if "map_of required f = None" for f
    using claim_required[of "program_inputs se key" required supplied f] claim_supplied[OF that, of "program_inputs se key" supplied] c that by simp
  consider "required = []" | "required \<noteq> []" ?skip | "required \<noteq> []" "\<not> ?skip" "key \<in> set visited" | "required \<noteq> []" "\<not> ?skip" "key \<notin> set visited" by blast
  then show ?case
  proof cases
    case 1
    then show ?thesis by (simp add: scope_walk.simps(2))
  next
    case 2
    then show ?thesis using "2.IH"(1) by (simp add: scope_walk.simps(2))
  next
    case 3
    from "2.IH"(2)[OF 3(1,2) refl c[symmetric] refl 3(3)] obtain spl' walked' w'
      where r: "scope_walk se (key # calls) visited required supplied walked w = (spl', walked', w')"
        "\<forall>f. map_of req f = None \<longrightarrow> map_of spl' f = map_of spl f"
      unfolding scope_walk_step[OF 3(1,2) c refl] if_P[OF 3(3)] by blast
    show ?thesis using r keep by (intro exI[of _ spl'] exI[of _ walked'] exI[of _ w']) simp
  next
    case 4
    from "2.IH"(3)[OF 4(1,2) refl c[symmetric] refl 4(3)] obtain spl' walked' w'
      where r: "scope_walk se (key # calls) visited required supplied walked w = (spl', walked', w')"
        "\<forall>f. map_of req f = None \<longrightarrow> map_of spl' f = map_of spl f"
      unfolding scope_walk_step[OF 4(1,2) c refl] if_not_P[OF 4(3)] by blast
    show ?thesis using r keep by (intro exI[of _ spl'] exI[of _ walked'] exI[of _ w']) simp
  qed
qed auto

text \<open>The owners the walk can reach.\<close>

definition child_rel :: "('w, 'z) supply_env_scheme \<Rightarrow> (string \<times> string) set" where
  "child_rel se = {(a, b). b \<in> set (compiler_children se a)}"

definition reach_called :: "('w, 'z) supply_env_scheme \<Rightarrow> 'w \<Rightarrow> string list \<Rightarrow> bool" where
  "reach_called se w keys \<longleftrightarrow> (\<forall>k \<in> set keys. \<forall>j. (k, j) \<in> (child_rel se)\<^sup>* \<longrightarrow> se_called se w j)"

lemma reach_called_child: "reach_called se w (key # keys) \<Longrightarrow> reach_called se w (compiler_children se key @ keys)"
proof -
  assume r: "reach_called se w (key # keys)"
  have "(key, j) \<in> (child_rel se)\<^sup>*" if "c \<in> set (compiler_children se key)" "(c, j) \<in> (child_rel se)\<^sup>*" for c j
    using that by (auto simp: child_rel_def intro: converse_rtrancl_into_rtrancl)
  then show ?thesis using r by (auto simp: reach_called_def)
qed

lemma scope_walk_still:
  "settles se \<Longrightarrow> reach_called se w calls \<Longrightarrow> snd (snd (scope_walk se calls visited required supplied walked w)) = w"
proof (induction se calls visited required supplied walked w rule: scope_walk.induct)
  case (2 se key calls visited required supplied walked w)
  let ?skip = "key \<in> set visited \<and> key \<noteq> se_label se (se_pkg se) ('':'' @ se_name se) \<or> key \<notin> set walked \<and> \<not> key_parses se key"
  obtain req spl where c: "claim (program_inputs se key) (required, supplied) = (req, spl)" by (cases "claim (program_inputs se key) (required, supplied)")
  have "se_called se w key" using "2.prems"(2) by (auto simp: reach_called_def)
  then have w: "(if key \<in> set walked then w else snd (se_owner se key w)) = w" using settles_same[OF "2.prems"(1)] by simp
  have rest: "reach_called se w calls" using "2.prems"(2) by (auto simp: reach_called_def)
  consider "required = []" | "required \<noteq> []" ?skip | "required \<noteq> []" "\<not> ?skip" "key \<in> set visited" | "required \<noteq> []" "\<not> ?skip" "key \<notin> set visited" by blast
  then show ?case
  proof cases
    case 1
    then show ?thesis by (simp add: scope_walk.simps(2))
  next
    case 2
    then show ?thesis using "2.IH"(1)[OF 2 "2.prems"(1) rest] by (simp add: scope_walk.simps(2))
  next
    case 3
    then show ?thesis using "2.IH"(2)[OF 3(1,2) refl c[symmetric] refl 3(3) "2.prems"(1)] rest unfolding scope_walk_step[OF 3(1,2) c refl] if_P[OF 3(3)] w by simp
  next
    case 4
    then show ?thesis using "2.IH"(3)[OF 4(1,2) refl c[symmetric] refl 4(3) "2.prems"(1)] reach_called_child[OF "2.prems"(2)]
      unfolding scope_walk_step[OF 4(1,2) c refl] if_not_P[OF 4(3)] w by simp
  qed
qed auto

lemma settled_walk_sound:
  "settled_walk se queue seen w \<Longrightarrow> \<forall>k \<in> set seen. se_called se w k \<and> set (compiler_children se k) \<subseteq> set seen \<union> set queue \<Longrightarrow>
   \<exists>closed. set queue \<union> set seen \<subseteq> closed \<and> (\<forall>k \<in> closed. se_called se w k \<and> set (compiler_children se k) \<subseteq> closed)"
proof (induction se queue seen w rule: settled_walk.induct)
  case (1 se seen w)
  then have "\<forall>k \<in> set seen. se_called se w k \<and> set (compiler_children se k) \<subseteq> set seen" by simp
  then show ?case by (intro exI[of _ "set seen"]) simp
next
  case (2 se key queue seen w)
  show ?case
  proof (cases "key \<in> set seen")
    case True
    have "settled_walk se queue seen w" using "2.prems"(1) True by (simp add: settled_walk.simps(2))
    moreover have "\<forall>x \<in> set seen. se_called se w x \<and> set (compiler_children se x) \<subseteq> set seen \<union> set queue"
      using "2.prems"(2) True by auto
    ultimately obtain closed where "set queue \<union> set seen \<subseteq> closed"
      "\<forall>x \<in> closed. se_called se w x \<and> set (compiler_children se x) \<subseteq> closed" using "2.IH"(1)[OF True] by blast
    then show ?thesis using True by (intro exI[of _ closed]) auto
  next
    case False
    then have k: "se_called se w key" "settled_walk se (queue @ compiler_children se key) (key # seen) w"
      using "2.prems"(1) by (auto simp: settled_walk.simps(2) split: if_splits)
    have "\<forall>x \<in> set (key # seen). se_called se w x \<and> set (compiler_children se x) \<subseteq> set (key # seen) \<union> set (queue @ compiler_children se key)"
      using "2.prems"(2) k(1) by auto
    from "2.IH"(2)[OF False _ k(2) this] k(1) obtain closed
      where "set (queue @ compiler_children se key) \<union> set (key # seen) \<subseteq> closed"
        "\<forall>x \<in> closed. se_called se w x \<and> set (compiler_children se x) \<subseteq> closed" by blast
    then show ?thesis by (intro exI[of _ closed]) auto
  qed
qed

lemma settled_walk_reach: "settled_walk se keys [] w \<Longrightarrow> reach_called se w keys"
proof -
  assume "settled_walk se keys [] w"
  then obtain closed where c: "set keys \<subseteq> closed" "\<forall>k \<in> closed. se_called se w k \<and> set (compiler_children se k) \<subseteq> closed"
    using settled_walk_sound[of se keys "[]" w] by auto
  have "j \<in> closed" if "(k, j) \<in> (child_rel se)\<^sup>*" "k \<in> closed" for k j
    using that by (induction rule: rtrancl_induct) (use c(2) in \<open>auto simp: child_rel_def\<close>)
  then show ?thesis using c by (auto simp: reach_called_def)
qed

section \<open>What is supplied by a set of dependencies\<close>

definition supplied_in :: "('w, 'z) supply_env_scheme \<Rightarrow> 'w \<Rightarrow> string set \<Rightarrow> string \<Rightarrow> bool" where
  "supplied_in se w R f \<longleftrightarrow> (\<exists>d \<in> R. f \<in> set (ds_files (supply_of se w d)))"

definition target_in :: "('w, 'z) supply_env_scheme \<Rightarrow> 'w \<Rightarrow> string set \<Rightarrow> string \<Rightarrow> bool" where
  "target_in se w R k \<longleftrightarrow> (\<exists>d \<in> R. k \<in> set (ds_targets (supply_of se w d)))"

definition unsupplied_by ::
    "('w, 'z) supply_env_scheme \<Rightarrow> (string \<times> requirement) list \<Rightarrow> string list \<Rightarrow> 'w \<Rightarrow> string set \<Rightarrow> string \<Rightarrow> bool" where
  "unsupplied_by se deps roots w R dep \<longleftrightarrow>
     (let req = requirement_at deps dep; (key, r) = dep_target se (se_pkg se) dep in
      rq_unconditional req \<or> \<not> target_in se w R key \<or>
      list_ex (\<lambda>e. required_edge_unsupplied se key r e (\<lambda>f. f \<notin> set roots \<and> supplied_in se w R f)) (rq_edges req))"

definition claimed_in :: "('w, 'z) supply_env_scheme \<Rightarrow> roles \<Rightarrow> 'w \<Rightarrow> string set \<Rightarrow> bool" where
  "claimed_in se demands w R \<longleftrightarrow>
     (\<forall>s. map_of demands s \<noteq> None \<longrightarrow> (\<exists>d \<in> R. claims_spec (ds_inputs (supply_of se w d)) demands s))"

lemma required_edge_mono:
  "(\<And>f. q f \<Longrightarrow> p f) \<Longrightarrow> required_edge_unsupplied se key r e p \<Longrightarrow> required_edge_unsupplied se key r e q"
  by (auto simp: required_edge_unsupplied_def split: if_splits)

lemma required_edge_cong:
  "p (e_from e) = q (e_from e) \<Longrightarrow> p (e_to e) = q (e_to e) \<Longrightarrow>
   required_edge_unsupplied se key r e p = required_edge_unsupplied se key r e q"
  by (simp add: required_edge_unsupplied_def)

lemma unsupplied_mono: "R' \<subseteq> R \<Longrightarrow> unsupplied_by se deps roots w R dep \<Longrightarrow> unsupplied_by se deps roots w R' dep"
proof -
  assume sub: "R' \<subseteq> R" and u: "unsupplied_by se deps roots w R dep"
  obtain key r where k: "dep_target se (se_pkg se) dep = (key, r)" by (cases "dep_target se (se_pkg se) dep")
  have "required_edge_unsupplied se key r e (\<lambda>f. f \<notin> set roots \<and> supplied_in se w R' f)"
    if "required_edge_unsupplied se key r e (\<lambda>f. f \<notin> set roots \<and> supplied_in se w R f)" for e
    by (rule required_edge_mono[OF _ that]) (use sub in \<open>auto simp: supplied_in_def\<close>)
  moreover have "target_in se w R key" if "target_in se w R' key" using that sub by (auto simp: target_in_def)
  ultimately show ?thesis using u by (auto simp: unsupplied_by_def k list_ex_iff Let_def)
qed

lemma requirement_at_mem: "distinct (map fst deps) \<Longrightarrow> (dep, req) \<in> set deps \<Longrightarrow> requirement_at deps dep = req"
  by (simp add: requirement_at_def)

lemma order_free_edge:
  assumes "order_free deps roots demands" "(dep, req) \<in> set deps" "e \<in> set (rq_edges req)" "f = e_from e \<or> f = e_to e"
  shows "map_of demands f = None \<or> f \<in> set roots"
  using assms by (force simp: order_free_def list_all_iff)

lemma reach_called_set: "set ks = set js \<Longrightarrow> reach_called se w ks = reach_called se w js"
  by (simp add: reach_called_def)

lemma exact_drop_settled:
  assumes "settles se" "order_free deps roots demands" "\<forall>d \<in> set rest. dep_called se w d" "distinct (map fst deps)"
    and "claimed_in se demands w (set rest) \<or> reach_called se w (List.map_filter (program_key se (se_pkg se)) rest)"
  shows "\<exists>walked'. exact_drop se deps roots demands rest walked w =
    ((\<forall>dep \<in> fst ` set deps. dep \<in> set rest \<or> \<not> unsupplied_by se deps roots w (set rest) dep), walked', w)"
proof -
  let ?ds = "sort_strings rest" and ?self = "se_label se (se_pkg se) ('':'' @ se_name se)"
  let ?calls = "List.map_filter (program_key se (se_pkg se)) ?ds"
  obtain req spl where d: "direct_pass se ?ds demands [] [] w = (req, spl, concat (map (\<lambda>d. ds_targets (supply_of se w d)) ?ds), w)"
    and req: "\<forall>s. map_of req s = (if \<exists>dep \<in> set ?ds. claims_spec (ds_inputs (supply_of se w dep)) demands s then None else map_of demands s)"
    and spl: "\<forall>f. map_of demands f = None \<longrightarrow> (map_of spl f = Some SourceRole \<longleftrightarrow> (\<exists>dep \<in> set ?ds. f \<in> set (ds_files (supply_of se w dep))))"
    using direct_pass_settled[OF assms(1), of ?ds w demands "[]" "[]"] assms(3) by auto
  obtain spl2 walked' w' where s: "scope_walk se ?calls [?self] req spl walked w = (spl2, walked', w')"
    and keep: "\<forall>f. map_of req f = None \<longrightarrow> map_of spl2 f = map_of spl f"
    using scope_walk_keeps[of se ?calls "[?self]" req spl walked w] by blast
  have w': "w' = w"
  proof (cases "claimed_in se demands w (set rest)")
    case True
    then have "map_of req s = None" for s using req by (auto simp: claimed_in_def)
    then have "req = []" by (rule map_of_nothing)
    then show ?thesis using s by (cases ?calls) (simp_all add: scope_walk.simps(2))
  next
    case False
    have "set ?calls = set (List.map_filter (program_key se (se_pkg se)) rest)" by (simp add: set_map_filter)
    note same = reach_called_set[OF this, of se w]
    have "reach_called se w ?calls" using assms(5) False unfolding same by blast
    then show ?thesis using scope_walk_still[OF assms(1), of w ?calls "[?self]" req spl walked] s by simp
  qed
  let ?supplies = "\<lambda>file. file \<notin> set roots \<and> map_of spl2 file = Some SourceRole"
  have e: "exact_drop se deps roots demands rest walked w =
      (list_all (\<lambda>(dep, rq). dep \<in> set rest \<or>
            (let (key, r) = dep_target se (se_pkg se) dep in
             \<not> rq_unconditional rq \<and> key \<in> set (concat (map (\<lambda>d. ds_targets (supply_of se w d)) ?ds)) \<and>
             \<not> list_ex (\<lambda>e. required_edge_unsupplied se key r e ?supplies) (rq_edges rq))) deps, walked', w)"
    unfolding exact_drop_def supplied_program_inputs_def Let_def d prod.case s w' ..
  have same: "(dep \<in> set rest \<or>
            (let (key, r) = dep_target se (se_pkg se) dep in
             \<not> rq_unconditional rq \<and> key \<in> set (concat (map (\<lambda>d. ds_targets (supply_of se w d)) ?ds)) \<and>
             \<not> list_ex (\<lambda>e. required_edge_unsupplied se key r e ?supplies) (rq_edges rq))) \<longleftrightarrow>
      dep \<in> set rest \<or> \<not> unsupplied_by se deps roots w (set rest) dep" if m: "(dep, rq) \<in> set deps" for dep rq
  proof -
    obtain key r where k: "dep_target se (se_pkg se) dep = (key, r)" by (cases "dep_target se (se_pkg se) dep")
    have at: "?supplies f = (f \<notin> set roots \<and> supplied_in se w (set rest) f)" if "e \<in> set (rq_edges rq)" "f = e_from e \<or> f = e_to e" for e f
    proof (cases "f \<in> set roots")
      case False
      then have "map_of demands f = None" using order_free_edge[OF assms(2) m that] by simp
      moreover from this have "map_of req f = None" using req by simp
      ultimately show ?thesis using keep spl by (simp add: supplied_in_def)
    qed simp
    have "required_edge_unsupplied se key r e ?supplies = required_edge_unsupplied se key r e (\<lambda>f. f \<notin> set roots \<and> supplied_in se w (set rest) f)"
      if "e \<in> set (rq_edges rq)" for e
      by (rule required_edge_cong) (use at[OF that] in simp_all)
    then show ?thesis
      by (simp add: unsupplied_by_def k requirement_at_mem[OF assms(4) m] target_in_def list_ex_iff)
  qed
  show ?thesis unfolding e list_all_iff using same by (intro exI[of _ walked']) (auto simp: split_beta)
qed

lemma exact_drop_same:
  assumes "settles se" "walked_ok se walked w" "walked_ok se walked2 w"
  shows "\<exists>dropped v1 v2 w'. exact_drop se deps roots demands rest walked w = (dropped, v1, w') \<and>
    exact_drop se deps roots demands rest walked2 w = (dropped, v2, w') \<and> walked_ok se v1 w' \<and> walked_ok se v2 w' \<and>
    (\<forall>j. se_called se w j \<longrightarrow> se_called se w' j)"
proof -
  let ?ds = "sort_strings rest" and ?self = "se_label se (se_pkg se) ('':'' @ se_name se)"
  let ?calls = "List.map_filter (program_key se (se_pkg se)) ?ds"
  obtain req spl ts w1 where d: "direct_pass se ?ds demands [] [] w = (req, spl, ts, w1)" by (cases "direct_pass se ?ds demands [] [] w")
  have mono: "se_called se w j \<Longrightarrow> se_called se w1 j" for j using direct_pass_mono[OF assms(1) d] .
  have "walked_ok se walked w1" "walked_ok se walked2 w1" using assms(2,3) mono by (simp_all add: walked_ok_def)
  from scope_walk_same[OF assms(1) this, of ?calls "[?self]" req spl]
  obtain v1 v2 spl2 w' where s: "scope_walk se ?calls [?self] req spl walked w1 = (spl2, v1, w')"
    "scope_walk se ?calls [?self] req spl walked2 w1 = (spl2, v2, w')" "walked_ok se v1 w'" "walked_ok se v2 w'"
    "\<forall>j. se_called se w1 j \<longrightarrow> se_called se w' j" by blast
  show ?thesis unfolding exact_drop_def supplied_program_inputs_def Let_def d prod.case s(1,2) using s(3-5) mono by blast
qed

end
