(* ===== verification/ResolveEdges.thy ===== *)
theory ResolveEdges imports EdgeDep Minimize begin

text \<open>
  The dependencies of a rule from the compiler listing: the walk of \<open>resolveEdges\<close> in
  \<open>gazelle/resolve.go\<close> over the edges of a program.  An edge adds the dependency its file needs; a file
  the rule takes as its own source brings its edges to the queue.  The walk over the modules of a test
  config, which pools node_modules and Workers configs, is not in the model.
\<close>

section \<open>The state of the walk\<close>

record candidate =
  cd_from :: string
  cd_path :: string
  cd_metadata :: bool
  cd_block :: int
  cd_resolved :: string
  cd_skipped :: string

record 'c walk_env = "'c export_env" +
  wv_owners :: "(string \<Rightarrow> emission_mode) option"
  wv_ask :: label
  wv_kind :: string
  wv_edges :: "edge list"  \<comment> \<open>the edges of the program\<close>
  wv_typeEdges :: "edge list"
  wv_candidates :: "candidate list"

record walk_state =
  wk_deps :: "(string \<times> requirement) list"
  wk_srcs :: "(string \<times> string \<times> nat) list"
  wk_reported :: "(string \<times> edge_report) list"
  wk_scopes :: "string list"  \<comment> \<open>\<open>runtimeScopes\<close>\<close>

definition dep_text :: "('c, 'z) walk_env_scheme \<Rightarrow> string \<Rightarrow> string" where
  "dep_text we dep =
     (case parse_label (in_api we) dep of
        None \<Rightarrow> dep
      | Some l \<Rightarrow> la_string (in_api we) (relative_label (in_api we) l (in_repo we) (lb_pkg (wv_ask we))))"

definition required_of :: "(string \<times> requirement) list \<Rightarrow> string \<Rightarrow> requirement" where
  "required_of deps dep = (case map_of deps dep of None \<Rightarrow> \<lparr>rq_edges = [], rq_unconditional = False\<rparr> | Some rq \<Rightarrow> rq)"

definition add_dep :: "('c, 'z) walk_env_scheme \<Rightarrow> string \<Rightarrow> bool \<Rightarrow> edge list \<Rightarrow> walk_state \<Rightarrow> walk_state" where
  "add_dep we dep unconditional es ws =
     (if dep = [] then ws
      else let d = dep_text we dep; rq = required_of (wk_deps ws) d in
        ws\<lparr>wk_deps := AList.update d
             \<lparr>rq_edges = rq_edges rq @ es,
              rq_unconditional = (rq_unconditional rq \<or> unconditional \<or> list_ex (\<lambda>e. e \<in> set (wv_typeEdges we)) es)\<rparr>
             (wk_deps ws)\<rparr>)"

definition scope_input_role :: "string \<Rightarrow> nat" where
  "scope_input_role f = (if is_declaration_file f then 2 else 1)"

definition retain :: "retained_input \<Rightarrow> walk_state \<Rightarrow> walk_state" where
  "retain inp ws = ws\<lparr>wk_srcs := retain_input inp (wk_srcs ws)\<rparr>"

definition retain_scope :: "('c, 'z) walk_env_scheme \<Rightarrow> string option \<Rightarrow> string \<Rightarrow> walk_state \<Rightarrow> walk_state query" where
  "retain_scope we scope src ws =
     (case scope of
        None \<Rightarrow> ret ws
      | Some sc \<Rightarrow>
          bindq (source_input we (wv_ask we) (scope_input_role src) sc) (\<lambda>inp.
            ret ((retain inp ws)\<lparr>wk_scopes :=
              (if scope_input_role src = 1 \<and> sc \<notin> set (wk_scopes ws) then wk_scopes ws @ [sc] else wk_scopes ws)\<rparr>)))"

definition report :: "string \<Rightarrow> edge_report option \<Rightarrow> walk_state \<Rightarrow> walk_state" where
  "report f why ws =
     (case why of
        None \<Rightarrow> ws
      | Some r \<Rightarrow> if map_of (wk_reported ws) f = None then ws\<lparr>wk_reported := wk_reported ws @ [(f, r)]\<rparr> else ws)"

section \<open>One edge\<close>

text \<open>The member of a linked package must not import a declaration from outside it.\<close>

definition linked_member :: "('c, 'z) walk_env_scheme \<Rightarrow> bool" where
  "linked_member we \<longleftrightarrow>
     (case in_lock we of
        None \<Rightarrow> False
      | Some l \<Rightarrow> wv_kind we = ''ts_compile'' \<and> lb_name (wv_ask we) = packageName (lb_pkg (wv_ask we)) \<and>
          list_ex (\<lambda>(dir, imp). list_ex (\<lambda>(name, linked). linked = lb_pkg (wv_ask we)) (im_links imp)) (nl_importers l))"

definition source_member :: "('c, 'z) walk_env_scheme \<Rightarrow> bool" where
  "source_member we \<longleftrightarrow> linked_member we \<and>
     (case wv_owners we of
        None \<Rightarrow> False
      | Some f \<Rightarrow> f (la_string (in_api we) (wv_ask we)) \<in> {SourceEmission, UnknownEmission})"

definition foreign_declaration :: "('c, 'z) walk_env_scheme \<Rightarrow> edge \<Rightarrow> bool" where
  "foreign_declaration we e \<longleftrightarrow>
     linked_member we \<and> (source_member we \<or> is_declaration_file (e_from e)) \<and>
     has_prefix (e_from e) (lb_pkg (wv_ask we) @ ''/'') \<and> has_prefix (e_spec e) ''.'' \<and>
     firstParty (e_to e) \<and> is_declaration_file (e_to e) \<and> \<not> has_prefix (e_to e) (lb_pkg (wv_ask we) @ ''/'')"

definition runtime_dep :: "('c, 'z) walk_env_scheme \<Rightarrow> edge \<Rightarrow> string query" where
  "runtime_dep we e =
     (case in_lock we of
        None \<Rightarrow> ret []
      | Some l \<Rightarrow>
          bindq (nearest_manifest we (parent_dir (e_from e))) (\<lambda>m.
            bindq (generated_program_file we (e_to e) True) (\<lambda>generated.
              known (case runtime_package l e m generated of
                None \<Rightarrow> Inl Spins
              | Some (name, member) \<Rightarrow>
                  if name = [] then Inr []
                  else case (if member then member_label (rel_text we) l name (parent_dir (e_from e)) (lb_pkg (wv_ask we))
                        else npm_label l name (parent_dir (e_from e))) of
                    None \<Rightarrow> Inl Spins
                  | Some lbl \<Rightarrow> Inr lbl))))"

definition resolves :: "edge \<Rightarrow> bool" where
  "resolves e \<longleftrightarrow> firstParty (e_from e) \<or> e_kind e = TypeReference \<and> \<not> firstParty (e_to e)"

definition visit_edge :: "('c, 'z) walk_env_scheme \<Rightarrow> edge \<Rightarrow> walk_state \<Rightarrow> (walk_state \<times> bool) query" where
  \<comment> \<open>the flag: the file becomes a source\<close>
  "visit_edge we e ws =
     (if foreign_declaration we e then fault (ForeignDeclaration (e_to e) (e_from e))
      else if \<not> resolves e then ret (ws, False)
      else bindq (edge_dep we (wv_owners we) (wv_ask we) True False e) (\<lambda>an.
        bindq (runtime_dep we e) (\<lambda>runtime.
          ret (add_dep we runtime False [e] (add_dep we (an_dep an) False [e]
                (report (e_to e) (an_report an) (fold retain (an_retained an) ws))), an_source an))))"

section \<open>Reaching a file\<close>

fun admit :: "('c, 'z) walk_env_scheme \<Rightarrow> int list \<Rightarrow> candidate list \<Rightarrow> unit query" where
  \<comment> \<open>\<open>admitCandidates\<close>: the lookups of the compiler must not have met generated metadata\<close>
  "admit we said [] = ret ()"
| "admit we said (c # cs) =
     (if cd_metadata c
      then bindq (metadata_identity we (cd_path c)) (\<lambda>identity.
        if identity = Generated then fault (GeneratedDiscovery (cd_path c))
        else if identity = UnknownInput then incomplete_fault (sl_producers we) (cd_path c)
        else admit we said cs)
      else if cd_skipped c = [] \<or> cd_block c \<in> set said then admit we said cs
      else bindq (walking (output_producer (sl_producers we) (cd_path c))) (\<lambda>producer.
        admit we (if cd_resolved c = [] \<or> producer \<noteq> None then cd_block c # said else said) cs))"

definition candidates_from :: "('c, 'z) walk_env_scheme \<Rightarrow> string \<Rightarrow> candidate list" where
  "candidates_from we f = filter (\<lambda>c. cd_from c = f) (wv_candidates we)"

definition edges_from :: "('c, 'z) walk_env_scheme \<Rightarrow> string \<Rightarrow> edge list" where
  "edges_from we f = filter (\<lambda>e. e_from e = f) (wv_edges we)"

text \<open>The scope of the JavaScript beside a declaration, when the rule has it as a source.\<close>

definition retained_twin :: "('c, 'z) walk_env_scheme \<Rightarrow> edge \<Rightarrow> walk_state \<Rightarrow> label \<times> string \<Rightarrow> walk_state query" where
  "retained_twin we e ws own =
     (if (case map_of (wk_srcs ws) (snd own) of None \<Rightarrow> True | Some inp \<Rightarrow> fst inp = []) then ret ws
      else bindq (required_input_scope we (javascript_twin (e_to e)) (e_from e))
        (\<lambda>scope. retain_scope we scope (javascript_twin (e_to e)) ws))"

definition twin_scope :: "('c, 'z) walk_env_scheme \<Rightarrow> edge \<Rightarrow> walk_state \<Rightarrow> walk_state query" where
  "twin_scope we e ws =
     (if javascript_twin (e_to e) = [] then ret ws
      else bindq (source_input_label we (wv_ask we) (javascript_twin (e_to e))) (retained_twin we e ws))"

text \<open>A file reached for the first time: the scopes of a source; the flag says whether its edges follow.\<close>

definition arrive :: "('c, 'z) walk_env_scheme \<Rightarrow> edge \<Rightarrow> bool \<Rightarrow> walk_state \<Rightarrow> (walk_state \<times> bool) query" where
  "arrive we e src ws =
     (if \<not> src then ret (ws, True)
      else bindq (required_input_scope we (e_to e) (e_from e)) (\<lambda>scope.
        bindq (retain_scope we scope (e_to e) ws) (\<lambda>ws1.
          bindq (twin_scope we e ws1) (\<lambda>ws2.
            bindq (generated_program_file we (e_to e) True) (\<lambda>generated.
              if generated then ret (ws2, False)
              else bindq (admit we [] (candidates_from we (e_to e))) (\<lambda>_. ret (ws2, True)))))))"

section \<open>The walk\<close>

function walk_edges :: "('c, 'z) walk_env_scheme \<Rightarrow> edge list \<Rightarrow> string list \<Rightarrow> walk_state \<Rightarrow> walk_state query" where
  "walk_edges we [] reached ws st = (Inr ws, st)"
| "walk_edges we (e # q) reached ws st =
     (case visit_edge we e ws st of
        (Inl x, st1) \<Rightarrow> (Inl x, st1)
      | (Inr (ws1, src), st1) \<Rightarrow>
          if (src \<or> \<not> firstParty (e_to e)) \<and> e_to e \<notin> set reached then
            (case arrive we e src ws1 st1 of
               (Inl x, st2) \<Rightarrow> (Inl x, st2)
             | (Inr (ws2, follow), st2) \<Rightarrow>
                 walk_edges we (q @ (if follow then edges_from we (e_to e) else [])) (e_to e # reached) ws2 st2)
          else walk_edges we q reached ws1 st1)"
  by pat_completeness auto
termination
proof (relation "measure (\<lambda>(we, q, reached, ws, st). length q + length (filter (\<lambda>x. e_from x \<notin> set reached) (wv_edges we)))", goal_cases)
  case (2 we e q reached ws st a b x aa ba ab bb xa)
  then have new: "e_to e \<notin> set reached" by simp
  have "length (filter (\<lambda>x. e_from x \<notin> set reached) es) =
      length (filter (\<lambda>x. e_from x = e_to e) es) + length (filter (\<lambda>x. e_from x \<notin> set (e_to e # reached)) es)" for es
    using new by (induction es) auto
  from this[of "wv_edges we"] show ?case by (simp add: edges_from_def)
qed auto

declare walk_edges.simps(2) [simp del]

section \<open>The edges the walk owes\<close>

definition edge_needs :: "('c, 'z) walk_env_scheme \<Rightarrow> stored \<Rightarrow> edge \<Rightarrow> string set" where
  "edge_needs we st e =
     {d. resolves e \<and>
        ((\<exists>an. gives (edge_dep we (wv_owners we) (wv_ask we) True False e) st an \<and> an_dep an \<noteq> [] \<and> d = dep_text we (an_dep an)) \<or>
         (\<exists>r. gives (runtime_dep we e) st r \<and> r \<noteq> [] \<and> d = dep_text we r))}"

definition becomes_source :: "('c, 'z) walk_env_scheme \<Rightarrow> stored \<Rightarrow> edge \<Rightarrow> bool" where
  "becomes_source we st e \<longleftrightarrow>
     resolves e \<and> (\<exists>an. gives (edge_dep we (wv_owners we) (wv_ask we) True False e) st an \<and> an_source an)"

definition reaches :: "('c, 'z) walk_env_scheme \<Rightarrow> stored \<Rightarrow> edge \<Rightarrow> bool" where
  "reaches we st e \<longleftrightarrow> becomes_source we st e \<or> \<not> firstParty (e_to e)"

definition file_follows :: "('c, 'z) walk_env_scheme \<Rightarrow> stored \<Rightarrow> string \<Rightarrow> bool" where
  "file_follows we st f \<longleftrightarrow> (firstParty f \<longrightarrow> gives (generated_program_file we f True) st False)"

text \<open>The reference: the first edges, and the edges out of every file that becomes a source and is not
  generated, or that lies in an npm package.\<close>

inductive due :: "('c, 'z) walk_env_scheme \<Rightarrow> stored \<Rightarrow> edge list \<Rightarrow> edge \<Rightarrow> bool"
  for we :: "('c, 'z) walk_env_scheme" and st :: stored and init :: "edge list" where
  start: "e \<in> set init \<Longrightarrow> due we st init e"
| follow: "due we st init e \<Longrightarrow> reaches we st e \<Longrightarrow> file_follows we st (e_to e) \<Longrightarrow> x \<in> set (edges_from we (e_to e)) \<Longrightarrow> due we st init x"

definition wants :: "walk_state \<Rightarrow> string \<Rightarrow> edge \<Rightarrow> bool" where
  "wants ws d e \<longleftrightarrow> e \<in> set (rq_edges (required_of (wk_deps ws) d))"

definition recorded :: "('c, 'z) walk_env_scheme \<Rightarrow> stored \<Rightarrow> walk_state \<Rightarrow> edge \<Rightarrow> bool" where
  \<comment> \<open>the sources and the report of an edge are in the state\<close>
  "recorded we st ws e \<longleftrightarrow>
     (\<forall>an. resolves e \<longrightarrow> gives (edge_dep we (wv_owners we) (wv_ask we) True False e) st an \<longrightarrow>
        fst ` set (an_retained an) \<subseteq> dom (map_of (wk_srcs ws)) \<and>
        (an_report an \<noteq> None \<longrightarrow> e_to e \<in> dom (map_of (wk_reported ws))))"

definition grows :: "walk_state \<Rightarrow> walk_state \<Rightarrow> bool" where
  "grows ws ws' \<longleftrightarrow> dom (map_of (wk_srcs ws)) \<subseteq> dom (map_of (wk_srcs ws')) \<and> dom (map_of (wk_reported ws)) \<subseteq> dom (map_of (wk_reported ws'))"

lemma grows_refl [simp]: "grows ws ws" and grows_trans: "grows a b \<Longrightarrow> grows b c \<Longrightarrow> grows a c"
  unfolding grows_def by (simp, meson subset_trans)

lemma recorded_grows: "recorded we st ws e \<Longrightarrow> grows ws ws' \<Longrightarrow> recorded we st ws' e"
  unfolding recorded_def grows_def by (meson subset_iff)

section \<open>What one edge changes\<close>

lemma wants_add_dep:
  "wants (add_dep we dep u es ws) d e \<longleftrightarrow> wants ws d e \<or> dep \<noteq> [] \<and> d = dep_text we dep \<and> e \<in> set es"
  by (auto simp: wants_def add_dep_def Let_def required_of_def update_conv' split: option.split)

lemma grows_add_dep [simp]: "grows ws (add_dep we dep u es ws') = grows ws ws'" "wk_srcs (add_dep we dep u es ws') = wk_srcs ws'"
    "wk_reported (add_dep we dep u es ws') = wk_reported ws'"
  by (auto simp: grows_def add_dep_def Let_def)

lemma retain_dom: "dom (map_of (wk_srcs (retain inp ws))) = insert (fst inp) (dom (map_of (wk_srcs ws)))"
proof -
  obtain i l r where p: "inp = (i, l, r)" by (cases inp)
  show ?thesis
    by (cases "map_of (wk_srcs ws) i") (auto simp: retain_def retain_input_def p update_conv' split: prod.splits)
qed

lemma retain_others [simp]: "wk_deps (retain inp ws) = wk_deps ws" "wk_reported (retain inp ws) = wk_reported ws"
  by (simp_all add: retain_def)

lemma retain_all:
  "dom (map_of (wk_srcs (fold retain inps ws))) = fst ` set inps \<union> dom (map_of (wk_srcs ws)) \<and>
   wk_deps (fold retain inps ws) = wk_deps ws \<and> wk_reported (fold retain inps ws) = wk_reported ws"
  by (induction inps arbitrary: ws) (auto simp: retain_dom)

lemma report_others [simp]: "wk_deps (report f why ws) = wk_deps ws" "wk_srcs (report f why ws) = wk_srcs ws"
  by (simp_all add: report_def split: option.split)

lemma report_dom: "dom (map_of (wk_reported (report f why ws))) = (if why = None then {} else {f}) \<union> dom (map_of (wk_reported ws))"
  by (auto simp: report_def map_add_Some_iff split: option.split)

lemma settled_scope_kept [settles]: "settled (sl_producers we) (retain_scope we scope src ws)"
  unfolding retain_scope_def by (intro settles)

lemma settled_runtime [settles]: "settled (sl_producers we) (runtime_dep we e)"
  unfolding runtime_dep_def by (intro settles)

lemma settled_visit [settles]: "settled (sl_producers we) (visit_edge we e ws)"
  unfolding visit_edge_def by (intro settles)

lemma settled_admit [settles]: "settled (sl_producers we) (admit we said cs)"
  by (induction cs arbitrary: said) (simp_all add: settles)

lemma settled_twin [settles]: "settled (sl_producers we) (twin_scope we e ws)"
  unfolding twin_scope_def retained_twin_def by (intro settles)

lemma settled_arrive [settles]: "settled (sl_producers we) (arrive we e src ws)"
  unfolding arrive_def by (intro settles)

lemma visit_changes:
  assumes "all_stored (sl_producers we) st" "gives (visit_edge we e ws) st (ws', src)"
  shows "(\<forall>d x. wants ws' d x \<longleftrightarrow> wants ws d x \<or> x = e \<and> d \<in> edge_needs we st e) \<and> src = becomes_source we st e \<and>
    grows ws ws' \<and> recorded we st ws' e"
proof (cases "resolves e")
  case False
  then show ?thesis using assms(2)
    by (auto simp: visit_edge_def edge_needs_def becomes_source_def recorded_def split: if_splits)
next
  case True
  define k where "k = (\<lambda>(an :: edge_answer) runtime. (ret (add_dep we runtime False [e] (add_dep we (an_dep an) False [e]
                (report (e_to e) (an_report an) (fold retain (an_retained an) ws))), an_source an) :: (walk_state \<times> bool) query))"
  have "gives (bindq (edge_dep we (wv_owners we) (wv_ask we) True False e) (\<lambda>an. bindq (runtime_dep we e) (k an))) st (ws', src)"
    using assms(2) True by (simp add: visit_edge_def k_def split: if_splits)
  then obtain an where an: "gives (edge_dep we (wv_owners we) (wv_ask we) True False e) st an"
      and k1: "gives (bindq (runtime_dep we e) (k an)) st (ws', src)"
    by (rule gives_bindqE[OF _ settled_edge_dep assms(1)])
  from k1 obtain r where r: "gives (runtime_dep we e) st r" and k2: "gives (k an r) st (ws', src)"
    by (rule gives_bindqE[OF _ settled_runtime assms(1)])
  have w: "ws' = add_dep we r False [e] (add_dep we (an_dep an) False [e]
                (report (e_to e) (an_report an) (fold retain (an_retained an) ws)))" "src = an_source an"
    using k2 by (simp_all add: k_def)
  have only: "an' = an" if "gives (edge_dep we (wv_owners we) (wv_ask we) True False e) st an'" for an'
    using gives_unique[OF that an] .
  have only_r: "r' = r" if "gives (runtime_dep we e) st r'" for r' using gives_unique[OF that r] .
  let ?b = "report (e_to e) (an_report an) (fold retain (an_retained an) ws)"
  have b: "wants ?b d x \<longleftrightarrow> wants ws d x" for d x by (simp add: wants_def retain_all)
  have n: "d \<in> edge_needs we st e \<longleftrightarrow> an_dep an \<noteq> [] \<and> d = dep_text we (an_dep an) \<or> r \<noteq> [] \<and> d = dep_text we r" for d
  proof
    assume "d \<in> edge_needs we st e"
    then show "an_dep an \<noteq> [] \<and> d = dep_text we (an_dep an) \<or> r \<noteq> [] \<and> d = dep_text we r"
      unfolding edge_needs_def mem_Collect_eq using only only_r by metis
  next
    assume "an_dep an \<noteq> [] \<and> d = dep_text we (an_dep an) \<or> r \<noteq> [] \<and> d = dep_text we r"
    then show "d \<in> edge_needs we st e" unfolding edge_needs_def mem_Collect_eq using True an r by blast
  qed
  have "src = becomes_source we st e" unfolding becomes_source_def w(2) using True an only by metis
  moreover have "grows ws ws'" by (auto simp: w grows_def retain_all report_dom)
  moreover have "recorded we st ws' e"
    unfolding recorded_def
  proof (intro allI impI)
    fix an' assume "gives (edge_dep we (wv_owners we) (wv_ask we) True False e) st an'"
    then have "an' = an" by (rule only)
    then show "fst ` set (an_retained an') \<subseteq> dom (map_of (wk_srcs ws')) \<and>
        (an_report an' \<noteq> None \<longrightarrow> e_to e \<in> dom (map_of (wk_reported ws')))"
      by (simp add: w retain_all report_dom)
  qed
  ultimately show ?thesis by (auto simp: w(1) wants_add_dep b n)
qed

lemma retain_scope_changes:
  assumes "all_stored (sl_producers we) st" "gives (retain_scope we scope src ws) st ws'"
  shows "wk_deps ws' = wk_deps ws \<and> grows ws ws'"
proof (cases scope)
  case None
  then show ?thesis using assms(2) by (simp add: retain_scope_def)
next
  case (Some sc)
  from assms(2) obtain inp where "ws' = (retain inp ws)\<lparr>wk_scopes :=
      (if scope_input_role src = 1 \<and> sc \<notin> set (wk_scopes ws) then wk_scopes ws @ [sc] else wk_scopes ws)\<rparr>"
    unfolding retain_scope_def Some option.case gives_bindq[OF settled_source_input assms(1)] gives_ret by blast
  then show ?thesis by (auto simp: grows_def retain_dom)
qed

lemma twin_scope_changes:
  assumes "all_stored (sl_producers we) st" "gives (twin_scope we e ws) st ws'"
  shows "wk_deps ws' = wk_deps ws \<and> grows ws ws'"
proof (cases "javascript_twin (e_to e) = []")
  case True
  then show ?thesis using assms(2) by (simp add: twin_scope_def)
next
  case False
  have "gives (bindq (source_input_label we (wv_ask we) (javascript_twin (e_to e))) (retained_twin we e ws)) st ws'"
    using assms(2) False by (simp add: twin_scope_def)
  then obtain x where "gives (retained_twin we e ws x) st ws'" by (rule gives_bindqE[OF _ settled_source_label assms(1)])
  then consider "ws' = ws" | "gives (bindq (required_input_scope we (javascript_twin (e_to e)) (e_from e))
              (\<lambda>scope. retain_scope we scope (javascript_twin (e_to e)) ws)) st ws'"
    by (auto simp: retained_twin_def split: if_splits)
  then show ?thesis
  proof cases
    case 2
    then obtain scope where "gives (retain_scope we scope (javascript_twin (e_to e)) ws) st ws'"
      by (rule gives_bindqE[OF _ settled_required_scope assms(1)])
    from retain_scope_changes[OF assms(1) this] show ?thesis .
  qed simp
qed

lemma source_is_first_party:
  assumes "all_stored (sl_producers we) st" "becomes_source we st e"
  shows "firstParty (e_to e)"
proof (rule ccontr)
  assume n: "\<not> firstParty (e_to e)"
  obtain an where an: "gives (npm_edge we (wv_ask we) e) st an" "an_source an"
    using assms(2) n by (auto simp: becomes_source_def edge_dep_def)
  define k where "k = (\<lambda>l m. known (case edge_label (rel_text we) l e (lb_pkg (wv_ask we)) m of None \<Rightarrow> Inl Spins | Some lbl \<Rightarrow> Inr (answer lbl False)))"
  have "an_source an = False"
  proof (cases "npmPackageName (e_to e) = [] \<or> in_lock we = None")
    case True
    then show ?thesis using an(1) by (auto simp: npm_edge_def answer_def split: if_splits)
  next
    case False
    then obtain l where "gives (bindq (nearest_manifest we (parent_dir (e_from e))) (k l)) st an"
      using an(1) by (auto simp: npm_edge_def k_def split: if_splits)
    then obtain m where "gives (k l m) st an" by (rule gives_bindqE[OF _ settled_manifest assms(1)])
    then show ?thesis by (auto simp: k_def gives_known answer_def split: option.splits)
  qed
  then show False using an(2) by simp
qed

lemma arrive_changes:
  assumes "all_stored (sl_producers we) st" "gives (arrive we e src ws) st (ws', go)"
  shows "wk_deps ws' = wk_deps ws \<and> grows ws ws' \<and> (src \<longrightarrow> gives (generated_program_file we (e_to e) True) st (\<not> go)) \<and> (\<not> src \<longrightarrow> go)"
proof (cases src)
  case False
  then show ?thesis using assms(2) by (simp add: arrive_def)
next
  case True
  define k where "k = (\<lambda>(ws2 :: walk_state) generated. if generated then ret (ws2, False) else bindq (admit we [] (candidates_from we (e_to e))) (\<lambda>_. ret (ws2, True)))"
  have "gives (bindq (required_input_scope we (e_to e) (e_from e)) (\<lambda>scope.
        bindq (retain_scope we scope (e_to e) ws) (\<lambda>ws1.
          bindq (twin_scope we e ws1) (\<lambda>ws2. bindq (generated_program_file we (e_to e) True) (k ws2))))) st (ws', go)"
    using assms(2) True by (simp add: arrive_def k_def)
  then obtain scope where "gives (bindq (retain_scope we scope (e_to e) ws) (\<lambda>ws1.
          bindq (twin_scope we e ws1) (\<lambda>ws2. bindq (generated_program_file we (e_to e) True) (k ws2)))) st (ws', go)"
    by (rule gives_bindqE[OF _ settled_required_scope assms(1)])
  then obtain ws1 where s1: "gives (retain_scope we scope (e_to e) ws) st ws1"
      and k1: "gives (bindq (twin_scope we e ws1) (\<lambda>ws2. bindq (generated_program_file we (e_to e) True) (k ws2))) st (ws', go)"
    by (rule gives_bindqE[OF _ settled_scope_kept assms(1)])
  from k1 obtain ws2 where s2: "gives (twin_scope we e ws1) st ws2"
      and k2: "gives (bindq (generated_program_file we (e_to e) True) (k ws2)) st (ws', go)"
    by (rule gives_bindqE[OF _ settled_twin assms(1)])
  from k2 obtain g where g: "gives (generated_program_file we (e_to e) True) st g" and k: "gives (k ws2 g) st (ws', go)"
    by (rule gives_bindqE[OF _ settled_generated assms(1)])
  have "ws' = ws2 \<and> go = (\<not> g)"
  proof (cases g)
    case False
    then have "gives (bindq (admit we [] (candidates_from we (e_to e))) (\<lambda>_. ret (ws2, True))) st (ws', go)" using k by (simp add: k_def)
    then show ?thesis using False by (elim gives_bindqE[OF _ settled_admit assms(1)]) simp
  qed (use k in \<open>simp add: k_def\<close>)
  then show ?thesis using retain_scope_changes[OF assms(1) s1] twin_scope_changes[OF assms(1) s2] g True grows_trans by auto
qed

section \<open>The walk is the closure\<close>

text \<open>What holds when the edges of \<open>P\<close> have been visited and \<open>q\<close> is the queue.\<close>

definition walk_inv ::
    "('c, 'z) walk_env_scheme \<Rightarrow> stored \<Rightarrow> edge list \<Rightarrow> walk_state \<Rightarrow> edge set \<Rightarrow> edge list \<Rightarrow> string list \<Rightarrow> walk_state \<Rightarrow> bool" where
  "walk_inv we st init ws0 P q reached ws \<longleftrightarrow>
     (\<forall>e \<in> P \<union> set q. due we st init e) \<and> set init \<subseteq> P \<union> set q \<and>
     (\<forall>f \<in> set reached. file_follows we st f \<longrightarrow> set (edges_from we f) \<subseteq> P \<union> set q) \<and>
     (\<forall>e \<in> P. reaches we st e \<longrightarrow> e_to e \<in> set reached) \<and>
     (\<forall>d e. wants ws d e \<longleftrightarrow> wants ws0 d e \<or> e \<in> P \<and> d \<in> edge_needs we st e) \<and>
     (\<forall>e \<in> P. recorded we st ws e)"

lemma walk_inv_end:
  assumes "walk_inv we st init ws0 P [] reached ws"
  shows "(\<forall>d e. wants ws d e \<longleftrightarrow> wants ws0 d e \<or> due we st init e \<and> d \<in> edge_needs we st e) \<and> (\<forall>e. due we st init e \<longrightarrow> recorded we st ws e)"
proof -
  have "e \<in> P" if "due we st init e" for e
    using that assms by (induction rule: due.induct) (auto simp: walk_inv_def)
  then show ?thesis using assms unfolding walk_inv_def by blast
qed

lemma walk_inv_seen:
  assumes inv: "walk_inv we st init ws0 P (e # q) reached ws" and st: "all_stored (sl_producers we) st"
    and v: "gives (visit_edge we e ws) st (ws1, src)" and seen: "\<not> ((src \<or> \<not> firstParty (e_to e)) \<and> e_to e \<notin> set reached)"
  shows "walk_inv we st init ws0 (insert e P) q reached ws1"
proof -
  note c = visit_changes[OF st v]
  have r: "reaches we st e \<Longrightarrow> e_to e \<in> set reached" using seen c by (auto simp: reaches_def)
  have "\<forall>x \<in> P. recorded we st ws1 x" using inv c recorded_grows unfolding walk_inv_def by blast
  then show ?thesis using inv c r unfolding walk_inv_def by auto
qed

lemma walk_inv_new:
  assumes inv: "walk_inv we st init ws0 P (e # q) reached ws" and st: "all_stored (sl_producers we) st"
    and v: "gives (visit_edge we e ws) st (ws1, src)" and new: "src \<or> \<not> firstParty (e_to e)"
    and a: "gives (arrive we e src ws1) st (ws2, go)"
  shows "walk_inv we st init ws0 (insert e P) (q @ (if go then edges_from we (e_to e) else [])) (e_to e # reached) ws2"
proof -
  note c = visit_changes[OF st v] and d = arrive_changes[OF st a]
  have r: "reaches we st e" using new c by (auto simp: reaches_def)
  have f: "go = file_follows we st (e_to e)"
  proof (cases src)
    case True
    then have "firstParty (e_to e)" using c source_is_first_party[OF st] by blast
    then show ?thesis using d True gives_unique unfolding file_follows_def by (metis (full_types))
  qed (use new d in \<open>simp add: file_follows_def\<close>)
  have w: "wants ws2 = wants ws1" using d by (intro ext) (simp add: wants_def)
  have "recorded we st ws2 e" using c d recorded_grows[of we st ws1 e ws2] by simp
  moreover have "recorded we st ws2 x" if "x \<in> P" for x
    using inv that c d recorded_grows[of we st ws x ws2] grows_trans[of ws ws1 ws2] unfolding walk_inv_def by simp
  ultimately have "\<forall>x \<in> insert e P. recorded we st ws2 x" by simp
  moreover have "due we st init x" if "go" "x \<in> set (edges_from we (e_to e))" for x
    using inv that r f due.follow[of we st init e x] unfolding walk_inv_def by simp
  moreover have "\<forall>d x. wants ws2 d x \<longleftrightarrow> wants ws0 d x \<or> x \<in> insert e P \<and> d \<in> edge_needs we st x"
    using inv c unfolding walk_inv_def w by simp blast
  moreover have "\<forall>x \<in> insert e P. reaches we st x \<longrightarrow> e_to x \<in> set (e_to e # reached)" using inv unfolding walk_inv_def by auto
  moreover have "\<forall>x \<in> set (e_to e # reached). file_follows we st x \<longrightarrow>
      set (edges_from we x) \<subseteq> insert e P \<union> set (q @ (if go then edges_from we (e_to e) else []))"
    using inv f unfolding walk_inv_def by auto
  moreover have "\<forall>x \<in> insert e P \<union> set q. due we st init x" "set init \<subseteq> insert e P \<union> set q"
    using inv unfolding walk_inv_def by auto
  ultimately show ?thesis unfolding walk_inv_def by (cases go) auto
qed

lemma walk_edges_inv:
  assumes "all_stored (sl_producers we) st" "walk_inv we st init ws0 P q reached ws" "walk_edges we q reached ws st = (Inr ws', st')"
  shows "st' = st \<and> (\<exists>P reached'. walk_inv we st init ws0 P [] reached' ws')"
  using assms
proof (induction we q reached ws st arbitrary: P rule: walk_edges.induct)
  case (2 we e q reached ws st)
  obtain x where x: "visit_edge we e ws st = (x, st)" using settledD[OF settled_visit "2.prems"(1)] by metis
  then obtain ws1 src where v: "visit_edge we e ws st = (Inr (ws1, src), st)"
    using "2.prems"(3) by (subst (asm) walk_edges.simps) (auto split: sum.splits)
  then have gv: "gives (visit_edge we e ws) st (ws1, src)" by (simp add: gives_def)
  show ?case
  proof (cases "(src \<or> \<not> firstParty (e_to e)) \<and> e_to e \<notin> set reached")
    case False
    then have "walk_edges we q reached ws1 st = (Inr ws', st')"
      using "2.prems"(3) by (subst (asm) walk_edges.simps) (simp only: v prod.case sum.case if_not_P[OF False] if_False)
    then show ?thesis using "2.IH"(2)[OF v[symmetric] refl refl False "2.prems"(1) walk_inv_seen[OF "2.prems"(2,1) gv False]] by simp
  next
    case True
    obtain y where y: "arrive we e src ws1 st = (y, st)" using settledD[OF settled_arrive "2.prems"(1)] by metis
    then obtain ws2 go where a: "arrive we e src ws1 st = (Inr (ws2, go), st)"
      using "2.prems"(3) True by (subst (asm) walk_edges.simps) (auto simp: v split: sum.splits)
    then have ga: "gives (arrive we e src ws1) st (ws2, go)" by (simp add: gives_def)
    have "walk_edges we (q @ (if go then edges_from we (e_to e) else [])) (e_to e # reached) ws2 st = (Inr ws', st')"
      using "2.prems"(3) by (subst (asm) walk_edges.simps) (simp only: v a prod.case sum.case if_P[OF True] if_True)
    then show ?thesis
      using "2.IH"(1)[OF v[symmetric] refl refl True a[symmetric] refl refl "2.prems"(1) walk_inv_new[OF "2.prems"(2,1) gv _ ga]] True by simp
  qed
qed auto

text \<open>C3.  The walk adds the dependencies of exactly the edges it owes: the first ones, and those out of
  every file that becomes a source and is not generated, however far the imports lead.  Each of these edges
  has its sources and its report in the state.\<close>

theorem walk_edges_exact:
  assumes "all_stored (sl_producers we) st" "walk_edges we init [] ws st = (Inr ws', st')"
  shows "st' = st \<and>
    (\<forall>d e. wants ws' d e \<longleftrightarrow> wants ws d e \<or> due we st init e \<and> d \<in> edge_needs we st e) \<and>
    (\<forall>e. due we st init e \<longrightarrow> recorded we st ws' e)"
proof -
  have "walk_inv we st init ws {} init [] ws" by (auto simp: walk_inv_def due.start)
  from walk_edges_inv[OF assms(1) this assms(2)] obtain P reached' where "st' = st" "walk_inv we st init ws P [] reached' ws'" by blast
  then show ?thesis using walk_inv_end by blast
qed

text \<open>\<open>q\<close> imports \<open>p/c.ts\<close>, which no rule has, and that imports \<open>p/b.ts\<close> of the rule \<open>:p\<close>.\<close>

definition demo_program :: "unit walk_env" where
  "demo_program = export_env.extend demo_exports
     (walk_env.fields None (demo_label ''q'' ''q'') ''ts_compile'' [demo_import ''q/q.ts'' ''p/c.ts'', demo_import ''p/c.ts'' ''p/b.ts''] [] [])"

definition no_walk :: walk_state where
  "no_walk = \<lparr>wk_deps = [], wk_srcs = [], wk_reported = [], wk_scopes = []\<rparr>"

theorem walk_edges_exact_witness:
  "due demo_program demo_observed [demo_import ''q/q.ts'' ''p/c.ts''] (demo_import ''p/c.ts'' ''p/b.ts'') \<and>
   ''q:p'' \<in> edge_needs demo_program demo_observed (demo_import ''p/c.ts'' ''p/b.ts'')"
proof -
  let ?init = "[demo_import ''q/q.ts'' ''p/c.ts'']" let ?r = "walk_edges demo_program ?init [] no_walk demo_observed"
  have a: "all_stored (sl_producers demo_program) demo_observed" by code_simp
  have w: "case fst ?r of Inl x \<Rightarrow> False | Inr ws \<Rightarrow> wants ws ''q:p'' (demo_import ''p/c.ts'' ''p/b.ts'')" by code_simp
  then obtain ws where ws: "fst ?r = Inr ws" "wants ws ''q:p'' (demo_import ''p/c.ts'' ''p/b.ts'')"
    by (cases "fst ?r") auto
  have r: "?r = (Inr ws, snd ?r)" using ws(1) by (simp add: prod_eq_iff)
  have "\<not> wants no_walk ''q:p'' (demo_import ''p/c.ts'' ''p/b.ts'')" by (simp add: wants_def no_walk_def required_of_def)
  then show ?thesis using walk_edges_exact[OF a r] ws(2) by blast
qed

end
