(* ===== verification/ResolveRule.thy ===== *)
theory ResolveRule imports ResolveEdges begin

text \<open>
  The attributes \<open>resolveEdges\<close> of \<open>gazelle/resolve.go\<close> gives a rule without a test config: what its own
  sources need, the walks over the edges of its sources and of its types, the runtime scopes it is
  published with (\<open>publishPackageScope\<close> of \<open>gazelle/emission.go\<close>), and the lists it writes.
\<close>

section \<open>What a rule starts with\<close>

record resolve_input =
  ri_rule :: build_rule
  ri_deps :: "string list"
  ri_edges :: "edge list"
  ri_candidates :: "candidate list"
  ri_typeCandidates :: "candidate list"

definition effective_rule :: "('c, 'z) walk_env_scheme \<Rightarrow> resolve_input \<Rightarrow> stored \<Rightarrow> build_rule" where
  "effective_rule we ri st =
     (case semantic_rule (pv_env (sl_producers we)) st (emission_label (in_api we) (in_repo we) (lb_pkg (wv_ask we)) ('':'' @ lb_name (wv_ask we))) of
        None \<Rightarrow> ri_rule ri
      | Some r \<Rightarrow> r)"

definition own_source :: "('c, 'z) walk_env_scheme \<Rightarrow> string \<Rightarrow> walk_state \<Rightarrow> walk_state" where
  \<comment> \<open>a source the rule has already\<close>
  "own_source we src ws =
     (let identity = (case parse_label (in_api we) src of
            None \<Rightarrow> src
          | Some l \<Rightarrow> la_string (in_api we) (label_identity (in_api we) l (in_repo we) (lb_pkg (wv_ask we))))
      in if map_of (wk_srcs ws) identity = None then ws\<lparr>wk_srcs := wk_srcs ws @ [(identity, src, 0)]\<rparr> else ws)"

definition start_walk :: "('c, 'z) walk_env_scheme \<Rightarrow> resolve_input \<Rightarrow> build_rule \<Rightarrow> walk_state" where
  "start_walk we ri r =
     fold (own_source we) (ru_strings r ''srcs'')
       (fold (\<lambda>d. add_dep we d True []) (ri_deps ri) \<lparr>wk_deps = [], wk_srcs = [], wk_reported = [], wk_scopes = []\<rparr>)"

definition root_file :: "('c, 'z) walk_env_scheme \<Rightarrow> string \<Rightarrow> walk_state \<Rightarrow> walk_state query" where
  "root_file we f ws =
     bindq (walking (output_producer (sl_producers we) f)) (\<lambda>producer.
       bindq (required_input_scope we f (la_string (in_api we) (wv_ask we))) (\<lambda>scope.
         retain_scope we scope f (add_dep we (source_producer_dep (in_api we) producer (wv_ask we)) True [] ws)))"

fun root_files :: "('c, 'z) walk_env_scheme \<Rightarrow> string list \<Rightarrow> walk_state \<Rightarrow> walk_state query" where
  "root_files we [] ws = ret ws"
| "root_files we (f # fs) ws = bindq (root_file we f ws) (root_files we fs)"

definition root_imports :: "('c, 'z) walk_env_scheme \<Rightarrow> build_rule \<Rightarrow> string list query" where
  "root_imports we r =
     (let pkg = lb_pkg (wv_ask we); probe = r\<lparr>ru_kind := ''ts_compile'',
            ru_attr := [''srcs'' \<mapsto> ListExpr (map (\<lambda>v. StringExpr v False) (ru_strings r ''srcs''))]\<rparr>
      in total (imports_for_rule (sl_producers we) (sl_graph we) (own_file (sl_producers we) pkg) probe))"

section \<open>Publishing a runtime scope\<close>

definition set_strings :: "string \<Rightarrow> string list \<Rightarrow> build_rule \<Rightarrow> build_rule" where
  "set_strings attr vs r =
     r\<lparr>ru_attr := (ru_attr r)(attr \<mapsto> ListExpr (map (\<lambda>v. StringExpr v False) vs)), ru_strings := (ru_strings r)(attr := vs)\<rparr>"

fun same_visibility :: "('c, 'z) walk_env_scheme \<Rightarrow> string \<Rightarrow> string \<Rightarrow> string list \<Rightarrow> string list \<Rightarrow> unit query" where
  "same_visibility we key pkg vis [] = ret ()"
| "same_visibility we key pkg vis (scope # scopes) =
     (case source_visibility we pkg scope of
        None \<Rightarrow> fault Spins
      | Some (Inl e) \<Rightarrow> fault (ScopeConflict key scope)
      | Some (Inr (policy, _)) \<Rightarrow> if policy \<noteq> vis then fault (ScopeConflict key scope) else same_visibility we key pkg vis scopes)"

definition publish_rule :: "('c, 'z) walk_env_scheme \<Rightarrow> string \<Rightarrow> label \<Rightarrow> string \<Rightarrow> string \<Rightarrow> build_rule \<Rightarrow> unit query" where
  "publish_rule we scope consumer pkg key r =
     (let src = trim_prefix scope (pkg @ ''/''); scopes = ru_strings r ''package_scopes'' in
      bindq (visibility_query we pkg src) (\<lambda>(vis, _).
        if scope_visibility_denies (in_api we) vis (plain_label (in_repo we) pkg (ru_name r)) consumer then fault (ScopeDenied key scope)
        else bindq (same_visibility we key pkg vis scopes) (\<lambda>_.
          if attr_kept r ''visibility'' \<and> export_visibility (in_api we) (in_repo we) r pkg \<noteq> Inr vis then fault (ScopeConflict key scope)
          else (\<lambda>st. (Inr (), AList.update key
            (let r' = set_strings ''visibility'' vis r in
             if src \<in> set scopes then r' else set_strings ''package_scopes'' (sort_strings (scopes @ [src])) r') st)))))"

definition publish_package_scope :: "('c, 'z) walk_env_scheme \<Rightarrow> string \<Rightarrow> label \<Rightarrow> unit query" where
  "publish_package_scope we scope consumer =
     bindq (walking (config_src_package (in_select we) scope [])) (\<lambda>pkg.
       let key = emission_label (in_api we) (in_repo we) pkg ('':'' @ packageName pkg) in
       bindq (reading (\<lambda>st. Inr (map_of st key))) (\<lambda>stored.
         case stored of
           None \<Rightarrow> ret ()
         | Some r \<Rightarrow>
             if pkg \<notin> set (ee_generated (pv_env (sl_producers we))) \<or> \<not> xe_candidate we r then ret ()
             else publish_rule we scope consumer pkg key r))"

section \<open>Whether a dependency leads back\<close>

text \<open>The recursion over the dependencies is run on the list of those still to follow, in its order.\<close>

lemma alias_loop_stored: "alias_loop env st seen key = (k, Some r) \<Longrightarrow> semantic_rule env st k = Some r"
proof (induction env st seen key rule: alias_loop.induct)
  case (1 env rules seen key)
  then show ?case by (subst (asm) (2) alias_loop.simps) (auto split: if_splits option.splits)
qed

lemma rule_target_stored: "rule_target env st key = (k, Some r) \<Longrightarrow> semantic_rule env st k = Some r"
  by (auto simp: rule_target_def split: if_splits dest: alias_loop_stored)

lemma dependency_target_stored: "dependency_target ie pkg dep st = (k, Some r) \<Longrightarrow> semantic_rule (pv_env (sl_producers ie)) st k = Some r"
  by (auto simp: dependency_target_def Let_def split: prod.splits option.splits if_splits dest!: rule_target_stored)

lemma dependency_target_dom: "dependency_target ie pkg dep st = (k, Some r) \<Longrightarrow> k \<in> dom (map_of st)"
  by (drule dependency_target_stored) (auto simp: semantic_rule_def split: option.splits)

function reach_deps :: "('c, 'z) input_env_scheme \<Rightarrow> stored \<Rightarrow> string \<Rightarrow> (string \<times> string) list \<Rightarrow> string list \<Rightarrow> bool" where
  "reach_deps ie st target [] seen = False"
| "reach_deps ie st target (x # work) seen =
     (let (key, own) = dependency_target ie (fst x) (snd x) st in
      if key = emission_label (in_api ie) (in_repo ie) (fst x) target then True
      else case own of
        None \<Rightarrow> reach_deps ie st target work seen
      | Some r \<Rightarrow>
          if key \<in> set seen then reach_deps ie st target work seen
          else case parse_label (in_api ie) key of
            None \<Rightarrow> reach_deps ie st target work (key # seen)
          | Some l \<Rightarrow> reach_deps ie st target (map (Pair (lb_pkg l)) (ru_strings r ''deps'') @ work) (key # seen))"
  by pat_completeness auto
termination
proof (relation "measures [\<lambda>(ie, st, target, work, seen). card (dom (map_of st) - set seen), \<lambda>(ie, st, target, work, seen). length work]", goal_cases)
  case (4 ie st target x work seen y key own r)
  then have "key \<in> dom (map_of st) - set seen" using dependency_target_dom[of ie "fst x" "snd x" st key r] by auto
  then have "card (dom (map_of st) - set (key # seen)) < card (dom (map_of st) - set seen)"
    by (intro psubset_card_mono) (auto simp: finite_dom_map_of)
  then show ?case by simp
next
  case (5 ie st target x work seen y key own r l)
  then have "key \<in> dom (map_of st) - set seen" using dependency_target_dom[of ie "fst x" "snd x" st key r] by auto
  then have "card (dom (map_of st) - set (key # seen)) < card (dom (map_of st) - set seen)"
    by (intro psubset_card_mono) (auto simp: finite_dom_map_of)
  then show ?case by simp
qed auto

declare reach_deps.simps(2) [simp del]

definition dependency_reaches :: "('c, 'z) input_env_scheme \<Rightarrow> stored \<Rightarrow> string \<Rightarrow> string \<Rightarrow> string \<Rightarrow> bool" where
  "dependency_reaches ie st pkg dep target = reach_deps ie st target [(pkg, dep)] []"

definition dep_step :: "('c, 'z) input_env_scheme \<Rightarrow> stored \<Rightarrow> string \<times> string \<Rightarrow> string \<times> string \<Rightarrow> bool" where
  "dep_step ie st x y \<longleftrightarrow>
     (\<exists>key r l. dependency_target ie (fst x) (snd x) st = (key, Some r) \<and> parse_label (in_api ie) key = Some l \<and>
        fst y = lb_pkg l \<and> snd y \<in> set (ru_strings r ''deps''))"

definition dep_hits :: "('c, 'z) input_env_scheme \<Rightarrow> stored \<Rightarrow> string \<Rightarrow> string \<times> string \<Rightarrow> bool" where
  "dep_hits ie st target x \<longleftrightarrow> fst (dependency_target ie (fst x) (snd x) st) = emission_label (in_api ie) (in_repo ie) (fst x) target"

lemma reach_deps_sound: "reach_deps ie st target work seen \<Longrightarrow> \<exists>x \<in> set work. \<exists>y. (dep_step ie st)\<^sup>*\<^sup>* x y \<and> dep_hits ie st target y"
proof (induction ie st target work seen rule: reach_deps.induct)
  case (2 ie st target x work seen)
  obtain key own where t: "dependency_target ie (fst x) (snd x) st = (key, own)" by fastforce
  show ?case
  proof (cases "dep_hits ie st target x")
    case True
    then show ?thesis by (intro bexI[of _ x] exI[of _ x]) simp_all
  next
    case False
    then have n: "key \<noteq> emission_label (in_api ie) (in_repo ie) (fst x) target" by (simp add: dep_hits_def t)
    consider (none) "own = None" | (seen) r where "own = Some r" "key \<in> set seen"
      | (bad) r where "own = Some r" "key \<notin> set seen" "parse_label (in_api ie) key = None"
      | (go) r l where "own = Some r" "key \<notin> set seen" "parse_label (in_api ie) key = Some l" by fastforce
    then show ?thesis
    proof cases
      case none
      then show ?thesis using "2.IH"(1)[OF refl t[symmetric] n] "2.prems" n by (subst (asm) reach_deps.simps) (auto simp: t)
    next
      case seen
      then show ?thesis using "2.IH"(2)[OF refl t[symmetric] n] "2.prems" n by (subst (asm) reach_deps.simps) (auto simp: t)
    next
      case bad
      then show ?thesis using "2.IH"(3)[OF refl t[symmetric] n] "2.prems" n by (subst (asm) reach_deps.simps) (auto simp: t)
    next
      case go
      have hit: "reach_deps ie st target (map (Pair (lb_pkg l)) (ru_strings r ''deps'') @ work) (key # seen)"
        using "2.prems" n go by (subst (asm) reach_deps.simps) (simp add: t)
      from "2.IH"(4)[OF refl t[symmetric] n go hit]
      obtain z y where z: "z \<in> set (map (Pair (lb_pkg l)) (ru_strings r ''deps'') @ work)" "(dep_step ie st)\<^sup>*\<^sup>* z y" "dep_hits ie st target y"
        by blast
      show ?thesis
      proof (cases "z \<in> set work")
        case False
        then have "dep_step ie st x z" using z(1) go by (auto simp: dep_step_def t)
        then show ?thesis using z(2,3) by (meson converse_rtranclp_into_rtranclp list.set_intros(1))
      next
        case True
        show ?thesis by (intro bexI[of _ z] exI[of _ y] conjI z(2,3)) (simp add: True)
      qed
    qed
  qed
qed simp

text \<open>When nothing is found, the visited nodes are closed and none is the target.\<close>

definition dep_inv :: "('c, 'z) input_env_scheme \<Rightarrow> stored \<Rightarrow> string \<Rightarrow> (string \<times> string) set \<Rightarrow> (string \<times> string) set \<Rightarrow> string list \<Rightarrow> bool" where
  "dep_inv ie st target V W seen \<longleftrightarrow>
     (\<forall>x \<in> V. \<not> dep_hits ie st target x \<and> (\<forall>y. dep_step ie st x y \<longrightarrow> y \<in> V \<union> W)) \<and>
     (\<forall>x y. fst (dependency_target ie (fst x) (snd x) st) \<in> set seen \<longrightarrow> dep_step ie st x y \<longrightarrow> y \<in> V \<union> W)"

lemma reach_deps_complete:
  "\<not> reach_deps ie st target work seen \<Longrightarrow> dep_inv ie st target V (set work) seen \<Longrightarrow> \<exists>V' seen'. V \<union> set work \<subseteq> V' \<and> dep_inv ie st target V' {} seen'"
proof (induction ie st target work seen arbitrary: V rule: reach_deps.induct)
  case (1 ie st target seen)
  then show ?case by auto
next
  case (2 ie st target x work seen)
  obtain key own where t: "dependency_target ie (fst x) (snd x) st = (key, own)" by fastforce
  have n: "key \<noteq> emission_label (in_api ie) (in_repo ie) (fst x) target"
    using "2.prems"(1) by (subst (asm) reach_deps.simps) (auto simp: t)
  have miss: "\<not> dep_hits ie st target x" using n by (simp add: dep_hits_def t)
  have move: "insert x V \<union> set work = V \<union> set (x # work)" by auto
  have keep: "dep_inv ie st target (insert x V) (C \<union> set work) S"
    if "\<And>y. dep_step ie st x y \<Longrightarrow> y \<in> insert x V \<union> (C \<union> set work)"
      and new: "\<And>z y. fst (dependency_target ie (fst z) (snd z) st) \<in> set S \<Longrightarrow> fst (dependency_target ie (fst z) (snd z) st) \<notin> set seen \<Longrightarrow>
        dep_step ie st z y \<Longrightarrow> y \<in> insert x V \<union> (C \<union> set work)" for C S
  proof -
    have old: "\<And>z. z \<in> V \<Longrightarrow> \<not> dep_hits ie st target z" "\<And>z y. z \<in> V \<Longrightarrow> dep_step ie st z y \<Longrightarrow> y \<in> V \<union> set (x # work)"
        "\<And>z y. fst (dependency_target ie (fst z) (snd z) st) \<in> set seen \<Longrightarrow> dep_step ie st z y \<Longrightarrow> y \<in> V \<union> set (x # work)"
      using "2.prems"(2) unfolding dep_inv_def by blast+
    have w: "V \<union> set (x # work) \<subseteq> insert x V \<union> (C \<union> set work)" by auto
    show ?thesis unfolding dep_inv_def
    proof (intro conjI ballI allI impI)
      show "\<not> dep_hits ie st target z" if "z \<in> insert x V" for z using that miss old(1) by blast
      show "y \<in> insert x V \<union> (C \<union> set work)" if "z \<in> insert x V" "dep_step ie st z y" for z y
        using that \<open>\<And>y. dep_step ie st x y \<Longrightarrow> y \<in> insert x V \<union> (C \<union> set work)\<close> old(2)[of z y] w by blast
      show "y \<in> insert x V \<union> (C \<union> set work)"
        if "fst (dependency_target ie (fst z) (snd z) st) \<in> set S" "dep_step ie st z y" for z y
        using that new[of z y] old(3)[of z y] w by blast
    qed
  qed
  consider (none) "own = None" | (seen) r where "own = Some r" "key \<in> set seen"
    | (bad) r where "own = Some r" "key \<notin> set seen" "parse_label (in_api ie) key = None"
    | (go) r l where "own = Some r" "key \<notin> set seen" "parse_label (in_api ie) key = Some l" by fastforce
  then show ?case
  proof cases
    case none
    have "dep_inv ie st target (insert x V) ({} \<union> set work) seen" by (rule keep) (auto simp: dep_step_def t none)
    moreover have "\<not> reach_deps ie st target work seen" using "2.prems"(1) n none by (subst (asm) reach_deps.simps) (auto simp: t)
    ultimately show ?thesis using "2.IH"(1)[OF refl t[symmetric] n none _, of "insert x V"] move by auto
  next
    case seen
    have "dep_inv ie st target (insert x V) ({} \<union> set work) seen"
    proof (rule keep)
      show "y \<in> insert x V \<union> ({} \<union> set work)" if "dep_step ie st x y" for y
      proof -
        have "fst (dependency_target ie (fst x) (snd x) st) \<in> set seen" using seen(2) by (simp add: t)
        then have "y \<in> V \<union> set (x # work)" using "2.prems"(2) that unfolding dep_inv_def by blast
        then show ?thesis by auto
      qed
    qed simp
    moreover have "\<not> reach_deps ie st target work seen" using "2.prems"(1) n seen by (subst (asm) reach_deps.simps) (auto simp: t)
    ultimately show ?thesis using "2.IH"(2)[OF refl t[symmetric] n seen _, of "insert x V"] move by auto
  next
    case bad
    have "dep_inv ie st target (insert x V) ({} \<union> set work) (key # seen)" by (rule keep) (auto simp: dep_step_def t bad)
    moreover have "\<not> reach_deps ie st target work (key # seen)" using "2.prems"(1) n bad by (subst (asm) reach_deps.simps) (auto simp: t)
    ultimately show ?thesis using "2.IH"(3)[OF refl t[symmetric] n bad _, of "insert x V"] move by auto
  next
    case go
    let ?C = "set (map (Pair (lb_pkg l)) (ru_strings r ''deps''))"
    have c: "y \<in> ?C" if zy: "dep_step ie st z y" "fst (dependency_target ie (fst z) (snd z) st) = key" for z y
    proof -
      obtain r' l' where "dependency_target ie (fst z) (snd z) st = (key, Some r')" "parse_label (in_api ie) key = Some l'"
          "fst y = lb_pkg l'" "snd y \<in> set (ru_strings r' ''deps'')" using zy unfolding dep_step_def by auto
      moreover have "r' = r" using calculation(1) t go(1) dependency_target_stored by (metis option.inject)
      ultimately show ?thesis using go(3) by (cases y) auto
    qed
    have "dep_inv ie st target (insert x V) (?C \<union> set work) (key # seen)" by (rule keep) (use c t in \<open>auto simp del: set_map\<close>)
    moreover have "\<not> reach_deps ie st target (map (Pair (lb_pkg l)) (ru_strings r ''deps'') @ work) (key # seen)"
      using "2.prems"(1) n go by (subst (asm) reach_deps.simps) (auto simp: t)
    ultimately show ?thesis using "2.IH"(4)[OF refl t[symmetric] n go _, of "insert x V"] move by auto
  qed
qed

text \<open>C9.  The recursion with its memo of seen rules finds the target exactly when some path of
  dependencies leads to it.\<close>

theorem dependency_reaches_exact:
  "dependency_reaches ie st pkg dep target \<longleftrightarrow> (\<exists>y. (dep_step ie st)\<^sup>*\<^sup>* (pkg, dep) y \<and> dep_hits ie st target y)"
proof
  show "dependency_reaches ie st pkg dep target \<Longrightarrow> \<exists>y. (dep_step ie st)\<^sup>*\<^sup>* (pkg, dep) y \<and> dep_hits ie st target y"
    unfolding dependency_reaches_def by (drule reach_deps_sound) simp
next
  assume "\<exists>y. (dep_step ie st)\<^sup>*\<^sup>* (pkg, dep) y \<and> dep_hits ie st target y"
  then obtain y where y: "(dep_step ie st)\<^sup>*\<^sup>* (pkg, dep) y" "dep_hits ie st target y" by blast
  show "dependency_reaches ie st pkg dep target"
  proof (rule ccontr)
    assume "\<not> dependency_reaches ie st pkg dep target"
    then obtain V seen where V: "(pkg, dep) \<in> V" "dep_inv ie st target V {} seen"
      using reach_deps_complete[of ie st target "[(pkg, dep)]" "[]" "{}"] by (auto simp: dependency_reaches_def dep_inv_def)
    have "y \<in> V" using y(1) V by (induction rule: rtranclp_induct) (auto simp: dep_inv_def)
    then show False using V(2) y(2) by (auto simp: dep_inv_def)
  qed
qed

section \<open>The attributes of the rule\<close>

fun publish_scopes :: "('c, 'z) walk_env_scheme \<Rightarrow> string list \<Rightarrow> walk_state \<Rightarrow> walk_state query" where
  "publish_scopes we [] ws = ret ws"
| "publish_scopes we (scope # scopes) ws =
     bindq (publish_package_scope we scope (wv_ask we)) (\<lambda>_.
       bindq (walking (rule_holding (in_select we) (in_index we) scope (wv_ask we) 1)) (\<lambda>held.
         bindq (reading (\<lambda>st. Inr (case held of None \<Rightarrow> False
            | Some dep \<Rightarrow> dep \<noteq> [] \<and> \<not> dependency_reaches we st (lb_pkg (wv_ask we)) dep (la_string (in_api we) (wv_ask we)))))
           (\<lambda>wanted. publish_scopes we scopes (if wanted then add_dep we (the held) True [] ws else ws))))"

definition published_scopes :: "('c, 'z) walk_env_scheme \<Rightarrow> build_rule \<Rightarrow> walk_state \<Rightarrow> string list" where
  "published_scopes we r ws =
     (if wv_owners we = None \<or> ru_attr r ''emit'' \<noteq> Some (IdentExpr ''True'') then [] else sort_strings (wk_scopes ws))"

definition input_labels :: "walk_state \<Rightarrow> nat \<Rightarrow> string list" where
  "input_labels ws role = sort_strings (List.map_filter (\<lambda>(_, lbl, k). if k = role then Some lbl else None) (wk_srcs ws))"

record resolved_rule =
  rs_inputs :: "(string \<times> string list) list"  \<comment> \<open>an attribute without labels is deleted, \<open>srcs\<close> left\<close>
  rs_deps :: "string list"
  rs_required :: "(string \<times> requirement) list"

definition rule_attributes :: "walk_state \<Rightarrow> resolved_rule" where
  "rule_attributes ws =
     \<lparr>rs_inputs = map (\<lambda>(role, attr). (attr, input_labels ws role)) (enumerate 0 input_attrs),
      rs_deps = sort_strings (map fst (wk_deps ws)), rs_required = wk_deps ws\<rparr>"

definition walk_rule :: "('c, 'z) walk_env_scheme \<Rightarrow> resolve_input \<Rightarrow> build_rule \<Rightarrow> walk_state query" where
  "walk_rule we ri r =
     bindq (root_imports we r) (\<lambda>roots.
       bindq (root_files we roots (start_walk we ri r)) (\<lambda>ws1.
         bindq (admit we [] (ri_candidates ri)) (\<lambda>_.
           bindq (walk_edges we (ri_edges ri) [] ws1) (\<lambda>ws2.
             bindq (admit we [] (ri_typeCandidates ri)) (\<lambda>_. walk_edges we (wv_typeEdges we) [] ws2)))))"

definition resolve_edges :: "('c, 'z) walk_env_scheme \<Rightarrow> resolve_input \<Rightarrow> resolved_rule query" where
  "resolve_edges we ri =
     bindq (reading (\<lambda>st. Inr (effective_rule we ri st))) (\<lambda>r.
       bindq (walk_rule we ri r) (\<lambda>ws.
         bindq (publish_scopes we (published_scopes we r ws) ws) (\<lambda>ws'. ret (rule_attributes ws'))))"

lemma settled_total: "(\<And>st. all_stored pv st \<Longrightarrow> snd (f st) = st) \<Longrightarrow> settled pv (total f)"
  by (simp add: settled_def total_def split_beta)

lemma settled_roots [settles]: "settled (sl_producers we) (root_imports we r)"
  unfolding root_imports_def Let_def by (rule settled_total) (rule imports_for_rule_still)

lemma settled_root_file [settles]: "settled (sl_producers we) (root_file we f ws)"
  unfolding root_file_def by (intro settles)

lemma settled_root_files [settles]: "settled (sl_producers we) (root_files we fs ws)"
  by (induction fs arbitrary: ws) (simp_all add: settles)

lemma settled_walk [settles]: "settled (sl_producers we) (walk_edges we q reached ws)"
proof -
  have "snd (walk_edges we q reached ws st) = st" if "all_stored (sl_producers we) st" for st
    using that
  proof (induction we q reached ws st rule: walk_edges.induct)
    case (2 we e q reached ws st)
    obtain x where x: "visit_edge we e ws st = (x, st)" using settledD[OF settled_visit "2.prems"] by metis
    show ?case
    proof (cases x)
      case (Inr y)
      obtain ws1 src where y: "y = (ws1, src)" by (cases y)
      note v = x[unfolded Inr y]
      obtain z where z: "arrive we e src ws1 st = (z, st)" using settledD[OF settled_arrive "2.prems"] by metis
      show ?thesis
      proof (cases "(src \<or> \<not> firstParty (e_to e)) \<and> e_to e \<notin> set reached")
        case False
        then show ?thesis using "2.IH"(2)[OF v[symmetric] refl refl False "2.prems"]
          by (subst walk_edges.simps) (simp only: v prod.case sum.case if_not_P[OF False] if_False)
      next
        case True
        show ?thesis
        proof (cases z)
          case (Inr w)
          obtain ws2 go where w: "w = (ws2, go)" by (cases w)
          note a = z[unfolded Inr w]
          show ?thesis using "2.IH"(1)[OF v[symmetric] refl refl True a[symmetric] refl refl "2.prems"]
            by (subst walk_edges.simps) (simp only: v a prod.case sum.case if_P[OF True] if_True)
        next
          case (Inl w)
          note a = z[unfolded Inl]
          show ?thesis by (subst walk_edges.simps) (simp only: v a prod.case sum.case if_P[OF True] if_True snd_conv)
        qed
      qed
    next
      case (Inl y)
      note v = x[unfolded Inl]
      show ?thesis by (subst walk_edges.simps) (simp only: v prod.case sum.case snd_conv)
    qed
  qed simp
  then show ?thesis by (simp add: settled_def)
qed

lemma dom_deps_add [simp]: "dom (map_of (wk_deps (add_dep we dep u es ws))) = (if dep = [] then {} else {dep_text we dep}) \<union> dom (map_of (wk_deps ws))"
  by (auto simp: add_dep_def Let_def update_conv')

lemma wants_dom: "wants ws d e \<Longrightarrow> d \<in> dom (map_of (wk_deps ws))"
  by (auto simp: wants_def required_of_def split: option.splits)

lemma publish_scopes_grow:
  "publish_scopes we scopes ws st = (Inr ws', st') \<Longrightarrow> dom (map_of (wk_deps ws)) \<subseteq> dom (map_of (wk_deps ws'))"
proof (induction we scopes ws arbitrary: st rule: publish_scopes.induct)
  case (2 we scope scopes ws)
  obtain held wanted st1 where "publish_scopes we scopes (if wanted then add_dep we (the held) True [] ws else ws) st1 = (Inr ws', st')"
    using "2.prems" by (auto simp: bindq_def reading_def split: prod.splits sum.splits)
  from "2.IH"[OF this] show ?case by (auto split: if_splits)
qed (simp add: ret_def)

lemma walk_rule_settled [settles]: "settled (sl_producers we) (walk_rule we ri r)"
  unfolding walk_rule_def by (intro settles)

lemma walk_rule_wants:
  assumes "all_stored (sl_producers we) st" "gives (walk_rule we ri r) st ws"
    and "due we st (ri_edges ri) e \<or> due we st (wv_typeEdges we) e" "d \<in> edge_needs we st e"
  shows "wants ws d e"
proof -
  from assms(2) obtain roots where "gives (bindq (root_files we roots (start_walk we ri r)) (\<lambda>ws1.
         bindq (admit we [] (ri_candidates ri)) (\<lambda>_.
           bindq (walk_edges we (ri_edges ri) [] ws1) (\<lambda>ws2.
             bindq (admit we [] (ri_typeCandidates ri)) (\<lambda>_. walk_edges we (wv_typeEdges we) [] ws2))))) st ws"
    unfolding walk_rule_def by (rule gives_bindqE[OF _ settled_roots assms(1)])
  then obtain ws1 where "gives (bindq (admit we [] (ri_candidates ri)) (\<lambda>_.
           bindq (walk_edges we (ri_edges ri) [] ws1) (\<lambda>ws2.
             bindq (admit we [] (ri_typeCandidates ri)) (\<lambda>_. walk_edges we (wv_typeEdges we) [] ws2)))) st ws"
    by (rule gives_bindqE[OF _ settled_root_files assms(1)])
  then have "gives (bindq (walk_edges we (ri_edges ri) [] ws1) (\<lambda>ws2.
             bindq (admit we [] (ri_typeCandidates ri)) (\<lambda>_. walk_edges we (wv_typeEdges we) [] ws2))) st ws"
    by (rule gives_bindqE[OF _ settled_admit assms(1)])
  then obtain ws2 where w2: "gives (walk_edges we (ri_edges ri) [] ws1) st ws2"
      and "gives (bindq (admit we [] (ri_typeCandidates ri)) (\<lambda>_. walk_edges we (wv_typeEdges we) [] ws2)) st ws"
    by (rule gives_bindqE[OF _ settled_walk assms(1)])
  then have w3: "gives (walk_edges we (wv_typeEdges we) [] ws2) st ws" by (elim gives_bindqE[OF _ settled_admit assms(1)])
  have "walk_edges we (ri_edges ri) [] ws1 st = (Inr ws2, st)" "walk_edges we (wv_typeEdges we) [] ws2 st = (Inr ws, st)"
    using w2 w3 run_gives[OF settled_walk assms(1)] by blast+
  from walk_edges_exact[OF assms(1) this(1)] walk_edges_exact[OF assms(1) this(2)] assms(3,4) show ?thesis by blast
qed

text \<open>C4.  The dependencies of a resolved rule hold what every edge needs that its sources or its types
  lead to.\<close>

theorem resolved_deps_complete:
  assumes "all_stored (sl_producers we) st" "resolve_edges we ri st = (Inr out, st')"
    and "due we st (ri_edges ri) e \<or> due we st (wv_typeEdges we) e" "d \<in> edge_needs we st e"
  shows "d \<in> set (rs_deps out)"
proof -
  let ?r = "effective_rule we ri st"
  obtain x where x: "walk_rule we ri ?r st = (x, st)" using settledD[OF walk_rule_settled assms(1)] by metis
  then obtain ws where ws: "walk_rule we ri ?r st = (Inr ws, st)"
    using assms(2) by (cases x) (auto simp: resolve_edges_def bindq_def reading_def)
  then obtain ws' where ws': "publish_scopes we (published_scopes we ?r ws) ws st = (Inr ws', st')" "out = rule_attributes ws'"
    using assms(2) by (auto simp: resolve_edges_def bindq_def reading_def ret_def split: prod.splits sum.splits)
  have g: "gives (walk_rule we ri ?r) st ws" using ws by (simp add: gives_def)
  have "wants ws d e" by (rule walk_rule_wants[OF assms(1) g assms(3,4)])
  then have "d \<in> dom (map_of (wk_deps ws'))" using publish_scopes_grow[OF ws'(1)] wants_dom by blast
  then show ?thesis by (simp add: ws'(2) rule_attributes_def dom_map_of_conv_image_fst)
qed

definition demo_resolve :: resolve_input where
  "demo_resolve = \<lparr>ri_rule = demo_attr_rule ''ts_compile'' ''q'' ''srcs'' (ListExpr [StringExpr '':q.ts'' False]), ri_deps = [],
     ri_edges = [demo_import ''q/q.ts'' ''p/c.ts''], ri_candidates = [], ri_typeCandidates = []\<rparr>"

theorem resolved_deps_complete_witness:
  "case fst (resolve_edges demo_program demo_resolve demo_observed) of
     Inl x \<Rightarrow> False
   | Inr out \<Rightarrow> ''q:p'' \<in> set (rs_deps out)"
proof -
  let ?e = "demo_import ''p/c.ts'' ''p/b.ts''" let ?i = "demo_import ''q/q.ts'' ''p/c.ts''"
  have a: "all_stored (sl_producers demo_program) demo_observed" by code_simp
  have "case fst (resolve_edges demo_program demo_resolve demo_observed) of Inl x \<Rightarrow> False | Inr out \<Rightarrow> True" by code_simp
  then obtain out where r: "resolve_edges demo_program demo_resolve demo_observed = (Inr out, snd (resolve_edges demo_program demo_resolve demo_observed))"
    by (cases "resolve_edges demo_program demo_resolve demo_observed") (auto split: sum.splits)
  have src: "case fst (edge_dep demo_program None (demo_label ''q'' ''q'') True False ?i demo_observed) of Inl x \<Rightarrow> False | Inr an \<Rightarrow> an_source an"
    by code_simp
  have dep: "case fst (edge_dep demo_program None (demo_label ''q'' ''q'') True False ?e demo_observed) of Inl x \<Rightarrow> False | Inr an \<Rightarrow> an_dep an = ''q:p''"
    by code_simp
  have env: "wv_owners demo_program = None" "wv_ask demo_program = demo_label ''q'' ''q''"
    by (simp_all add: demo_program_def export_env.defs walk_env.defs)
  have res: "resolves ?i" "resolves ?e" by code_simp+
  have "becomes_source demo_program demo_observed ?i"
    unfolding becomes_source_def env gives_def using src res(1) by (auto split: sum.splits)
  moreover have "file_follows demo_program demo_observed (e_to ?i)" unfolding file_follows_def gives_def by code_simp
  moreover have "?e \<in> set (edges_from demo_program (e_to ?i))" by code_simp
  moreover have "due demo_program demo_observed (ri_edges demo_resolve) ?i" by (rule due.start) (simp add: demo_resolve_def)
  ultimately have due: "due demo_program demo_observed (ri_edges demo_resolve) ?e" by (auto intro: due.follow simp: reaches_def)
  have "dep_text demo_program ''q:p'' = ''q:p''" by code_simp
  then have needs: "''q:p'' \<in> edge_needs demo_program demo_observed ?e"
    unfolding edge_needs_def env gives_def mem_Collect_eq using dep res(2) by (auto split: sum.splits)
  show ?thesis using resolved_deps_complete[OF a r disjI1[OF due] needs] r by (metis fst_conv sum.simps(6))
qed

end
