(* ===== verification/MinimizeExact.thy ===== *)
theory MinimizeExact imports Minimize begin

text \<open>
  The counts of \<open>fixedSupply\<close> decide as the exact supply does: \<open>minimizeDependencies\<close> keeps the
  dependencies the program without counts keeps, in the same state.
\<close>

section \<open>What a dependency adds to the counts\<close>

lemma add_input_distinct: "distinct (map fst m) \<Longrightarrow> distinct (map fst (add_input role spec m))"
  by (auto simp: add_input_def distinct_update split: option.splits)

lemma add_inputs_distinct: "distinct (map fst m) \<Longrightarrow> distinct (map fst (fold (add_input role) specs m))"
  by (induction specs arbitrary: m) (simp_all add: add_input_distinct)

lemma program_input_files_distinct: "distinct (map fst (program_input_files se pkg r))"
  by (simp add: program_input_files_def inputAttrs_def add_inputs_distinct)

lemma program_inputs_distinct: "distinct (map fst (program_inputs se key))"
  by (simp add: program_inputs_def program_input_files_distinct split: option.splits)

lemma supply_inputs_distinct: "distinct (map fst (ds_inputs (supply_of se w d)))"
  by (auto simp: supply_of_def direct_supply_def Let_def program_inputs_distinct split: option.splits prod.splits)

definition counted :: "('w, 'z) supply_env_scheme \<Rightarrow> (string \<times> requirement) list \<Rightarrow> roles \<Rightarrow> 'w \<Rightarrow> string \<Rightarrow> dependency_supply" where
  "counted se deps demands w d =
     (let ds = supply_of se w d in
      \<lparr>dy_files = filter (\<lambda>x. x \<in> set (read_files deps)) (ds_files ds),
       dy_targets = filter (\<lambda>x. x \<in> set (read_targets se deps)) (ds_targets ds),
       dy_claims = map fst (filter (\<lambda>(spec, role). case map_of demands spec of None \<Rightarrow> False | Some wanted \<Rightarrow> role \<le> wanted) (ds_inputs ds))\<rparr>)"

lemma dependency_supply_settled:
  assumes "settles se" "dep_called se w d"
  shows "dependency_supply se (read_files deps) (read_targets se deps) demands d w = (counted se deps demands w d, w)"
proof -
  have "snd (direct_supply se d w) = w" by (rule direct_supply_same[OF assms])
  then obtain x where x: "direct_supply se d w = (x, w)" by (metis prod.collapse)
  show ?thesis by (cases x) (simp_all add: dependency_supply_def counted_def supply_of_def x no_supply_def Let_def)
qed

lemma counted_file: "x \<in> set (dy_files (counted se deps demands w d)) \<longleftrightarrow> x \<in> set (read_files deps) \<and> x \<in> set (ds_files (supply_of se w d))"
  by (auto simp: counted_def Let_def)

lemma counted_target: "x \<in> set (dy_targets (counted se deps demands w d)) \<longleftrightarrow> x \<in> set (read_targets se deps) \<and> x \<in> set (ds_targets (supply_of se w d))"
  by (auto simp: counted_def Let_def)

lemma counted_claim: "s \<in> set (dy_claims (counted se deps demands w d)) \<longleftrightarrow> claims_spec (ds_inputs (supply_of se w d)) demands s"
  by (force simp: counted_def Let_def claims_spec_def split: option.splits)

lemma counted_claims_distinct: "distinct (dy_claims (counted se deps demands w d))"
  using supply_inputs_distinct[of se w d] by (simp add: counted_def Let_def distinct_map_filter)

section \<open>Counts\<close>

definition tally :: "('d \<Rightarrow> string list) \<Rightarrow> 'd set \<Rightarrow> string \<Rightarrow> int" where
  "tally g S x = (\<Sum>d\<in>S. int (count_list (g d) x))"

lemma tally_empty [simp]: "tally g {} x = 0"
  by (simp add: tally_def)

lemma tally_insert: "finite S \<Longrightarrow> d \<notin> S \<Longrightarrow> tally g (insert d S) x = tally g S x + int (count_list (g d) x)"
  by (simp add: tally_def)

lemma tally_remove: "finite S \<Longrightarrow> d \<in> S \<Longrightarrow> tally g (S - {d}) x = tally g S x - int (count_list (g d) x)"
  by (simp add: tally_def sum_diff1)

lemma tally_nonneg: "0 \<le> tally g S x"
  by (simp add: tally_def sum_nonneg)

lemma tally_pos: "finite S \<Longrightarrow> 0 < tally g S x \<longleftrightarrow> (\<exists>d \<in> S. x \<in> set (g d))"
proof -
  assume "finite S"
  then have "tally g S x = 0 \<longleftrightarrow> (\<forall>d \<in> S. x \<notin> set (g d))"
    by (simp add: tally_def sum_nonneg_eq_0_iff count_list_0_iff)
  then show ?thesis using tally_nonneg[of g S x] by auto
qed

lemma count_all_snd: "snd (count_all delta xs m) x = m x + delta * int (count_list xs x)"
proof -
  have "snd (fold (\<lambda>x (lost, m). let n = m x + delta in (if n = 0 then lost @ [x] else lost, m(x := n))) xs (l, m)) x =
      m x + delta * int (count_list xs x)" for l
    by (induction xs arbitrary: l m) (auto simp: Let_def algebra_simps)
  then show ?thesis by (simp add: count_all_def)
qed

lemma count_all_lost:
  assumes "x \<in> set xs" "m x + delta * int (count_list xs x) = 0"
  shows "x \<in> set (fst (count_all delta xs m))"
proof -
  let ?step = "\<lambda>x (lost, m). let n = m x + delta in (if n = 0 then lost @ [x] else lost, m(x := n))"
  have "x \<in> set (fst (fold ?step xs (l, m)))" if "x \<in> set xs" "m x + delta * int (count_list xs x) = 0" for l
    using that
  proof (induction xs arbitrary: l m)
    case (Cons y ys)
    let ?l = "if m y + delta = 0 then l @ [y] else l"
    have step: "fold ?step (y # ys) (l, m) = fold ?step ys (?l, m(y := m y + delta))" by (simp add: Let_def)
    show ?case
    proof (cases "x \<in> set ys")
      case True
      have "(m(y := m y + delta)) x + delta * int (count_list ys x) = 0" using Cons.prems(2) by (auto simp: algebra_simps split: if_splits)
      then show ?thesis unfolding step by (rule Cons.IH[OF True])
    next
      case False
      then have "y = x" "count_list ys x = 0" using Cons.prems(1) by (auto simp: count_list_0_iff)
      then have "x \<in> set ?l" using Cons.prems(2) by simp
      moreover have "set l' \<subseteq> set (fst (fold ?step ys (l', m')))" for l' m'
        by (induction ys arbitrary: l' m') (fastforce simp: Let_def)+
      ultimately show ?thesis unfolding step by blast
    qed
  qed simp
  from this[OF assms] show ?thesis by (simp add: count_all_def)
qed

definition counts_ok ::
    "('w, 'z) supply_env_scheme \<Rightarrow> (string \<times> requirement) list \<Rightarrow> roles \<Rightarrow> 'w \<Rightarrow> string set \<Rightarrow> fixed_supply \<Rightarrow> bool" where
  "counts_ok se deps demands w S f \<longleftrightarrow>
     (let c = counted se deps demands w in
      fs_files f = tally (\<lambda>d. dy_files (c d)) S \<and> fs_targets f = tally (\<lambda>d. dy_targets (c d)) S \<and>
      claim_count (fs_claims f) = tally (\<lambda>d. dy_claims (c d)) S \<and> distinct (map fst (fs_claims f)) \<and>
      fs_deps f = deps \<and> fs_demands f = length demands)"

lemma claim_count_update: "claim_count (AList.update s n cs) x = (if x = s then n else claim_count cs x)"
  by (simp add: claim_count_def update_conv')

lemma claims_fold:
  "claim_count (fold (\<lambda>spec cs. AList.update spec (claim_count cs spec + delta) cs) xs cs) x = claim_count cs x + delta * int (count_list xs x)"
  by (induction xs arbitrary: cs) (auto simp: claim_count_update algebra_simps)

lemma claims_fold_distinct:
  "distinct (map fst cs) \<Longrightarrow> distinct (map fst (fold (\<lambda>spec cs. AList.update spec (claim_count cs spec + delta) cs) xs cs))"
  by (induction xs arbitrary: cs) (simp_all add: distinct_update)

lemma add_supply_result:
  "add_supply dep delta f = (lost, lostTargets, f') \<Longrightarrow>
   fs_files f' = (\<lambda>x. fs_files f x + delta * int (count_list (dy_files (supply_at f dep)) x)) \<and>
   fs_targets f' = (\<lambda>x. fs_targets f x + delta * int (count_list (dy_targets (supply_at f dep)) x)) \<and>
   claim_count (fs_claims f') = (\<lambda>x. claim_count (fs_claims f) x + delta * int (count_list (dy_claims (supply_at f dep)) x)) \<and>
   (distinct (map fst (fs_claims f)) \<longrightarrow> distinct (map fst (fs_claims f'))) \<and>
   (\<forall>x \<in> set (dy_files (supply_at f dep)). fs_files f' x = 0 \<longrightarrow> x \<in> set lost) \<and>
   (\<forall>x \<in> set (dy_targets (supply_at f dep)). fs_targets f' x = 0 \<longrightarrow> x \<in> set lostTargets)"
proof -
  assume a: "add_supply dep delta f = (lost, lostTargets, f')"
  let ?y = "supply_at f dep"
  obtain files where f: "count_all delta (dy_files ?y) (fs_files f) = (lost, files)"
    using a by (auto simp: add_supply_def Let_def split: prod.splits)
  obtain targets where t: "count_all delta (dy_targets ?y) (fs_targets f) = (lostTargets, targets)"
    using a by (auto simp: add_supply_def Let_def split: prod.splits)
  have f': "f' = f\<lparr>fs_files := files, fs_targets := targets,
      fs_claims := fold (\<lambda>spec cs. AList.update spec (claim_count cs spec + delta) cs) (dy_claims ?y) (fs_claims f)\<rparr>"
    using a by (simp add: add_supply_def f t Let_def)
  have files: "files = (\<lambda>x. fs_files f x + delta * int (count_list (dy_files ?y) x))"
    using count_all_snd[of delta "dy_files ?y" "fs_files f"] by (simp add: f fun_eq_iff)
  have targets: "targets = (\<lambda>x. fs_targets f x + delta * int (count_list (dy_targets ?y) x))"
    using count_all_snd[of delta "dy_targets ?y" "fs_targets f"] by (simp add: t fun_eq_iff)
  show ?thesis
    using count_all_lost[of _ "dy_files ?y" "fs_files f" delta] count_all_lost[of _ "dy_targets ?y" "fs_targets f" delta]
    by (simp add: f' f t files targets claims_fold claims_fold_distinct fun_eq_iff)
qed

lemma add_supply_fields:
  "add_supply dep delta f = (lost, lostTargets, f') \<Longrightarrow>
   fs_deps f' = fs_deps f \<and> fs_roots f' = fs_roots f \<and> fs_supplies f' = fs_supplies f \<and> fs_demands f' = fs_demands f \<and>
   fs_readers f' = fs_readers f \<and> fs_needs f' = fs_needs f \<and> fs_blocked f' = fs_blocked f"
  by (auto simp: add_supply_def Let_def split: prod.splits)

lemma add_supply_counts:
  assumes "counts_ok se deps demands w S f" "finite S" "dep \<notin> S" "supply_at f dep = counted se deps demands w dep"
    and "add_supply dep 1 f = (lost, lostTargets, f')"
  shows "counts_ok se deps demands w (insert dep S) f'"
proof -
  note r = add_supply_result[OF assms(5)]
  show ?thesis using assms(1-4) r add_supply_fields[OF assms(5)] by (simp add: counts_ok_def Let_def tally_insert fun_eq_iff)
qed

lemma drop_supply_counts:
  assumes "counts_ok se deps demands w S f" "finite S" "dep \<in> S" "supply_at f dep = counted se deps demands w dep"
    and "add_supply dep (- 1) f = (lost, lostTargets, f')"
  shows "counts_ok se deps demands w (S - {dep}) f'"
proof -
  note r = add_supply_result[OF assms(5)]
  show ?thesis using assms(1-4) r add_supply_fields[OF assms(5)] by (simp add: counts_ok_def Let_def tally_remove fun_eq_iff)
qed

text \<open>On counts, a dependency is unsupplied when the retained ones do not supply it.\<close>

lemma count_file: "counts_ok se deps demands w S f \<Longrightarrow> finite S \<Longrightarrow>
    0 < fs_files f x \<longleftrightarrow> x \<in> set (read_files deps) \<and> supplied_in se w S x"
  by (auto simp: counts_ok_def Let_def tally_pos counted_file supplied_in_def)

lemma count_target: "counts_ok se deps demands w S f \<Longrightarrow> finite S \<Longrightarrow>
    fs_targets f x \<noteq> 0 \<longleftrightarrow> x \<in> set (read_targets se deps) \<and> target_in se w S x"
proof -
  assume c: "counts_ok se deps demands w S f" and S: "finite S"
  let ?g = "\<lambda>d. dy_targets (counted se deps demands w d)"
  have "fs_targets f x \<noteq> 0 \<longleftrightarrow> 0 < tally ?g S x" using c tally_nonneg[of ?g S x] by (auto simp: counts_ok_def Let_def)
  then show ?thesis using S by (auto simp: tally_pos counted_target target_in_def)
qed

lemma read_target_mem: "dep \<in> fst ` set deps \<Longrightarrow> fst (dep_target se (se_pkg se) dep) \<in> set (read_targets se deps)"
  by (force simp: read_targets_def)

lemma read_file_mem:
  "e \<in> set (rq_edges (requirement_at deps dep)) \<Longrightarrow> e_from e \<in> set (read_files deps) \<and> e_to e \<in> set (read_files deps)"
  by (force simp: requirement_at_def read_files_def split: option.splits dest: map_of_SomeD)

lemma dep_unsupplied_counts:
  assumes "counts_ok se deps demands w S f" "finite S" "fs_roots f = roots" "dep \<in> fst ` set deps"
  shows "dep_unsupplied se f dep = unsupplied_by se deps roots w S dep"
proof -
  obtain key r where k: "dep_target se (se_pkg se) dep = (key, r)" by (cases "dep_target se (se_pkg se) dep")
  have key: "fs_targets f key = 0 \<longleftrightarrow> \<not> target_in se w S key"
    using count_target[OF assms(1,2), of key] read_target_mem[OF assms(4), of se] unfolding k by auto
  have deps: "fs_deps f = deps" using assms(1) by (simp add: counts_ok_def Let_def)
  have "required_edge_unsupplied se key r e (file_supplied f) =
      required_edge_unsupplied se key r e (\<lambda>f. f \<notin> set roots \<and> supplied_in se w S f)" if "e \<in> set (rq_edges (requirement_at deps dep))" for e
    using read_file_mem[OF that] assms(3) by (intro required_edge_cong) (simp_all add: file_supplied_def count_file[OF assms(1,2)])
  then show ?thesis by (auto simp: dep_unsupplied_def unsupplied_by_def k deps key list_ex_iff Let_def)
qed

section \<open>The indexes of what a dropped dependency reads and needs\<close>

definition reads_edge :: "build_rule option \<Rightarrow> edge \<Rightarrow> string \<Rightarrow> bool" where
  "reads_edge r e x \<longleftrightarrow> x = e_from e \<or> x = e_to e \<and> \<not> static_edge_supply r e \<and> \<not> plain_target (e_to e)"

definition indexed :: "('w, 'z) supply_env_scheme \<Rightarrow> (string \<times> requirement) list \<Rightarrow> string set \<Rightarrow> fixed_supply \<Rightarrow> bool" where
  "indexed se deps D f \<longleftrightarrow>
     (\<forall>key. set (fs_needs f key) = {d \<in> D. fst (dep_target se (se_pkg se) d) = key}) \<and>
     (\<forall>x. set (fs_readers f x) = {d \<in> D. \<exists>e \<in> set (rq_edges (requirement_at deps d)). reads_edge (snd (dep_target se (se_pkg se) d)) e x})"

lemma add_reader_set: "set (add_reader dep file m x) = set (m x) \<union> (if x = file then {dep} else {})"
  by (simp add: add_reader_def)

lemma readers_fold:
  "set (fold (\<lambda>e m. let m1 = add_reader dep (e_from e) m in
      if \<not> static_edge_supply r e \<and> \<not> is_declaration_file (e_to e) \<and> path_ext (e_to e) \<noteq> ''.json'' then add_reader dep (e_to e) m1 else m1) es m x) =
   set (m x) \<union> (if \<exists>e \<in> set es. reads_edge r e x then {dep} else {})"
proof (induction es arbitrary: m)
  case (Cons e es)
  show ?case unfolding fold.simps comp_def Cons.IH
    by (auto simp: Let_def add_reader_set reads_edge_def plain_target_def)
qed simp

lemma index_dep_counts: "counts_ok se deps demands w S (index_dep se dep f) = counts_ok se deps demands w S f"
  by (simp add: index_dep_def counts_ok_def split: prod.split)

lemma index_dep_fields:
  "fs_roots (index_dep se dep f) = fs_roots f" "supply_at (index_dep se dep f) d = supply_at f d"
  "fs_blocked (index_dep se dep f) = fs_blocked f"
  by (simp_all add: index_dep_def supply_at_def split: prod.split)

lemma counts_ok_blocked: "counts_ok se deps demands w S (f\<lparr>fs_blocked := b\<rparr>) = counts_ok se deps demands w S f"
  by (simp add: counts_ok_def)

lemma counts_ok_deps: "counts_ok se deps demands w S f \<Longrightarrow> fs_deps f = deps"
  by (simp add: counts_ok_def Let_def)

lemma index_dep_indexed: "indexed se deps D f \<Longrightarrow> fs_deps f = deps \<Longrightarrow> indexed se deps (insert dep D) (index_dep se dep f)"
proof -
  assume i: "indexed se deps D f" and d: "fs_deps f = deps"
  obtain key r where k: "dep_target se (se_pkg se) dep = (key, r)" by (cases "dep_target se (se_pkg se) dep")
  have needs: "set (fs_needs (index_dep se dep f) x) = set (fs_needs f x) \<union> (if x = key then {dep} else {})" for x
    by (simp add: index_dep_def k add_reader_set)
  have readers: "set (fs_readers (index_dep se dep f) x) =
      set (fs_readers f x) \<union> (if \<exists>e \<in> set (rq_edges (requirement_at deps dep)). reads_edge r e x then {dep} else {})" for x
    by (simp add: index_dep_def k d readers_fold)
  show ?thesis using i unfolding indexed_def needs readers by (auto simp: k)
qed

section \<open>The invariant of the counts\<close>

definition fixed_ok ::
    "('w, 'z) supply_env_scheme \<Rightarrow> (string \<times> requirement) list \<Rightarrow> string list \<Rightarrow> roles \<Rightarrow> 'w \<Rightarrow> string set \<Rightarrow> string set \<Rightarrow> fixed_supply \<Rightarrow> bool" where
  \<comment> \<open>the counts over the retained dependencies, the indexes over the dropped ones\<close>
  "fixed_ok se deps roots demands w R D f \<longleftrightarrow>
     counts_ok se deps demands w R f \<and> fs_roots f = roots \<and> (\<forall>d \<in> R. supply_at f d = counted se deps demands w d) \<and>
     indexed se deps D f \<and> fs_blocked f = (\<exists>d \<in> D. unsupplied_by se deps roots w R d)"

lemma add_supplies_ok:
  assumes "settles se"
  shows "\<forall>d \<in> set ds. dep_called se w d \<Longrightarrow> distinct ds \<Longrightarrow> finite S \<Longrightarrow> S \<inter> set ds = {} \<Longrightarrow> fixed_ok se deps roots demands w S {} f \<Longrightarrow>
    \<exists>f'. add_supplies se (read_files deps) (read_targets se deps) demands ds f w = (f', w) \<and> fixed_ok se deps roots demands w (S \<union> set ds) {} f'"
proof (induction ds arbitrary: S f)
  case (Cons d ds)
  let ?y = "counted se deps demands w d"
  let ?f = "f\<lparr>fs_supplies := AList.update d ?y (fs_supplies f)\<rparr>"
  have y: "dependency_supply se (read_files deps) (read_targets se deps) demands d w = (?y, w)"
    using dependency_supply_settled[OF assms] Cons.prems(1) by simp
  have at: "supply_at ?f x = (if x = d then ?y else supply_at f x)" for x by (simp add: supply_at_def update_conv')
  obtain l t f' where a: "add_supply d 1 ?f = (l, t, f')" by (cases "add_supply d 1 ?f")
  note same = add_supply_fields[OF a]
  have "counts_ok se deps demands w S ?f" using Cons.prems(5) by (simp add: fixed_ok_def counts_ok_def Let_def)
  then have counts: "counts_ok se deps demands w (insert d S) f'"
    by (rule add_supply_counts[OF _ Cons.prems(3) _ _ a]) (use Cons.prems(4) at in simp_all)
  have "supply_at f' x = supply_at ?f x" for x using same by (simp add: supply_at_def)
  then have "fixed_ok se deps roots demands w (insert d S) {} f'"
    using counts same Cons.prems(5) at by (auto simp: fixed_ok_def indexed_def)
  from Cons.IH[OF _ _ _ _ this] Cons.prems obtain f2 where
    "add_supplies se (read_files deps) (read_targets se deps) demands ds f' w = (f2, w)" "fixed_ok se deps roots demands w (insert d S \<union> set ds) {} f2"
    by auto
  then show ?case by (simp add: y a Let_def)
qed simp

lemma index_all_ok:
  "finite R \<Longrightarrow> set ds \<subseteq> fst ` set deps \<Longrightarrow> D \<inter> R = {} \<Longrightarrow> fixed_ok se deps roots demands w (set retained) D f \<Longrightarrow> R = set retained \<Longrightarrow>
   fixed_ok se deps roots demands w R (D \<union> (set ds - R))
     (fold (\<lambda>dep f. if dep \<in> set retained then f
       else let f' = index_dep se dep f in if dep_unsupplied se f' dep then f'\<lparr>fs_blocked := True\<rparr> else f') ds f)"
proof (induction ds arbitrary: D f)
  case (Cons d ds)
  let ?step = "\<lambda>dep f. if dep \<in> set retained then f
       else let f' = index_dep se dep f in if dep_unsupplied se f' dep then f'\<lparr>fs_blocked := True\<rparr> else f'"
  show ?case
  proof (cases "d \<in> R")
    case True
    then have "?step d f = f" using Cons.prems(5) by simp
    moreover have "D \<union> (set (d # ds) - R) = D \<union> (set ds - R)" using True by auto
    ultimately show ?thesis using Cons by simp
  next
    case False
    let ?f = "index_dep se d f"
    have ok: "counts_ok se deps demands w R ?f" "fs_roots ?f = roots" "\<forall>x \<in> R. supply_at ?f x = counted se deps demands w x"
      "fs_blocked ?f = (\<exists>d \<in> D. unsupplied_by se deps roots w R d)" "fs_deps f = deps" "indexed se deps D f"
      using Cons.prems(4,5) counts_ok_deps by (auto simp: fixed_ok_def index_dep_fields index_dep_counts)
    have u: "dep_unsupplied se ?f d = unsupplied_by se deps roots w R d"
      using dep_unsupplied_counts[OF ok(1) Cons.prems(1) ok(2)] Cons.prems(2) by simp
    have "indexed se deps (insert d D) ?f" by (rule index_dep_indexed[OF ok(6,5)])
    then have "fixed_ok se deps roots demands w (set retained) (insert d D) (?step d f)"
      using ok u False Cons.prems(5) by (auto simp: fixed_ok_def Let_def counts_ok_blocked supply_at_def indexed_def)
    moreover have "insert d D \<inter> R = {}" using False Cons.prems(3) by simp
    ultimately have "fixed_ok se deps roots demands w R (insert d D \<union> (set ds - R)) (fold ?step ds (?step d f))"
      using Cons.IH[of "insert d D" "?step d f"] Cons.prems(1,2,5) by auto
    moreover have "D \<union> (set (d # ds) - R) = insert d D \<union> (set ds - R)" using False by auto
    ultimately show ?thesis by simp
  qed
qed simp

lemma new_fixed_supply_ok:
  assumes "settles se" "\<forall>d \<in> set retained. dep_called se w d" "distinct retained" "set retained \<subseteq> fst ` set deps"
  shows "\<exists>f. new_fixed_supply se deps retained roots demands w = (f, w) \<and>
    fixed_ok se deps roots demands w (set retained) (fst ` set deps - set retained) f"
proof -
  let ?f0 = "\<lparr>fs_deps = deps, fs_roots = roots, fs_supplies = [], fs_files = (\<lambda>_. 0), fs_targets = (\<lambda>_. 0), fs_claims = [],
    fs_demands = length demands, fs_readers = (\<lambda>_. []), fs_needs = (\<lambda>_. []), fs_blocked = False\<rparr>"
  have "fixed_ok se deps roots demands w {} {} ?f0"
    by (simp add: fixed_ok_def counts_ok_def indexed_def claim_count_def tally_def fun_eq_iff)
  from add_supplies_ok[OF assms(1) _ _ _ _ this, of "sort_strings retained"] assms(2,3) obtain f where
    a: "add_supplies se (read_files deps) (read_targets se deps) demands (sort_strings retained) ?f0 w = (f, w)"
    and f: "fixed_ok se deps roots demands w (set retained) {} f" by auto
  from index_all_ok[OF _ _ _ f refl, of "sort_strings (map fst deps)"] show ?thesis
    unfolding new_fixed_supply_def Let_def a prod.case by auto
qed

section \<open>Dropping on counts\<close>

lemma unsupplied_lost:
  assumes "fixed_ok se deps roots demands w R D f" "finite R" "c \<in> R" "d \<in> D" "D \<subseteq> fst ` set deps"
    and "\<not> unsupplied_by se deps roots w R d" "unsupplied_by se deps roots w (R - {c}) d"
    and a: "add_supply c (- 1) f = (lost, lostTargets, f')"
  shows "d \<in> set (concat (map (fs_readers f') lost) @ concat (map (fs_needs f') lostTargets))"
proof -
  have ok: "counts_ok se deps demands w R f" "supply_at f c = counted se deps demands w c" "indexed se deps D f" "fs_roots f = roots"
    using assms(1,3) by (auto simp: fixed_ok_def)
  have counts: "counts_ok se deps demands w (R - {c}) f'" by (rule drop_supply_counts[OF ok(1) assms(2,3) ok(2) a])
  have fin: "finite (R - {c})" using assms(2) by simp
  note same = add_supply_fields[OF a] and res = add_supply_result[OF a]
  obtain key r where k: "dep_target se (se_pkg se) d = (key, r)" by (cases "dep_target se (se_pkg se) d")
  let ?es = "rq_edges (requirement_at deps d)" and ?sup = "\<lambda>S f. f \<notin> set roots \<and> supplied_in se w S f"
  have lostFile: "x \<in> set lost" if x: "supplied_in se w R x" "\<not> supplied_in se w (R - {c}) x" "x \<in> set (read_files deps)" for x
  proof -
    have "x \<in> set (dy_files (supply_at f c))" using x unfolding ok(2) counted_file by (auto simp: supplied_in_def)
    moreover have "\<not> 0 < fs_files f' x" using x count_file[OF counts fin] by blast
    moreover have "0 \<le> fs_files f' x" using counts tally_nonneg by (simp add: counts_ok_def Let_def)
    ultimately show ?thesis using res by auto
  qed
  consider "\<not> target_in se w (R - {c}) key" "target_in se w R key" |
    e where "e \<in> set ?es" "required_edge_unsupplied se key r e (?sup (R - {c}))" "\<not> required_edge_unsupplied se key r e (?sup R)"
    using assms(6,7) by (auto simp: unsupplied_by_def k list_ex_iff Let_def)
  then show ?thesis
  proof cases
    case 1
    have read: "key \<in> set (read_targets se deps)" using read_target_mem[of d deps se] assms(4,5) k by auto
    have "key \<in> set (dy_targets (supply_at f c))" using 1 read unfolding ok(2) counted_target by (auto simp: target_in_def)
    moreover have "fs_targets f' key = 0" using 1(1) count_target[OF counts fin] by blast
    ultimately have "key \<in> set lostTargets" using res by auto
    moreover have "d \<in> set (fs_needs f' key)" using ok(3) same assms(4) k by (simp add: indexed_def)
    ultimately show ?thesis by auto
  next
    case 2
    have read: "e_from e \<in> set (read_files deps)" "e_to e \<in> set (read_files deps)" using read_file_mem[OF 2(1)] by simp_all
    have gone: "x \<in> set lost" if "?sup R x" "\<not> ?sup (R - {c}) x" "x \<in> set (read_files deps)" for x using that lostFile by blast
    have "\<exists>x \<in> set lost. reads_edge r e x"
      using 2(2,3) gone[OF _ _ read(1)] gone[OF _ _ read(2)] by (auto simp: required_edge_unsupplied_def reads_edge_def split: if_splits)
    then obtain x where x: "x \<in> set lost" "reads_edge r e x" ..
    have "d \<in> set (fs_readers f' x)" using ok(3) same assms(4) k 2(1) x(2) by (auto simp: indexed_def)
    then show ?thesis using x(1) by auto
  qed
qed

lemma fixed_ok_cong:
  assumes "fixed_ok se deps roots demands w R D f" "counts_ok se deps demands w R f'" "fs_roots f' = fs_roots f" "fs_supplies f' = fs_supplies f"
    "fs_readers f' = fs_readers f" "fs_needs f' = fs_needs f" "fs_blocked f' = fs_blocked f"
  shows "fixed_ok se deps roots demands w R D f'"
  using assms by (simp add: fixed_ok_def indexed_def supply_at_def)

lemma drop_candidate_decides:
  assumes "fixed_ok se deps roots demands w R D f" "finite R" "c \<in> R" "D = fst ` set deps - R" "R \<subseteq> fst ` set deps"
  shows "\<exists>f'. drop_candidate se c f = ((\<forall>d \<in> insert c D. \<not> unsupplied_by se deps roots w (R - {c}) d), f') \<and>
    (if \<forall>d \<in> insert c D. \<not> unsupplied_by se deps roots w (R - {c}) d
     then fixed_ok se deps roots demands w (R - {c}) (insert c D) f' else fixed_ok se deps roots demands w R D f')"
proof (cases "fs_blocked f")
  case True
  moreover have "fs_blocked f = (\<exists>d \<in> D. unsupplied_by se deps roots w R d)" using assms(1) unfolding fixed_ok_def by blast
  ultimately obtain d where "d \<in> D" "unsupplied_by se deps roots w R d" by blast
  from this(1) unsupplied_mono[OF Diff_subset this(2), of "{c}"]
  have "\<not> (\<forall>d \<in> insert c D. \<not> unsupplied_by se deps roots w (R - {c}) d)" by blast
  note no = if_not_P[OF this] this
  have stays: "drop_candidate se c f = (False, f)" by (simp add: drop_candidate_def True)
  show ?thesis unfolding no(1) stays prod.inject using assms(1) no(2) by blast
next
  case False
  obtain lost lostTargets f' where a: "add_supply c (- 1) f = (lost, lostTargets, f')" by (cases "add_supply c (- 1) f")
  obtain l2 t2 f2 where a2: "add_supply c 1 f' = (l2, t2, f2)" by (cases "add_supply c 1 f'")
  have ok: "counts_ok se deps demands w R f" "supply_at f c = counted se deps demands w c" "indexed se deps D f" "fs_roots f = roots"
    "\<forall>d \<in> D. \<not> unsupplied_by se deps roots w R d"
    using assms(1,3) False by (auto simp: fixed_ok_def)
  note same = add_supply_fields[OF a] and same2 = add_supply_fields[OF a2]
  have counts: "counts_ok se deps demands w (R - {c}) f'" by (rule drop_supply_counts[OF ok(1) assms(2,3) ok(2) a])
  have fin: "finite (R - {c})" using assms(2) by simp
  have at: "supply_at f' x = supply_at f x" for x using same by (simp add: supply_at_def)
  have "counts_ok se deps demands w (insert c (R - {c})) f2"
    by (rule add_supply_counts[OF counts fin _ _ a2]) (simp_all add: at ok(2))
  then have whole: "counts_ok se deps demands w R f2" using assms(3) by (simp add: insert_absorb)
  have restored: "fixed_ok se deps roots demands w R D f2"
    by (rule fixed_ok_cong[OF assms(1) whole]) (use same same2 in simp_all)
  let ?affected = "c # concat (map (fs_readers f') lost) @ concat (map (fs_needs f') lostTargets)"
  have sub: "set ?affected \<subseteq> insert c D" using ok(3) same by (auto simp: indexed_def)
  have u: "dep_unsupplied se f' d = unsupplied_by se deps roots w (R - {c}) d" if "d \<in> insert c D" for d
    by (rule dep_unsupplied_counts[OF counts fin]) (use that same ok(4) assms(3,4,5) in auto)
  have hit: "d \<in> set ?affected" if "d \<in> insert c D" "unsupplied_by se deps roots w (R - {c}) d" for d
  proof (cases "d = c")
    case False
    then have "d \<in> D" using that(1) by simp
    then show ?thesis using unsupplied_lost[OF assms(1-3) _ _ _ that(2) a] ok(5) assms(4) by simp
  qed simp
  have dec: "list_ex (dep_unsupplied se f') ?affected \<longleftrightarrow> \<not> (\<forall>d \<in> insert c D. \<not> unsupplied_by se deps roots w (R - {c}) d)"
    unfolding list_ex_iff using sub u hit by blast
  have drop: "drop_candidate se c f =
      (if list_ex (dep_unsupplied se f') ?affected then (False, f2) else (True, index_dep se c f'))"
    using False same by (simp add: drop_candidate_def a a2 Let_def)
  show ?thesis
  proof (cases "\<forall>d \<in> insert c D. \<not> unsupplied_by se deps roots w (R - {c}) d")
    case True
    have "indexed se deps D f'" using ok(3) same by (simp add: indexed_def)
    then have "indexed se deps (insert c D) (index_dep se c f')"
      by (rule index_dep_indexed) (rule counts_ok_deps[OF counts])
    then have "fixed_ok se deps roots demands w (R - {c}) (insert c D) (index_dep se c f')"
      using counts same at True False assms(1) by (simp add: fixed_ok_def index_dep_fields index_dep_counts)
    then show ?thesis using drop dec True by simp
  next
    case False
    have "drop_candidate se c f = (False, f2)" using drop dec False by presburger
    then show ?thesis unfolding if_not_P[OF False] using False restored by (intro exI[of _ f2] conjI) (simp_all only: prod.inject simp_thms)
  qed
qed

section \<open>When the scopes are claimed without the candidate\<close>

lemma count_once: "distinct xs \<Longrightarrow> x \<in> set xs \<Longrightarrow> count_list xs x = 1"
  by (induction xs) (auto simp: count_list_0_iff)

lemma claims_left:
  assumes "fixed_ok se deps roots demands w R D f" "finite R" "c \<in> R" "\<not> walks_past c f"
  shows "claimed_in se demands w (R - {c})"
proof -
  let ?g = "\<lambda>d. dy_claims (counted se deps demands w d)"
  let ?pos = "filter (\<lambda>(_, n). 0 < n) (fs_claims f)"
  have ok: "claim_count (fs_claims f) = tally ?g R" "distinct (map fst (fs_claims f))" "fs_demands f = length demands"
    "supply_at f c = counted se deps demands w c"
    using assms(1,3) by (auto simp: fixed_ok_def counts_ok_def Let_def)
  have keys: "fst ` set ?pos \<subseteq> dom (map_of demands)"
  proof
    fix s assume "s \<in> fst ` set ?pos"
    then obtain n where "(s, n) \<in> set (fs_claims f)" "0 < n" by auto
    then have "0 < claim_count (fs_claims f) s" using ok(2) by (simp add: claim_count_def)
    then obtain d where "s \<in> set (?g d)" using tally_pos[OF assms(2), of ?g s] ok(1) by auto
    then show "s \<in> dom (map_of demands)" by (auto simp: counted_claim claims_spec_def)
  qed
  have "card (dom (map_of demands)) \<le> length demands"
    using card_image_le[of "set demands" fst] card_length[of demands] by (simp add: dom_map_of_conv_image_fst)
  also have "\<dots> \<le> length ?pos" using assms(4) ok(3) by (simp add: walks_past_def)
  also have "\<dots> = card (fst ` set ?pos)" using distinct_card[of "map fst ?pos"] ok(2) by (simp add: distinct_map_filter)
  finally have all: "fst ` set ?pos = dom (map_of demands)"
    by (intro card_seteq) (use keys in \<open>simp_all add: finite_dom_map_of\<close>)
  show ?thesis unfolding claimed_in_def
  proof (intro allI impI)
    fix s assume "map_of demands s \<noteq> None"
    then have "s \<in> fst ` set ?pos" using all by (auto simp: dom_def)
    then obtain n where "(s, n) \<in> set (fs_claims f)" "0 < n" by auto
    then have pos: "0 < tally ?g R s" using ok(1,2) by (simp add: claim_count_def flip: ok(1))
    have "0 < tally ?g (R - {c}) s"
    proof (rule ccontr)
      assume "\<not> 0 < tally ?g (R - {c}) s"
      then have "tally ?g (R - {c}) s = 0" using tally_nonneg[of ?g "R - {c}" s] by simp
      then have one: "tally ?g R s = int (count_list (?g c) s)" "0 < count_list (?g c) s"
        using tally_remove[OF assms(2,3), of ?g s] pos by auto
      then have "s \<in> set (?g c)" using count_list_0_iff[of "?g c" s] by auto
      moreover from this have "count_list (?g c) s = 1" by (rule count_once[OF counted_claims_distinct])
      ultimately have "walks_past c f" using one ok by (auto simp: walks_past_def list_ex_iff)
      then show False using assms(4) by simp
    qed
    then show "\<exists>d \<in> R - {c}. claims_spec (ds_inputs (supply_of se w d)) demands s"
      using tally_pos[of "R - {c}" ?g s] assms(2) by (simp add: counted_claim)
  qed
qed

section \<open>One candidate\<close>

definition keys_of :: "('w, 'z) supply_env_scheme \<Rightarrow> string list \<Rightarrow> string list" where
  "keys_of se ds = List.map_filter (program_key se (se_pkg se)) ds"

text \<open>The state kept with counts, against the retained dependencies and walked owners kept without.\<close>

definition min_ok ::
    "('w, 'z) supply_env_scheme \<Rightarrow> (string \<times> requirement) list \<Rightarrow> string list \<Rightarrow> roles \<Rightarrow> min_state \<times> 'w \<Rightarrow> string list \<times> string list \<times> 'w \<Rightarrow> bool" where
  "min_ok se deps roots demands m e \<longleftrightarrow>
     (let (st, w) = m; (retained, walked, w') = e; R = set retained in
      w' = w \<and> ms_retained st = retained \<and> distinct retained \<and> R \<subseteq> fst ` set deps \<and>
      walked_ok se (ms_walked st) w \<and> walked_ok se walked w \<and>
      (ms_walkComplete st \<longrightarrow> reach_called se w (keys_of se retained)) \<and>
      (case ms_supply st of
         None \<Rightarrow> True
       | Some f \<Rightarrow> order_free deps roots demands \<and> (\<forall>d \<in> R. dep_called se w d) \<and>
           fixed_ok se deps roots demands w R (fst ` set deps - R) f))"

lemma reach_called_sub: "set ks \<subseteq> set js \<Longrightarrow> reach_called se w js \<Longrightarrow> reach_called se w ks"
  by (auto simp: reach_called_def)

lemma keys_of_sub: "set ds \<subseteq> set es \<Longrightarrow> set (keys_of se ds) \<subseteq> set (keys_of se es)"
  by (auto simp: keys_of_def set_map_filter)

lemma exact_drop_fixed:
  assumes "settles se" "order_free deps roots demands" "distinct (map fst deps)"
    and "\<forall>d \<in> set retained. dep_called se w d" "c \<in> set retained" "set retained \<subseteq> fst ` set deps"
    and "fixed_ok se deps roots demands w (set retained) (fst ` set deps - set retained) f"
    and "\<not> walks_past c f \<or> reach_called se w (keys_of se retained)" "walked_ok se walked w"
  shows "\<exists>dropped f' walked'. drop_candidate se c f = (dropped, f') \<and>
    exact_drop se deps roots demands (filter (\<lambda>d. d \<noteq> c) retained) walked w = (dropped, walked', w) \<and> walked_ok se walked' w \<and>
    (let R = if dropped then set retained - {c} else set retained in fixed_ok se deps roots demands w R (fst ` set deps - R) f')"
proof -
  let ?rest = "filter (\<lambda>d. d \<noteq> c) retained" and ?R = "set retained" and ?N = "fst ` set deps"
  have rest: "set ?rest = ?R - {c}" by auto
  have "set ?rest \<subseteq> ?R" by auto
  from keys_of_sub[OF this] assms(8) claims_left[OF assms(7) _ assms(5)]
  have settled: "claimed_in se demands w (set ?rest) \<or> reach_called se w (keys_of se ?rest)"
    unfolding rest by (metis List.finite_set reach_called_sub rest)
  obtain walked' where e: "exact_drop se deps roots demands ?rest walked w =
      ((\<forall>dep \<in> ?N. dep \<in> set ?rest \<or> \<not> unsupplied_by se deps roots w (set ?rest) dep), walked', w)"
    using exact_drop_settled[OF assms(1,2) _ assms(3) settled[unfolded keys_of_def], of walked] assms(4) by auto
  have ok: "walked_ok se walked' w" using exact_drop_same[OF assms(1,9,9), of deps roots demands ?rest] e by auto
  have N: "insert c (?N - ?R) = ?N - (?R - {c})" using assms(5,6) by auto
  have same: "(\<forall>dep \<in> ?N. dep \<in> set ?rest \<or> \<not> unsupplied_by se deps roots w (set ?rest) dep) \<longleftrightarrow>
      (\<forall>d \<in> insert c (?N - ?R). \<not> unsupplied_by se deps roots w (?R - {c}) d)" unfolding rest N by blast
  from drop_candidate_decides[OF assms(7) _ assms(5) refl assms(6)] obtain f' where
    "drop_candidate se c f = ((\<forall>d \<in> insert c (?N - ?R). \<not> unsupplied_by se deps roots w (?R - {c}) d), f')"
    "if \<forall>d \<in> insert c (?N - ?R). \<not> unsupplied_by se deps roots w (?R - {c}) d
     then fixed_ok se deps roots demands w (?R - {c}) (insert c (?N - ?R)) f' else fixed_ok se deps roots demands w ?R (?N - ?R) f'" by blast
  then show ?thesis using e ok unfolding same N by (auto simp: Let_def split: if_splits)
qed

lemma walked_ok_mono: "walked_ok se v w \<Longrightarrow> (\<And>j. se_called se w j \<Longrightarrow> se_called se w' j) \<Longrightarrow> walked_ok se v w'"
  by (auto simp: walked_ok_def)

text \<open>The supply the step decides on: the one kept, or one made when the owners are settled.\<close>

lemma step_supply:
  assumes "settles se" "min_ok se deps roots demands (st, w) (retained, walked, w)"
  shows "\<exists>supply. (if order_free deps roots demands \<and> ms_supply st = None \<and> all_settled se (ms_retained st) w
      then (let (f, w') = new_fixed_supply se deps (ms_retained st) roots demands w in (Some f, w')) else (ms_supply st, w)) = (supply, w) \<and>
    (case supply of None \<Rightarrow> True
     | Some f \<Rightarrow> order_free deps roots demands \<and> (\<forall>d \<in> set retained. dep_called se w d) \<and>
         fixed_ok se deps roots demands w (set retained) (fst ` set deps - set retained) f)"
proof (cases "order_free deps roots demands \<and> ms_supply st = None \<and> all_settled se (ms_retained st) w")
  case True
  have r: "ms_retained st = retained" "distinct retained" "set retained \<subseteq> fst ` set deps" using assms(2) by (simp_all add: min_ok_def Let_def)
  have called: "\<forall>d \<in> set retained. dep_called se w d" using True by (simp add: all_settled_called r(1))
  obtain f where "new_fixed_supply se deps retained roots demands w = (f, w)"
    "fixed_ok se deps roots demands w (set retained) (fst ` set deps - set retained) f"
    using new_fixed_supply_ok[OF assms(1) called r(2,3)] by blast
  then show ?thesis unfolding if_P[OF True] using True called r(1) by (intro exI[of _ "Some f"]) simp
next
  case False
  then show ?thesis unfolding if_not_P[OF False] using assms(2) by (intro exI[of _ "ms_supply st"]) (simp add: min_ok_def Let_def)
qed

lemma step_exact:
  assumes "settles se" "min_ok se deps roots demands (st, w) (retained, walked, w)" "c \<in> set retained"
    and "exact_drop se deps roots demands (filter (\<lambda>d. d \<noteq> c) retained) (ms_walked st) w = (dropped, walked', w2)"
    and "st' = st\<lparr>ms_supply := None, ms_walked := walked', ms_retained := (if dropped then filter (\<lambda>d. d \<noteq> c) retained else retained),
      ms_walkComplete := wc\<rparr>" "wc \<longrightarrow> reach_called se w (keys_of se retained)"
  shows "min_ok se deps roots demands (st', w2) (exact_step se deps roots demands c (retained, walked, w))"
proof -
  have ok: "distinct retained" "set retained \<subseteq> fst ` set deps" "walked_ok se (ms_walked st) w" "walked_ok se walked w"
    using assms(2) by (simp_all add: min_ok_def Let_def)
  from exact_drop_same[OF assms(1) ok(3,4), of deps roots demands "filter (\<lambda>d. d \<noteq> c) retained", unfolded assms(4) prod.inject]
  obtain v2 where e: "exact_drop se deps roots demands (filter (\<lambda>d. d \<noteq> c) retained) walked w = (dropped, v2, w2)"
    "walked_ok se walked' w2" "walked_ok se v2 w2" "\<forall>j. se_called se w j \<longrightarrow> se_called se w2 j" by blast
  have "reach_called se w2 (keys_of se (if dropped then filter (\<lambda>d. d \<noteq> c) retained else retained))" if wc
  proof -
    have "reach_called se w2 (keys_of se retained)" using assms(6) that e(4) by (auto simp: reach_called_def)
    moreover have "set (if dropped then filter (\<lambda>d. d \<noteq> c) retained else retained) \<subseteq> set retained" by auto
    ultimately show ?thesis by (rule reach_called_sub[OF keys_of_sub, rotated])
  qed
  moreover have "exact_step se deps roots demands c (retained, walked, w) = (if dropped then filter (\<lambda>d. d \<noteq> c) retained else retained, v2, w2)"
    by (simp add: exact_step_def e(1))
  moreover have "set (if dropped then filter (\<lambda>d. d \<noteq> c) retained else retained) \<subseteq> fst ` set deps" using ok(2) by auto
  ultimately show ?thesis unfolding assms(5) min_ok_def Let_def prod.case using ok(1) e(2,3) by simp
qed

lemma step_fixed:
  assumes "settles se" "distinct (map fst deps)" "min_ok se deps roots demands (st, w) (retained, walked, w)" "c \<in> set retained"
    and "order_free deps roots demands" "\<forall>d \<in> set retained. dep_called se w d"
    and "fixed_ok se deps roots demands w (set retained) (fst ` set deps - set retained) f"
    and "\<not> walks_past c f \<or> reach_called se w (keys_of se retained)"
    and "drop_candidate se c f = (dropped, f')"
    and "st' = st\<lparr>ms_supply := Some f', ms_retained := (if dropped then filter (\<lambda>d. d \<noteq> c) retained else retained), ms_walkComplete := wc\<rparr>"
    and "wc \<longrightarrow> reach_called se w (keys_of se retained)"
  shows "min_ok se deps roots demands (st', w) (exact_step se deps roots demands c (retained, walked, w))"
proof -
  have ok: "distinct retained" "set retained \<subseteq> fst ` set deps" "walked_ok se (ms_walked st) w" "walked_ok se walked w"
    using assms(3) by (simp_all add: min_ok_def Let_def)
  let ?ret = "if dropped then filter (\<lambda>d. d \<noteq> c) retained else retained"
  have ret: "set ?ret = (if dropped then set retained - {c} else set retained)" by auto
  from exact_drop_fixed[OF assms(1,5,2,6,4) ok(2) assms(7,8) ok(4)] assms(9) obtain v where
    e: "exact_drop se deps roots demands (filter (\<lambda>d. d \<noteq> c) retained) walked w = (dropped, v, w)" "walked_ok se v w"
    and f: "fixed_ok se deps roots demands w (set ?ret) (fst ` set deps - set ?ret) f'" unfolding ret Let_def by auto
  have "reach_called se w (keys_of se ?ret)" if wc
    using assms(11) that reach_called_sub[OF keys_of_sub[of ?ret retained se]] by (auto split: if_splits)
  moreover have "exact_step se deps roots demands c (retained, walked, w) = (?ret, v, w)" by (simp add: exact_step_def e(1))
  moreover have "set ?ret \<subseteq> fst ` set deps" "\<forall>d \<in> set ?ret. dep_called se w d" using ok(2) assms(6) by auto
  ultimately show ?thesis unfolding assms(10) min_ok_def Let_def prod.case using ok(1,3) e(2) f assms(5) by simp
qed

lemma min_step_ok:
  assumes "settles se" "distinct (map fst deps)" "min_ok se deps roots demands m e" "c \<in> set (fst e)"
  shows "min_ok se deps roots demands (min_step se deps roots demands c m) (exact_step se deps roots demands c e)"
proof -
  obtain st w where m: "m = (st, w)" by (cases m)
  obtain retained walked w' where e: "e = (retained, walked, w')" by (cases e)
  have w': "w' = w" "ms_retained st = retained" and complete0: "ms_walkComplete st \<Longrightarrow> reach_called se w (keys_of se retained)"
    using assms(3) by (simp_all add: m e min_ok_def Let_def)
  note ok = assms(3)[unfolded m e w'(1)]
  from step_supply[OF assms(1) ok] obtain kept where
    s: "(if order_free deps roots demands \<and> ms_supply st = None \<and> all_settled se (ms_retained st) w
      then (let (f, w') = new_fixed_supply se deps (ms_retained st) roots demands w in (Some f, w')) else (ms_supply st, w)) = (kept, w)"
    and f: "case kept of None \<Rightarrow> True
     | Some f \<Rightarrow> order_free deps roots demands \<and> (\<forall>d \<in> set retained. dep_called se w d) \<and>
         fixed_ok se deps roots demands w (set retained) (fst ` set deps - set retained) f" by blast
  note chosen = s[unfolded w'(2) Let_def]
  let ?rest = "filter (\<lambda>d. d \<noteq> c) retained"
  obtain dropped walked' w2 where x: "exact_drop se deps roots demands ?rest (ms_walked st) w = (dropped, walked', w2)"
    by (cases "exact_drop se deps roots demands ?rest (ms_walked st) w")
  let ?complete = "ms_walkComplete st \<or> settled_walk se (List.map_filter (program_key se (se_pkg se)) retained) [] w"
  have reach: "?complete \<longrightarrow> reach_called se w (keys_of se retained)"
    using complete0 settled_walk_reach by (auto simp: keys_of_def)
  have c: "c \<in> set retained" using assms(4) by (simp add: e)
  show ?thesis
  proof (cases kept)
    case None
    have "min_step se deps roots demands c m = (st\<lparr>ms_supply := None, ms_walked := walked', ms_retained := (if dropped then ?rest else retained)\<rparr>, w2)"
      unfolding m min_step_def Let_def prod.case w'(2) chosen x by (simp add: None w'(2) x)
    then show ?thesis unfolding e w'(1)
      using step_exact[OF assms(1) ok c x refl, of "ms_walkComplete st"] complete0 by simp
  next
    case (Some fs)
    obtain dropped2 f' where d: "drop_candidate se c fs = (dropped2, f')" by (cases "drop_candidate se c fs")
    let ?past = "walks_past c fs"
    let ?wc = "if ?past then ?complete else ms_walkComplete st"
    have wc: "?wc \<longrightarrow> reach_called se w (keys_of se retained)" using reach complete0 by auto
    show ?thesis
    proof (cases "\<not> ?past \<or> ?complete")
      case True
      have step: "min_step se deps roots demands c m =
          (st\<lparr>ms_supply := Some f', ms_retained := (if dropped2 then ?rest else retained), ms_walkComplete := ?wc\<rparr>, w)"
        unfolding m min_step_def Let_def prod.case w'(2) chosen using True by (auto simp: Some w'(2) d)
      have fs: "order_free deps roots demands" "\<forall>d \<in> set retained. dep_called se w d"
        "fixed_ok se deps roots demands w (set retained) (fst ` set deps - set retained) fs" using f unfolding Some option.case by blast+
      have "\<not> walks_past c fs \<or> reach_called se w (keys_of se retained)" using True reach by blast
      then show ?thesis unfolding e w'(1) step by (rule step_fixed[OF assms(1,2) ok c fs _ d refl wc])
    next
      case False
      have "min_step se deps roots demands c m =
          (st\<lparr>ms_supply := None, ms_walked := walked', ms_retained := (if dropped then ?rest else retained), ms_walkComplete := ?wc\<rparr>, w2)"
        unfolding m min_step_def Let_def prod.case w'(2) chosen using False by (auto simp: Some w'(2) x)
      then show ?thesis unfolding e w'(1) using step_exact[OF assms(1) ok c x refl wc] by simp
    qed
  qed
qed

lemma exact_step_retained: "set (fst e) - {c} \<subseteq> set (fst (exact_step se deps roots demands c e))"
  by (auto simp: exact_step_def Let_def split: prod.split)

lemma min_steps_ok:
  "settles se \<Longrightarrow> distinct (map fst deps) \<Longrightarrow> min_ok se deps roots demands m e \<Longrightarrow> distinct cs \<Longrightarrow> set cs \<subseteq> set (fst e) \<Longrightarrow>
   min_ok se deps roots demands (fold (min_step se deps roots demands) cs m) (fold (exact_step se deps roots demands) cs e)"
proof (induction cs arbitrary: m e)
  case (Cons c cs)
  have "min_ok se deps roots demands (min_step se deps roots demands c m) (exact_step se deps roots demands c e)"
    by (rule min_step_ok[OF Cons.prems(1-3)]) (use Cons.prems(5) in simp)
  moreover have "set cs \<subseteq> set (fst (exact_step se deps roots demands c e))"
    using exact_step_retained[of e c se deps roots demands] Cons.prems(4,5) by auto
  ultimately show ?case using Cons by simp
qed simp

text \<open>\<open>:lib\<close> depends on \<open>:dep\<close> and \<open>:util\<close>, so a program that has all three needs \<open>:lib\<close> alone.  \<open>:dep\<close> is
  dropped by the exact supply and \<open>:util\<close> on counts.\<close>

definition demo_program :: "string \<Rightarrow> string list \<Rightarrow> string \<times> build_rule" where
  "demo_program n deps =
     (''p:'' @ n, demo_rule\<lparr>ru_kind := ''ts_compile'', ru_name := n,
        ru_strings := (\<lambda>a. if a = ''srcs'' then [n @ ''.ts''] else if a = ''deps'' then deps else [])\<rparr>)"

definition demo_supply :: "string list supply_env" where
  "demo_supply =
     \<lparr>se_env = demo_env, se_rules = [demo_program ''lib'' ['':dep'', '':util''], demo_program ''dep'' [], demo_program ''util'' []],
      se_pkg = ''p'', se_name = ''app'', se_owner = (\<lambda>key called. (SourceEmission, List.insert key called)),
      se_called = (\<lambda>called key. key \<in> set called), se_imports = (\<lambda>pkg. map (\<lambda>f. pkg @ ''/'' @ f)), se_exportOwner = (\<lambda>_. []),
      se_producer = (\<lambda>_. None)\<rparr>"

definition demo_needs :: "(string \<times> requirement) list" where
  "demo_needs = map (\<lambda>d. (d, \<lparr>rq_edges = [], rq_unconditional = False\<rparr>)) ['':util'', '':lib'', '':dep'']"

lemma demo_settles: "settles demo_supply"
  by (simp add: settles_def demo_supply_def insert_absorb)

lemma demo_minimized: "fst (minimize_dependencies demo_supply demo_needs [] [] []) = ['':lib'']"
  by code_simp

text \<open>C2.  Minimizing over the counts of a fixed supply keeps the dependencies, and leaves the state,
  that computing the whole supply anew for every candidate does.\<close>

theorem minimize_is_exact:
  assumes "settles se" "distinct (map fst deps)"
  shows "minimize_dependencies se deps roots demands w = minimize_exactly se deps roots demands w"
proof -
  have "min_ok se deps roots demands (\<lparr>ms_retained = map fst deps, ms_supply = None, ms_walked = [], ms_walkComplete = False\<rparr>, w) (map fst deps, [], w)"
    using assms(2) by (simp add: min_ok_def walked_ok_def)
  from min_steps_ok[OF assms this, of "sort_strings (map fst deps)"] assms(2) show ?thesis
    by (simp add: minimize_dependencies_def minimize_exactly_def min_ok_def Let_def split: prod.splits)
qed

theorem minimize_is_exact_witness: "fst (minimize_exactly demo_supply demo_needs [] [] []) = ['':lib'']"
proof -
  have "distinct (map fst demo_needs)" by (simp add: demo_needs_def)
  from minimize_is_exact[OF demo_settles this, of "[]" "[]" "[]"] show ?thesis using demo_minimized by simp
qed

end
