(* ===== verification/StrictDeps.thy ===== *)
theory StrictDeps imports ActionPaths ExplainFiles "HOL-Library.AList" begin

text \<open>
  The strict-deps check of one compiler action, \<open>ts/tools/tsaction/check.go\<close>: the ownership
  manifest the rule writes, the owner of a file, and one finding per edge of the compiler's listing
  that leaves the direct deps.  A Go map to bools is the list of its keys.
\<close>

section \<open>The ownership manifest\<close>

record file_owner =
  fo_label :: string
  fo_direct :: bool

record ownership =
  ow_label :: string
  ow_own :: "string list"
  ow_direct :: "string list"
  ow_files :: "(string \<times> file_owner list) list"

datatype manifest_error =
    BadTree nat  \<comment> \<open>the line does not name a tree of the npm store\<close>
  | BadLine nat string

definition no_ownership :: ownership where
  "no_ownership = \<lparr>ow_label = [], ow_own = [], ow_direct = [], ow_files = []\<rparr>"

definition add_owner :: "string \<Rightarrow> file_owner \<Rightarrow> ownership \<Rightarrow> ownership" where
  "add_owner f fo ow =
     ow\<lparr>ow_files := AList.update f ((case map_of (ow_files ow) f of None \<Rightarrow> [] | Some os \<Rightarrow> os) @ [fo]) (ow_files ow)\<rparr>"

definition store_tree :: "string \<Rightarrow> bool" where
  "store_tree tree \<longleftrightarrow>
     \<not> is_abs tree \<and> path_clean tree = tree \<and> contains_str tree ''/.pnpm/'' \<and> npm_package_root tree = tree"

definition npm_line :: "nat \<Rightarrow> string \<Rightarrow> file_owner \<Rightarrow> ownership \<Rightarrow> manifest_error + ownership" where
  "npm_line n tree fo ow = (if store_tree tree then Inr (add_owner tree fo ow) else Inl (BadTree n))"

fun ownership_fields :: "nat \<Rightarrow> string \<Rightarrow> string list \<Rightarrow> ownership \<Rightarrow> manifest_error + ownership" where
  "ownership_fields n line [k, v] ow =
     (if k = ''label'' then Inr (ow\<lparr>ow_label := v\<rparr>)
      else if k = ''own'' then Inr (ow\<lparr>ow_own := v # ow_own ow\<rparr>)
      else if k = ''direct'' then Inr (ow\<lparr>ow_direct := v # ow_direct ow\<rparr>)
      else Inl (BadLine n line))"
| "ownership_fields n line [k, a, b] ow =
     (if k = ''file'' then Inr (add_owner b \<lparr>fo_label = a, fo_direct = False\<rparr> ow)
      else if k = ''npm-direct'' then npm_line n b \<lparr>fo_label = [], fo_direct = True\<rparr> ow
      else Inl (BadLine n line))"
| "ownership_fields n line [k, a, b, c] ow =
     (if k = ''npm'' then npm_line n c \<lparr>fo_label = b, fo_direct = False\<rparr> ow else Inl (BadLine n line))"
| "ownership_fields n line _ ow = Inl (BadLine n line)"

definition ownership_line :: "nat \<Rightarrow> string \<Rightarrow> ownership \<Rightarrow> manifest_error + ownership" where
  "ownership_line n line ow = (if line = [] then Inr ow else ownership_fields n line (split_on TAB line) ow)"

fun ownership_lines :: "nat \<Rightarrow> string list \<Rightarrow> ownership \<Rightarrow> manifest_error + ownership" where
  "ownership_lines n [] ow = Inr ow"
| "ownership_lines n (line # lines) ow =
     (case ownership_line n line ow of Inl e \<Rightarrow> Inl e | Inr ow' \<Rightarrow> ownership_lines (n + 1) lines ow')"

definition parse_ownership :: "string \<Rightarrow> manifest_error + ownership" where
  "parse_ownership text = ownership_lines 1 (split_on NL text) no_ownership"

section \<open>Owners\<close>

datatype owner_error =
    UnderPackage string  \<comment> \<open>under a package the npm closure does not hold\<close>
  | Unowned string

definition admitted :: "ownership \<Rightarrow> file_owner \<Rightarrow> bool" where
  "admitted ow fo \<longleftrightarrow> fo_direct fo \<or> fo_label fo \<in> set (ow_direct ow)"

definition choose_owner :: "ownership \<Rightarrow> file_owner list \<Rightarrow> string \<times> bool" where
  \<comment> \<open>an entry of the map holds at least one owner\<close>
  "choose_owner ow os =
     (case find (admitted ow) os of Some fo \<Rightarrow> (fo_label fo, True) | None \<Rightarrow> (fo_label (hd os), False))"

definition above_all :: "string \<Rightarrow> bool" where
  "above_all p \<longleftrightarrow> p = ''.'' \<or> p = ''/'' \<or> p = []"

function owners_above :: "ownership \<Rightarrow> string \<Rightarrow> file_owner list option" where
  "owners_above ow p =
     (if above_all p then None
      else case map_of (ow_files ow) p of
        Some os \<Rightarrow> Some os
      | None \<Rightarrow> owners_above ow (path_dir p))"
  by pat_completeness auto
termination
proof (relation "measure (\<lambda>(ow, p). if above_all p then 0 else Suc (length p))", goal_cases)
  case (2 ow p)
  then show ?case using path_dir_shorter[of p] by (auto simp: above_all_def)
qed simp

declare owners_above.simps [simp del]

definition owner_of :: "ownership \<Rightarrow> string \<Rightarrow> owner_error + string \<times> bool" where
  "owner_of ow to =
     (if to \<in> set (ow_own ow) then Inr (ow_label ow, True)
      else case owners_above ow to of
        Some os \<Rightarrow> Inr (choose_owner ow os)
      | None \<Rightarrow> if under_node_modules to then Inl (UnderPackage to) else Inl (Unowned to))"

section \<open>The check\<close>

record finding =
  fi_from :: string
  fi_verb :: string
  fi_spec :: string
  fi_to :: string
  fi_label :: string

definition verb :: "edge_kind \<Rightarrow> string" where
  "verb k = (case k of Reference \<Rightarrow> ''references'' | TypeReference \<Rightarrow> ''references types''
     | Augmentation \<Rightarrow> ''augments'' | Import \<Rightarrow> ''imports'')"

definition quoted :: "edge \<Rightarrow> string" where
  "quoted e = (if module_specifier (e_kind e) then [DQ] @ e_spec e @ [DQ] else [SQ] @ e_spec e @ [SQ])"

datatype check_error = Resolves string string string owner_error

definition finding_of :: "edge \<Rightarrow> string \<Rightarrow> finding" where
  "finding_of e label =
     \<lparr>fi_from = e_from e, fi_verb = verb (e_kind e), fi_spec = quoted e, fi_to = e_to e, fi_label = label\<rparr>"

fun check_edges :: "ownership \<Rightarrow> edge list \<Rightarrow> finding list \<Rightarrow> check_error + finding list" where
  "check_edges ow [] out = Inr out"
| "check_edges ow (e # es) out =
     (if e_from e \<notin> set (ow_own ow) then check_edges ow es out
      else case owner_of ow (e_to e) of
        Inl err \<Rightarrow> Inl (Resolves (e_from e) (verb (e_kind e)) (quoted e) err)
      | Inr (label, declared) \<Rightarrow>
          if declared \<or> finding_of e label \<in> set out then check_edges ow es out
          else check_edges ow es (out @ [finding_of e label]))"

text \<open>The order of the report; findings that agree on all three may come in any order, here in theirs.\<close>

definition finding_before :: "finding \<Rightarrow> finding \<Rightarrow> bool" where
  "finding_before a b \<longleftrightarrow>
     (if fi_from a \<noteq> fi_from b then bytes_le (fi_from a) (fi_from b)
      else if fi_spec a \<noteq> fi_spec b then bytes_le (fi_spec a) (fi_spec b)
      else bytes_le (fi_to a) (fi_to b))"

fun insert_finding :: "finding \<Rightarrow> finding list \<Rightarrow> finding list" where
  "insert_finding f [] = [f]"
| "insert_finding f (g # gs) = (if finding_before f g then f # g # gs else g # insert_finding f gs)"

definition check :: "ownership \<Rightarrow> listing \<Rightarrow> check_error + finding list" where
  "check ow l =
     (case check_edges ow (l_edges l) [] of Inl e \<Rightarrow> Inl e | Inr out \<Rightarrow> Inr (foldr insert_finding out []))"

definition report :: "ownership \<Rightarrow> finding list \<Rightarrow> string" where
  "report ow fs =
     ow_label ow @ '' imports files no direct dep provides:'' @ [NL] @
     concat (map (\<lambda>f. ''  '' @ fi_from f @ '' '' @ fi_verb f @ '' '' @ fi_spec f @ [NL] @
       ''    resolved to '' @ fi_to f @ [NL] @ ''    add '' @ fi_label f @ '' to deps'' @ [NL]) fs) @
     ''Each reaches this target only through another dep's own deps. Run Gazelle,'' @ [NL] @
     ''which writes deps from these edges, or add the labels above by hand.'' @ [NL]"

definition undeclared_text :: "string \<Rightarrow> string" where
  "undeclared_text rep = trim_suffix rep [NL]"

section \<open>What a target may use\<close>

text \<open>The deepest tree at or above a file that the manifest gives owners.\<close>

definition holds_tree :: "ownership \<Rightarrow> bool \<Rightarrow> string list \<Rightarrow> nat \<Rightarrow> file_owner list \<Rightarrow> bool" where
  "holds_tree ow rooted es k os \<longleftrightarrow>
     0 < k \<and> k \<le> length es \<and> map_of (ow_files ow) (place rooted (take k es)) = Some os \<and>
     (\<forall>j. k < j \<longrightarrow> j \<le> length es \<longrightarrow> map_of (ow_files ow) (place rooted (take j es)) = None)"

definition owned_path :: "ownership \<Rightarrow> string \<Rightarrow> file_owner list \<Rightarrow> bool" where
  "owned_path ow p os \<longleftrightarrow> (\<exists>rooted es k. p = place rooted es \<and> plain_elems es \<and> holds_tree ow rooted es k os)"

definition may_use :: "ownership \<Rightarrow> string \<Rightarrow> bool" where
  "may_use ow p \<longleftrightarrow> p \<in> set (ow_own ow) \<or> (\<exists>os. owned_path ow p os \<and> (\<exists>fo \<in> set os. fo_direct fo \<or> fo_label fo \<in> set (ow_direct ow)))"

definition clean_path :: "string \<Rightarrow> bool" where
  "clean_path p \<longleftrightarrow> (\<exists>rooted es. p = place rooted es \<and> plain_elems es)"

lemma place_above_all: "plain_elems es \<Longrightarrow> above_all (place rooted es) \<longleftrightarrow> es = []"
  using segments_place[of es rooted] by (auto simp: above_all_def segments_def place_def path_text_def)

lemma owners_above_tree:
  assumes "plain_elems es"
  shows "owners_above ow (place rooted es) = Some os \<longleftrightarrow> (\<exists>k. holds_tree ow rooted es k os)"
  using assms
proof (induction es rule: rev_induct)
  case Nil
  then show ?case by (subst owners_above.simps) (simp add: place_above_all holds_tree_def)
next
  case (snoc e es)
  have p: "plain_elems es" using snoc.prems by (simp add: plain_elems_def)
  have up: "path_dir (place rooted (es @ [e])) = place rooted es" using path_dir_place[OF snoc.prems] by simp
  have n: "\<not> above_all (place rooted (es @ [e]))" using place_above_all[OF snoc.prems] by simp
  show ?case
  proof (cases "map_of (ow_files ow) (place rooted (es @ [e]))")
    case None
    have "holds_tree ow rooted (es @ [e]) k os \<longleftrightarrow> holds_tree ow rooted es k os" for k
      using None by (auto simp: holds_tree_def le_Suc_eq)
    then show ?thesis using snoc.IH[OF p] None n up by (subst owners_above.simps) simp
  next
    case (Some os')
    have "holds_tree ow rooted (es @ [e]) k os \<longleftrightarrow> k = Suc (length es) \<and> os' = os" for k
      using Some by (auto simp: holds_tree_def le_Suc_eq dest: spec[where x = "Suc (length es)"])
    then show ?thesis using Some n by (subst owners_above.simps) simp
  qed
qed

lemma owned_path_above: "clean_path p \<Longrightarrow> owned_path ow p os \<longleftrightarrow> owners_above ow p = Some os"
  unfolding owned_path_def clean_path_def using owners_above_tree by blast

lemma owner_of_Inr:
  assumes "clean_path p" "owner_of ow p = Inr (label, declared)"
  shows "declared = may_use ow p"
proof (cases "p \<in> set (ow_own ow)")
  case True
  then show ?thesis using assms(2) by (simp add: owner_of_def may_use_def)
next
  case False
  then obtain os where os: "owners_above ow p = Some os" "choose_owner ow os = (label, declared)"
    using assms(2) by (auto simp: owner_of_def split: option.splits if_splits)
  have "may_use ow p \<longleftrightarrow> (\<exists>fo \<in> set os. admitted ow fo)"
    using False os(1) by (auto simp: may_use_def admitted_def owned_path_above[OF assms(1)])
  moreover have "declared \<longleftrightarrow> (\<exists>fo \<in> set os. admitted ow fo)"
    using os(2) by (auto simp: choose_owner_def find_Some_iff find_None_iff split: option.splits)
  ultimately show ?thesis by simp
qed

lemma owner_of_Inl:
  "clean_path p \<Longrightarrow> (\<exists>err. owner_of ow p = Inl err) \<longleftrightarrow> p \<notin> set (ow_own ow) \<and> (\<forall>os. \<not> owned_path ow p os)"
  by (auto simp: owner_of_def owned_path_above split: option.splits)

lemma set_insert_finding: "set (foldr insert_finding fs []) = set fs"
proof -
  have "set (insert_finding f gs) = insert f (set gs)" for f gs by (induction gs) auto
  then show ?thesis by (induction fs) auto
qed

lemma distinct_insert_finding: "distinct fs \<Longrightarrow> distinct (foldr insert_finding fs [])"
proof -
  have s: "set (insert_finding f gs) = insert f (set gs)" for f gs by (induction gs) auto
  have "f \<notin> set gs \<Longrightarrow> distinct gs \<Longrightarrow> distinct (insert_finding f gs)" for f gs by (induction gs) (auto simp: s)
  then show "distinct fs \<Longrightarrow> ?thesis" by (induction fs) (auto simp: set_insert_finding)
qed

lemma finding_before_trans: "finding_before a b \<Longrightarrow> finding_before b c \<Longrightarrow> finding_before a c"
  by (cases "fi_from a = fi_from b"; cases "fi_from b = fi_from c"; cases "fi_spec a = fi_spec b"; cases "fi_spec b = fi_spec c")
     (auto simp: finding_before_def dest: bytes_le_antisym bytes_le_trans split: if_splits)

lemma finding_before_total: "\<not> finding_before a b \<Longrightarrow> finding_before b a"
  using bytes_le_total by (auto simp: finding_before_def split: if_splits)

lemma sorted_findings: "sorted_wrt finding_before (foldr insert_finding fs [])"
proof -
  have s: "set (insert_finding f gs) = insert f (set gs)" for f gs by (induction gs) auto
  have "sorted_wrt finding_before gs \<Longrightarrow> sorted_wrt finding_before (insert_finding f gs)" for f gs
    by (induction gs) (auto simp: s dest: finding_before_total intro: finding_before_trans)
  then show ?thesis by (induction fs) auto
qed

definition undeclared :: "ownership \<Rightarrow> edge \<Rightarrow> bool" where
  "undeclared ow e \<longleftrightarrow> e_from e \<in> set (ow_own ow) \<and> \<not> may_use ow (e_to e)"

definition finding_edge :: "finding \<Rightarrow> edge \<Rightarrow> bool" where
  "finding_edge f e \<longleftrightarrow>
     fi_from f = e_from e \<and> fi_verb f = verb (e_kind e) \<and> fi_spec f = quoted e \<and> fi_to f = e_to e"

lemma check_edges_Inr:
  assumes "check_edges ow es out = Inr res" "\<forall>e \<in> set es. e_from e \<in> set (ow_own ow) \<longrightarrow> clean_path (e_to e)" "distinct out"
  shows "distinct res \<and> set out \<subseteq> set res \<and> (\<forall>f \<in> set res. f \<in> set out \<or> (\<exists>e \<in> set es. undeclared ow e \<and> finding_edge f e)) \<and>
    (\<forall>e \<in> set es. undeclared ow e \<longrightarrow> (\<exists>f \<in> set res. finding_edge f e)) \<and>
    (\<forall>e \<in> set es. e_from e \<in> set (ow_own ow) \<longrightarrow> e_to e \<in> set (ow_own ow) \<or> (\<exists>os. owned_path ow (e_to e) os))"
  using assms
proof (induction es arbitrary: out)
  case (Cons e es)
  show ?case
  proof (cases "e_from e \<in> set (ow_own ow)")
    case False
    then show ?thesis using Cons.IH[of out] Cons.prems by (auto simp: undeclared_def)
  next
    case True
    obtain label declared where o1: "owner_of ow (e_to e) = Inr (label, declared)"
      using Cons.prems(1) True by (auto split: sum.splits)
    have c: "clean_path (e_to e)" using Cons.prems(2) True by simp
    have d: "declared = may_use ow (e_to e)" by (rule owner_of_Inr[OF c o1])
    have own: "e_to e \<in> set (ow_own ow) \<or> (\<exists>os. owned_path ow (e_to e) os)" using owner_of_Inl[OF c, of ow] o1 by auto
    let ?f = "finding_of e label"
    define out1 where "out1 = (if declared \<or> ?f \<in> set out then out else out @ [?f])"
    have r: "check_edges ow es out1 = Inr res" using Cons.prems(1) True o1 by (auto simp: out1_def split: if_splits)
    have f: "finding_edge ?f e" by (simp add: finding_edge_def finding_of_def)
    have out: "set out \<subseteq> set out1" "\<forall>f \<in> set out1. f \<in> set out \<or> f = ?f \<and> \<not> declared" "declared \<or> ?f \<in> set out1" "distinct out1"
      using Cons.prems(3) by (auto simp: out1_def)
    have u: "undeclared ow e \<longleftrightarrow> \<not> declared" using True d by (simp add: undeclared_def)
    have tail: "\<forall>e \<in> set es. e_from e \<in> set (ow_own ow) \<longrightarrow> clean_path (e_to e)" using Cons.prems(2) by simp
    note ih = Cons.IH[OF r tail out(4)]
    have "\<forall>g \<in> set res. g \<in> set out \<or> (\<exists>x \<in> set (e # es). undeclared ow x \<and> finding_edge g x)"
    proof
      fix g
      assume "g \<in> set res"
      then consider "g \<in> set out" | "g = ?f" "undeclared ow e" | x where "x \<in> set es" "undeclared ow x" "finding_edge g x"
        using ih out(2) u by blast
      then show "g \<in> set out \<or> (\<exists>x \<in> set (e # es). undeclared ow x \<and> finding_edge g x)"
        by cases (use f in auto)
    qed
    moreover have "\<forall>x \<in> set (e # es). undeclared ow x \<longrightarrow> (\<exists>g \<in> set res. finding_edge g x)"
      using ih out(3) f u by auto
    ultimately show ?thesis using ih out(1) own by auto
  qed
qed simp

lemma check_edges_Inl:
  "check_edges ow es out = Inl err \<Longrightarrow>
   \<exists>e \<in> set es. e_from e \<in> set (ow_own ow) \<and> (\<exists>why. owner_of ow (e_to e) = Inl why \<and> err = Resolves (e_from e) (verb (e_kind e)) (quoted e) why)"
  by (induction es arbitrary: out) (auto split: if_splits sum.splits prod.splits)

section \<open>Properties\<close>

text \<open>C13.  The check fails exactly when an own file reaches a file that nothing owns.  Otherwise its
  findings are, each once and in order, exactly the edges of own files whose target is no own file and
  whose deepest owning tree no direct dep owns; with no finding, every edge stays in what may be used.\<close>

theorem check_exact:
  assumes "\<forall>e \<in> set (l_edges l). e_from e \<in> set (ow_own ow) \<longrightarrow> clean_path (e_to e)"
  shows "case check ow l of
      Inl err \<Rightarrow> \<exists>e \<in> set (l_edges l). e_from e \<in> set (ow_own ow) \<and> e_to e \<notin> set (ow_own ow) \<and> (\<forall>os. \<not> owned_path ow (e_to e) os)
    | Inr fs \<Rightarrow>
        (\<forall>e \<in> set (l_edges l). e_from e \<in> set (ow_own ow) \<longrightarrow> e_to e \<in> set (ow_own ow) \<or> (\<exists>os. owned_path ow (e_to e) os)) \<and>
        distinct fs \<and> sorted_wrt finding_before fs \<and>
        (\<forall>f \<in> set fs. \<exists>e \<in> set (l_edges l). undeclared ow e \<and> finding_edge f e) \<and>
        (\<forall>e \<in> set (l_edges l). undeclared ow e \<longrightarrow> (\<exists>f \<in> set fs. finding_edge f e)) \<and>
        (fs = [] \<longleftrightarrow> (\<forall>e \<in> set (l_edges l). e_from e \<in> set (ow_own ow) \<longrightarrow> may_use ow (e_to e)))"
proof (cases "check_edges ow (l_edges l) []")
  case (Inl err)
  then show ?thesis using check_edges_Inl[OF Inl] owner_of_Inl assms by (fastforce simp: check_def)
next
  case (Inr out)
  let ?fs = "foldr insert_finding out []"
  note c = check_edges_Inr[OF Inr assms]
  have "\<forall>f \<in> set ?fs. \<exists>e \<in> set (l_edges l). undeclared ow e \<and> finding_edge f e"
    "\<forall>e \<in> set (l_edges l). undeclared ow e \<longrightarrow> (\<exists>f \<in> set ?fs. finding_edge f e)"
    using c by (auto simp: set_insert_finding)
  moreover from this have "?fs = [] \<longleftrightarrow> (\<forall>e \<in> set (l_edges l). e_from e \<in> set (ow_own ow) \<longrightarrow> may_use ow (e_to e))"
    unfolding undeclared_def by (metis empty_iff list.set(1) last_in_set)
  ultimately show ?thesis using c Inr by (simp add: check_def distinct_insert_finding sorted_findings)
qed

text \<open>An own file imports a file of a direct dep, one of a tree in its store and one of another dep.\<close>

definition demo_ownership :: ownership where
  "demo_ownership =
     \<lparr>ow_label = ''//app'', ow_own = [''app/a.ts''], ow_direct = [''//lib''],
      ow_files = [(''lib/b.ts'', [\<lparr>fo_label = ''//lib'', fo_direct = False\<rparr>]),
        (''deep/c.ts'', [\<lparr>fo_label = ''//deep'', fo_direct = False\<rparr>]),
        (''node_modules/.pnpm/x/node_modules/x'', [\<lparr>fo_label = [], fo_direct = True\<rparr>])]\<rparr>"

definition demo_listing :: listing where
  "demo_listing = empty_listing\<lparr>l_edges :=
     [\<lparr>e_kind = Import, e_from = ''app/a.ts'', e_to = ''deep/c.ts'', e_spec = ''../deep/c''\<rparr>,
      \<lparr>e_kind = Import, e_from = ''app/a.ts'', e_to = ''lib/b.ts'', e_spec = ''../lib/b''\<rparr>,
      \<lparr>e_kind = Import, e_from = ''app/a.ts'', e_to = ''node_modules/.pnpm/x/node_modules/x/index.d.ts'', e_spec = ''x''\<rparr>,
      \<lparr>e_kind = Import, e_from = ''lib/b.ts'', e_to = ''nowhere.ts'', e_spec = ''y''\<rparr>]\<rparr>"

theorem check_exact_witness:
  "\<exists>fs. check demo_ownership demo_listing = Inr fs \<and> fs \<noteq> [] \<and>
     \<not> may_use demo_ownership ''deep/c.ts'' \<and> may_use demo_ownership ''node_modules/.pnpm/x/node_modules/x/index.d.ts''"
proof -
  have clean: "clean_path p" if "segments p \<noteq> []" "plain_elems (segments p)" "p = place (is_abs p) (segments p)" for p
    using that unfolding clean_path_def by blast
  have "clean_path ''deep/c.ts''" "clean_path ''lib/b.ts''" "clean_path ''node_modules/.pnpm/x/node_modules/x/index.d.ts''"
    by (rule clean; simp add: plain_elems_def segments_def place_def path_text_def is_abs_def)+
  then have c: "\<forall>e \<in> set (l_edges demo_listing). e_from e \<in> set (ow_own demo_ownership) \<longrightarrow> clean_path (e_to e)"
    by (simp add: demo_listing_def demo_ownership_def)
  have r: "check demo_ownership demo_listing = Inr [\<lparr>fi_from = ''app/a.ts'', fi_verb = ''imports'', fi_spec = [DQ] @ ''../deep/c'' @ [DQ], fi_to = ''deep/c.ts'', fi_label = ''//deep''\<rparr>]"
    by code_simp
  let ?c = "\<lparr>e_kind = Import, e_from = ''app/a.ts'', e_to = ''deep/c.ts'', e_spec = ''../deep/c''\<rparr>"
  let ?x = "\<lparr>e_kind = Import, e_from = ''app/a.ts'', e_to = ''node_modules/.pnpm/x/node_modules/x/index.d.ts'', e_spec = ''x''\<rparr>"
  note exact = check_exact[OF c, unfolded r sum.case]
  have "?x \<in> set (l_edges demo_listing)" by (simp add: demo_listing_def)
  then have "undeclared demo_ownership ?x \<longrightarrow> finding_edge \<lparr>fi_from = ''app/a.ts'', fi_verb = ''imports'', fi_spec = [DQ] @ ''../deep/c'' @ [DQ], fi_to = ''deep/c.ts'', fi_label = ''//deep''\<rparr> ?x"
    using exact by auto
  then have "may_use demo_ownership (e_to ?x)" by (simp add: finding_edge_def undeclared_def demo_ownership_def)
  moreover have "\<not> may_use demo_ownership ''deep/c.ts''" using exact by (auto simp: undeclared_def finding_edge_def demo_listing_def)
  ultimately show ?thesis using r by simp
qed

end
