(* ===== verification/Exclude.thy ===== *)
theory Exclude imports ActionPaths GoRegexp Tsconfig begin

text \<open>
  The sources an exclude entry keeps out of a program, \<open>ts/tools/tsaction/exclude.go\<close>.  The
  expression of an entry is a value of \<open>re\<close>; an entry comes from JSON and is valid UTF-8, so quoting
  its runes one by one is quoting its bytes.
\<close>

section \<open>Patterns\<close>

record excluded_src =
  ex_file :: string
  ex_entry :: string

definition absolute :: "string \<Rightarrow> string \<Rightarrow> string" where
  "absolute execroot p = (if is_abs p then p else path_join [execroot, p])"

definition not_slash :: "char \<Rightarrow> bool" where
  "not_slash c \<longleftrightarrow> c \<noteq> SL"

definition glob_char :: "char \<Rightarrow> re" where
  "glob_char c = (if c = CHR ''*'' then StarC True not_slash else if c = CHR ''?'' then Cls not_slash else Lit [c])"

definition component_re :: "string \<Rightarrow> re" where
  "component_re c =
     (if c = ''**'' then opt (Seq (Lit ''/'') (plusC False any_byte)) else seqs (Lit ''/'' # map glob_char c))"

definition exclude_components :: "string \<Rightarrow> string \<Rightarrow> string list" where
  "exclude_components dir entry =
     (let components = segments (absolute dir entry); lst = (if components = [] then [] else last components) in
      if contains_any lst ''.*?'' then components else components @ [''**'', ''*''])"

definition exclude_pattern :: "string \<Rightarrow> string \<Rightarrow> re" where
  "exclude_pattern dir entry = Seq (seqs (map component_re (exclude_components dir entry))) (Alt Eot (Lit ''/''))"

definition excluded_by :: "string \<Rightarrow> string \<Rightarrow> string \<Rightarrow> bool" where
  \<comment> \<open>\<open>MatchString\<close>; the expression is anchored at the start\<close>
  "excluded_by dir entry p \<longleftrightarrow> match_here (exclude_pattern dir entry) p \<noteq> None"

definition excluded_srcs :: "string list \<Rightarrow> string list \<Rightarrow> resolved option \<Rightarrow> string \<Rightarrow> excluded_src list" where
  "excluded_srcs own program chain execroot =
     (case chain of
        None \<Rightarrow> []
      | Some ch \<Rightarrow>
          (case r_exclude ch of
             None \<Rightarrow> []
           | Some entries \<Rightarrow>
               let listed = map path_clean program; dir = absolute execroot (r_excludeDir ch) in
               List.map_filter (\<lambda>f.
                 if path_ext f = ''.json'' \<or> path_clean f \<in> set listed then None
                 else map_option (\<lambda>entry. \<lparr>ex_file = f, ex_entry = entry\<rparr>)
                        (find (\<lambda>entry. excluded_by dir entry (absolute execroot f)) entries))
                 (sort_strings (remdups own))))"

definition report_excluded :: "string \<Rightarrow> string \<Rightarrow> excluded_src list \<Rightarrow> (string \<Rightarrow> string) \<Rightarrow> string" where
  \<comment> \<open>the last argument is \<open>%q\<close>\<close>
  "report_excluded label project hits quote =
     label @ '': srcs the program never read, each named by an exclude entry of '' @ project @ [SQ] @ ''s chain:'' @ [NL] @
     concat (map (\<lambda>h. ''  '' @ ex_file h @ [TAB] @ ''excluded by '' @ quote (ex_entry h) @ [NL]) hits) @
     ''The program is the srcs: drop the file from srcs, or the entry from exclude.'' @ [NL] @
     ''Gazelle writes srcs from the program'' @ [SQ] @ ''s listing and never one of these.''"

section \<open>The text an expression without groups and assertions reads\<close>

fun lang :: "re \<Rightarrow> string set" where
  "lang Eps = {[]}"
| "lang (Lit l) = {l}"
| "lang (Cls p) = {[c] |c. p c}"
| "lang (StarC g p) = {w. \<forall>c \<in> set w. p c}"
| "lang (Seq a b) = {u @ v |u v. u \<in> lang a \<and> v \<in> lang b}"
| "lang (Alt a b) = lang a \<union> lang b"
| "lang _ = {}"

fun plain_re :: "re \<Rightarrow> bool" where
  "plain_re (Seq a b) = (plain_re a \<and> plain_re b)"
| "plain_re (Alt a b) = (plain_re a \<and> plain_re b)"
| "plain_re (Grp n a) = False"
| "plain_re BolM = False"
| "plain_re EolM = False"
| "plain_re Eot = False"
| "plain_re WordB = False"
| "plain_re _ = True"

abbreviation ascii :: "string \<Rightarrow> bool" where
  "ascii s \<equiv> (\<forall>c \<in> set s. byte c < 128)"

lemma runs_ascii_only: "runs p z z' \<Longrightarrow> ascii (snd z) \<Longrightarrow> \<exists>w. snd z = w @ snd z' \<and> fst z' = rev w @ fst z \<and> (\<forall>c \<in> set w. p c)"
proof (induction rule: runs.induct)
  case (runs_more p c r b z)
  then have "rune_len (c # r) = 1" by (simp add: rune_len_ascii)
  with runs_more obtain w where "r = w @ snd z" "fst z = rev w @ c # b" "\<forall>c \<in> set w. p c" by (auto simp: advance_def)
  then show ?case using runs_more.hyps(1) by (intro exI[of _ "c # w"]) simp
qed simp

lemma mt_lang:
  "mt r z cs z' cs' \<Longrightarrow> plain_re r \<Longrightarrow> ascii (snd z) \<Longrightarrow> \<exists>u \<in> lang r. snd z = u @ snd z' \<and> fst z' = rev u @ fst z"
proof (induction rule: mt.induct)
  case (mt_Lit z l cs)
  then show ?case by (auto simp: advance_def prefix_drop_append prefix_def)
next
  case (mt_Cls z c r p cs)
  then have "rune_len (snd z) = 1" by (simp add: rune_len_ascii)
  then show ?case using mt_Cls by (auto simp: advance_def)
next
  case (mt_Star p z z' g cs)
  then show ?case using runs_ascii_only by fastforce
next
  case (mt_Seq a z cs z1 cs1 b z2 cs2)
  then obtain u where u: "u \<in> lang a" "snd z = u @ snd z1" "fst z1 = rev u @ fst z" by auto
  then have "ascii (snd z1)" using mt_Seq.prems(2) by simp
  then obtain v where "v \<in> lang b" "snd z1 = v @ snd z2" "fst z2 = rev v @ fst z1" using mt_Seq by auto
  then show ?case using u by (intro bexI[of _ "u @ v"]) auto
qed auto

lemma lang_mt:
  "u \<in> lang r \<Longrightarrow> plain_re r \<Longrightarrow> ascii u \<Longrightarrow> mt r (b, u @ s) cs (rev u @ b, s) cs"
proof (induction r arbitrary: u b s)
  case (Cls p)
  then obtain c where "u = [c]" "p c" "byte c < 128" by auto
  then show ?case using mt_Cls[of "(b, c # s)" c s p cs] by (simp add: rune_len_ascii advance_def)
next
  case (Seq r1 r2)
  then obtain v w where u: "u = v @ w" "v \<in> lang r1" "w \<in> lang r2" by auto
  then show ?case using mt_Seq[OF Seq.IH(1)[of v b "w @ s"] Seq.IH(2)[of w "rev v @ b" s]] Seq.prems by simp
qed (auto intro: mt.intros mt_LitI mt_StarI)

lemma lang_seqs_Cons: "lang (seqs (r # rs)) = {u @ v |u v. u \<in> lang r \<and> v \<in> lang (seqs rs)}"
  by (cases rs) auto

lemma plain_seqs: "list_all plain_re rs \<Longrightarrow> plain_re (seqs rs)"
  by (induction rs rule: seqs.induct) auto

section \<open>Patterns are globs\<close>

fun glob :: "string \<Rightarrow> string \<Rightarrow> bool" where
  "glob [] s = (s = [])"
| "glob (p # ps) s =
     (if p = CHR ''*'' then (\<exists>u v. s = u @ v \<and> SL \<notin> set u \<and> glob ps v)
      else case s of [] \<Rightarrow> False | c # s' \<Rightarrow> (if p = CHR ''?'' then c \<noteq> SL else c = p) \<and> glob ps s')"

fun path_glob :: "string list \<Rightarrow> string \<Rightarrow> bool" where
  "path_glob [] w = (w = [])"
| "path_glob (c # cs) w =
     (if c = ''**'' then path_glob cs w \<or> (\<exists>u v. w = SL # u @ v \<and> u \<noteq> [] \<and> NL \<notin> set u \<and> path_glob cs v)
      else \<exists>u v. w = SL # u @ v \<and> glob c u \<and> path_glob cs v)"

lemma lang_Cls_Seq: "lang (Seq (Cls p) r) = {x # v |x v. p x \<and> v \<in> lang r}"
proof (intro set_eqI iffI)
  fix u
  assume "u \<in> {x # v |x v. p x \<and> v \<in> lang r}"
  then obtain x v where "u = [x] @ v" "p x" "v \<in> lang r" by auto
  then show "u \<in> lang (Seq (Cls p) r)" unfolding lang.simps by blast
qed auto

lemma lang_glob_char:
  "lang (glob_char c) = (if c = CHR ''*'' then {u. SL \<notin> set u} else if c = CHR ''?'' then {[x] |x. x \<noteq> SL} else {[c]})"
  by (auto simp: glob_char_def not_slash_def)

lemma lang_glob: "lang (seqs (map glob_char p)) = {u. glob p u}"
proof (induction p)
  case (Cons c p)
  have "u \<in> {a @ v |a v. a \<in> {[x] |x. x \<noteq> SL} \<and> glob p v} \<longleftrightarrow> (\<exists>x v. u = x # v \<and> x \<noteq> SL \<and> glob p v)" for u
  proof (cases u)
    case (Cons x v)
    have "u \<in> {a @ v |a v. a \<in> {[x] |x. x \<noteq> SL} \<and> glob p v} \<longleftrightarrow> x \<noteq> SL \<and> glob p v"
      unfolding Cons by (auto intro: exI[of _ "[x]"])
    then show ?thesis using Cons by simp
  qed simp
  note q = this
  have "lang (seqs (map glob_char (c # p))) = {a @ v |a v. a \<in> lang (glob_char c) \<and> glob p v}"
    unfolding list.map lang_seqs_Cons Cons.IH by simp
  also have "\<dots> = {u. glob (c # p) u}"
  proof (rule set_eqI)
    fix u
    show "u \<in> {a @ v |a v. a \<in> lang (glob_char c) \<and> glob p v} \<longleftrightarrow> u \<in> {u. glob (c # p) u}"
    proof (cases "c = CHR ''?''")
      case True
      then show ?thesis using q[of u] by (cases u) (simp_all add: lang_glob_char)
    next
      case False
      then show ?thesis by (cases u) (auto simp: lang_glob_char)
    qed
  qed
  finally show ?case .
qed simp

lemma lang_slash: "lang (Seq (Lit ''/'') r) = {SL # v |v. v \<in> lang r}"
  by simp

lemma lang_component:
  "lang (component_re c) =
     (if c = ''**'' then {[]} \<union> {SL # v |v. v \<noteq> [] \<and> NL \<notin> set v} else {SL # v |v. glob c v})"
proof (cases "c = ''**''")
  case True
  have "v \<in> lang (plusC False any_byte) \<longleftrightarrow> v \<noteq> [] \<and> NL \<notin> set v" for v
    unfolding plusC_def lang_Cls_Seq by (cases v) (auto simp: any_byte_def)
  then have "lang (plusC False any_byte) = {v. v \<noteq> [] \<and> NL \<notin> set v}" by blast
  then have "lang (Seq (Lit ''/'') (plusC False any_byte)) = {SL # v |v. v \<noteq> [] \<and> NL \<notin> set v}"
    unfolding lang_slash by simp
  moreover have "lang (Alt a re.Eps) = {[]} \<union> lang a" for a by simp
  ultimately show ?thesis unfolding component_re_def opt_def if_P[OF True] by (simp only:)
next
  case False
  then show ?thesis by (simp add: component_re_def lang_seqs_Cons lang_glob del: seqs.simps)
qed

lemma lang_path: "w \<in> lang (seqs (map component_re cs)) \<longleftrightarrow> path_glob cs w"
proof (induction cs arbitrary: w)
  case (Cons c cs)
  have "w \<in> lang (seqs (map component_re (c # cs))) \<longleftrightarrow> (\<exists>u v. w = u @ v \<and> u \<in> lang (component_re c) \<and> path_glob cs v)"
    unfolding list.map lang_seqs_Cons using Cons.IH by blast
  also have "\<dots> \<longleftrightarrow> path_glob (c # cs) w"
  proof (cases "c = ''**''")
    case True
    have "(\<exists>u v. w = u @ v \<and> u \<in> {[]} \<union> {SL # v |v. v \<noteq> [] \<and> NL \<notin> set v} \<and> path_glob cs v) \<longleftrightarrow>
        path_glob cs w \<or> (\<exists>u v. w = SL # u @ v \<and> u \<noteq> [] \<and> NL \<notin> set u \<and> path_glob cs v)"
      (is "?l \<longleftrightarrow> ?r")
    proof
      assume ?r
      then show ?l
      proof (elim disjE exE conjE)
        assume "path_glob cs w"
        then show ?l by (intro exI[of _ "[]"] exI[of _ w]) simp
      next
        fix u v
        assume "w = SL # u @ v" "u \<noteq> []" "NL \<notin> set u" "path_glob cs v"
        then show ?l by (intro exI[of _ "SL # u"] exI[of _ v]) simp
      qed
    next
      assume ?l
      then obtain u v where l: "w = u @ v" "u = [] \<or> (\<exists>x. u = SL # x \<and> x \<noteq> [] \<and> NL \<notin> set x)" "path_glob cs v" by auto
      from l(2) show ?r
      proof (elim disjE exE conjE)
        fix x
        assume "u = SL # x" "x \<noteq> []" "NL \<notin> set x"
        then show ?r using l(1,3) by (intro disjI2 exI[of _ x] exI[of _ v]) simp
      qed (use l in simp)
    qed
    then show ?thesis using True by (simp add: lang_component)
  next
    case False
    have "(\<exists>u v. w = u @ v \<and> u \<in> {SL # v |v. glob c v} \<and> path_glob cs v) \<longleftrightarrow> (\<exists>u v. w = SL # u @ v \<and> glob c u \<and> path_glob cs v)"
      by (simp, metis append_Cons)
    then show ?thesis using False by (simp add: lang_component)
  qed
  finally show ?case .
qed simp

lemma plain_component: "plain_re (component_re c)"
proof -
  have "list_all plain_re (Lit ''/'' # map glob_char c)" by (auto simp: list_all_iff glob_char_def)
  then show ?thesis using plain_seqs[of "Lit ''/'' # map glob_char c"] by (auto simp: component_re_def opt_def plusC_def simp del: seqs.simps)
qed

lemma excluded_by_glob:
  assumes "ascii p"
  shows "excluded_by dir entry p \<longleftrightarrow>
    (\<exists>w rest. p = w @ rest \<and> path_glob (exclude_components dir entry) w \<and> (rest = [] \<or> hd rest = SL))"
proof -
  let ?cs = "exclude_components dir entry" let ?r = "seqs (map component_re ?cs)"
  have plain: "plain_re ?r" by (rule plain_seqs) (simp add: list_all_iff plain_component)
  show ?thesis
  proof
    assume "excluded_by dir entry p"
    then obtain cs where "match_here (exclude_pattern dir entry) p = Some cs" by (auto simp: excluded_by_def)
    then obtain z' where "mt (exclude_pattern dir entry) ([], p) [] z' cs" using match_here_sound by blast
    then obtain z1 cs1 where m: "mt ?r ([], p) [] z1 cs1" "mt (Alt Eot (Lit ''/'')) z1 cs1 z' cs"
      unfolding exclude_pattern_def by (auto elim: mt_SeqE)
    obtain w where w: "w \<in> lang ?r" "p = w @ snd z1" using mt_lang[OF m(1) plain] assms by auto
    have "snd z1 = [] \<or> hd (snd z1) = SL" using m(2) by (auto elim!: mt_AltE mt_EotE dest!: mt_Lit_consumes)
    then show "\<exists>w rest. p = w @ rest \<and> path_glob ?cs w \<and> (rest = [] \<or> hd rest = SL)" using w by (auto simp: lang_path)
  next
    assume "\<exists>w rest. p = w @ rest \<and> path_glob ?cs w \<and> (rest = [] \<or> hd rest = SL)"
    then obtain w rest where w: "p = w @ rest" "w \<in> lang ?r" "rest = [] \<or> hd rest = SL" by (auto simp: lang_path)
    have "mt ?r ([], w @ rest) [] (rev w @ [], rest) []" by (rule lang_mt[OF w(2) plain]) (use assms w(1) in auto)
    moreover have "\<exists>z. mt (Alt Eot (Lit ''/'')) (rev w @ [], rest) [] z []"
    proof (cases rest)
      case Nil
      then show ?thesis using mt_AltL[OF mt_EotI] by blast
    next
      case (Cons c r)
      then have "mt (Lit ''/'') (rev w @ [], ''/'' @ r) [] (rev ''/'' @ rev w @ [], r) []" by (intro mt_LitI)
      then show ?thesis using Cons w(3) mt_AltR by fastforce
    qed
    ultimately have "\<exists>z. mt (exclude_pattern dir entry) ([], p) [] z []" unfolding exclude_pattern_def w(1) by (blast intro: mt_Seq)
    then show "excluded_by dir entry p" unfolding excluded_by_def using match_here_complete by blast
  qed
qed

text \<open>A component without a wildcard names itself.\<close>

definition literal :: "string \<Rightarrow> bool" where
  "literal c \<longleftrightarrow> CHR ''*'' \<notin> set c \<and> CHR ''?'' \<notin> set c"

lemma glob_literal: "literal c \<Longrightarrow> glob c u \<longleftrightarrow> u = c"
  by (induction c arbitrary: u) (auto simp: literal_def split: list.splits)

lemma path_glob_literal:
  "\<forall>c \<in> set cs. literal c \<Longrightarrow> path_glob (cs @ ds) w \<longleftrightarrow> (\<exists>v. w = concat (map ((#) SL) cs) @ v \<and> path_glob ds v)"
proof (induction cs arbitrary: w)
  case (Cons c cs)
  have "c \<noteq> ''**''" using Cons.prems by (auto simp: literal_def)
  then show ?case using Cons by (auto simp: glob_literal)
qed simp

lemma glob_star: "glob ''*'' u \<longleftrightarrow> SL \<notin> set u"
  by auto

lemma path_glob_tree:
  "(\<exists>w rest. p = w @ rest \<and> path_glob [''**'', ''*''] w \<and> (rest = [] \<or> hd rest = SL)) \<longleftrightarrow> has_prefix p ''/''"
proof
  assume "has_prefix p ''/''"
  then obtain t where t: "p = SL # t" by (cases p) auto
  let ?x = "takeWhile (\<lambda>c. c \<noteq> SL) t" let ?r = "dropWhile (\<lambda>c. c \<noteq> SL) t"
  have "path_glob [''**'', ''*''] (SL # ?x)" by (auto dest: set_takeWhileD)
  moreover have "?r = [] \<or> hd ?r = SL" using hd_dropWhile[of "\<lambda>c. c \<noteq> SL" t] by blast
  moreover have "p = (SL # ?x) @ ?r" by (simp add: t)
  ultimately show "\<exists>w rest. p = w @ rest \<and> path_glob [''**'', ''*''] w \<and> (rest = [] \<or> hd rest = SL)" by blast
qed auto

lemma place_concat: "es \<noteq> [] \<Longrightarrow> place True es = concat (map ((#) SL) es)"
  unfolding place_def by (induction "[SL]" es rule: join_on.induct) auto

lemma front_shift:
  "(\<exists>w rest. p = w @ rest \<and> (\<exists>v. w = b @ v \<and> g v) \<and> r rest) \<longleftrightarrow>
   (\<exists>t. p = b @ t \<and> (\<exists>w rest. t = w @ rest \<and> g w \<and> r rest))"
  by (metis append.assoc)

lemma excluded_tree:
  assumes "ascii p" "segments (absolute dir entry) \<noteq> []" "\<forall>c \<in> set (segments (absolute dir entry)). literal c"
    "\<not> contains_any (last (segments (absolute dir entry))) ''.*?''"
  shows "excluded_by dir entry p \<longleftrightarrow> has_prefix p (place True (segments (absolute dir entry)) @ ''/'')"
proof -
  let ?es = "segments (absolute dir entry)"
  have c: "exclude_components dir entry = ?es @ [''**'', ''*'']" using assms(2,4) by (simp add: exclude_components_def)
  have "excluded_by dir entry p \<longleftrightarrow>
      (\<exists>t. p = place True ?es @ t \<and> (\<exists>w rest. t = w @ rest \<and> path_glob [''**'', ''*''] w \<and> (rest = [] \<or> hd rest = SL)))"
    unfolding excluded_by_glob[OF assms(1)] c path_glob_literal[OF assms(3)] place_concat[OF assms(2)] by (rule front_shift)
  also have "\<dots> \<longleftrightarrow> (\<exists>t. p = place True ?es @ t \<and> has_prefix t ''/'')" unfolding path_glob_tree ..
  also have "\<dots> \<longleftrightarrow> has_prefix p (place True ?es @ ''/'')" by (auto simp: prefix_def)
  finally show ?thesis .
qed

section \<open>Property\<close>

text \<open>C34.  On an ASCII path, the expression of an exclude entry holds exactly when a front part of the
  path, up to a slash or its end, is named by the entry's components as a glob: a star any run within
  a component, a question mark one character of it, two stars any depth.  An entry without wildcards and dots in
  its last component holds exactly below the directory it names.\<close>

theorem exclude_is_glob:
  assumes "ascii p"
  shows "(excluded_by dir entry p \<longleftrightarrow>
      (\<exists>w rest. p = w @ rest \<and> path_glob (exclude_components dir entry) w \<and> (rest = [] \<or> hd rest = SL))) \<and>
    (segments (absolute dir entry) \<noteq> [] \<and> (\<forall>c \<in> set (segments (absolute dir entry)). literal c) \<and>
      \<not> contains_any (last (segments (absolute dir entry))) ''.*?'' \<longrightarrow>
      (excluded_by dir entry p \<longleftrightarrow> has_prefix p (place True (segments (absolute dir entry)) @ ''/'')))"
  using excluded_by_glob[OF assms] excluded_tree[OF assms] by blast

theorem exclude_is_glob_witness:
  "excluded_by ''/w/app'' ''out'' ''/w/app/out/a/b.ts'' \<and> \<not> excluded_by ''/w/app'' ''out'' ''/w/app/outer.ts''"
proof -
  have e: "segments (absolute ''/w/app'' ''out'') = [''w'', ''app'', ''out'']" by code_simp
  have "excluded_by ''/w/app'' ''out'' p \<longleftrightarrow> has_prefix p (place True [''w'', ''app'', ''out''] @ ''/'')" if "ascii p" for p
    using exclude_is_glob[OF that, of "''/w/app''" "''out''", THEN conjunct2] by (simp add: e literal_def contains_any_def)
  then show ?thesis by (simp add: place_def byte_def)
qed

end
