(* ===== verification/ShowConfig.thy ===== *)
theory ShowConfig imports ActionPaths Tsconfig "HOL-Library.AList" begin

text \<open>
  The program's tsconfig, \<open>ts/tools/tsaction/showconfig.go\<close>: the first config, which tsgo reads to
  print the options of the chain, and the config the action compiles with.  tsgo's --showConfig is a
  parameter, as is the disk; a value of a config is a \<open>json\<close>, a Go map an association list.
  The values compared without case are names of ASCII letters, so folding is lowering.
\<close>

section \<open>Options\<close>

record effective_options =
  eo_compilerOptions :: "(string \<times> json) list"
  eo_target :: string
  eo_jsx :: string
  eo_jsxImportSource :: string
  eo_module :: string
  eo_types :: "string list option"
  eo_typeRoots :: "string list option"
  eo_isolatedDeclarations :: bool

record oxc_options =
  ox_target :: string
  ox_jsx :: string
  ox_jsxImportSource :: string
  ox_module :: string

definition oxc_flags :: "oxc_options \<Rightarrow> string list" where
  "oxc_flags x =
     (if ox_target x \<noteq> [] then [''--target'', ox_target x] else []) @
     (if ox_jsx x \<noteq> [] then [''--jsx'', ox_jsx x] else []) @
     (if ox_jsxImportSource x \<noteq> [] then [''--jsx-import-source'', ox_jsxImportSource x] else []) @
     (if top_level_await (ox_module x) (ox_target x) then [''--top-level-await''] else [])"

record action_config =
  ac_tsgo :: string
  ac_project :: string
  ac_baseline :: string
  ac_out :: string
  ac_options :: string
  ac_binDir :: string
  ac_jsx :: string
  ac_module :: string
  ac_typesDeps :: "string list"
  ac_typeInputs :: "string list"
  ac_srcs :: "string list"
  ac_isolatedDeclarations :: bool
  ac_libCheck :: bool
  ac_sourceOnly :: bool
  ac_javaScriptInputs :: bool

record tsconfig_file =
  tf_options :: "(string \<times> json) list"
  tf_include :: "string list"
  tf_files :: "string list"
  tf_exclude :: "string list"

section \<open>The sources of an action\<close>

definition has_ts_src :: "action_config \<Rightarrow> bool" where
  "has_ts_src a \<longleftrightarrow> list_ex (\<lambda>s. (path_ext s = ''.ts'' \<or> path_ext s = ''.tsx'') \<and> \<not> has_suffix s ''.d.ts'') (ac_srcs a)"

definition has_tsx_src :: "action_config \<Rightarrow> bool" where
  "has_tsx_src a \<longleftrightarrow> list_ex (\<lambda>s. path_ext s = ''.tsx'') (ac_srcs a)"

definition has_javascript_src :: "action_config \<Rightarrow> bool" where
  "has_javascript_src a \<longleftrightarrow> ac_javaScriptInputs a \<or> list_ex is_javascript (ac_srcs a)"

section \<open>What the rule declared and what the chain says\<close>

datatype tsconfig_error =
    NeedsFlag string
  | BadChain cfg_error
  | WriteFailed string
  | ShowFailed
  | PreserveUndeclared string
  | PreserveDeclared string string
  | DropModule string string string
  | DeclareModule string string string
  | OtherModule string string string string
  | NoTypesEntry string string string

definition check_jsx :: "action_config \<Rightarrow> string \<Rightarrow> tsconfig_error option" where
  "check_jsx a effective =
     (if \<not> has_tsx_src a then None
      else let declared = (ac_jsx a = ''preserve''); preserve = (to_lower effective = ''preserve'') in
        if preserve \<and> \<not> declared then Some (PreserveUndeclared (ac_project a))
        else if declared \<and> \<not> preserve then Some (PreserveDeclared (ac_project a) effective)
        else None)"

definition check_module :: "action_config \<Rightarrow> string \<Rightarrow> tsconfig_error option" where
  "check_module a effective =
     (if \<not> has_ts_src a then None
      else let want = (if oxc_emits effective then [] else to_lower effective) in
        if ac_module a = want then None
        else if want = [] then Some (DropModule (ac_project a) effective (ac_module a))
        else if ac_module a = [] then Some (DeclareModule (ac_project a) effective want)
        else Some (OtherModule (ac_project a) effective (ac_module a) want))"

definition config_extends :: "action_config \<Rightarrow> string \<Rightarrow> string list" where
  "config_extends a dir =
     [file_relative dir (ac_baseline a)] @ (if ac_project a \<noteq> [] then [file_relative dir (ac_project a)] else [])"

section \<open>Types entries\<close>

definition typesEntryExtensions :: "string list" where
  "typesEntryExtensions = [''.ts'', ''.tsx'', ''.d.ts'', ''.mts'', ''.d.mts'', ''.cts'', ''.d.cts'']"

definition types_entry_file :: "string \<Rightarrow> (string \<Rightarrow> bool) \<Rightarrow> string" where
  "types_entry_file p exists =
     (if exists p then p
      else case find (\<lambda>ext. exists (p @ ext)) typesEntryExtensions of
        Some ext \<Rightarrow> p @ ext
      | None \<Rightarrow> let index = path_join [p, ''index.d.ts''] in if exists index then index else [])"

text \<open>The files of the path-shaped entries, in order.\<close>

fun entry_roots ::
    "action_config \<Rightarrow> (string \<Rightarrow> bool) \<Rightarrow> string \<Rightarrow> string \<Rightarrow> string list \<Rightarrow> string list \<Rightarrow> string list
     \<Rightarrow> tsconfig_error + string list \<times> string list" where
  "entry_roots a exists projectDir dir [] names roots = Inr (names, roots)"
| "entry_roots a exists projectDir dir (entry # es) names roots =
     (if \<not> is_relative entry then entry_roots a exists projectDir dir es (names @ [entry]) roots
      else
        let target = path_join [projectDir, entry]; f0 = types_entry_file target exists;
            f = (if f0 = [] then types_entry_file (path_join [ac_binDir a, target]) exists else f0)
        in if f = [] then Inl (NoTypesEntry entry (ac_project a) target)
           else entry_roots a exists projectDir dir es names (roots @ [file_relative dir f]))"

definition config_types ::
    "action_config \<Rightarrow> (string \<Rightarrow> bool) \<Rightarrow> effective_options \<Rightarrow> string \<Rightarrow> tsconfig_error + string list option \<times> string list" where
  \<comment> \<open>the first argument of the disk is \<open>isFile\<close>; no names means the option stays as it is\<close>
  "config_types a is_file eff dir =
     (case eo_types eff of
        None \<Rightarrow> Inr (if eo_typeRoots eff \<noteq> None then None else Some (ac_typesDeps a), [])
      | Some entries \<Rightarrow>
          let projectDir = (if ac_project a = [] then ''.'' else path_dir (ac_project a));
              declared = map path_clean (ac_typeInputs a);
              exists = (\<lambda>f. path_clean f \<in> set declared \<or> is_file f)
          in case entry_roots a exists projectDir dir entries [] [] of
               Inl e \<Rightarrow> Inl e
             | Inr (names, roots) \<Rightarrow> Inr (Some names, roots))"

section \<open>Paths and roots of the chain\<close>

definition rewrite_path :: "action_config \<Rightarrow> resolved \<Rightarrow> string \<Rightarrow> string \<Rightarrow> string list" where
  "rewrite_path a chain dir v =
     (if is_abs v then [v]
      else let joined = path_join [r_pathsDir chain, v] in
        if \<not> under_output_tree (r_pathsDir chain) \<and> under_output_tree joined
        then [explicitly_relative (relative_path dir joined)]
        else let target = compiler_path joined in
          [explicitly_relative (relative_path dir target)] @
          (if ac_binDir a \<noteq> [] then [explicitly_relative (relative_path dir (path_join [ac_binDir a, target]))] else []))"

definition config_paths :: "action_config \<Rightarrow> resolved \<Rightarrow> string \<Rightarrow> paths option" where
  "config_paths a chain dir =
     map_option (\<lambda>ps. fold (\<lambda>(key, vs) out. paths_set out key (concat (map (rewrite_path a chain dir) vs))) ps [])
       (r_paths chain)"

definition chain_roots :: "action_config \<Rightarrow> resolved option \<Rightarrow> string \<Rightarrow> string list \<times> string list \<times> string list" where
  "chain_roots a chain dir =
     (case chain of
        None \<Rightarrow> ([], [], [])
      | Some ch \<Rightarrow>
          ((case r_files ch of None \<Rightarrow> [] | Some fs \<Rightarrow> rebased dir (r_filesDir ch) fs),
           (case r_include ch of
              Some inc \<Rightarrow> rebased dir (r_includeDir ch) inc
            | None \<Rightarrow> if r_files ch = None then rebased dir (path_dir (ac_project a)) [''**/*''] else []),
           (case r_exclude ch of None \<Rightarrow> [] | Some ex \<Rightarrow> rebased dir (r_excludeDir ch) ex)))"

definition project_spec :: "string \<Rightarrow> string \<Rightarrow> string" where
  "project_spec dir spec = (if is_abs spec then spec else file_relative dir (compiler_path (path_join [dir, spec])))"

definition project_from :: "string \<Rightarrow> string list \<Rightarrow> string \<Rightarrow> string list" where
  "project_from dir specs src =
     map (\<lambda>spec. if under_output_tree src \<or> \<not> under_output_tree (path_join [dir, spec]) then project_spec dir spec else spec) specs"

section \<open>The config of the action\<close>

definition set_options :: "(string \<times> json) list \<Rightarrow> (string \<times> json) list \<Rightarrow> (string \<times> json) list" where
  "set_options new opts = fold (\<lambda>(k, v). AList.update k v) new opts"

definition fixed_options :: "action_config \<Rightarrow> effective_options \<Rightarrow> string \<Rightarrow> (string \<times> json) list" where
  "fixed_options a eff dir =
     [(''rootDirs'', JArr [JStr (relative_path dir []), JStr (relative_path dir (ac_binDir a))]),
      (''rootDir'', JStr (relative_path dir [])),
      (''composite'', JBool False), (''incremental'', JBool False),
      (''declaration'', JBool (ac_isolatedDeclarations a \<or> eo_isolatedDeclarations eff)),
      (''declarationMap'', JBool False), (''emitDeclarationOnly'', JBool False), (''declarationDir'', JNull)]"

definition build_options ::
    "action_config \<Rightarrow> effective_options \<Rightarrow> resolved option \<Rightarrow> string \<Rightarrow> string list option \<Rightarrow> (string \<times> json) list" where
  "build_options a eff chain dir types =
     set_options
       (fixed_options a eff dir @
        (case types of None \<Rightarrow> [] | Some ns \<Rightarrow> [(''types'', JArr (map JStr ns))]) @
        (if has_javascript_src a then [(''allowJs'', JBool True)] else []) @
        (case Option.bind chain (\<lambda>ch. config_paths a ch dir) of None \<Rightarrow> [] | Some ps \<Rightarrow> [(''paths'', marshal_paths ps)]) @
        (if ac_isolatedDeclarations a then [(''isolatedDeclarations'', JBool True)] else []) @
        (if ac_libCheck a then [(''skipLibCheck'', JBool False)] else []))
       (eo_compilerOptions eff)"

definition src_entry :: "string \<Rightarrow> string \<Rightarrow> string" where
  "src_entry dir s = file_relative dir (compiler_path s)"

definition build_config ::
    "action_config \<Rightarrow> (string \<Rightarrow> bool) \<Rightarrow> effective_options \<Rightarrow> string list \<Rightarrow> resolved option \<Rightarrow> string \<Rightarrow> tsconfig_error + tsconfig_file" where
  "build_config a is_file eff roots chain dir =
     (case config_types a is_file eff dir of
        Inl e \<Rightarrow> Inl e
      | Inr (types, typesRoots0) \<Rightarrow>
          let (files0, include0, exclude0) = chain_roots a chain dir;
              proj = (\<lambda>specs src. case chain of None \<Rightarrow> map (project_spec dir) specs | Some ch \<Rightarrow> project_from dir specs (src ch));
              include = proj include0 r_includeDir;
              typesRoots = map (project_spec dir) typesRoots0;
              named = map (\<lambda>p. path_clean (project_spec dir p)) roots;
              entries = map (src_entry dir) (ac_srcs a);
              src = map path_clean entries
          in Inr \<lparr>tf_options = build_options a eff chain dir types,
                  tf_include = include @ filter (\<lambda>e. path_clean e \<notin> set named) entries @ filter (\<lambda>p. path_clean p \<notin> set src) typesRoots,
                  tf_files = proj files0 r_filesDir, tf_exclude = proj exclude0 r_excludeDir\<rparr>)"

section \<open>The step\<close>

text \<open>The first config and what a run does to the disk.\<close>

record first_config =
  fc_extends :: "string list"
  fc_files :: "string list option"
  fc_include :: "string list option"
  fc_allowJs :: bool

datatype config_act =
    WriteFirst string first_config
  | WriteConfig string tsconfig_file
  | WriteOptions string oxc_options
  | Remove string

definition first_of :: "action_config \<Rightarrow> resolved option \<Rightarrow> string \<Rightarrow> first_config" where
  "first_of a chain dir =
     \<lparr>fc_extends = config_extends a dir,
      fc_files = (if chain = None then Some [] else None),
      fc_include = (case chain of None \<Rightarrow> None
        | Some ch \<Rightarrow> if \<not> inputs ch then Some (rebased dir (path_dir (ac_project a)) [''**/*'']) else None),
      fc_allowJs = has_javascript_src a\<rparr>"

definition resolve_action ::
    "action_config \<Rightarrow> (first_config \<Rightarrow> (effective_options \<times> string list) option) \<Rightarrow> (string \<Rightarrow> bool) \<Rightarrow> resolved option \<Rightarrow> string
     \<Rightarrow> tsconfig_error + tsconfig_file \<times> oxc_options" where
  "resolve_action a show_config is_file chain dir =
     (case show_config (first_of a chain dir) of
        None \<Rightarrow> Inl ShowFailed
      | Some (eff, roots) \<Rightarrow>
          (case (if ac_sourceOnly a then None
                 else case check_jsx a (eo_jsx eff) of Some e \<Rightarrow> Some e | None \<Rightarrow> check_module a (eo_module eff)) of
             Some e \<Rightarrow> Inl e
           | None \<Rightarrow>
               (case build_config a is_file eff roots chain dir of
                  Inl e \<Rightarrow> Inl e
                | Inr config \<Rightarrow>
                    Inr (config, \<lparr>ox_target = eo_target eff, ox_jsx = eo_jsx eff,
                                  ox_jsxImportSource = eo_jsxImportSource eff, ox_module = eo_module eff\<rparr>))))"

definition missing_flag :: "action_config \<Rightarrow> string option" where
  "missing_flag a =
     map_option fst (find (\<lambda>(_, v). v = [])
       [(''-tsgo'', ac_tsgo a), (''-baseline'', ac_baseline a), (''-out'', ac_out a), (''-options'', ac_options a), (''-bin_dir'', ac_binDir a)])"

text \<open>\<open>writeTsconfig\<close>: the acts on the disk, of which the last may have failed, and the error.\<close>

definition write_tsconfig ::
    "action_config \<Rightarrow> disk \<Rightarrow> (first_config \<Rightarrow> (effective_options \<times> string list) option) \<Rightarrow> (string \<Rightarrow> bool) \<Rightarrow> (config_act \<Rightarrow> bool)
     \<Rightarrow> config_act list \<times> tsconfig_error option" where
  "write_tsconfig a fs show_config is_file ok =
     (case missing_flag a of
        Some flag \<Rightarrow> ([], Some (NeedsFlag flag))
      | None \<Rightarrow>
          (case (if ac_project a = [] then Inr None else case resolve_config fs (ac_project a) of Inl e \<Rightarrow> Inl e | Inr ch \<Rightarrow> Inr (Some ch)) of
             Inl e \<Rightarrow> ([], Some (BadChain e))
           | Inr chain \<Rightarrow>
               let dir = path_dir (ac_out a); first = WriteFirst (ac_out a) (first_of a chain dir) in
               if \<not> ok first then ([first], Some (WriteFailed (ac_out a)))
               else case resolve_action a show_config is_file chain dir of
                 Inl e \<Rightarrow> ([first, Remove (ac_out a)], Some e)
               | Inr (config, options) \<Rightarrow>
                   (let second = WriteConfig (ac_out a) config; third = WriteOptions (ac_options a) options in
                    if \<not> ok second then ([first, second], Some (WriteFailed (ac_out a)))
                    else ([first, second, third], if ok third then None else Some (WriteFailed (ac_options a))))))"

section \<open>Properties\<close>

text \<open>C14.  No source of an action is lost from its config: each one is an include entry that leads from
  the config's directory to the source's compiler path, unless tsgo printed it as a root of the chain;
  then that root, rewritten as the config's own specs are, leads there.\<close>

theorem sources_are_roots:
  assumes "build_config a is_file eff roots chain dir = Inr c" "\<not> is_abs dir" "''..'' \<notin> set (segments dir)"
    and "s \<in> set (ac_srcs a)" "compiler_path s = place False es" "plain_elems es" "es \<noteq> []"
  shows "(\<exists>e \<in> set (tf_include c). path_join [dir, e] = compiler_path s) \<or>
    (\<exists>p \<in> set roots. path_join [dir, project_spec dir p] = compiler_path s)"
proof -
  let ?e = "src_entry dir s"
  have e: "path_join [dir, ?e] = compiler_path s"
    using file_relative_resolves[OF assms(2,3,6,7)] by (simp add: src_entry_def assms(5))
  show ?thesis
  proof (cases "path_clean ?e \<in> (\<lambda>p. path_clean (project_spec dir p)) ` set roots")
    case True
    then obtain p where p: "p \<in> set roots" "path_clean (project_spec dir p) = path_clean ?e" by auto
    have re: "\<not> is_abs ?e" "?e \<noteq> []" using file_relative_spec by (simp_all add: src_entry_def)
    have "is_abs (path_clean (project_spec dir p)) = is_abs (path_clean ?e)" using p(2) by simp
    then have rp: "\<not> is_abs (project_spec dir p)" using re(1) by simp
    moreover from this have "project_spec dir p \<noteq> []" using file_relative_spec by (auto simp: project_spec_def split: if_splits)
    ultimately have "path_join [dir, project_spec dir p] = path_join [dir, ?e]" using path_join_clean[OF assms(2) rp _ re p(2)] by simp
    then show ?thesis using p(1) e by auto
  next
    case False
    then have "?e \<in> set (tf_include c)" using assms(1,4) by (auto simp: build_config_def Let_def split: sum.splits prod.splits)
    then show ?thesis using e by blast
  qed
qed

definition demo_action :: action_config where
  "demo_action =
     \<lparr>ac_tsgo = ''tsgo'', ac_project = ''app/tsconfig.json'', ac_baseline = ''ts/base.json'', ac_out = ''bazel-out/bin/app/t.json'',
      ac_options = ''bazel-out/bin/app/oxc.json'', ac_binDir = ''bazel-out/bin'', ac_jsx = [], ac_module = ''commonjs'',
      ac_typesDeps = [''node''], ac_typeInputs = [], ac_srcs = [''app/a.ts''],
      ac_isolatedDeclarations = False, ac_libCheck = False, ac_sourceOnly = False, ac_javaScriptInputs = False\<rparr>"

definition demo_effective :: effective_options where
  "demo_effective =
     \<lparr>eo_compilerOptions = [(''strict'', JBool True)], eo_target = ''es2022'', eo_jsx = [], eo_jsxImportSource = [],
      eo_module = ''CommonJS'', eo_types = None, eo_typeRoots = None, eo_isolatedDeclarations = False\<rparr>"

theorem sources_are_roots_witness:
  "\<exists>c. build_config demo_action (\<lambda>_. False) demo_effective [] None ''bazel-out/bin/app'' = Inr c \<and>
     (\<exists>e \<in> set (tf_include c). path_join [''bazel-out/bin/app'', e] = ''app/a.ts'')"
proof -
  obtain c where c: "build_config demo_action (\<lambda>_. False) demo_effective [] None ''bazel-out/bin/app'' = Inr c"
    by (simp add: build_config_def config_types_def chain_roots_def demo_effective_def Let_def)
  have "compiler_path ''app/a.ts'' = place False [''app'', ''a.ts'']" by code_simp
  moreover have "plain_elems [''app'', ''a.ts'']" by (simp add: plain_elems_def)
  ultimately have "(\<exists>e \<in> set (tf_include c). path_join [''bazel-out/bin/app'', e] = compiler_path ''app/a.ts'')"
    using sources_are_roots[OF c, of "''app/a.ts''" "[''app'', ''a.ts'']"] by (simp add: is_abs_def segments_def demo_action_def)
  moreover have "compiler_path ''app/a.ts'' = ''app/a.ts''" by code_simp
  ultimately show ?thesis using c by simp
qed

text \<open>What the declared module kind and \<open>jsx\<close> of an action have to agree with.\<close>

definition agrees :: "action_config \<Rightarrow> effective_options \<Rightarrow> bool" where
  "agrees a eff \<longleftrightarrow>
     (ac_sourceOnly a \<or> \<not> has_ts_src a \<or> ac_module a = (if oxc_emits (eo_module eff) then [] else to_lower (eo_module eff))) \<and>
     (ac_sourceOnly a \<or> \<not> has_tsx_src a \<or> (ac_jsx a = ''preserve'') = (to_lower (eo_jsx eff) = ''preserve''))"

lemma resolve_action_agrees:
  assumes "resolve_action a show_config is_file chain dir = Inr (config, options)"
  shows "\<exists>eff roots. show_config (first_of a chain dir) = Some (eff, roots) \<and> build_config a is_file eff roots chain dir = Inr config \<and> agrees a eff"
proof -
  obtain eff roots where r: "show_config (first_of a chain dir) = Some (eff, roots)" "build_config a is_file eff roots chain dir = Inr config"
    and c: "(if ac_sourceOnly a then None else case check_jsx a (eo_jsx eff) of Some e \<Rightarrow> Some e | None \<Rightarrow> check_module a (eo_module eff)) = None"
    using assms by (auto simp: resolve_action_def split: option.splits sum.splits prod.splits if_splits)
  have "agrees a eff" using c by (auto simp: agrees_def check_jsx_def check_module_def Let_def split: if_splits option.splits)
  then show ?thesis using r by blast
qed

text \<open>How a run can end.\<close>

lemma write_tsconfig_ends:
  assumes "write_tsconfig a fs show_config is_file ok = (acts, err)"
  obtains (early) "acts = []" "err \<noteq> None"
  | (first) chain where "acts = [WriteFirst (ac_out a) (first_of a chain (path_dir (ac_out a)))]" "err \<noteq> None"
      "\<not> ok (WriteFirst (ac_out a) (first_of a chain (path_dir (ac_out a))))"
  | (refused) chain where "acts = [WriteFirst (ac_out a) (first_of a chain (path_dir (ac_out a))), Remove (ac_out a)]" "err \<noteq> None"
  | (second) chain config where "acts = [WriteFirst (ac_out a) (first_of a chain (path_dir (ac_out a))), WriteConfig (ac_out a) config]" "err \<noteq> None"
  | (third) chain config options where
      "acts = [WriteFirst (ac_out a) (first_of a chain (path_dir (ac_out a))), WriteConfig (ac_out a) config, WriteOptions (ac_options a) options]"
      "ok (WriteFirst (ac_out a) (first_of a chain (path_dir (ac_out a))))" "ok (WriteConfig (ac_out a) config)"
      "resolve_action a show_config is_file chain (path_dir (ac_out a)) = Inr (config, options)"
proof (cases "missing_flag a")
  case (Some flag)
  then show thesis using assms by (intro early) (auto simp: write_tsconfig_def)
next
  case None
  let ?chain = "if ac_project a = [] then Inr None else case resolve_config fs (ac_project a) of Inl e \<Rightarrow> Inl e | Inr ch \<Rightarrow> Inr (Some ch)"
  note w = assms[unfolded write_tsconfig_def None option.case Let_def]
  show thesis
  proof (cases ?chain)
    case (Inl e)
    then show thesis using w by (intro early) auto
  next
    case (Inr chain)
    note w = w[unfolded Inr sum.case]
    show thesis
    proof (cases "ok (WriteFirst (ac_out a) (first_of a chain (path_dir (ac_out a))))")
      case False
      then show thesis using w by (intro first[of chain]) auto
    next
      case first_ok: True
      show thesis
      proof (cases "resolve_action a show_config is_file chain (path_dir (ac_out a))")
        case (Inl e)
        then show thesis using w first_ok by (intro refused[of chain]) auto
      next
        case (Inr co)
        obtain config options where co: "co = (config, options)" by (cases co)
        show thesis
        proof (cases "ok (WriteConfig (ac_out a) config)")
          case False
          then show thesis using w first_ok by (intro second[of chain config]) (auto simp: Inr co)
        next
          case ok: True
          then show thesis using w first_ok by (intro third[of chain config options]) (auto simp: Inr co)
        qed
      qed
    qed
  qed
qed

text \<open>C27.  Whatever a run ends in, it writes the options only after it has written the first config and
  the final one, built from what tsgo showed for the first, and only when that agrees with what the rule
  declared: the module kind tsgo has to emit and whether a .tsx emits .jsx.  A run without an error
  writes them, and a run that stops between the first config and the final one removes the first.\<close>

theorem write_tsconfig_guarded:
  assumes "write_tsconfig a fs show_config is_file ok = (acts, err)"
  shows "(\<forall>path options. WriteOptions path options \<in> set acts \<longrightarrow> path = ac_options a \<and>
       (\<exists>chain eff roots config. let first = first_of a chain (path_dir (ac_out a)) in
          acts = [WriteFirst (ac_out a) first, WriteConfig (ac_out a) config, WriteOptions path options] \<and>
          ok (WriteFirst (ac_out a) first) \<and> ok (WriteConfig (ac_out a) config) \<and>
          show_config first = Some (eff, roots) \<and> build_config a is_file eff roots chain (path_dir (ac_out a)) = Inr config \<and>
          agrees a eff)) \<and>
    (err = None \<longrightarrow> (\<exists>options. WriteOptions (ac_options a) options \<in> set acts)) \<and>
    (err \<noteq> None \<longrightarrow> (\<forall>first. WriteFirst (ac_out a) first \<in> set acts \<longrightarrow> ok (WriteFirst (ac_out a) first) \<longrightarrow>
       (\<exists>config. WriteConfig (ac_out a) config \<in> set acts) \<or> last acts = Remove (ac_out a)))"
  using assms
proof (cases rule: write_tsconfig_ends)
  case (third chain config options)
  from resolve_action_agrees[OF third(4)] third show ?thesis by (auto simp: Let_def)
qed simp_all

definition demo_fs :: disk where
  "demo_fs =
     [(''app/tsconfig.json'', \<lparr>f_extends = [], f_include = None, f_exclude = None, f_files = None,
        compilerOptions = no_options\<lparr>co_module := ''commonjs''\<rparr>\<rparr>)]"

theorem write_tsconfig_guarded_witness:
  "(\<exists>acts. write_tsconfig demo_action demo_fs (\<lambda>_. Some (demo_effective, [])) (\<lambda>_. False) (\<lambda>_. True) = (acts, None) \<and> length acts = 3) \<and>
   (\<exists>acts err. write_tsconfig (demo_action\<lparr>ac_module := []\<rparr>) demo_fs (\<lambda>_. Some (demo_effective, [])) (\<lambda>_. False) (\<lambda>_. True) = (acts, Some err) \<and>
      last acts = Remove ''bazel-out/bin/app/t.json'')"
proof -
  have good: "snd (write_tsconfig demo_action demo_fs (\<lambda>_. Some (demo_effective, [])) (\<lambda>_. False) (\<lambda>_. True)) = None" by code_simp
  have bad: "case write_tsconfig (demo_action\<lparr>ac_module := []\<rparr>) demo_fs (\<lambda>_. Some (demo_effective, [])) (\<lambda>_. False) (\<lambda>_. True) of
      (acts, err) \<Rightarrow> err \<noteq> None \<and> map (\<lambda>x. case x of WriteFirst p _ \<Rightarrow> p | Remove p \<Rightarrow> p | _ \<Rightarrow> []) acts =
        [''bazel-out/bin/app/t.json'', ''bazel-out/bin/app/t.json''] \<and> list_all (\<lambda>x. case x of WriteConfig _ _ \<Rightarrow> False | _ \<Rightarrow> True) acts \<and>
        (case acts of WriteFirst _ _ # _ \<Rightarrow> True | _ \<Rightarrow> False)"
    by code_simp
  obtain acts where g: "write_tsconfig demo_action demo_fs (\<lambda>_. Some (demo_effective, [])) (\<lambda>_. False) (\<lambda>_. True) = (acts, None)"
    using good by (metis prod.collapse)
  obtain acts' err where b: "write_tsconfig (demo_action\<lparr>ac_module := []\<rparr>) demo_fs (\<lambda>_. Some (demo_effective, [])) (\<lambda>_. False) (\<lambda>_. True) = (acts', Some err)"
    using bad by (auto split: prod.splits)
  have out: "ac_out (demo_action\<lparr>ac_module := []\<rparr>) = ''bazel-out/bin/app/t.json''" by (simp add: demo_action_def)
  obtain first where "WriteFirst ''bazel-out/bin/app/t.json'' first \<in> set acts'"
    using bad unfolding b by (auto split: list.splits config_act.splits)
  moreover have "\<nexists>config. WriteConfig ''bazel-out/bin/app/t.json'' config \<in> set acts'"
    using bad unfolding b by (auto simp: list_all_iff split: config_act.splits)
  ultimately have "last acts' = Remove ''bazel-out/bin/app/t.json''"
    using write_tsconfig_guarded[OF b] unfolding out by blast
  moreover obtain options where "WriteOptions (ac_options demo_action) options \<in> set acts" using write_tsconfig_guarded[OF g] by blast
  then have "\<exists>x y z. acts = [x, y, z]" using write_tsconfig_guarded[OF g] unfolding Let_def by blast
  then have "length acts = 3" by auto
  ultimately show ?thesis using g b by blast
qed

end
