(* ===== verification/ManifestTargets.thy ===== *)
theory ManifestTargets imports ActionPaths begin

text \<open>
  The targets of a package.json, \<open>ts/tools/tsaction/manifest.go\<close>: what a target names, the file the
  compiler emits for it, and its projection on the runtime modules of a package.  A target of exports
  or imports is a URL: its escapes are Go's package url.
\<close>

section \<open>Escapes of a URL path\<close>

definition hex_value :: "char \<Rightarrow> nat option" where
  "hex_value c =
     (let n = of_char c :: nat in
      if 48 \<le> n \<and> n \<le> 57 then Some (n - 48)
      else if 65 \<le> n \<and> n \<le> 70 then Some (n - 55)
      else if 97 \<le> n \<and> n \<le> 102 then Some (n - 87)
      else None)"

definition hex_digit :: "nat \<Rightarrow> char" where
  "hex_digit n = (if n < 10 then char_of (48 + n) else char_of (55 + n))"

text \<open>\<open>url.PathUnescape\<close>\<close>

fun path_unescape :: "string \<Rightarrow> string option" where
  "path_unescape [] = Some []"
| "path_unescape (c # s) =
     (if c \<noteq> CHR ''%'' then map_option ((#) c) (path_unescape s)
      else case s of
        h # l # rest \<Rightarrow>
          (case (hex_value h, hex_value l) of
             (Some a, Some b) \<Rightarrow> map_option ((#) (char_of (16 * a + b))) (path_unescape rest)
           | _ \<Rightarrow> None)
      | _ \<Rightarrow> None)"

text \<open>\<open>URL.EscapedPath\<close> of a URL that holds only a path\<close>

definition path_byte :: "char \<Rightarrow> bool" where
  "path_byte c \<longleftrightarrow> is_digit c \<or> is_lower c \<or> is_upper c \<or> c \<in> set ''-_.~$&+,/:;=@''"

definition escape_byte :: "char \<Rightarrow> string" where
  "escape_byte c =
     (if path_byte c then [c] else let n = of_char c :: nat in [CHR ''%'', hex_digit (n div 16), hex_digit (n mod 16)])"

definition escaped_path :: "string \<Rightarrow> string" where
  "escaped_path p = (if p = ''*'' then p else concat (map escape_byte p))"

section \<open>What a target names\<close>

definition roleOfField :: "(string \<times> string) list" where
  "roleOfField =
     [(''main'', ''js''), (''module'', ''js''), (''browser'', ''js''), (''exports'', ''js''), (''imports'', ''js''),
      (''types'', ''dts''), (''typings'', ''dts'')]"

definition declarationSuffixes :: "string list" where
  "declarationSuffixes = [''.d.ts'', ''.d.mts'', ''.d.cts'']"

record target_path =
  tp_parts :: "string list"
  tp_suffix :: string
  tp_url :: bool

datatype target_error =
    EncodedSeparator string
  | BadEscape string
  | CannotRepresent string string
  | IncompatibleTargets string string string
  | NotAnObject
  | EndsInside
  | KeyCollision string
  | BadJson
  | Misplaced  \<comment> \<open>a token the decoder never returns there\<close>
  | OtherTarget string string string

definition url_pointer :: "string \<Rightarrow> bool" where
  "url_pointer pointer \<longleftrightarrow>
     pointer = ''/exports'' \<or> has_prefix pointer ''/exports/'' \<or> pointer = ''/imports'' \<or> has_prefix pointer ''/imports/''"

fun unescape_parts :: "string list \<Rightarrow> target_error + string list" where
  "unescape_parts [] = Inr []"
| "unescape_parts (part # ps) =
     (case path_unescape part of
        None \<Rightarrow> Inl (BadEscape part)
      | Some d \<Rightarrow> (case unescape_parts ps of Inl e \<Rightarrow> Inl e | Inr ds \<Rightarrow> Inr (d # ds)))"

definition in_pathname :: "char \<Rightarrow> bool" where
  "in_pathname c \<longleftrightarrow> c \<notin> set ''?#''"

text \<open>No value is a target outside the package, which is left as it is.\<close>

definition parse_manifest_target :: "string \<Rightarrow> string \<Rightarrow> target_error + target_path option" where
  "parse_manifest_target target pointer =
     (if \<not> url_pointer pointer
      then Inr (Some \<lparr>tp_parts = split_on (CHR ''*'') target, tp_suffix = [], tp_url = False\<rparr>)
      else if \<not> has_prefix target ''./'' then Inr None
      else
        let pathname = takeWhile in_pathname target; rest = dropWhile in_pathname target; lower = to_lower pathname in
        if contains_str lower ''%2f'' \<or> contains_str lower ''%5c'' then Inl (EncodedSeparator target)
        else case unescape_parts (split_on (CHR ''*'') pathname) of
          Inl e \<Rightarrow> Inl e
        | Inr ps \<Rightarrow> Inr (Some \<lparr>tp_parts = ps, tp_suffix = rest, tp_url = True\<rparr>))"

definition identity :: "target_path \<Rightarrow> target_path" where
  "identity p =
     (if tp_url p then p
      else let pathname = path_clean (join_on ''*'' (tp_parts p)) in
        p\<lparr>tp_parts := [if is_abs pathname then pathname else ''./'' @ pathname]\<rparr>)"

definition with_parts :: "target_path \<Rightarrow> string list \<Rightarrow> string" where
  "with_parts p parts =
     (if \<not> tp_url p then join_on ''*'' parts
      else join_on ''*'' (map (\<lambda>part. replace_all (escaped_path part) ''*'' ''%2A'') parts) @ tp_suffix p)"

section \<open>The file a compile emits\<close>

definition emitted_by :: "string \<Rightarrow> string \<Rightarrow> (string \<times> string) list option" where
  "emitted_by role tsx =
     (if role = ''js'' then Some [(''.tsx'', tsx), (''.ts'', ''.js''), (''.mts'', ''.mjs''), (''.cts'', ''.cjs'')]
      else if role = ''dts'' then Some [(''.tsx'', ''.d.ts''), (''.ts'', ''.d.ts''), (''.mts'', ''.d.mts''), (''.cts'', ''.d.cts'')]
      else None)"

text \<open>The order in which Go ranges over the map of extensions is the argument \<open>order\<close>.\<close>

definition emitted_file ::
    "((string \<times> string) list \<Rightarrow> (string \<times> string) list) \<Rightarrow> string \<Rightarrow> string \<Rightarrow> string \<Rightarrow> string \<Rightarrow> target_error + string" where
  "emitted_file order target role pointer tsx =
     (case emitted_by role tsx of
        None \<Rightarrow> Inr target
      | Some by_ext \<Rightarrow>
          (case parse_manifest_target target pointer of
             Inl e \<Rightarrow> Inl e
           | Inr None \<Rightarrow> Inr target
           | Inr (Some parsed) \<Rightarrow>
               let final = last (tp_parts parsed) in
               if list_ex (has_suffix final) declarationSuffixes then Inr target
               else case find (\<lambda>(source, emitted). has_suffix final source) (order by_ext) of
                 None \<Rightarrow> Inr target
               | Some (source, emitted) \<Rightarrow>
                   Inr (with_parts parsed (butlast (tp_parts parsed) @ [trim_suffix final source @ emitted]))))"

section \<open>Projection on runtime modules\<close>

record runtime_target =
  rt_source :: string
  rt_runtime :: string

definition bare_target :: "string \<Rightarrow> string \<Rightarrow> bool" where
  "bare_target target pointer \<longleftrightarrow>
     (pointer = ''/main'' \<or> pointer = ''/module'' \<or> pointer = ''/browser'' \<or> has_prefix pointer ''/browser/'') \<and>
     \<not> has_prefix target ''.'' \<and> \<not> is_abs target"

text \<open>What a pattern's star stands for in a source.\<close>

definition capture_of :: "string list \<Rightarrow> string \<Rightarrow> string option" where
  "capture_of parts source =
     (let count = length parts - 1; plain = length (concat parts); pre = length (hd parts) in
      if length source < plain \<or> (length source - plain) mod count \<noteq> 0 \<or> length source < pre + (length source - plain) div count
      then None
      else let capture = take ((length source - plain) div count) (drop pre source) in
        if join_on capture parts = source then Some capture else None)"

definition known_ext :: "string \<Rightarrow> string" where
  "known_ext f = foldl (\<lambda>ext suf. if has_suffix f suf then suf else ext) (path_ext f) declarationSuffixes"

text \<open>The pattern with the place and the extension of the runtime module.\<close>

definition moved_parts :: "string list \<Rightarrow> runtime_target \<Rightarrow> string list" where
  "moved_parts parts pair =
     (if rt_source pair = rt_runtime pair then parts
      else
        let sext = known_ext (rt_source pair); rext = known_ext (rt_runtime pair);
            sourceStem = trim_prefix (trim_suffix (rt_source pair) sext) ''./''; runtimeStem = trim_suffix (rt_runtime pair) rext;
            parts1 = (case cut_suffix runtimeStem sourceStem of
                        Some pre \<Rightarrow> (pre @ trim_prefix (hd parts) ''./'') # tl parts
                      | None \<Rightarrow> parts)
        in butlast parts1 @ [trim_suffix (last parts1) sext @ rext])"

text \<open>The candidate of one pair, no value where the pair is not about the target.\<close>

definition pair_candidate :: "target_path \<Rightarrow> string \<Rightarrow> runtime_target \<Rightarrow> target_error + string option" where
  "pair_candidate parsed target pair =
     (let spelled = (\<lambda>parts. if rt_source pair = rt_runtime pair then target else with_parts parsed parts) in
      if length (tp_parts parsed) = 1
      then (if hd (tp_parts parsed) \<noteq> rt_source pair then Inr None else Inr (Some (spelled [rt_runtime pair])))
      else case capture_of (tp_parts parsed) (rt_source pair) of
        None \<Rightarrow> Inr None
      | Some capture \<Rightarrow>
          let parts = moved_parts (tp_parts parsed) pair in
          if join_on capture parts \<noteq> rt_runtime pair then Inl (CannotRepresent target (rt_runtime pair))
          else Inr (Some (spelled parts)))"

fun project_pairs ::
    "target_path \<Rightarrow> string \<Rightarrow> runtime_target list \<Rightarrow> string \<Rightarrow> bool \<Rightarrow> target_error + string \<times> bool" where
  "project_pairs parsed target [] projected constrained = Inr (projected, constrained)"
| "project_pairs parsed target (pair # ps) projected constrained =
     (case pair_candidate parsed target pair of
        Inl e \<Rightarrow> Inl e
      | Inr None \<Rightarrow> project_pairs parsed target ps projected constrained
      | Inr (Some candidate) \<Rightarrow>
          if constrained \<and> candidate \<noteq> projected then Inl (IncompatibleTargets target projected candidate)
          else project_pairs parsed target ps candidate True)"

definition project_manifest_target :: "string \<Rightarrow> string \<Rightarrow> runtime_target list \<Rightarrow> target_error + string \<times> bool" where
  "project_manifest_target target0 pointer targets =
     (let bare = bare_target target0 pointer; target = (if bare then ''./'' @ target0 else target0) in
      case parse_manifest_target target pointer of
        Inl e \<Rightarrow> Inl e
      | Inr None \<Rightarrow> Inr (target, False)
      | Inr (Some parsed) \<Rightarrow>
          (case project_pairs (identity parsed) target targets target False of
             Inl e \<Rightarrow> Inl e
           | Inr (projected, constrained) \<Rightarrow>
               Inr (if bare then trim_prefix projected ''./'' else projected, constrained)))"

definition runtime_manifest_target :: "string \<Rightarrow> string \<Rightarrow> string \<Rightarrow> runtime_target list \<Rightarrow> target_error + string \<times> bool" where
  "runtime_manifest_target target role pointer targets =
     (if role \<noteq> ''js'' then Inr (target, False) else project_manifest_target target pointer targets)"

section \<open>A target reads back\<close>

text \<open>The bytes of an escape, whatever the byte.\<close>

definition escape_ok :: "char \<Rightarrow> bool" where
  "escape_ok c \<longleftrightarrow>
     (if path_byte c then c \<notin> set ''%*?#''
      else let n = of_char c :: nat; h = hex_digit (n div 16); l = hex_digit (n mod 16) in
        hex_value h = Some (n div 16) \<and> hex_value l = Some (n mod 16) \<and>
        h \<notin> set ''%*?#'' \<and> l \<notin> set ''%*?#'' \<and>
        [to_lower_byte h, to_lower_byte l] \<noteq> ''2f'' \<and> (c = BSL \<or> [to_lower_byte h, to_lower_byte l] \<noteq> ''5c''))"

definition hex_ok :: "nat \<Rightarrow> bool" where
  "hex_ok n \<longleftrightarrow>
     (let d = hex_digit n in
      hex_value d = Some n \<and> d \<notin> set ''%*?#'' \<and> (to_lower_byte d = CHR ''2'' \<longrightarrow> n = 2) \<and> (to_lower_byte d = CHR ''5'' \<longrightarrow> n = 5) \<and>
      (to_lower_byte d = CHR ''c'' \<longrightarrow> n = 12) \<and> (to_lower_byte d = CHR ''f'' \<longrightarrow> n = 15))"

lemma hex_ok_digits: "n < 16 \<Longrightarrow> hex_ok n"
proof -
  assume "n < 16"
  moreover have "list_all hex_ok [0..<16]" by code_simp
  ultimately show ?thesis by (simp add: list_all_iff)
qed

lemma escape_byte_ok: "escape_ok c"
proof (cases "path_byte c")
  case True
  then show ?thesis by (auto simp: escape_ok_def path_byte_def is_digit_def is_lower_def is_upper_def)
next
  case False
  let ?n = "of_char c :: nat"
  have n: "?n = 16 * (?n div 16) + ?n mod 16" by presburger
  have less: "?n div 16 < 16" by (rule less_mult_imp_div_less) simp
  have "?n mod 16 < 16" by simp
  have "hex_ok (?n div 16)" "hex_ok (?n mod 16)" using less by (simp_all add: hex_ok_digits)
  moreover have "\<not> (?n div 16 = 2 \<and> ?n mod 16 = 15)"
  proof
    assume "?n div 16 = 2 \<and> ?n mod 16 = 15"
    then have "?n = 47" using n by linarith
    then have "?n = of_char SL" by simp
    then have "c = SL" by (simp only: of_char_eq_iff)
    then show False using False by (simp add: path_byte_def)
  qed
  moreover have "c = BSL" if "?n div 16 = 5 \<and> ?n mod 16 = 12"
  proof -
    have "?n = of_char BSL" using that n by simp
    then show ?thesis by (simp only: of_char_eq_iff)
  qed
  ultimately show ?thesis using False by (auto simp: escape_ok_def hex_ok_def Let_def)
qed

lemma path_unescape_byte: "path_unescape (escape_byte c @ s) = map_option ((#) c) (path_unescape s)"
proof (cases "path_byte c")
  case True
  then show ?thesis using escape_byte_ok[of c] by (simp add: escape_byte_def escape_ok_def)
next
  case False
  have "16 * (of_char c div 16) + of_char c mod 16 = (of_char c :: nat)" by presburger
  then show ?thesis using False escape_byte_ok[of c] by (simp add: escape_byte_def escape_ok_def Let_def)
qed

abbreviation escape_all :: "string \<Rightarrow> string" where
  "escape_all s \<equiv> concat (map escape_byte s)"

lemma path_unescape_all: "path_unescape (escape_all s) = Some s"
  by (induction s) (simp_all add: path_unescape_byte)

lemma escape_byte_plain: "d \<in> set (escape_byte c) \<Longrightarrow> d \<notin> set ''*?#''"
  using escape_byte_ok[of c] by (auto simp: escape_byte_def escape_ok_def Let_def split: if_splits)

lemma escape_all_plain: "d \<in> set (escape_all s) \<Longrightarrow> d \<notin> set ''*?#''"
  using escape_byte_plain by fastforce

lemma replace_all_absent: "CHR ''*'' \<notin> set s \<Longrightarrow> replace_all s ''*'' new = s"
  by (induction s) (auto simp: replace_all.simps[where s = "d # e" for d e] replace_all.simps[where s = "[]"])

lemma escaped_stars: "replace_all (escaped_path p) ''*'' ''%2A'' = escape_all p"
proof (cases "p = ''*''")
  case True
  have "replace_all (escaped_path ''*'') ''*'' ''%2A'' = escape_all ''*''" by code_simp
  then show ?thesis using True by blast
next
  case False
  then show ?thesis using escape_all_plain[of "CHR ''*''" p] replace_all_absent[of "escape_all p"] by (auto simp: escaped_path_def)
qed

lemma unescape_parts_all: "unescape_parts (map escape_all ps) = Inr ps"
  by (induction ps) (simp_all add: path_unescape_all)

text \<open>No escape spells a separator.\<close>

definition no_separator :: "string \<Rightarrow> bool" where
  "no_separator s \<longleftrightarrow> \<not> contains_str (to_lower s) ''%2f'' \<and> \<not> contains_str (to_lower s) ''%5c''"

lemma no_separator_Cons: "x \<noteq> CHR ''%'' \<Longrightarrow> no_separator (x # s) \<longleftrightarrow> no_separator s"
proof -
  assume x: "x \<noteq> CHR ''%''"
  have "to_lower_byte x \<noteq> CHR ''%''"
  proof
    assume "to_lower_byte x = CHR ''%''"
    then have "is_upper x" and cx: "char_of ((of_char x :: nat) + 32) = CHR ''%''" using x by (auto simp: to_lower_byte_def split: if_splits)
    moreover have "((of_char x :: nat) + 32) mod 256 = 37" using arg_cong[of _ _ "of_char :: char \<Rightarrow> nat", OF cx] by simp
    ultimately show False by (auto simp: is_upper_def)
  qed
  then show ?thesis by (simp add: no_separator_def to_lower_def sublist_Cons_right)
qed

lemma no_separator_byte: "c \<noteq> BSL \<Longrightarrow> no_separator (escape_byte c @ s) \<longleftrightarrow> no_separator s"
proof (cases "path_byte c")
  case True
  then show ?thesis using escape_byte_ok[of c] by (simp add: escape_byte_def escape_ok_def no_separator_Cons)
next
  case False
  assume c: "c \<noteq> BSL"
  let ?h = "hex_digit (of_char c div 16)" and ?l = "hex_digit (of_char c mod 16)"
  have ok: "?h \<noteq> CHR ''%''" "?l \<noteq> CHR ''%''" "\<not> (CHR ''2'' = to_lower_byte ?h \<and> CHR ''f'' = to_lower_byte ?l)"
    "\<not> (CHR ''5'' = to_lower_byte ?h \<and> CHR ''c'' = to_lower_byte ?l)"
    using False c escape_byte_ok[of c] by (auto simp: escape_ok_def Let_def)
  have pc: "to_lower_byte CHR ''%'' = CHR ''%''" by code_simp
  have "no_separator (CHR ''%'' # ?h # ?l # s) \<longleftrightarrow> no_separator (?h # ?l # s)"
    using ok by (auto simp: no_separator_def to_lower_def pc sublist_Cons_right)
  then show ?thesis using False ok by (simp add: escape_byte_def Let_def no_separator_Cons)
qed

lemma no_separator_all: "BSL \<notin> set p \<Longrightarrow> no_separator (escape_all p @ s) \<longleftrightarrow> no_separator s"
  by (induction p) (auto simp: no_separator_byte)

lemma no_separator_parts: "\<forall>p \<in> set ps. BSL \<notin> set p \<Longrightarrow> no_separator (join_on ''*'' (map escape_all ps))"
proof (induction ps)
  case (Cons p ps)
  have nil: "no_separator []" by (simp add: no_separator_def to_lower_def)
  have p: "no_separator (escape_all p @ s) \<longleftrightarrow> no_separator s" for s using Cons.prems by (intro no_separator_all) simp
  show ?case
  proof (cases ps)
    case Nil
    then show ?thesis using p[of "[]"] nil by simp
  next
    case (Cons q qs)
    then show ?thesis using p[of "''*'' @ join_on ''*'' (map escape_all ps)"] Cons.IH Cons.prems by (simp add: no_separator_Cons)
  qed
qed (simp add: no_separator_def to_lower_def)

lemma set_join_on: "set (join_on sep ps) \<subseteq> (\<Union>p \<in> set ps. set p) \<union> set sep"
  by (induction sep ps rule: join_on.induct) auto

lemma target_reads_back:
  assumes "url_pointer pointer" "tp_url p" "tp_parts p \<noteq> []" "\<forall>q \<in> set (tp_parts p). BSL \<notin> set q"
    and "tp_suffix p = [] \<or> \<not> in_pathname (hd (tp_suffix p))" "has_prefix (with_parts p (tp_parts p)) ''./''"
  shows "parse_manifest_target (with_parts p (tp_parts p)) pointer = Inr (Some p)"
proof -
  let ?path = "join_on ''*'' (map escape_all (tp_parts p))"
  have w: "with_parts p (tp_parts p) = ?path @ tp_suffix p" using assms(2) by (simp add: with_parts_def escaped_stars)
  have plain: "CHR ''*'' \<notin> set (escape_all q)" for q using escape_all_plain[of "CHR ''*''" q] by auto
  have "in_pathname c" if "c \<in> set ?path" for c
    using that set_join_on[of "''*''" "map escape_all (tp_parts p)"] escape_all_plain[of c] by (auto simp: in_pathname_def)
  then have "takeWhile in_pathname (?path @ tp_suffix p) = ?path" "dropWhile in_pathname (?path @ tp_suffix p) = tp_suffix p"
    using assms(5) by (cases "tp_suffix p"; simp add: takeWhile_append2 dropWhile_append2)+
  moreover have "split_on (CHR ''*'') ?path = map escape_all (tp_parts p)"
    using assms(3) plain by (intro split_join) auto
  ultimately show ?thesis
    using assms no_separator_parts[OF assms(4)] unfolding w
    by (simp add: parse_manifest_target_def Let_def unescape_parts_all no_separator_def)
qed

section \<open>Emitted files\<close>

lemma find_unique:
  assumes "\<forall>x \<in> set xs. \<forall>y \<in> set xs. P x \<longrightarrow> P y \<longrightarrow> x = y" "set ys = set xs"
  shows "find P ys = find P xs"
proof (cases "find P xs")
  case None
  then have "find P ys = None" using assms(2) by (simp add: find_None_iff)
  then show ?thesis using None by simp
next
  case (Some x)
  have hit: "z \<in> set zs \<and> P z" if "find P zs = Some z" for z zs
    using that by (induction zs) (simp_all split: if_splits)
  have x: "x \<in> set xs" "P x" using hit[OF Some] by simp_all
  then have "find P ys \<noteq> None" unfolding find_None_iff assms(2) by blast
  then obtain y where y: "find P ys = Some y" by blast
  then have "y \<in> set xs" "P y" using hit[OF y] assms(2) by simp_all
  then have "y = x" using bspec[OF bspec[OF assms(1) \<open>y \<in> set xs\<close>] x(1)] x(2) by simp
  then show ?thesis using y Some by simp
qed

lemma one_extension:
  assumes "emitted_by role tsx = Some by_ext" "x \<in> set by_ext" "y \<in> set by_ext" "has_suffix f (fst x)" "has_suffix f (fst y)"
  shows "x = y"
proof -
  have "suffix (fst x) (fst y) \<or> suffix (fst y) (fst x)" using assms(4,5) by (metis suffix_same_cases)
  moreover have "fst x \<in> set [''.tsx'', ''.ts'', ''.mts'', ''.cts'']" "fst y \<in> set [''.tsx'', ''.ts'', ''.mts'', ''.cts'']"
    using assms(1-3) by (auto simp: emitted_by_def split: if_splits)
  ultimately have "fst x = fst y" by (auto simp: suffix_to_prefix)
  then show ?thesis using assms(1-3) by (auto simp: emitted_by_def split: if_splits)
qed

lemma emitted_order_irrelevant:
  assumes "\<And>xs. set (order xs) = set xs"
  shows "emitted_file order target role pointer tsx = emitted_file (\<lambda>xs. xs) target role pointer tsx"
proof -
  have "find (\<lambda>(source, emitted). has_suffix f source) (order by_ext) = find (\<lambda>(source, emitted). has_suffix f source) by_ext"
    if "emitted_by role tsx = Some by_ext" for by_ext f
    using one_extension[OF that] by (intro find_unique) (auto simp: assms)
  then show ?thesis by (simp add: emitted_file_def Let_def split: option.splits sum.splits)
qed

section \<open>A projected target names the runtime module\<close>

lemma length_join_star: "ps \<noteq> [] \<Longrightarrow> length (join_on c ps) = length (concat ps) + (length ps - 1) * length c"
  by (induction c ps rule: join_on.induct) simp_all

lemma capture_of_join:
  assumes "1 < length parts"
  shows "capture_of parts source = Some c \<longleftrightarrow> join_on c parts = source"
proof
  assume "capture_of parts source = Some c"
  then show "join_on c parts = source" by (auto simp: capture_of_def Let_def split: if_splits)
next
  assume j: "join_on c parts = source"
  have ne: "parts \<noteq> []" and count: "0 < length parts - 1" using assms by auto
  have "length source - length (concat parts) = (length parts - 1) * length c" "length (concat parts) \<le> length source"
    using length_join_star[OF ne, of c] j by auto
  moreover from this have "(length source - length (concat parts)) mod (length parts - 1) = 0"
    "(length source - length (concat parts)) div (length parts - 1) = length c" using count by simp_all
  moreover obtain tail where "source = hd parts @ c @ tail" using j assms by (cases parts; cases "tl parts") auto
  ultimately show "capture_of parts source = Some c" using j by (simp add: capture_of_def)
qed

lemma project_pairs_agree:
  "project_pairs parsed target ps projected constrained = Inr (res, b) \<Longrightarrow>
   (constrained \<longrightarrow> b \<and> res = projected) \<and>
   (\<forall>pair \<in> set ps. pair_candidate parsed target pair = Inr None \<or> b \<and> pair_candidate parsed target pair = Inr (Some res))"
proof (induction ps arbitrary: projected constrained)
  case (Cons pair ps)
  show ?case
  proof (cases "pair_candidate parsed target pair")
    case (Inr c)
    then show ?thesis
    proof (cases c)
      case None
      then show ?thesis using Cons.IH[of projected constrained] Cons.prems Inr by simp
    next
      case (Some cand)
      then have "project_pairs parsed target ps cand True = Inr (res, b)" "constrained \<longrightarrow> cand = projected"
        using Cons.prems Inr by (simp_all split: if_splits)
      then show ?thesis using Cons.IH Inr Some by fastforce
    qed
  qed (use Cons.prems in simp)
qed simp

lemma unescape_parts_length: "unescape_parts ps = Inr ds \<Longrightarrow> length ds = length ps"
  by (induction ps arbitrary: ds) (auto split: option.splits sum.splits)

lemma parsed_url:
  assumes "parse_manifest_target target pointer = Inr (Some p)" "url_pointer pointer"
  shows "tp_url p \<and> tp_parts p \<noteq> [] \<and> (tp_suffix p = [] \<or> \<not> in_pathname (hd (tp_suffix p)))"
proof -
  obtain ds where "unescape_parts (split_on (CHR ''*'') (takeWhile in_pathname target)) = Inr ds"
    "p = \<lparr>tp_parts = ds, tp_suffix = dropWhile in_pathname target, tp_url = True\<rparr>"
    using assms by (auto simp: parse_manifest_target_def Let_def split: if_splits sum.splits)
  moreover from this have "ds \<noteq> []" using unescape_parts_length by (metis length_0_conv split_on_neq_Nil)
  ultimately show ?thesis using hd_dropWhile[of in_pathname target] by auto
qed

lemma join_on_parts: "\<forall>q \<in> set ps. set q \<subseteq> set (join_on c ps)"
  by (induction c ps rule: join_on.induct) auto

lemma moved_parts_length: "parts \<noteq> [] \<Longrightarrow> length (moved_parts parts pair) = length parts"
  by (auto simp: moved_parts_def Let_def split: option.splits)

lemma pair_candidate_runtime:
  assumes "join_on c (tp_parts p) = rt_source pair" "tp_parts p \<noteq> []" "pair_candidate p target pair = Inr o'"
  shows "\<exists>parts. parts \<noteq> [] \<and> join_on c parts = rt_runtime pair \<and>
    o' = Some (if rt_source pair = rt_runtime pair then target else with_parts p parts)"
proof (cases "length (tp_parts p) = 1")
  case True
  then obtain x where "tp_parts p = [x]" by (cases "tp_parts p") auto
  then show ?thesis using assms by (intro exI[of _ "[rt_runtime pair]"]) (auto simp: pair_candidate_def)
next
  case False
  then have more: "1 < length (tp_parts p)" using assms(2) by (cases "tp_parts p") auto
  have "join_on c (moved_parts (tp_parts p) pair) = rt_runtime pair"
    "o' = Some (if rt_source pair = rt_runtime pair then target else with_parts p (moved_parts (tp_parts p) pair))"
    using assms False capture_of_join[OF more, of "rt_source pair" c] by (simp_all add: pair_candidate_def Let_def split: if_splits)
  moreover have "moved_parts (tp_parts p) pair \<noteq> []" using moved_parts_length[OF assms(2), of pair] assms(2) by auto
  ultimately show ?thesis by blast
qed

text \<open>C33.  A target of exports or imports that was projected on the runtime modules of its package is
  read by Node as the runtime module of every source it stood for: whatever its star was bound to, the
  projected target bound to the same text is the runtime module.\<close>

theorem projection_names_runtime:
  assumes "project_manifest_target target pointer targets = Inr (projected, constrained)" "url_pointer pointer"
    and "parse_manifest_target target pointer = Inr (Some p)"
    and "pair \<in> set targets" "join_on c (tp_parts p) = rt_source pair" "BSL \<notin> set (rt_runtime pair)" "has_prefix projected ''./''"
  shows "constrained \<and> (\<exists>q. parse_manifest_target projected pointer = Inr (Some q) \<and> tp_suffix q = tp_suffix p \<and>
    join_on c (tp_parts q) = rt_runtime pair)"
proof -
  note u = parsed_url[OF assms(3,2)]
  have bare: "\<not> bare_target target pointer"
    using assms(2) by (auto simp: bare_target_def url_pointer_def prefix_def)
  have id: "identity p = p" using u by (simp add: identity_def)
  have run: "project_pairs p target targets target False = Inr (projected, constrained)"
    using assms(1,3) bare by (auto simp: project_manifest_target_def Let_def id split: sum.splits)
  have agree: "pair_candidate p target pair = Inr None \<or> constrained \<and> pair_candidate p target pair = Inr (Some projected)"
    using project_pairs_agree[OF run] assms(4) by blast
  then obtain o' where "pair_candidate p target pair = Inr o'" by auto
  then obtain parts where parts: "parts \<noteq> []" "join_on c parts = rt_runtime pair"
    "projected = (if rt_source pair = rt_runtime pair then target else with_parts p parts)" and con: "constrained"
    using pair_candidate_runtime[OF assms(5) _ \<open>pair_candidate p target pair = Inr o'\<close>] u agree by auto
  show ?thesis
  proof (cases "rt_source pair = rt_runtime pair")
    case True
    then show ?thesis using parts(3) con assms(3,5) by auto
  next
    case False
    let ?q = "p\<lparr>tp_parts := parts\<rparr>"
    have w: "with_parts ?q (tp_parts ?q) = projected" using False parts(3) u by (simp add: with_parts_def)
    have "\<forall>q \<in> set parts. BSL \<notin> set q" using join_on_parts[of parts c] assms(6) unfolding parts(2) by blast
    then have "parse_manifest_target projected pointer = Inr (Some ?q)"
      using target_reads_back[of pointer ?q] assms(2,7) parts(1) u unfolding w by simp
    then show ?thesis using con parts(2) by simp
  qed
qed

theorem projection_names_runtime_witness:
  "\<exists>q. parse_manifest_target ''./dist/src/*.js?raw'' ''/exports/.'' = Inr (Some q) \<and> tp_suffix q = ''?raw'' \<and>
     join_on ''a b'' (tp_parts q) = ''./dist/src/a b.js''"
proof -
  have run: "project_manifest_target ''./src/*.ts?raw'' ''/exports/.'' [\<lparr>rt_source = ''./src/a b.ts'', rt_runtime = ''./dist/src/a b.js''\<rparr>]
      = Inr (''./dist/src/*.js?raw'', True)" by code_simp
  have read: "parse_manifest_target ''./src/*.ts?raw'' ''/exports/.'' =
      Inr (Some \<lparr>tp_parts = [''./src/'', ''.ts''], tp_suffix = ''?raw'', tp_url = True\<rparr>)" by code_simp
  show ?thesis
    using projection_names_runtime[OF run _ read, of "\<lparr>rt_source = ''./src/a b.ts'', rt_runtime = ''./dist/src/a b.js''\<rparr>" "''a b''"]
    by (simp add: url_pointer_def)
qed

end
