(* ===== verification/PackageManifest.thy ===== *)
theory PackageManifest imports ManifestTargets Tsconfig begin

text \<open>
  A package.json rewritten token by token, \<open>ts/tools/tsaction/manifest.go\<close>: the walk over the tokens
  of \<open>encoding/json\<close>, whose callbacks thread a state of their own, and the check of a runtime package
  scope.  The document is the list of its tokens; \<open>quote\<close> is the encoder of a string.
\<close>

section \<open>Tokens\<close>

datatype json_token =
    OpenObj | CloseObj | OpenArr | CloseArr
  | TStr string
  | TNum string
  | TBool bool
  | TNull

fun tokens :: "json \<Rightarrow> json_token list"
and member_tokens :: "(string \<times> json) list \<Rightarrow> json_token list"
and elem_tokens :: "json list \<Rightarrow> json_token list" where
  "tokens JNull = [TNull]"
| "tokens (JBool b) = [TBool b]"
| "tokens (JNum n) = [TNum n]"
| "tokens (JStr s) = [TStr s]"
| "tokens (JArr vs) = OpenArr # elem_tokens vs @ [CloseArr]"
| "tokens (JObj ms) = OpenObj # member_tokens ms @ [CloseObj]"
| "member_tokens [] = []"
| "member_tokens ((k, v) # ms) = TStr k # tokens v @ member_tokens ms"
| "elem_tokens [] = []"
| "elem_tokens (v # vs) = tokens v @ elem_tokens vs"

section \<open>The walk\<close>

definition child_role :: "string \<Rightarrow> string \<Rightarrow> string" where
  "child_role role key =
     (if role = ''root'' then (case map_of roleOfField key of Some r \<Rightarrow> r | None \<Rightarrow> ''keep'')
      else if role = ''js'' \<and> key = ''types'' then ''dts''
      else role)"

record frame =
  fr_object :: bool
  fr_role :: string
  fr_key :: bool
  fr_count :: nat
  fr_sawType :: bool
  fr_path :: string
  fr_valuePath :: string
  fr_browserKeys :: "string list"

definition open_frame :: "bool \<Rightarrow> string \<Rightarrow> string \<Rightarrow> frame" where
  "open_frame object role ptr =
     \<lparr>fr_object = object, fr_role = role, fr_key = object, fr_count = 0, fr_sawType = False,
      fr_path = ptr, fr_valuePath = [], fr_browserKeys = []\<rparr>"

record 's walk_state =
  ws_out :: string
  ws_stack :: "frame list"
  ws_role :: string
  ws_valuePath :: string
  ws_user :: 's

text \<open>A callback: the target, its role, its JSON pointer, whether it is a key, and the state.\<close>

type_synonym 's transform = "string \<Rightarrow> string \<Rightarrow> string \<Rightarrow> bool \<Rightarrow> 's \<Rightarrow> target_error + string \<times> 's"
type_synonym 's visit = "json_token \<Rightarrow> string \<Rightarrow> bool \<Rightarrow> 's \<Rightarrow> 's"

fun decimal :: "nat \<Rightarrow> string" where
  "decimal n = (if n < 10 then [hex_digit n] else decimal (n div 10) @ [hex_digit (n mod 10)])"

declare decimal.simps [simp del]

definition child_pointer :: "string \<Rightarrow> string \<Rightarrow> string" where
  "child_pointer ptr key = ptr @ ''/'' @ replace_all (replace_all key ''~'' ''~0'') ''/'' ''~1''"

definition comma :: "nat \<Rightarrow> string" where
  "comma n = (if 0 < n then '','' else [])"

definition module_member :: string where
  "module_member = [DQ] @ ''type'' @ [DQ] @ '':'' @ [DQ] @ ''module'' @ [DQ]"

text \<open>The key of a member: under browser a path is transformed, and no two keys may meet.\<close>

definition member_key :: "'s transform \<Rightarrow> string \<Rightarrow> string list \<Rightarrow> string \<Rightarrow> 's \<Rightarrow> target_error + string \<times> 's" where
  "member_key tr ptr seen key us =
     (if ptr \<noteq> ''/browser'' then Inr (key, us)
      else case (if has_prefix key ''./'' \<or> has_prefix key ''../'' then tr key ''js'' ptr True us else Inr (key, us)) of
        Inl e \<Rightarrow> Inl e
      | Inr (key', us') \<Rightarrow> if key' \<in> set seen then Inl (KeyCollision key') else Inr (key', us'))"

definition keys_seen :: "string \<Rightarrow> string list \<Rightarrow> string \<Rightarrow> string list" where
  "keys_seen ptr seen key = (if ptr = ''/browser'' then key # seen else seen)"

definition walk_close :: "'s visit \<Rightarrow> bool \<Rightarrow> json_token \<Rightarrow> frame \<Rightarrow> frame list \<Rightarrow> 's walk_state \<Rightarrow> 's walk_state" where
  "walk_close vis defaultModule t fr rest st =
     (let added = (if rest = [] \<and> \<not> fr_sawType fr \<and> defaultModule then comma (fr_count fr) @ module_member else []) in
      st\<lparr>ws_out := ws_out st @ added @ (if t = CloseObj then ''}'' else '']''),
         ws_stack := (case rest of [] \<Rightarrow> [] | f # fs \<Rightarrow> f\<lparr>fr_key := fr_object f\<rparr> # fs),
         ws_user := vis t (fr_path fr) False (ws_user st)\<rparr>)"

definition walk_key ::
    "'s transform \<Rightarrow> 's visit \<Rightarrow> (string \<Rightarrow> string) \<Rightarrow> string \<Rightarrow> frame \<Rightarrow> frame list \<Rightarrow> 's walk_state \<Rightarrow> target_error + 's walk_state" where
  "walk_key tr vis quote key0 fr rest st =
     (case member_key tr (fr_path fr) (fr_browserKeys fr) key0 (ws_user st) of
        Inl e \<Rightarrow> Inl e
      | Inr (key, us) \<Rightarrow>
          Inr (st\<lparr>ws_out := ws_out st @ comma (fr_count fr) @ quote key @ '':'',
                  ws_role := child_role (fr_role fr) key,
                  ws_stack := fr\<lparr>fr_count := fr_count fr + 1, fr_valuePath := child_pointer (fr_path fr) key,
                                  fr_sawType := fr_sawType fr \<or> (rest = [] \<and> key = ''type''), fr_key := False,
                                  fr_browserKeys := keys_seen (fr_path fr) (fr_browserKeys fr) key\<rparr> # rest,
                  ws_user := vis (TStr key) (fr_path fr) True us\<rparr>))"

text \<open>What comes before a value: an element's comma, place and role.\<close>

definition before_value :: "'s walk_state \<Rightarrow> 's walk_state" where
  "before_value st =
     (case ws_stack st of
        [] \<Rightarrow> st
      | fr # rest \<Rightarrow>
          if fr_object fr then st\<lparr>ws_valuePath := fr_valuePath fr\<rparr>
          else
            let ptr = fr_path fr @ ''/'' @ decimal (fr_count fr) in
            st\<lparr>ws_out := ws_out st @ comma (fr_count fr),
               ws_stack := fr\<lparr>fr_valuePath := ptr, fr_count := fr_count fr + 1\<rparr> # rest,
               ws_role := fr_role fr, ws_valuePath := ptr\<rparr>)"

definition after_value :: "'s walk_state \<Rightarrow> 's walk_state" where
  "after_value st =
     (case ws_stack st of
        [] \<Rightarrow> st
      | fr # rest \<Rightarrow> if fr_object fr then st\<lparr>ws_stack := fr\<lparr>fr_key := True\<rparr> # rest\<rparr> else st)"

definition add_out :: "string \<Rightarrow> 's walk_state \<Rightarrow> 's walk_state" where
  "add_out s st = st\<lparr>ws_out := ws_out st @ s\<rparr>"

fun walk_value ::
    "'s transform \<Rightarrow> 's visit \<Rightarrow> (string \<Rightarrow> string) \<Rightarrow> json_token \<Rightarrow> 's walk_state \<Rightarrow> target_error + 's walk_state" where
  "walk_value tr vis quote OpenObj st =
     Inr (add_out ''{'' (st\<lparr>ws_stack := open_frame True (ws_role st) (ws_valuePath st) # ws_stack st\<rparr>))"
| "walk_value tr vis quote OpenArr st =
     Inr (add_out ''['' (st\<lparr>ws_stack := open_frame False (ws_role st) (ws_valuePath st) # ws_stack st\<rparr>))"
| "walk_value tr vis quote (TStr s) st =
     (case tr s (ws_role st) (ws_valuePath st) False (ws_user st) of
        Inl e \<Rightarrow> Inl e
      | Inr (projected, us) \<Rightarrow> Inr (after_value (add_out (quote projected) (st\<lparr>ws_user := us\<rparr>))))"
| "walk_value tr vis quote (TNum n) st = Inr (after_value (add_out n st))"
| "walk_value tr vis quote (TBool b) st = Inr (after_value (add_out (if b then ''true'' else ''false'') st))"
| "walk_value tr vis quote TNull st = Inr (after_value (add_out ''null'' st))"
| "walk_value tr vis quote _ st = Inl Misplaced"

definition visited :: "'s visit \<Rightarrow> json_token \<Rightarrow> 's walk_state \<Rightarrow> 's walk_state" where
  "visited vis t st = st\<lparr>ws_user := vis t (ws_valuePath st) False (ws_user st)\<rparr>"

definition walk_token ::
    "'s transform \<Rightarrow> 's visit \<Rightarrow> (string \<Rightarrow> string) \<Rightarrow> bool \<Rightarrow> json_token \<Rightarrow> 's walk_state \<Rightarrow> target_error + 's walk_state" where
  "walk_token tr vis quote defaultModule t st =
     (if ws_stack st = [] \<and> t \<noteq> OpenObj then Inl NotAnObject
      else case ws_stack st of
        [] \<Rightarrow> walk_value tr vis quote t (visited vis t (before_value st))
      | fr # rest \<Rightarrow>
          if t = CloseObj \<or> t = CloseArr then Inr (walk_close vis defaultModule t fr rest st)
          else if fr_key fr then (case t of TStr key \<Rightarrow> walk_key tr vis quote key fr rest st | _ \<Rightarrow> Inl Misplaced)
          else walk_value tr vis quote t (visited vis t (before_value st)))"

fun walk_tokens ::
    "'s transform \<Rightarrow> 's visit \<Rightarrow> (string \<Rightarrow> string) \<Rightarrow> bool \<Rightarrow> json_token list \<Rightarrow> 's walk_state \<Rightarrow> target_error + 's walk_state" where
  "walk_tokens tr vis quote dm [] st = Inr st"
| "walk_tokens tr vis quote dm (t # ts) st =
     (case walk_token tr vis quote dm t st of Inl e \<Rightarrow> Inl e | Inr st' \<Rightarrow> walk_tokens tr vis quote dm ts st')"

definition start_walk :: "'s \<Rightarrow> 's walk_state" where
  "start_walk us = \<lparr>ws_out = [], ws_stack = [], ws_role = ''root'', ws_valuePath = [], ws_user = us\<rparr>"

text \<open>\<open>broken\<close>: the decoder stops at a syntax error after these tokens.\<close>

definition walk_manifest ::
    "'s transform \<Rightarrow> 's visit \<Rightarrow> (string \<Rightarrow> string) \<Rightarrow> bool \<Rightarrow> json_token list \<Rightarrow> bool \<Rightarrow> 's \<Rightarrow> target_error + string \<times> 's" where
  "walk_manifest tr vis quote dm ts broken us =
     (case walk_tokens tr vis quote dm ts (start_walk us) of
        Inl e \<Rightarrow> Inl e
      | Inr st \<Rightarrow>
          if broken then Inl BadJson
          else if ws_stack st \<noteq> [] then Inl EndsInside
          else Inr (ws_out st, ws_user st))"

section \<open>What the walk computes\<close>

text \<open>The document with every target transformed.\<close>

fun map_value :: "'s transform \<Rightarrow> 's visit \<Rightarrow> string \<Rightarrow> string \<Rightarrow> json \<Rightarrow> 's \<Rightarrow> target_error + json \<times> 's"
and map_members ::
  "'s transform \<Rightarrow> 's visit \<Rightarrow> string \<Rightarrow> string \<Rightarrow> string list \<Rightarrow> (string \<times> json) list \<Rightarrow> 's \<Rightarrow> target_error + (string \<times> json) list \<times> 's"
and map_elems :: "'s transform \<Rightarrow> 's visit \<Rightarrow> string \<Rightarrow> string \<Rightarrow> nat \<Rightarrow> json list \<Rightarrow> 's \<Rightarrow> target_error + json list \<times> 's" where
  "map_value tr vis role ptr JNull us = Inr (JNull, vis TNull ptr False us)"
| "map_value tr vis role ptr (JBool b) us = Inr (JBool b, vis (TBool b) ptr False us)"
| "map_value tr vis role ptr (JNum n) us = Inr (JNum n, vis (TNum n) ptr False us)"
| "map_value tr vis role ptr (JStr s) us =
     (case tr s role ptr False (vis (TStr s) ptr False us) of Inl e \<Rightarrow> Inl e | Inr (s', us') \<Rightarrow> Inr (JStr s', us'))"
| "map_value tr vis role ptr (JArr vs) us =
     (case map_elems tr vis role ptr 0 vs (vis OpenArr ptr False us) of
        Inl e \<Rightarrow> Inl e
      | Inr (vs', us') \<Rightarrow> Inr (JArr vs', vis CloseArr ptr False us'))"
| "map_value tr vis role ptr (JObj ms) us =
     (case map_members tr vis role ptr [] ms (vis OpenObj ptr False us) of
        Inl e \<Rightarrow> Inl e
      | Inr (ms', us') \<Rightarrow> Inr (JObj ms', vis CloseObj ptr False us'))"
| "map_members tr vis role ptr seen [] us = Inr ([], us)"
| "map_members tr vis role ptr seen ((k, v) # ms) us =
     (case member_key tr ptr seen k us of
        Inl e \<Rightarrow> Inl e
      | Inr (k', us1) \<Rightarrow>
          (case map_value tr vis (child_role role k') (child_pointer ptr k') v (vis (TStr k') ptr True us1) of
             Inl e \<Rightarrow> Inl e
           | Inr (v', us2) \<Rightarrow>
               (case map_members tr vis role ptr (keys_seen ptr seen k') ms us2 of
                  Inl e \<Rightarrow> Inl e
                | Inr (ms', us3) \<Rightarrow> Inr ((k', v') # ms', us3))))"
| "map_elems tr vis role ptr i [] us = Inr ([], us)"
| "map_elems tr vis role ptr i (v # vs) us =
     (case map_value tr vis role (ptr @ ''/'' @ decimal i) v us of
        Inl e \<Rightarrow> Inl e
      | Inr (v', us') \<Rightarrow>
          (case map_elems tr vis role ptr (i + 1) vs us' of
             Inl e \<Rightarrow> Inl e
           | Inr (vs', us2) \<Rightarrow> Inr (v' # vs', us2)))"

fun print_value :: "(string \<Rightarrow> string) \<Rightarrow> json \<Rightarrow> string"
and print_members :: "(string \<Rightarrow> string) \<Rightarrow> nat \<Rightarrow> (string \<times> json) list \<Rightarrow> string"
and print_elems :: "(string \<Rightarrow> string) \<Rightarrow> nat \<Rightarrow> json list \<Rightarrow> string" where
  "print_value quote JNull = ''null''"
| "print_value quote (JBool b) = (if b then ''true'' else ''false'')"
| "print_value quote (JNum n) = n"
| "print_value quote (JStr s) = quote s"
| "print_value quote (JArr vs) = ''['' @ print_elems quote 0 vs @ '']''"
| "print_value quote (JObj ms) = ''{'' @ print_members quote 0 ms @ ''}''"
| "print_members quote n [] = []"
| "print_members quote n ((k, v) # ms) = comma n @ quote k @ '':'' @ print_value quote v @ print_members quote (n + 1) ms"
| "print_elems quote n [] = []"
| "print_elems quote n (v # vs) = comma n @ print_value quote v @ print_elems quote (n + 1) vs"

definition with_module :: "bool \<Rightarrow> (string \<times> json) list \<Rightarrow> (string \<times> json) list" where
  "with_module dm ms = (if dm \<and> ''type'' \<notin> fst ` set ms then ms @ [(''type'', JStr ''module'')] else ms)"

lemma rel_sum_case:
  assumes "rel_sum (=) R x y" "\<And>a b. R a b \<Longrightarrow> rel_sum (=) S (f a) (g b)"
  shows "rel_sum (=) S (case x of Inl e \<Rightarrow> Inl e | Inr a \<Rightarrow> f a) (case y of Inl e \<Rightarrow> Inl e | Inr b \<Rightarrow> g b)"
  using assms by (auto elim!: rel_sum.cases split: sum.splits)

lemma sum_case_id: "(case x of Inl e \<Rightarrow> Inl e | Inr y \<Rightarrow> Inr y) = x"
  by (cases x) simp_all

lemma walk_tokens_append:
  "walk_tokens tr vis quote dm (xs @ ys) st =
     (case walk_tokens tr vis quote dm xs st of Inl e \<Rightarrow> Inl e | Inr st' \<Rightarrow> walk_tokens tr vis quote dm ys st')"
  by (induction xs arbitrary: st) (auto split: sum.splits)

definition settle :: "frame list \<Rightarrow> frame list" where
  "settle fs = (case fs of [] \<Rightarrow> [] | f # fs' \<Rightarrow> f\<lparr>fr_key := fr_object f\<rparr> # fs')"

text \<open>The states after a value, after members and after elements.\<close>

definition value_done :: "(string \<Rightarrow> string) \<Rightarrow> 's walk_state \<Rightarrow> 's walk_state \<Rightarrow> json \<times> 's \<Rightarrow> bool" where
  "value_done quote st st' r \<longleftrightarrow>
     ws_out st' = ws_out st @ print_value quote (fst r) \<and> ws_stack st' = settle (ws_stack st) \<and> ws_user st' = snd r"

definition members_done :: "(string \<Rightarrow> string) \<Rightarrow> frame \<Rightarrow> frame list \<Rightarrow> 's walk_state \<Rightarrow> 's walk_state \<Rightarrow> (string \<times> json) list \<times> 's \<Rightarrow> bool" where
  "members_done quote fr rest st st' r \<longleftrightarrow>
     (\<exists>fr'. ws_stack st' = fr' # rest \<and> ws_out st' = ws_out st @ print_members quote (fr_count fr) (fst r) \<and> ws_user st' = snd r \<and>
        fr_object fr' \<and> fr_key fr' \<and> fr_path fr' = fr_path fr \<and> fr_count fr' = fr_count fr + length (fst r) \<and>
        fr_sawType fr' = (fr_sawType fr \<or> (rest = [] \<and> ''type'' \<in> fst ` set (fst r))))"

definition elems_done :: "(string \<Rightarrow> string) \<Rightarrow> frame \<Rightarrow> frame list \<Rightarrow> 's walk_state \<Rightarrow> 's walk_state \<Rightarrow> json list \<times> 's \<Rightarrow> bool" where
  "elems_done quote fr rest st st' r \<longleftrightarrow>
     (\<exists>fr'. ws_stack st' = fr' # rest \<and> ws_out st' = ws_out st @ print_elems quote (fr_count fr) (fst r) \<and> ws_user st' = snd r \<and>
        \<not> fr_object fr' \<and> \<not> fr_key fr' \<and> fr_path fr' = fr_path fr)"

lemma ws_before_value:
  "ws_stack st = fr # rest \<Longrightarrow> ws_user (before_value st) = ws_user st \<and> ws_stack (before_value st) \<noteq> []"
  by (simp add: before_value_def Let_def)

lemma walk_token_value:
  assumes "ws_stack st = fr # rest" "\<not> fr_key fr" "t \<noteq> CloseObj" "t \<noteq> CloseArr"
  shows "walk_token tr vis quote dm t st = walk_value tr vis quote t (visited vis t (before_value st))"
  using assms by (simp add: walk_token_def)

lemma settled_after:
  assumes "ws_stack st = fr # rest" "\<not> fr_key fr"
  shows "ws_stack (after_value (add_out s (before_value st)\<lparr>ws_user := us\<rparr>)) = settle (ws_stack (before_value st))"
  using assms by (cases fr) (simp add: before_value_def after_value_def add_out_def settle_def Let_def)

lemma walk_runs:
  "ws_stack st = fr # rest \<Longrightarrow> \<not> fr_key fr \<Longrightarrow>
     rel_sum (=) (value_done quote (before_value st)) (walk_tokens tr vis quote dm (tokens v) st)
       (map_value tr vis (ws_role (before_value st)) (ws_valuePath (before_value st)) v (ws_user st))"
  "ws_stack st = fr # rest \<Longrightarrow> fr_object fr \<Longrightarrow> fr_key fr \<Longrightarrow>
     rel_sum (=) (members_done quote fr rest st) (walk_tokens tr vis quote dm (member_tokens ms) st)
       (map_members tr vis (fr_role fr) (fr_path fr) (fr_browserKeys fr) ms (ws_user st))"
  "ws_stack st = fr # rest \<Longrightarrow> \<not> fr_object fr \<Longrightarrow> \<not> fr_key fr \<Longrightarrow>
     rel_sum (=) (elems_done quote fr rest st) (walk_tokens tr vis quote dm (elem_tokens vs) st)
       (map_elems tr vis (fr_role fr) (fr_path fr) (fr_count fr) vs (ws_user st))"
proof (induction v and ms and vs arbitrary: st fr rest and st fr rest and st fr rest rule: tokens_member_tokens_elem_tokens.induct)
  case 1
  then show ?case
    by (cases fr) (simp add: walk_token_value value_done_def visited_def after_value_def add_out_def settle_def before_value_def Let_def)
next
  case (2 b)
  then show ?case
    by (cases fr) (simp add: walk_token_value value_done_def visited_def after_value_def add_out_def settle_def before_value_def Let_def)
next
  case (3 n)
  then show ?case
    by (cases fr) (simp add: walk_token_value value_done_def visited_def after_value_def add_out_def settle_def before_value_def Let_def)
next
  case (4 s)
  then show ?case
    by (cases fr) (auto simp: walk_token_value value_done_def visited_def after_value_def add_out_def settle_def before_value_def Let_def split: sum.splits prod.splits)
next
  case (5 vs)
  let ?b = "before_value st" and ?top = "open_frame False (ws_role (before_value st)) (ws_valuePath (before_value st))"
  let ?opened = "add_out ''['' (visited vis OpenArr ?b\<lparr>ws_stack := ?top # ws_stack ?b\<rparr>)"
  let ?us = "vis OpenArr (ws_valuePath ?b) False (ws_user ?b)"
  obtain f fs where b: "ws_stack ?b = f # fs" "ws_user ?b = ws_user st" using ws_before_value[OF "5.prems"(1)] by (cases "ws_stack ?b") auto
  have W: "walk_tokens tr vis quote dm (tokens (JArr vs)) st =
      (case walk_tokens tr vis quote dm (elem_tokens vs) ?opened of Inl e \<Rightarrow> Inl e | Inr st' \<Rightarrow> walk_tokens tr vis quote dm [CloseArr] st')"
    using "5.prems" by (simp add: walk_token_value walk_tokens_append visited_def)
  have M: "map_value tr vis (ws_role ?b) (ws_valuePath ?b) (JArr vs) (ws_user st) =
      (case map_elems tr vis (ws_role ?b) (ws_valuePath ?b) 0 vs ?us of
         Inl e \<Rightarrow> Inl e | Inr r \<Rightarrow> Inr (JArr (fst r), vis CloseArr (ws_valuePath ?b) False (snd r)))"
    by (auto simp: b split: sum.split prod.split)
  have IH: "rel_sum (=) (elems_done quote ?top (f # fs) ?opened) (walk_tokens tr vis quote dm (elem_tokens vs) ?opened)
      (map_elems tr vis (ws_role ?b) (ws_valuePath ?b) 0 vs ?us)"
    using "5.IH"[of ?opened ?top "f # fs"] by (simp add: add_out_def visited_def open_frame_def b(1))
  show ?case unfolding W M
  proof (rule rel_sum_case[OF IH])
    fix st' r
    assume "elems_done quote ?top (f # fs) ?opened st' r"
    then show "rel_sum (=) (value_done quote ?b) (walk_tokens tr vis quote dm [CloseArr] st')
        (Inr (JArr (fst r), vis CloseArr (ws_valuePath ?b) False (snd r)))"
      by (auto simp: elems_done_def value_done_def walk_token_def walk_close_def settle_def b open_frame_def add_out_def visited_def)
  qed
next
  case (6 ms)
  let ?b = "before_value st" and ?top = "open_frame True (ws_role (before_value st)) (ws_valuePath (before_value st))"
  let ?opened = "add_out ''{'' (visited vis OpenObj ?b\<lparr>ws_stack := ?top # ws_stack ?b\<rparr>)"
  let ?us = "vis OpenObj (ws_valuePath ?b) False (ws_user ?b)"
  obtain f fs where b: "ws_stack ?b = f # fs" "ws_user ?b = ws_user st" using ws_before_value[OF "6.prems"(1)] by (cases "ws_stack ?b") auto
  have W: "walk_tokens tr vis quote dm (tokens (JObj ms)) st =
      (case walk_tokens tr vis quote dm (member_tokens ms) ?opened of Inl e \<Rightarrow> Inl e | Inr st' \<Rightarrow> walk_tokens tr vis quote dm [CloseObj] st')"
    using "6.prems" by (simp add: walk_token_value walk_tokens_append visited_def)
  have M: "map_value tr vis (ws_role ?b) (ws_valuePath ?b) (JObj ms) (ws_user st) =
      (case map_members tr vis (ws_role ?b) (ws_valuePath ?b) [] ms ?us of
         Inl e \<Rightarrow> Inl e | Inr r \<Rightarrow> Inr (JObj (fst r), vis CloseObj (ws_valuePath ?b) False (snd r)))"
    by (auto simp: b split: sum.split prod.split)
  have IH: "rel_sum (=) (members_done quote ?top (f # fs) ?opened) (walk_tokens tr vis quote dm (member_tokens ms) ?opened)
      (map_members tr vis (ws_role ?b) (ws_valuePath ?b) [] ms ?us)"
    using "6.IH"[of ?opened ?top "f # fs"] by (simp add: add_out_def visited_def open_frame_def b(1))
  show ?case unfolding W M
  proof (rule rel_sum_case[OF IH])
    fix st' r
    assume "members_done quote ?top (f # fs) ?opened st' r"
    then show "rel_sum (=) (value_done quote ?b) (walk_tokens tr vis quote dm [CloseObj] st')
        (Inr (JObj (fst r), vis CloseObj (ws_valuePath ?b) False (snd r)))"
      by (auto simp: members_done_def value_done_def walk_token_def walk_close_def settle_def b open_frame_def add_out_def visited_def)
  qed
next
  case 7
  then show ?case by (simp add: members_done_def)
next
  case (8 k v ms)
  show ?case
  proof (cases "member_key tr (fr_path fr) (fr_browserKeys fr) k (ws_user st)")
    case (Inl e)
    then show ?thesis using "8.prems" by (simp add: walk_token_def walk_key_def)
  next
    case (Inr kr)
    obtain key us where kr: "kr = (key, us)" by (cases kr)
    let ?ptr = "child_pointer (fr_path fr) key" and ?role = "child_role (fr_role fr) key"
    let ?us = "vis (TStr key) (fr_path fr) True us" and ?seen = "keys_seen (fr_path fr) (fr_browserKeys fr) key"
    let ?fr = "fr\<lparr>fr_count := fr_count fr + 1, fr_valuePath := ?ptr, fr_sawType := fr_sawType fr \<or> (rest = [] \<and> key = ''type''),
        fr_key := False, fr_browserKeys := ?seen\<rparr>"
    let ?st = "st\<lparr>ws_out := ws_out st @ comma (fr_count fr) @ quote key @ '':'', ws_role := ?role, ws_stack := ?fr # rest, ws_user := ?us\<rparr>"
    let ?next = "?fr\<lparr>fr_key := True\<rparr>"
    have b: "ws_role (before_value ?st) = ?role" "ws_valuePath (before_value ?st) = ?ptr" "ws_out (before_value ?st) = ws_out ?st"
      "settle (ws_stack (before_value ?st)) = ?next # rest" "ws_user ?st = ?us"
      using "8.prems" by (simp_all add: before_value_def Let_def settle_def)
    have W: "walk_tokens tr vis quote dm (member_tokens ((k, v) # ms)) st =
        (case walk_tokens tr vis quote dm (tokens v) ?st of Inl e \<Rightarrow> Inl e | Inr st' \<Rightarrow> walk_tokens tr vis quote dm (member_tokens ms) st')"
      using "8.prems" Inr kr by (simp add: walk_token_def walk_key_def walk_tokens_append)
    have M: "map_members tr vis (fr_role fr) (fr_path fr) (fr_browserKeys fr) ((k, v) # ms) (ws_user st) =
        (case map_value tr vis ?role ?ptr v ?us of
           Inl e \<Rightarrow> Inl e
         | Inr r \<Rightarrow> (case map_members tr vis (fr_role fr) (fr_path fr) ?seen ms (snd r) of
                       Inl e \<Rightarrow> Inl e | Inr r' \<Rightarrow> Inr ((key, fst r) # fst r', snd r')))"
      using Inr kr by (auto split: sum.split prod.split)
    have vd: "rel_sum (=) (value_done quote (before_value ?st)) (walk_tokens tr vis quote dm (tokens v) ?st) (map_value tr vis ?role ?ptr v ?us)"
      using "8.IH"(1)[of ?st ?fr rest, unfolded b] by simp
    show ?thesis unfolding W M
    proof (rule rel_sum_case[OF vd])
      fix st' r
      assume "value_done quote (before_value ?st) st' r"
      then have r: "ws_stack st' = ?next # rest" "ws_user st' = snd r"
        "ws_out st' = ws_out st @ comma (fr_count fr) @ quote key @ '':'' @ print_value quote (fst r)"
        unfolding value_done_def b by simp_all
      have IH: "rel_sum (=) (members_done quote ?next rest st') (walk_tokens tr vis quote dm (member_tokens ms) st')
          (map_members tr vis (fr_role fr) (fr_path fr) ?seen ms (snd r))"
        using "8.IH"(2)[OF r(1)] r(2) "8.prems" by simp
      have "rel_sum (=) (members_done quote fr rest st) (case walk_tokens tr vis quote dm (member_tokens ms) st' of Inl e \<Rightarrow> Inl e | Inr x \<Rightarrow> Inr x)
          (case map_members tr vis (fr_role fr) (fr_path fr) ?seen ms (snd r) of Inl e \<Rightarrow> Inl e | Inr r' \<Rightarrow> Inr ((key, fst r) # fst r', snd r'))"
        by (rule rel_sum_case[OF IH]) (use r in \<open>auto simp: members_done_def\<close>)
      then show "rel_sum (=) (members_done quote fr rest st) (walk_tokens tr vis quote dm (member_tokens ms) st')
          (case map_members tr vis (fr_role fr) (fr_path fr) ?seen ms (snd r) of Inl e \<Rightarrow> Inl e | Inr r' \<Rightarrow> Inr ((key, fst r) # fst r', snd r'))"
        by (simp add: sum_case_id)
    qed
  qed
next
  case 9
  then show ?case by (simp add: elems_done_def)
next
  case (10 v vs)
  let ?b = "before_value st" and ?p = "fr_path fr @ ''/'' @ decimal (fr_count fr)"
  let ?fr = "fr\<lparr>fr_valuePath := ?p, fr_count := fr_count fr + 1, fr_key := False\<rparr>"
  have b: "ws_role ?b = fr_role fr" "ws_valuePath ?b = ?p" "ws_out ?b = ws_out st @ comma (fr_count fr)"
    "settle (ws_stack ?b) = ?fr # rest"
    using "10.prems" by (simp_all add: before_value_def Let_def settle_def)
  have W: "walk_tokens tr vis quote dm (elem_tokens (v # vs)) st =
      (case walk_tokens tr vis quote dm (tokens v) st of Inl e \<Rightarrow> Inl e | Inr st' \<Rightarrow> walk_tokens tr vis quote dm (elem_tokens vs) st')"
    by (simp add: walk_tokens_append)
  have M: "map_elems tr vis (fr_role fr) (fr_path fr) (fr_count fr) (v # vs) (ws_user st) =
      (case map_value tr vis (ws_role ?b) (ws_valuePath ?b) v (ws_user st) of
         Inl e \<Rightarrow> Inl e
       | Inr r \<Rightarrow> (case map_elems tr vis (fr_role fr) (fr_path fr) (fr_count fr + 1) vs (snd r) of
                     Inl e \<Rightarrow> Inl e | Inr r' \<Rightarrow> Inr (fst r # fst r', snd r')))"
    by (auto simp: b split: sum.split prod.split)
  show ?case unfolding W M
  proof (rule rel_sum_case[OF "10.IH"(1)[OF "10.prems"(1,3)]])
    fix st' r
    assume r: "value_done quote ?b st' r"
    have IH: "rel_sum (=) (elems_done quote ?fr rest st') (walk_tokens tr vis quote dm (elem_tokens vs) st')
        (map_elems tr vis (fr_role fr) (fr_path fr) (fr_count fr + 1) vs (snd r))"
      using "10.IH"(2)[of st' ?fr rest] r "10.prems" by (simp add: value_done_def b)
    have "rel_sum (=) (elems_done quote fr rest st) (case walk_tokens tr vis quote dm (elem_tokens vs) st' of Inl e \<Rightarrow> Inl e | Inr x \<Rightarrow> Inr x)
        (case map_elems tr vis (fr_role fr) (fr_path fr) (fr_count fr + 1) vs (snd r) of Inl e \<Rightarrow> Inl e | Inr r' \<Rightarrow> Inr (fst r # fst r', snd r'))"
      by (rule rel_sum_case[OF IH]) (use r in \<open>auto simp: elems_done_def value_done_def b\<close>)
    then show "rel_sum (=) (elems_done quote fr rest st) (walk_tokens tr vis quote dm (elem_tokens vs) st')
        (case map_elems tr vis (fr_role fr) (fr_path fr) (fr_count fr + 1) vs (snd r) of Inl e \<Rightarrow> Inl e | Inr r' \<Rightarrow> Inr (fst r # fst r', snd r'))"
      by (simp add: sum_case_id)
  qed
qed

fun add_module :: "bool \<Rightarrow> json \<Rightarrow> json" where
  "add_module dm (JObj ms) = JObj (with_module dm ms)"
| "add_module dm v = v"

lemma print_members_snoc:
  "print_members quote n (ms @ [(k, v)]) = print_members quote n ms @ comma (n + length ms) @ quote k @ '':'' @ print_value quote v"
  by (induction ms arbitrary: n) (auto simp: comma_def)

text \<open>C15.  The token machine that rewrites a package.json writes the document whose targets and
  browser keys are transformed, every other value, key and their order as they were, with the module
  type added when the document has none; its callbacks see the values in the order of the document
  with the role and the JSON pointer of each.\<close>

theorem walk_is_map:
  assumes "dm \<longrightarrow> quote ''type'' = [DQ] @ ''type'' @ [DQ] \<and> quote ''module'' = [DQ] @ ''module'' @ [DQ]"
  shows "walk_manifest tr vis quote dm (tokens (JObj ms)) False us =
    (case map_value tr vis ''root'' [] (JObj ms) us of
       Inl e \<Rightarrow> Inl e
     | Inr (v, us') \<Rightarrow> Inr (print_value quote (add_module dm v), us'))"
proof -
  let ?fr = "open_frame True ''root'' []" and ?us = "vis OpenObj [] False us"
  let ?st = "\<lparr>ws_out = ''{'', ws_stack = [?fr], ws_role = ''root'', ws_valuePath = [], ws_user = ?us\<rparr>"
  let ?M = "map_members tr vis ''root'' [] [] ms ?us"
  have W: "walk_manifest tr vis quote dm (tokens (JObj ms)) False us =
      (case (case walk_tokens tr vis quote dm (member_tokens ms) ?st of Inl e \<Rightarrow> Inl e | Inr st \<Rightarrow> walk_tokens tr vis quote dm [CloseObj] st) of
         Inl e \<Rightarrow> Inl e
       | Inr st \<Rightarrow> if False then Inl BadJson else if ws_stack st \<noteq> [] then Inl EndsInside else Inr (ws_out st, ws_user st))"
    by (simp add: walk_manifest_def start_walk_def walk_token_def before_value_def visited_def add_out_def walk_tokens_append
        del: walk_tokens.simps(2) add: walk_tokens.simps(2)[of tr vis quote dm OpenObj])
  have run: "rel_sum (=) (members_done quote ?fr [] ?st) (walk_tokens tr vis quote dm (member_tokens ms) ?st) ?M"
    using walk_runs(2)[of ?st ?fr "[]"] by (simp add: open_frame_def)
  show ?thesis
  proof (cases ?M)
    case (Inl e)
    then have "walk_tokens tr vis quote dm (member_tokens ms) ?st = Inl e" using run Inl by (auto elim: rel_sum.cases)
    then show ?thesis unfolding W using Inl by simp
  next
    case (Inr r)
    then obtain st where st: "walk_tokens tr vis quote dm (member_tokens ms) ?st = Inr st" "members_done quote ?fr [] ?st st r"
      using run by (auto elim: rel_sum.cases)
    then show ?thesis unfolding W using Inr assms
      by (cases r) (auto simp: members_done_def walk_token_def walk_close_def open_frame_def with_module_def print_members_snoc module_member_def)
  qed
qed

section \<open>The manifest of a package\<close>

text \<open>The transform of \<open>runManifest\<close>: no runtime targets stand for a manifest as it is built.\<close>

definition manifest_transform ::
    "((string \<times> string) list \<Rightarrow> (string \<times> string) list) \<Rightarrow> string \<Rightarrow> runtime_target list option \<Rightarrow> runtime_target list option \<Rightarrow> unit transform" where
  "manifest_transform order tsx runtime declarations target role pointer is_key us =
     map_sum id (\<lambda>t. (t, us))
       (case runtime of
          None \<Rightarrow> if is_key then Inr target else emitted_file order target role pointer tsx
        | Some targets \<Rightarrow>
            if role \<noteq> ''js'' \<and> (role \<noteq> ''dts'' \<or> declarations = None) then Inr target
            else case project_manifest_target target pointer (if role = ''js'' then targets else the declarations) of
              Inl e \<Rightarrow> Inl e
            | Inr (projected, constrained) \<Rightarrow>
                if constrained \<or> declarations = None \<or> is_key then Inr projected else emitted_file order target role pointer tsx)"

definition run_manifest ::
    "((string \<times> string) list \<Rightarrow> (string \<times> string) list) \<Rightarrow> (string \<Rightarrow> string) \<Rightarrow> string \<Rightarrow> runtime_target list option \<Rightarrow> runtime_target list option
     \<Rightarrow> json_token list \<Rightarrow> bool \<Rightarrow> target_error + string" where
  "run_manifest order quote tsx runtime declarations ts broken =
     map_sum id (\<lambda>(out, _). out @ [NL])
       (walk_manifest (manifest_transform order tsx runtime declarations) (\<lambda>_ _ _ us. us) quote
          (runtime = None \<or> declarations \<noteq> None) ts broken ())"

section \<open>Runtime scopes\<close>

datatype structure_value =
    SKeys "string list"
  | SArr
  | SStr
  | SOther json_token

type_synonym scope_structure = "(string \<times> structure_value) list"

definition top_field :: "string \<Rightarrow> string" where
  "top_field pointer = hd (split_on SL (trim_prefix pointer ''/''))"

definition conditional_at :: "string \<Rightarrow> string list \<Rightarrow> bool" where
  "conditional_at pointer ks \<longleftrightarrow>
     (pointer = ''/exports'' \<or> has_prefix pointer ''/exports/'' \<or> has_prefix pointer ''/imports/'') \<and>
     \<not> (pointer = ''/exports'' \<and> list_ex (\<lambda>k. has_prefix k ''.'') ks)"

text \<open>A key or a closing brace comes after the opening one of its pointer, whose value is keys.\<close>

definition keys_at :: "scope_structure \<Rightarrow> string \<Rightarrow> string list" where
  "keys_at s pointer = (case map_of s pointer of Some (SKeys ks) \<Rightarrow> ks | _ \<Rightarrow> [])"

definition visit_structure :: "json_token \<Rightarrow> string \<Rightarrow> bool \<Rightarrow> scope_structure \<Rightarrow> scope_structure" where
  "visit_structure t pointer is_key s =
     (if map_of roleOfField (top_field pointer) \<noteq> Some ''js'' then s
      else case t of
        TStr k \<Rightarrow> AList.update pointer (if is_key then SKeys (keys_at s pointer @ [k]) else SStr) s
      | OpenObj \<Rightarrow> AList.update pointer (SKeys []) s
      | CloseObj \<Rightarrow>
          let ks = keys_at s pointer in
          if conditional_at pointer ks then s else AList.update pointer (SKeys (sort_strings ks)) s
      | OpenArr \<Rightarrow> AList.update pointer SArr s
      | CloseArr \<Rightarrow> s
      | _ \<Rightarrow> AList.update pointer (SOther t) s)"

definition same_map :: "('k \<times> 'v) list \<Rightarrow> ('k \<times> 'v) list \<Rightarrow> bool" where
  "same_map a b \<longleftrightarrow> list_all (\<lambda>k. map_of a k = map_of b k) (map fst a @ map fst b)"

type_synonym expected = "(string \<times> string) list"

definition expect_targets :: "runtime_target list \<Rightarrow> (expected \<times> scope_structure) transform" where
  "expect_targets targets target role pointer is_key us =
     (case runtime_manifest_target target role pointer targets of
        Inl e \<Rightarrow> Inl e
      | Inr (projected, constrained) \<Rightarrow>
          if is_key then Inr (projected, us)
          else Inr (target, (if constrained then AList.update pointer projected (fst us) else fst us, snd us)))"

definition same_target :: "string \<Rightarrow> string \<Rightarrow> string \<Rightarrow> bool" where
  "same_target a b pointer \<longleftrightarrow>
     (case (parse_manifest_target a pointer, parse_manifest_target b pointer) of
        (Inr p, Inr q) \<Rightarrow> map_option identity p = map_option identity q
      | _ \<Rightarrow> False)"

definition meet_targets :: "(expected \<times> scope_structure) transform" where
  "meet_targets target role pointer is_key us =
     (if is_key then Inr (target, us)
      else case map_of (fst us) pointer of
        None \<Rightarrow> Inr (target, us)
      | Some want \<Rightarrow>
          if same_target target want pointer then Inr (target, (AList.delete pointer (fst us), snd us))
          else Inl (OtherTarget pointer target want))"

definition visit_snd :: "(expected \<times> scope_structure) visit" where
  "visit_snd t pointer is_key us = (fst us, visit_structure t pointer is_key (snd us))"

record manifest_data =
  md_tokens :: "json_token list"
  md_broken :: bool
  md_value :: "(string \<times> json) list option"  \<comment> \<open>what \<open>json.Unmarshal\<close> reads\<close>

datatype scope_error =
    ReadFailed string
  | WalkFailed target_error
  | OmitsTargets "(string \<times> string) list"
  | ChangesStructure
  | Undecoded
  | ChangesField string

text \<open>\<open>same\<close> is \<open>reflect.DeepEqual\<close> on decoded values.\<close>

definition validate_runtime_scope ::
    "(string \<Rightarrow> string) \<Rightarrow> (json option \<Rightarrow> json option \<Rightarrow> bool) \<Rightarrow> (string \<Rightarrow> manifest_data option) \<Rightarrow> string \<Rightarrow> string \<Rightarrow> runtime_target list \<Rightarrow> scope_error option" where
  "validate_runtime_scope quote same read source runtime targets =
     (case (read source, read runtime) of
        (None, _) \<Rightarrow> Some (ReadFailed source)
      | (_, None) \<Rightarrow> Some (ReadFailed runtime)
      | (Some src, Some placed) \<Rightarrow>
          (case walk_manifest (expect_targets targets) visit_snd quote False (md_tokens src) (md_broken src) ([], []) of
             Inl e \<Rightarrow> Some (WalkFailed e)
           | Inr (_, wanted, structure1) \<Rightarrow>
               (case walk_manifest meet_targets visit_snd quote False (md_tokens placed) (md_broken placed) (wanted, []) of
                  Inl e \<Rightarrow> Some (WalkFailed e)
                | Inr (_, left, structure2) \<Rightarrow>
                    if left \<noteq> [] then Some (OmitsTargets left)
                    else if \<not> same_map structure1 structure2 then Some ChangesStructure
                    else case (md_value src, md_value placed) of
                      (Some a, Some b) \<Rightarrow>
                        if \<not> same (map_of (rev a) ''type'') (map_of (rev b) ''type'') then Some (ChangesField ''type'')
                        else if \<not> same (map_of (rev a) ''name'') (map_of (rev b) ''name'') then Some (ChangesField ''name'')
                        else None
                    | _ \<Rightarrow> Some Undecoded)))"

record scope_check =
  sc_source :: string
  sc_runtime :: string
  sc_targets :: "runtime_target list"

fun validate_runtime_scopes ::
    "(string \<Rightarrow> string) \<Rightarrow> (json option \<Rightarrow> json option \<Rightarrow> bool) \<Rightarrow> (string \<Rightarrow> manifest_data option) \<Rightarrow> scope_check list \<Rightarrow> scope_error option" where
  "validate_runtime_scopes quote same read [] = None"
| "validate_runtime_scopes quote same read (c # cs) =
     (case validate_runtime_scope quote same read (sc_source c) (sc_runtime c) (sc_targets c) of
        Some e \<Rightarrow> Some e
      | None \<Rightarrow> validate_runtime_scopes quote same read cs)"

section \<open>What a valid scope resolves\<close>

text \<open>The strings of a document, with pointer and role, in the order of the walk.\<close>

fun leaves :: "string \<Rightarrow> string \<Rightarrow> json \<Rightarrow> (string \<times> string \<times> string) list"
and leaves_members :: "string \<Rightarrow> string \<Rightarrow> (string \<times> json) list \<Rightarrow> (string \<times> string \<times> string) list"
and leaves_elems :: "string \<Rightarrow> string \<Rightarrow> nat \<Rightarrow> json list \<Rightarrow> (string \<times> string \<times> string) list" where
  "leaves role ptr (JStr s) = [(ptr, role, s)]"
| "leaves role ptr (JArr vs) = leaves_elems role ptr 0 vs"
| "leaves role ptr (JObj ms) = leaves_members role ptr ms"
| "leaves role ptr _ = []"
| "leaves_members role ptr [] = []"
| "leaves_members role ptr ((k, v) # ms) = leaves (child_role role k) (child_pointer ptr k) v @ leaves_members role ptr ms"
| "leaves_elems role ptr i [] = []"
| "leaves_elems role ptr i (v # vs) = leaves role (ptr @ ''/'' @ decimal i) v @ leaves_elems role ptr (i + 1) vs"

fun run_steps :: "('x \<Rightarrow> 'e \<Rightarrow> target_error + 'e) \<Rightarrow> 'x list \<Rightarrow> 'e \<Rightarrow> target_error + 'e" where
  "run_steps step [] e = Inr e"
| "run_steps step (x # xs) e = (case step x e of Inl err \<Rightarrow> Inl err | Inr e' \<Rightarrow> run_steps step xs e')"

lemma run_steps_append:
  "run_steps step (xs @ ys) e = (case run_steps step xs e of Inl err \<Rightarrow> Inl err | Inr e' \<Rightarrow> run_steps step ys e')"
  by (induction xs arbitrary: e) (auto split: sum.splits)

text \<open>Callbacks that keep the strings and act on the first part of the state one leaf at a time.\<close>

definition steps_by :: "('e \<times> 'v) transform \<Rightarrow> ('e \<times> 'v) visit \<Rightarrow> (string \<times> string \<times> string \<Rightarrow> 'e \<Rightarrow> target_error + 'e) \<Rightarrow> bool" where
  "steps_by tr vis step \<longleftrightarrow>
     (\<forall>s r p us s' us'. tr s r p False us = Inr (s', us') \<longrightarrow> s' = s \<and> step (p, r, s) (fst us) = Inr (fst us')) \<and>
     (\<forall>k r p us k' us'. tr k r p True us = Inr (k', us') \<longrightarrow> fst us' = fst us) \<and>
     (\<forall>t p b us. fst (vis t p b us) = fst us)"

lemma steps_by_value: "steps_by tr vis step \<Longrightarrow> tr s r p False us = Inr (s', us') \<Longrightarrow> s' = s \<and> step (p, r, s) (fst us) = Inr (fst us')"
  unfolding steps_by_def by blast

lemma steps_by_visit: "steps_by tr vis step \<Longrightarrow> fst (vis t p b us) = fst us"
  unfolding steps_by_def by blast

lemma steps_by_transformed: "steps_by tr vis step \<Longrightarrow> tr k r p True us = Inr (k', us') \<Longrightarrow> fst us' = fst us"
  unfolding steps_by_def by blast

lemma steps_by_key:
  assumes "steps_by tr vis step" "member_key tr p seen k us = Inr (k', us')"
  shows "fst us' = fst us"
proof -
  consider "us' = us" | "tr k ''js'' p True us = Inr (k', us')"
    using assms(2) by (auto simp: member_key_def split: if_splits sum.splits)
  then show ?thesis using steps_by_transformed[OF assms(1)] by cases simp_all
qed

lemma map_value_steps:
  "steps_by tr vis step \<Longrightarrow> map_value tr vis role ptr v us = Inr (v', us') \<Longrightarrow> run_steps step (leaves role ptr v') (fst us) = Inr (fst us')"
  "steps_by tr vis step \<Longrightarrow> map_members tr vis role ptr seen ms us = Inr (ms', us') \<Longrightarrow>
     run_steps step (leaves_members role ptr ms') (fst us) = Inr (fst us')"
  "steps_by tr vis step \<Longrightarrow> map_elems tr vis role ptr i vs us = Inr (vs', us') \<Longrightarrow>
     run_steps step (leaves_elems role ptr i vs') (fst us) = Inr (fst us')"
proof (induction tr vis role ptr v us and tr vis role ptr seen ms us and tr vis role ptr i vs us
    arbitrary: v' us' and ms' us' and vs' us' rule: map_value_map_members_map_elems.induct)
  case (4 tr vis role ptr s us)
  then obtain s' where s': "tr s role ptr False (vis (TStr s) ptr False us) = Inr (s', us')" "v' = JStr s'"
    by (auto split: sum.splits)
  show ?case using steps_by_value[OF "4.prems"(1) s'(1)] steps_by_visit[OF "4.prems"(1), of "TStr s" ptr False us] s'(2) by simp
next
  case (8 tr vis role ptr seen k v ms us)
  obtain k' us1 where k: "member_key tr ptr seen k us = Inr (k', us1)" using "8.prems" by (auto split: sum.splits)
  let ?us = "vis (TStr k') ptr True us1"
  obtain w us2 where w: "map_value tr vis (child_role role k') (child_pointer ptr k') v ?us = Inr (w, us2)"
    using "8.prems" k by (auto split: sum.splits)
  obtain ws where ws: "map_members tr vis role ptr (keys_seen ptr seen k') ms us2 = Inr (ws, us')" "ms' = (k', w) # ws"
    using "8.prems" k w by (auto split: sum.splits)
  have "fst ?us = fst us" using steps_by_visit[OF "8.prems"(1)] steps_by_key[OF "8.prems"(1) k] by simp
  then show ?case using "8.IH"(1)[OF k refl "8.prems"(1) w] "8.IH"(2)[OF k refl w refl "8.prems"(1) ws(1)] by (simp add: ws(2) run_steps_append)
qed (auto simp: steps_by_visit run_steps_append split: sum.splits prod.splits)

lemma map_value_same:
  "(\<And>s r p b us s' us'. tr s r p b us = Inr (s', us') \<Longrightarrow> s' = s) \<Longrightarrow> map_value tr vis role ptr v us = Inr (v', us') \<Longrightarrow> v' = v"
  "(\<And>s r p b us s' us'. tr s r p b us = Inr (s', us') \<Longrightarrow> s' = s) \<Longrightarrow> map_members tr vis role ptr seen ms us = Inr (ms', us') \<Longrightarrow> ms' = ms"
  "(\<And>s r p b us s' us'. tr s r p b us = Inr (s', us') \<Longrightarrow> s' = s) \<Longrightarrow> map_elems tr vis role ptr i vs us = Inr (vs', us') \<Longrightarrow> vs' = vs"
proof (induction tr vis role ptr v us and tr vis role ptr seen ms us and tr vis role ptr i vs us
    arbitrary: v' us' and ms' us' and vs' us' rule: map_value_map_members_map_elems.induct)
  case (4 tr vis role ptr s us)
  show ?case using "4.prems"(2) by (auto split: sum.splits dest: "4.prems"(1))
next
  case (8 tr vis role ptr seen k v ms us)
  obtain k' us1 where k: "member_key tr ptr seen k us = Inr (k', us1)" using "8.prems"(2) by (auto split: sum.splits)
  obtain w us2 where w: "map_value tr vis (child_role role k') (child_pointer ptr k') v (vis (TStr k') ptr True us1) = Inr (w, us2)"
    using "8.prems"(2) k by (auto split: sum.splits)
  obtain ws where ws: "map_members tr vis role ptr (keys_seen ptr seen k') ms us2 = Inr (ws, us')" "ms' = (k', w) # ws"
    using "8.prems"(2) k w by (auto split: sum.splits)
  have "k' = k" using k by (auto simp: member_key_def split: if_splits sum.splits dest: "8.prems"(1))
  then show ?case using "8.IH"(1)[OF k refl "8.prems"(1) w] "8.IH"(2)[OF k refl w refl "8.prems"(1) ws(1)] ws(2) by simp
qed (auto split: sum.splits prod.splits)

definition expect_step :: "runtime_target list \<Rightarrow> string \<times> string \<times> string \<Rightarrow> expected \<Rightarrow> target_error + expected" where
  "expect_step targets leaf e =
     (case leaf of (p, r, s) \<Rightarrow>
       case runtime_manifest_target s r p targets of
         Inl err \<Rightarrow> Inl err
       | Inr (projected, constrained) \<Rightarrow> Inr (if constrained then AList.update p projected e else e))"

definition meet_step :: "string \<times> string \<times> string \<Rightarrow> expected \<Rightarrow> target_error + expected" where
  "meet_step leaf e =
     (case leaf of (p, r, s) \<Rightarrow>
       case map_of e p of
         None \<Rightarrow> Inr e
       | Some want \<Rightarrow> if same_target s want p then Inr (AList.delete p e) else Inl (OtherTarget p s want))"

lemma expect_steps: "steps_by (expect_targets targets) visit_snd (expect_step targets)"
  by (auto simp: steps_by_def expect_targets_def expect_step_def visit_snd_def split: sum.splits if_splits)

lemma meet_steps: "steps_by meet_targets visit_snd meet_step"
  by (auto simp: steps_by_def meet_targets_def meet_step_def visit_snd_def split: option.splits if_splits)

lemma expected_lookup:
  "run_steps (expect_step targets) ls e = Inr e' \<Longrightarrow> distinct (map fst ls) \<Longrightarrow>
   (\<forall>(p, r, s) \<in> set ls. \<forall>want. runtime_manifest_target s r p targets = Inr (want, True) \<longrightarrow> map_of e' p = Some want) \<and>
   (\<forall>p. p \<notin> fst ` set ls \<longrightarrow> map_of e' p = map_of e p)"
proof (induction ls arbitrary: e)
  case (Cons leaf ls)
  obtain p r s where leaf: "leaf = (p, r, s)" by (cases leaf)
  obtain proj con where t: "runtime_manifest_target s r p targets = Inr (proj, con)"
    using Cons.prems(1) leaf by (auto simp: expect_step_def split: sum.splits)
  let ?e = "if con then AList.update p proj e else e"
  have "expect_step targets leaf e = Inr ?e" using t by (simp add: leaf expect_step_def)
  then have step: "run_steps (expect_step targets) ls ?e = Inr e'" using Cons.prems(1) by simp
  have new: "p \<notin> fst ` set ls" using Cons.prems(2) by (simp add: leaf)
  note ih = Cons.IH[OF step] Cons.prems(2)
  have "map_of e' p = map_of ?e p" using ih new by simp
  then have "con \<longrightarrow> map_of e' p = Some proj" by (simp add: update_conv')
  moreover have "map_of e' q = map_of e q" if "q \<notin> fst ` set (leaf # ls)" for q
    using ih that by (auto simp: leaf update_conv')
  ultimately show ?case using ih t leaf by auto
qed simp

lemma met_all:
  "run_steps meet_step ls e = Inr [] \<Longrightarrow> map_of e p = Some want \<Longrightarrow> \<exists>r s. (p, r, s) \<in> set ls \<and> same_target s want p"
proof (induction ls arbitrary: e)
  case (Cons leaf ls)
  obtain q r s where leaf: "leaf = (q, r, s)" by (cases leaf)
  show ?case
  proof (cases "q = p")
    case True
    then have "same_target s want p" using Cons.prems by (auto simp: leaf meet_step_def split: if_splits)
    then show ?thesis using True leaf by auto
  next
    case False
    obtain e2 where e2: "meet_step leaf e = Inr e2" "run_steps meet_step ls e2 = Inr []"
      using Cons.prems(1) by (auto split: sum.splits)
    then have "map_of e2 p = map_of e p"
      using False by (auto simp: leaf meet_step_def delete_conv' split: option.splits if_splits)
    then show ?thesis using Cons.IH[OF e2(2)] Cons.prems(2) by auto
  qed
qed simp

lemma walk_broken: "walk_manifest tr vis quote dm ts True us \<noteq> Inr r"
  by (auto simp: walk_manifest_def split: sum.splits)

lemma walk_Inr_map:
  assumes "walk_manifest tr vis quote False (tokens (JObj ms)) broken us = Inr (out, us')"
  shows "\<exists>doc. map_value tr vis ''root'' [] (JObj ms) us = Inr (doc, us')"
proof -
  have "\<not> broken" using assms walk_broken 
    by (intro notI) (use assms walk_broken[of tr vis quote False "tokens (JObj ms)" us "(out, us')"] in \<open>simp del: tokens.simps\<close>)
  then show ?thesis using assms walk_is_map[of False quote tr vis ms us] by (auto split: sum.splits)
qed

text \<open>C16.  A runtime package scope is accepted only when its manifest resolves as the authored one
  projected on the runtime modules: every authored target that names a runtime module has, at the
  same pointer of the placed manifest, a target that names the same path, the structure of the
  resolution fields is the same, and so are the package type and name.\<close>

theorem valid_scope_resolves:
  assumes "validate_runtime_scope quote same read source runtime targets = None"
    and "read source = Some src" "read runtime = Some placed"
    and "md_tokens src = tokens (JObj ms)" "md_tokens placed = tokens (JObj ns)"
  shows "\<exists>doc wanted struct1 struct2.
      map_value (expect_targets targets) visit_snd ''root'' [] (JObj ms) ([], []) = Inr (doc, wanted, struct1) \<and>
      map_value meet_targets visit_snd ''root'' [] (JObj ns) (wanted, []) = Inr (JObj ns, [], struct2) \<and>
      (\<forall>k. map_of struct1 k = map_of struct2 k) \<and>
      (distinct (map fst (leaves ''root'' [] doc)) \<longrightarrow>
        (\<forall>(p, r, s) \<in> set (leaves ''root'' [] doc). \<forall>want. runtime_manifest_target s r p targets = Inr (want, True) \<longrightarrow>
          (\<exists>r' t. (p, r', t) \<in> set (leaves ''root'' [] (JObj ns)) \<and> same_target t want p)))"
proof -
  obtain out1 wanted struct1 where s1: "walk_manifest (expect_targets targets) visit_snd quote False (md_tokens src) (md_broken src) ([], []) = Inr (out1, wanted, struct1)"
    using assms(1-3) by (auto simp: validate_runtime_scope_def split: sum.splits)
  obtain out2 struct2 where s2: "walk_manifest meet_targets visit_snd quote False (md_tokens placed) (md_broken placed) (wanted, []) = Inr (out2, [], struct2)"
    and st: "same_map struct1 struct2"
    using assms(1-3) s1 by (auto simp: validate_runtime_scope_def split: sum.splits if_splits)
  obtain doc where doc: "map_value (expect_targets targets) visit_snd ''root'' [] (JObj ms) ([], []) = Inr (doc, wanted, struct1)"
    using walk_Inr_map[OF s1[unfolded assms(4)]] by blast
  obtain doc2 where doc2: "map_value meet_targets visit_snd ''root'' [] (JObj ns) (wanted, []) = Inr (doc2, [], struct2)"
    using walk_Inr_map[OF s2[unfolded assms(5)]] by blast
  have "doc2 = JObj ns"
    by (rule map_value_same(1)[OF _ doc2]) (auto simp: meet_targets_def split: option.splits if_splits)
  moreover have "map_of struct1 k = map_of struct2 k" for k
  proof (cases "k \<in> fst ` set struct1 \<union> fst ` set struct2")
    case True
    then show ?thesis using st by (auto simp: same_map_def list_all_iff)
  next
    case False
    then have "map_of struct1 k = None" "map_of struct2 k = None" by (simp_all add: map_of_eq_None_iff)
    then show ?thesis by simp
  qed
  moreover have "\<exists>r' t. (p, r', t) \<in> set (leaves ''root'' [] doc2) \<and> same_target t want p"
    if "distinct (map fst (leaves ''root'' [] doc))" "(p, r, s) \<in> set (leaves ''root'' [] doc)"
      "runtime_manifest_target s r p targets = Inr (want, True)" for p r s want
  proof -
    have "run_steps (expect_step targets) (leaves ''root'' [] doc) [] = Inr wanted"
      using map_value_steps(1)[OF expect_steps doc] by simp
    then have "map_of wanted p = Some want" using expected_lookup[OF _ that(1)] that(2,3) by fastforce
    moreover have "run_steps meet_step (leaves ''root'' [] doc2) wanted = Inr []"
      using map_value_steps(1)[OF meet_steps doc2] by simp
    ultimately show ?thesis using met_all by blast
  qed
  ultimately show ?thesis using doc doc2 by blast
qed

definition demo_quote :: "string \<Rightarrow> string" where
  "demo_quote s = [DQ] @ s @ [DQ]"

theorem walk_is_map_witness:
  "walk_manifest (manifest_transform (\<lambda>xs. xs) ''.js'' None None) (\<lambda>_ _ _ us. us) demo_quote True
     (tokens (JObj [(''main'', JStr ''src/a.tsx''), (''keep'', JArr [JNum ''1'', JStr ''b.ts''])])) False () =
   Inr ([CHR ''{''] @ demo_quote ''main'' @ '':'' @ demo_quote ''src/a.js'' @ '','' @ demo_quote ''keep'' @ '':[1,'' @ demo_quote ''b.ts'' @ ''],''
     @ module_member @ ''}'', ())"
proof -
  let ?ms = "[(''main'', JStr ''src/a.tsx''), (''keep'', JArr [JNum ''1'', JStr ''b.ts''])]"
  have "(case map_value (manifest_transform (\<lambda>xs. xs) ''.js'' None None) (\<lambda>_ _ _ us. us) ''root'' [] (JObj ?ms) () of
       Inl e \<Rightarrow> Inl e | Inr (v, us') \<Rightarrow> Inr (print_value demo_quote (add_module True v), us')) =
     Inr ([CHR ''{''] @ demo_quote ''main'' @ '':'' @ demo_quote ''src/a.js'' @ '','' @ demo_quote ''keep'' @ '':[1,'' @ demo_quote ''b.ts'' @ ''],''
     @ module_member @ ''}'', ())" by code_simp
  moreover have "True \<longrightarrow> demo_quote ''type'' = [DQ] @ ''type'' @ [DQ] \<and> demo_quote ''module'' = [DQ] @ ''module'' @ [DQ]"
    by (simp add: demo_quote_def)
  ultimately show ?thesis using walk_is_map[of True demo_quote] by metis
qed

definition demo_authored :: manifest_data where
  "demo_authored =
     \<lparr>md_tokens = tokens (JObj [(''main'', JStr ''./src/a.ts''), (''type'', JStr ''module'')]), md_broken = False,
      md_value = Some [(''main'', JStr ''./src/a.ts''), (''type'', JStr ''module'')]\<rparr>"

definition demo_placed :: manifest_data where
  "demo_placed =
     \<lparr>md_tokens = tokens (JObj [(''type'', JStr ''module''), (''main'', JStr ''lib/../src/a.js'')]), md_broken = False,
      md_value = Some [(''type'', JStr ''module''), (''main'', JStr ''lib/../src/a.js'')]\<rparr>"

definition demo_read :: "string \<Rightarrow> manifest_data option" where
  "demo_read f = (if f = ''src'' then Some demo_authored else Some demo_placed)"

theorem valid_scope_resolves_witness:
  "\<exists>r' t. (''/main'', r', t) \<in> set (leaves ''root'' [] (JObj [(''type'', JStr ''module''), (''main'', JStr ''lib/../src/a.js'')])) \<and>
     same_target t ''./src/a.js'' ''/main''"
proof -
  let ?targets = "[\<lparr>rt_source = ''./src/a.ts'', rt_runtime = ''./src/a.js''\<rparr>]"
  have ok: "validate_runtime_scope demo_quote (\<lambda>a b. a = b) demo_read ''src'' ''out'' ?targets = None" by code_simp
  have doc: "case map_value (expect_targets ?targets) visit_snd ''root'' [] (JObj [(''main'', JStr ''./src/a.ts''), (''type'', JStr ''module'')]) ([], []) of
      Inr (doc, _) \<Rightarrow> doc = JObj [(''main'', JStr ''./src/a.ts''), (''type'', JStr ''module'')] | _ \<Rightarrow> False" by code_simp
  have main: "(''/main'', ''js'', ''./src/a.ts'') \<in> set (leaves ''root'' [] (JObj [(''main'', JStr ''./src/a.ts''), (''type'', JStr ''module'')]))"
    by code_simp
  have dist: "distinct (map fst (leaves ''root'' [] (JObj [(''main'', JStr ''./src/a.ts''), (''type'', JStr ''module'')])))" by code_simp
  have want: "runtime_manifest_target ''./src/a.ts'' ''js'' ''/main'' ?targets = Inr (''./src/a.js'', True)" by code_simp
  have "demo_read ''src'' = Some demo_authored" "demo_read ''out'' = Some demo_placed" by (simp_all add: demo_read_def)
  from valid_scope_resolves[OF ok this, unfolded demo_authored_def demo_placed_def manifest_data.simps, OF refl refl]
  obtain d wanted struct1 where d: "map_value (expect_targets ?targets) visit_snd ''root'' [] (JObj [(''main'', JStr ''./src/a.ts''), (''type'', JStr ''module'')]) ([], []) =
      Inr (d, wanted, struct1)"
    and all: "distinct (map fst (leaves ''root'' [] d)) \<longrightarrow>
        (\<forall>(p, r, s) \<in> set (leaves ''root'' [] d). \<forall>want. runtime_manifest_target s r p ?targets = Inr (want, True) \<longrightarrow>
          (\<exists>r' t. (p, r', t) \<in> set (leaves ''root'' [] (JObj [(''type'', JStr ''module''), (''main'', JStr ''lib/../src/a.js'')])) \<and> same_target t want p))"
    by blast
  have "d = JObj [(''main'', JStr ''./src/a.ts''), (''type'', JStr ''module'')]" using doc unfolding d by simp
  note all[unfolded this, THEN mp, OF dist, THEN bspec, OF main]
  then show ?thesis using want by blast
qed

end
