(* ===== verification/LcovMerger.thy ===== *)
theory LcovMerger imports GoStrings GoPath begin

text \<open>
  \<open>tools/lcov_merger/main.go\<close>: the .dat files of a coverage run merged into one report, kept to
  the files the coverage manifest selected.  The walk of the coverage directory is the list of
  entries \<open>filepath.WalkDir\<close> visits, in its order; \<open>regexp.Compile\<close> on a user's pattern is the
  parameter \<open>compile\<close>, which gives the predicate of the anchored expression.
\<close>

section \<open>Records\<close>

abbreviation eor :: string where "eor \<equiv> ''end_of_record''"

text \<open>The loop over the lines with the record being gathered and the records cut so far.\<close>

fun split_records_loop :: "string list \<Rightarrow> string list \<Rightarrow> string list \<Rightarrow> string list" where
  "split_records_loop [] cur out = (if cur \<noteq> [] then out @ [unlines cur] else out)"
| "split_records_loop (l # ls) cur out =
     (if l = eor then split_records_loop ls [] (out @ [unlines (cur @ [l])])
      else split_records_loop ls (cur @ [l]) out)"

definition split_records :: "string \<Rightarrow> string list" where
  "split_records text = split_records_loop (lines_of (trim_suffix text [NL])) [] []"

fun first_sf :: "string list \<Rightarrow> string" where
  "first_sf [] = []"
| "first_sf (l # ls) = (case cut_prefix l ''SF:'' of Some rest \<Rightarrow> rest | None \<Rightarrow> first_sf ls)"

definition source_file :: "string \<Rightarrow> string" where
  "source_file rec = first_sf (lines_of rec)"

section \<open>The manifest\<close>

definition key :: "string \<Rightarrow> string" where
  "key p0 =
     (let p = trim_space p0 in
      if p = [] then []
      else
        let p' = (case cut_prefix p ''bazel-out/'' of
                    Some rest \<Rightarrow> (let parts = split_n SL 3 rest in if length parts = 3 then parts ! 2 else p)
                  | None \<Rightarrow> p)
        in trim_suffix p' (path_ext p'))"

definition read_manifest :: "string \<Rightarrow> string set" where
  "read_manifest data = {k \<in> key ` set (lines_of data). k \<noteq> []}"

definition any_match :: "(string \<Rightarrow> bool) list \<Rightarrow> string \<Rightarrow> bool" where
  "any_match res s \<longleftrightarrow> list_ex (\<lambda>re. re s) res"

section \<open>The merge\<close>

record walk_entry =
  we_path :: string
  we_dir :: bool
  we_err :: bool
  we_data :: "string option"  \<comment> \<open>what reading the file gives\<close>

datatype merge_error = ManifestUnreadable | BadPattern string | WalkFailed string | Unreadable string

fun compile_all :: "(string \<Rightarrow> (string \<Rightarrow> bool) option) \<Rightarrow> string list \<Rightarrow> merge_error + (string \<Rightarrow> bool) list" where
  "compile_all compile [] = Inr []"
| "compile_all compile (p # ps) =
     (case compile (''^(?:'' @ p @ '')$'') of
        None \<Rightarrow> Inl (BadPattern p)
      | Some re \<Rightarrow> (case compile_all compile ps of Inl e \<Rightarrow> Inl e | Inr res \<Rightarrow> Inr (re # res)))"

definition keeps :: "string set \<Rightarrow> (string \<Rightarrow> bool) list \<Rightarrow> string \<Rightarrow> bool" where
  "keeps selected dropping rec \<longleftrightarrow>
     key (source_file rec) \<in> selected \<and> \<not> any_match dropping (source_file rec)"

text \<open>The walk with the records kept so far; the first error ends it.\<close>

fun walk_dat :: "(string \<Rightarrow> bool) \<Rightarrow> walk_entry list \<Rightarrow> string list \<Rightarrow> merge_error + string list" where
  "walk_dat kp [] kept = Inr kept"
| "walk_dat kp (e # es) kept =
     (if we_err e then Inl (WalkFailed (we_path e))
      else if we_dir e \<or> \<not> has_suffix (we_path e) ''.dat'' then walk_dat kp es kept
      else case we_data e of
        None \<Rightarrow> Inl (Unreadable (we_path e))
      | Some data \<Rightarrow> walk_dat kp es (kept @ filter kp (split_records data)))"

definition merge ::
    "(string \<Rightarrow> (string \<Rightarrow> bool) option) \<Rightarrow> string option \<Rightarrow> string list \<Rightarrow> walk_entry list \<Rightarrow> merge_error + string" where
  "merge compile manifest drop_pats entries =
     (case manifest of
        None \<Rightarrow> Inl ManifestUnreadable
      | Some data \<Rightarrow>
          (case compile_all compile drop_pats of
             Inl e \<Rightarrow> Inl e
           | Inr dropping \<Rightarrow>
               (case walk_dat (keeps (read_manifest data) dropping) entries [] of
                  Inl e \<Rightarrow> Inl e
                | Inr kept \<Rightarrow> Inr (if kept = [] then [] else unlines kept @ [NL]))))"

record merger_flags =
  coverage_dir :: string
  output_file :: string
  source_file_manifest :: string
  filter_sources :: "string list"
  extra_args :: nat

text \<open>\<open>run\<close> past the flag parser: the exit code and the report written, if one is.  \<open>manifest\<close>
  and \<open>walk\<close> read the disk and \<open>writable\<close> says whether the report can be written.\<close>

definition run_merger ::
    "(string \<Rightarrow> (string \<Rightarrow> bool) option) \<Rightarrow> (string \<Rightarrow> string option) \<Rightarrow> (string \<Rightarrow> walk_entry list) \<Rightarrow>
     (string \<Rightarrow> bool) \<Rightarrow> merger_flags option \<Rightarrow> nat \<times> (string \<times> string) option" where
  "run_merger compile read_file walk writable flags =
     (case flags of
        None \<Rightarrow> (2, None)
      | Some f \<Rightarrow>
          if coverage_dir f = [] \<or> output_file f = [] \<or> source_file_manifest f = [] \<or> extra_args f > 0
          then (2, None)
          else case merge compile (read_file (source_file_manifest f)) (filter_sources f) (walk (coverage_dir f)) of
            Inl e \<Rightarrow> (1, None)
          | Inr report \<Rightarrow>
              if writable (output_file f) then (0, Some (output_file f, report)) else (1, None))"

section \<open>Splitting loses nothing\<close>

lemma unlines_append: "a \<noteq> [] \<Longrightarrow> b \<noteq> [] \<Longrightarrow> unlines (a @ b) = unlines a @ [NL] @ unlines b"
proof (induction a)
  case (Cons x xs)
  then show ?case by (cases xs) (auto simp: unlines_def join_on_Cons)
qed simp

lemma join_snoc: "xs \<noteq> [] \<Longrightarrow> unlines (xs @ [x]) = unlines xs @ [NL] @ x"
  using unlines_append[of xs "[x]"] by (simp add: unlines_def)

text \<open>The lines of a whole record: none but the last is the end mark.\<close>

definition whole :: "string list \<Rightarrow> bool" where
  "whole ls \<longleftrightarrow> ls \<noteq> [] \<and> last ls = eor \<and> eor \<notin> set (butlast ls)"

text \<open>The groups of lines the loop cuts, before they are joined.\<close>

fun groups :: "string list \<Rightarrow> string list \<Rightarrow> string list list" where
  "groups [] cur = (if cur \<noteq> [] then [cur] else [])"
| "groups (l # ls) cur = (if l = eor then (cur @ [l]) # groups ls [] else groups ls (cur @ [l]))"

lemma split_records_groups: "split_records_loop ls cur out = out @ map unlines (groups ls cur)"
  by (induction ls cur out rule: split_records_loop.induct) auto

lemma concat_groups: "concat (groups ls cur) = cur @ ls"
  by (induction ls cur rule: groups.induct) auto

lemma groups_neq_Nil: "[] \<notin> set (groups ls cur)"
  by (induction ls cur rule: groups.induct) auto

lemma unlines_concat:
  "[] \<notin> set gs \<Longrightarrow> unlines (map unlines gs) = unlines (concat gs)"
proof (induction gs)
  case (Cons g gs)
  then show ?case
  proof (cases "gs = []")
    case False
    with Cons.prems have "g \<noteq> []" "concat gs \<noteq> []" by (cases gs; auto)+
    then show ?thesis
      using Cons False by (simp add: unlines_append) (simp add: unlines_def join_on_Cons)
  qed (simp add: unlines_def)
qed (simp add: unlines_def)

lemma groups_whole:
  "eor \<notin> set cur \<Longrightarrow> ls \<noteq> [] \<Longrightarrow> last ls = eor \<Longrightarrow> g \<in> set (groups ls cur) \<Longrightarrow> whole g"
  by (induction ls cur rule: groups.induct) (auto simp: whole_def split: if_splits)

lemma groups_append:
  "whole (cur @ g) \<Longrightarrow> g \<noteq> [] \<Longrightarrow> groups (g @ ls) cur = (cur @ g) # groups ls []"
proof (induction g arbitrary: cur)
  case (Cons x xs)
  show ?case
  proof (cases "xs = []")
    case True
    with Cons.prems show ?thesis by (auto simp: whole_def)
  next
    case False
    then have "x \<noteq> eor" using Cons.prems by (auto simp: whole_def butlast_append split: if_splits)
    with False Cons.IH[of "cur @ [x]"] Cons.prems show ?thesis by simp
  qed
qed simp

lemma groups_concat: "(\<And>g. g \<in> set gs \<Longrightarrow> whole g) \<Longrightarrow> groups (concat gs) [] = gs"
proof (induction gs)
  case (Cons g gs)
  then show ?case
    using groups_append[of "[]" g "concat gs"] by (auto simp: whole_def)
qed simp

lemma trim_newline [simp]: "trim_suffix (s @ [NL]) [NL] = s"
  by (simp add: trim_suffix_append)

text \<open>A .dat file is complete when its last line is the end mark.\<close>

definition complete_dat :: "string \<Rightarrow> bool" where
  "complete_dat text \<longleftrightarrow> last (lines_of (trim_suffix text [NL])) = eor"

definition whole_record :: "string \<Rightarrow> bool" where
  "whole_record r \<longleftrightarrow> whole (lines_of r)"

lemma groups_lines_no_NL:
  "g \<in> set (groups ls cur) \<Longrightarrow> l \<in> set g \<Longrightarrow> l \<in> set (cur @ ls)"
  using concat_groups[of ls cur] by (metis UN_I set_concat)

lemma split_records_whole:
  assumes "complete_dat text" and "r \<in> set (split_records text)"
  shows "whole_record r"
proof -
  let ?ls = "lines_of (trim_suffix text [NL])"
  obtain g where g: "g \<in> set (groups ?ls [])" "r = unlines g"
    using assms(2) by (auto simp: split_records_def split_records_groups)
  have "whole g" using groups_whole[OF _ _ _ g(1)] assms(1) by (simp add: complete_dat_def)
  moreover have "lines_of r = g"
    using g groups_neq_Nil[of ?ls "[]"] groups_lines_no_NL[OF g(1)] lines_of_no_NL
    by (auto intro!: unlines_lines)
  ultimately show ?thesis by (simp add: whole_record_def)
qed

lemma split_whole_records:
  assumes "rs \<noteq> []" and "\<And>r. r \<in> set rs \<Longrightarrow> whole_record r"
  shows "split_records (unlines rs @ [NL]) = rs"
proof -
  let ?gs = "map lines_of rs"
  have "unlines rs = unlines (map unlines ?gs)" by (simp add: comp_def lines_unlines)
  also have "\<dots> = unlines (concat ?gs)"
    by (rule unlines_concat) (auto dest: arg_cong[of _ _ "\<lambda>l. l = []"])
  finally have u: "unlines rs = unlines (concat ?gs)" .
  have "lines_of (unlines (concat ?gs)) = concat ?gs"
    using assms(1) lines_of_no_NL by (intro unlines_lines) (auto simp: concat_eq_Nil_conv)
  moreover have "groups (concat ?gs) [] = ?gs"
    using assms(2) by (intro groups_concat) (auto simp: whole_record_def)
  ultimately show ?thesis
    by (simp add: split_records_def split_records_groups u comp_def lines_unlines)
qed

text \<open>The files the walk reads.\<close>

definition dat_files :: "walk_entry list \<Rightarrow> walk_entry list" where
  "dat_files es = filter (\<lambda>e. \<not> we_dir e \<and> has_suffix (we_path e) ''.dat'') es"

lemma walk_dat_Inr:
  "walk_dat kp es kept = Inr out \<Longrightarrow>
     out = kept @ filter kp (concat (map (\<lambda>e. split_records (the (we_data e))) (dat_files es)))"
proof (induction es arbitrary: kept)
  case (Cons e es)
  have ne: "\<not> we_err e" using Cons.prems by (auto split: if_splits)
  show ?case
  proof (cases "we_dir e \<or> \<not> has_suffix (we_path e) ''.dat''")
    case True
    with ne Cons show ?thesis by (auto simp: dat_files_def)
  next
    case False
    then obtain data where "we_data e = Some data"
      using ne Cons.prems by (auto split: option.splits)
    with False ne Cons.prems Cons.IH[of "kept @ filter kp (split_records data)"]
    show ?thesis by (simp add: dat_files_def)
  qed
qed (simp add: dat_files_def)

section \<open>Properties\<close>

text \<open>Cutting an lcov text at its end marks loses nothing: its records joined again are the
  text less its final newline.\<close>

theorem split_records_lossless: "unlines (split_records text) = trim_suffix text [NL]"
  using unlines_concat[OF groups_neq_Nil, of "lines_of (trim_suffix text [NL])" "[]"]
  by (simp add: split_records_def split_records_groups concat_groups lines_unlines)

text \<open>C29. When every .dat file of the run ends with its end mark, the merged report cuts back into
  exactly the records of those files, in the order of the walk, that the manifest selects and no
  pattern drops.  A file without its end mark would fuse with the one after it.\<close>

theorem merge_selects_records:
  assumes "merge compile (Some manifest) pats entries = Inr report"
    and "compile_all compile pats = Inr dropping"
    and "\<forall>e \<in> set (dat_files entries). complete_dat (the (we_data e))"
  shows "(if report = [] then [] else split_records report) =
    filter (keeps (read_manifest manifest) dropping)
      (concat (map (\<lambda>e. split_records (the (we_data e))) (dat_files entries)))"
proof -
  let ?k = "keeps (read_manifest manifest) dropping"
  let ?rs = "filter ?k (concat (map (\<lambda>e. split_records (the (we_data e))) (dat_files entries)))"
  obtain kept where w: "walk_dat ?k entries [] = Inr kept"
    and r: "report = (if kept = [] then [] else unlines kept @ [NL])"
    using assms(1,2) by (auto simp: merge_def split: sum.splits)
  have k: "kept = ?rs" using walk_dat_Inr[OF w] by simp
  have "whole_record x" if "x \<in> set ?rs" for x
    using that assms(3) split_records_whole by auto
  then show ?thesis using split_whole_records[of ?rs] by (auto simp: r k)
qed

definition demo_dat :: string where
  "demo_dat = unlines [''TN:'', ''SF:bazel-out/k8/bin/a/x.js'', ''LF:3'', eor, ''SF:a/y.js'', eor] @ [NL]"

theorem merge_selects_records_witness:
  "split_records (unlines [''TN:'', ''SF:bazel-out/k8/bin/a/x.js'', ''LF:3'', eor] @ [NL]) =
     [unlines [''TN:'', ''SF:bazel-out/k8/bin/a/x.js'', ''LF:3'', eor]]"
proof -
  let ?es = "[\<lparr>we_path = ''d'', we_dir = True, we_err = False, we_data = None\<rparr>,
     \<lparr>we_path = ''d/c.dat'', we_dir = False, we_err = False, we_data = Some demo_dat\<rparr>]"
  let ?r = "unlines [''TN:'', ''SF:bazel-out/k8/bin/a/x.js'', ''LF:3'', eor] @ [NL]"
  have m: "merge (\<lambda>_. Some (\<lambda>_. False)) (Some ''a/x.ts'') [] ?es = Inr ?r" by code_simp
  have c: "compile_all (\<lambda>_. Some (\<lambda>_. False)) [] = Inr []" by simp
  have d: "\<forall>e \<in> set (dat_files ?es). complete_dat (the (we_data e))" by code_simp
  have f: "filter (keeps (read_manifest ''a/x.ts'') [])
      (concat (map (\<lambda>e. split_records (the (we_data e))) (dat_files ?es))) =
     [unlines [''TN:'', ''SF:bazel-out/k8/bin/a/x.js'', ''LF:3'', eor]]"
    by code_simp
  have "?r \<noteq> []" by simp
  then show ?thesis using merge_selects_records[OF m c d] f by (simp only: if_False)
qed

end
