(* ===== verification/Changelog.thy ===== *)
theory Changelog imports GoStrings GoPath "HOL-Library.Multiset" begin

text \<open>
  \<open>tools/changelog/main.go\<close>: the fragments of changelog.d/ assembled into one section of
  CHANGELOG.md.  A Go map is iterated in no fixed order, so \<open>render\<close> takes the order in which the
  loop over \<open>grouped\<close> meets the sections.  The checkout is a value: the directory listing, the
  text of CHANGELOG.md, and which of the two kinds of write succeed.
\<close>

section \<open>Fragments\<close>

record fragment =
  fr_name :: string
  fr_section :: string
  fr_body :: string

datatype changelog_error =
    EmptyFragment string | NoHeading string string | NoEntry string | SecondSection string string
  | ReadFailed string | NoRelease | WriteFailed | RemoveFailed string | ExtraArgument

definition section_heading :: "string \<Rightarrow> string option" where
  "section_heading line =
     (if \<not> has_prefix line ''### '' then None
      else let name = trim_space (trim_prefix line ''### '') in if name \<noteq> [] then Some name else None)"

fun stray_loop :: "bool \<Rightarrow> string list \<Rightarrow> string option" where
  "stray_loop fenced [] = None"
| "stray_loop fenced (l # ls) =
     (if has_prefix (trim_space l) [BQ, BQ, BQ] then stray_loop (\<not> fenced) ls
      else if \<not> fenced \<and> has_prefix l ''###'' then Some l
      else stray_loop fenced ls)"

definition stray_heading :: "string \<Rightarrow> string option" where
  "stray_heading body = stray_loop False (lines_of body)"

definition parse_fragment :: "string \<Rightarrow> string \<Rightarrow> changelog_error + fragment" where
  "parse_fragment name text =
     (let ls = dropWhile (\<lambda>l. trim_space l = []) (lines_of (replace_all text [CR, NL] [NL])) in
      case ls of
        [] \<Rightarrow> Inl (EmptyFragment name)
      | h # rest \<Rightarrow>
          (case section_heading h of
             None \<Rightarrow> Inl (NoHeading name h)
           | Some heading \<Rightarrow>
               (let body = trim_cut (unlines rest) [NL] in
                if trim_space body = [] then Inl (NoEntry name)
                else case stray_heading body of
                  Some l \<Rightarrow> Inl (SecondSection name l)
                | None \<Rightarrow> Inr \<lparr>fr_name = name, fr_section = heading, fr_body = body\<rparr>)))"

section \<open>The checkout\<close>

record dir_entry =
  en_name :: string
  en_dir :: bool
  en_data :: "string option"

record checkout =
  ck_fragments :: "dir_entry list option"  \<comment> \<open>None: changelog.d does not exist\<close>
  ck_log :: "string option"

fun parse_names :: "dir_entry list \<Rightarrow> string list \<Rightarrow> changelog_error + fragment list" where
  "parse_names es [] = Inr []"
| "parse_names es (n # ns) =
     (case find (\<lambda>e. en_name e = n) es of
        None \<Rightarrow> Inl (ReadFailed n)
      | Some e \<Rightarrow>
          (case en_data e of
             None \<Rightarrow> Inl (ReadFailed n)
           | Some body \<Rightarrow>
               (case parse_fragment n body of
                  Inl er \<Rightarrow> Inl er
                | Inr f \<Rightarrow>
                    (case parse_names es ns of Inl er \<Rightarrow> Inl er | Inr fs \<Rightarrow> Inr (f # fs)))))"

definition fragment_names :: "dir_entry list \<Rightarrow> string list" where
  "fragment_names es =
     sort_strings (map en_name
       (filter (\<lambda>e. \<not> en_dir e \<and> has_suffix (en_name e) ''.md'' \<and> en_name e \<noteq> ''README.md'') es))"

definition read_fragments :: "dir_entry list option \<Rightarrow> changelog_error + fragment list" where
  "read_fragments dir =
     (case dir of None \<Rightarrow> Inr [] | Some es \<Rightarrow> parse_names es (fragment_names es))"

section \<open>Rendering\<close>

definition known_sections :: "string list" where
  "known_sections = [''Added'', ''Changed'', ''Deprecated'', ''Removed'', ''Fixed'', ''Security'']"

fun rank_from :: "int \<Rightarrow> string list \<Rightarrow> string \<Rightarrow> int" where
  "rank_from i [] x = -1"
| "rank_from i (k # ks) x = (if x = k then i else rank_from (i + 1) ks x)"

definition section_rank :: "string \<Rightarrow> int" where
  "section_rank x = rank_from 0 known_sections x"

definition section_order :: "string list \<Rightarrow> string list" where
  \<comment> \<open>the sections as the loop over the map meets them, put in the order of the output\<close>
  "section_order met =
     (let breaking = filter (\<lambda>x. has_prefix x ''Breaking'') met;
          known = filter (\<lambda>x. \<not> has_prefix x ''Breaking'' \<and> section_rank x \<ge> 0) met;
          other = filter (\<lambda>x. \<not> has_prefix x ''Breaking'' \<and> \<not> section_rank x \<ge> 0) met
      in sort_strings breaking @ sort_key section_rank known @ sort_strings other)"

definition render :: "string list \<Rightarrow> fragment list \<Rightarrow> string \<Rightarrow> string" where
  "render met fragments version =
     (let title = (if version \<noteq> [] then ''['' @ version @ '']'' else ''[Unreleased]'')
      in ''## '' @ title @ [NL] @
         concat (map (\<lambda>s. [NL] @ ''### '' @ s @ [NL, NL] @
             concat (map (\<lambda>f. fr_body f @ [NL]) (filter (\<lambda>f. fr_section f = s) fragments)))
           (section_order met)))"

section \<open>Splicing\<close>

fun first_release :: "nat \<Rightarrow> string list \<Rightarrow> nat option" where
  "first_release i [] = None"
| "first_release i (l # ls) = (if has_prefix l ''## '' then Some i else first_release (Suc i) ls)"

definition splice :: "string \<Rightarrow> string \<Rightarrow> changelog_error + string" where
  "splice changelog sect =
     (let ls = lines_of changelog in
      case first_release 0 ls of
        None \<Rightarrow> Inl NoRelease
      | Some i \<Rightarrow>
          Inr (trim_right_cut (unlines (take i ls)) [NL] @ [NL, NL] @ sect @ [NL] @ unlines (drop i ls)))"

section \<open>The command\<close>

record changelog_flags =
  cf_write :: bool
  cf_version :: string
  cf_extra :: nat

text \<open>The removals after CHANGELOG.md is written; the first that fails ends them.\<close>

fun remove_fragments :: "(string \<Rightarrow> bool) \<Rightarrow> string list \<Rightarrow> dir_entry list \<Rightarrow> changelog_error option \<times> dir_entry list" where
  "remove_fragments removable [] es = (None, es)"
| "remove_fragments removable (n # ns) es =
     (if \<not> removable n then (Some (RemoveFailed n), es)
      else remove_fragments removable ns (filter (\<lambda>e. en_name e \<noteq> n) es))"

text \<open>\<open>run\<close> past the flag parser and \<open>repoRoot\<close>: the error or the text printed (None for the
  fixed messages), and the checkout it leaves.\<close>

definition run_changelog ::
    "(fragment list \<Rightarrow> string list) \<Rightarrow> bool \<Rightarrow> (string \<Rightarrow> bool) \<Rightarrow> changelog_flags \<Rightarrow> checkout \<Rightarrow>
     (changelog_error + string option) \<times> checkout" where
  "run_changelog met writable removable fl ck =
     (if cf_extra fl > 0 then (Inl ExtraArgument, ck)
      else case read_fragments (ck_fragments ck) of
        Inl e \<Rightarrow> (Inl e, ck)
      | Inr fragments \<Rightarrow>
          if fragments = [] then (Inr None, ck)
          else
            let sect = render (met fragments) fragments (cf_version fl) in
            if \<not> cf_write fl then (Inr (Some sect), ck)
            else case ck_log ck of
              None \<Rightarrow> (Inl (ReadFailed ''CHANGELOG.md''), ck)
            | Some before \<Rightarrow>
                (case splice before sect of
                   Inl e \<Rightarrow> (Inl e, ck)
                 | Inr after \<Rightarrow>
                     if \<not> writable then (Inl WriteFailed, ck)
                     else
                       (case remove_fragments removable (map fr_name fragments) (the (ck_fragments ck)) of
                          (er, es) \<Rightarrow>
                            ((case er of Some e \<Rightarrow> Inl e | None \<Rightarrow> Inr None),
                             \<lparr>ck_fragments = Some es, ck_log = Some after\<rparr>))))"

section \<open>The order of the sections\<close>

lemma rank_from_bound: "rank_from i ks x \<noteq> -1 \<Longrightarrow> 0 \<le> i \<Longrightarrow> i \<le> rank_from i ks x"
  by (induction i ks x rule: rank_from.induct) (auto split: if_splits)

lemma rank_from_inj:
  "0 \<le> i \<Longrightarrow> 0 \<le> rank_from i ks x \<Longrightarrow> rank_from i ks x = rank_from i ks y \<Longrightarrow> x = y"
proof (induction i ks x rule: rank_from.induct)
  case (2 i k ks x)
  show ?case
  proof (cases "x = k \<or> y = k")
    case True
    then show ?thesis
      using 2(2-4) rank_from_bound[of "i + 1" ks x] rank_from_bound[of "i + 1" ks y]
      by (auto split: if_splits)
  next
    case False
    with 2 show ?thesis by simp
  qed
qed simp

lemma sort_strings_set_eq:
  "distinct xs \<Longrightarrow> distinct ys \<Longrightarrow> set xs = set ys \<Longrightarrow> sort_strings xs = sort_strings ys"
  by (rule sorted_strings_unique) simp_all

lemma sort_key_set_eq:
  fixes xs ys :: "'a list" and k :: "'a \<Rightarrow> 'b::linorder"
  assumes "distinct xs" "distinct ys" "set xs = set ys" "inj_on k (set xs)"
  shows "sort_key k xs = sort_key k ys"
proof -
  have "map k (sort_key k xs) = map k (sort_key k ys)"
  proof (rule sorted_distinct_set_unique)
    show "distinct (map k (sort_key k xs))" "distinct (map k (sort_key k ys))"
      using assms by (auto simp: distinct_map)
  qed (use assms in auto)
  then show ?thesis by (rule map_inj_on) (use assms in auto)
qed

lemma section_order_set_eq:
  assumes "distinct xs" "distinct ys" "set xs = set ys"
  shows "section_order xs = section_order ys"
proof -
  have "sort_key section_rank (filter P xs) = sort_key section_rank (filter P ys)"
    if "\<forall>x. P x \<longrightarrow> section_rank x \<ge> 0" for P
    using that assms
    by (intro sort_key_set_eq)
      (auto simp: inj_on_def section_rank_def intro: rank_from_inj[of 0 known_sections])
  moreover have "sort_strings (filter P xs) = sort_strings (filter P ys)" for P
    using assms by (intro sort_strings_set_eq) auto
  ultimately show ?thesis by (simp add: section_order_def Let_def)
qed

lemma set_section_order [simp]: "set (section_order met) = set met"
  by (auto simp: section_order_def Let_def)

lemma distinct_section_order: "distinct met \<Longrightarrow> distinct (section_order met)"
  by (auto simp: section_order_def Let_def)

section \<open>Splicing keeps the text\<close>

lemma first_release_Some:
  "first_release i ls = Some j \<Longrightarrow>
     i \<le> j \<and> j - i < length ls \<and> has_prefix (ls ! (j - i)) ''## '' \<and>
     (\<forall>l \<in> set (take (j - i) ls). \<not> has_prefix l ''## '')"
proof (induction i ls rule: first_release.induct)
  case (2 i l ls)
  show ?case
  proof (cases "has_prefix l ''## ''")
    case False
    with 2 have h: "Suc i \<le> j \<and> j - Suc i < length ls \<and> has_prefix (ls ! (j - Suc i)) ''## '' \<and>
      (\<forall>l \<in> set (take (j - Suc i) ls). \<not> has_prefix l ''## '')" by simp
    from h have "Suc i \<le> j" by blast
    then have "j - i = Suc (j - Suc i)" by arith
    with h False show ?thesis by auto
  qed (use 2 in auto)
qed simp

lemma unlines_take_drop:
  "0 < i \<Longrightarrow> i < length ls \<Longrightarrow> unlines ls = unlines (take i ls) @ [NL] @ unlines (drop i ls)"
proof (induction ls arbitrary: i)
  case (Cons l ls)
  show ?case
  proof (cases "i = 1")
    case True
    with Cons.prems show ?thesis by (cases ls) (auto simp: unlines_def)
  next
    case False
    with Cons.prems obtain n where n: "i = Suc n" "0 < n" "n < length ls" by (cases i) auto
    then have "take n ls \<noteq> []" "ls \<noteq> []" by auto
    then show ?thesis using Cons.IH[of n] n by (simp add: unlines_def join_on_Cons)
  qed
qed simp

lemma splice_Inr:
  assumes "splice log sect = Inr out"
  obtains pre post where "log = pre @ post" "has_prefix post ''## ''" "pre = [] \<or> last pre = NL"
    "\<forall>l \<in> set (butlast (lines_of pre)). \<not> has_prefix l ''## ''"
    "out = trim_right_cut pre [NL] @ [NL, NL] @ sect @ [NL] @ post"
proof -
  let ?ls = "lines_of log"
  obtain i where i: "first_release 0 ?ls = Some i"
    and out: "out = trim_right_cut (unlines (take i ?ls)) [NL] @ [NL, NL] @ sect @ [NL] @ unlines (drop i ?ls)"
    using assms by (auto simp: splice_def Let_def split: option.splits)
  from first_release_Some[OF i] have f: "i < length ?ls" "has_prefix (?ls ! i) ''## ''"
    "\<forall>l \<in> set (take i ?ls). \<not> has_prefix l ''## ''" by auto
  have post: "has_prefix (unlines (drop i ?ls)) ''## ''"
  proof -
    have "drop i ?ls = ?ls ! i # drop (Suc i) ?ls" using f(1) by (simp add: Cons_nth_drop_Suc)
    then show ?thesis using f(2)
      by (cases "drop (Suc i) ?ls") (auto simp: unlines_def prefix_def)
  qed
  show ?thesis
  proof (cases i)
    case 0
    then show ?thesis
      using that[of "[]" log] post out by (simp add: lines_unlines) (simp add: unlines_def lines_of_def)
  next
    case (Suc n)
    let ?pre = "unlines (take i ?ls) @ [NL]"
    have nn: "take i ?ls \<noteq> []" using Suc f(1) by auto
    have "log = ?pre @ unlines (drop i ?ls)"
      using unlines_take_drop[of i ?ls] f(1) Suc by (simp add: lines_unlines)
    moreover have "lines_of ?pre = take i ?ls @ [[]]"
    proof -
      have "lines_of ?pre = lines_of (unlines (take i ?ls)) @ [[]]"
        by (simp add: lines_of_def split_on_append_sep)
      moreover have "lines_of (unlines (take i ?ls)) = take i ?ls"
        using nn by (intro unlines_lines) (auto dest: in_set_takeD lines_of_no_NL)
      ultimately show ?thesis by simp
    qed
    moreover have "trim_right_cut ?pre [NL] = trim_right_cut (unlines (take i ?ls)) [NL]"
      by (simp add: trim_right_cut_def)
    ultimately show ?thesis using that[of ?pre "unlines (drop i ?ls)"] post f(3) out by simp
  qed
qed

lemma read_fragments_names:
  "parse_names es ns = Inr fs \<Longrightarrow> map fr_name fs = ns"
  by (induction es ns arbitrary: fs rule: parse_names.induct)
    (auto split: option.splits sum.splits simp: parse_fragment_def Let_def split: list.splits if_splits)

lemma remove_fragments_keeps:
  "remove_fragments removable ns es = (er, es') \<Longrightarrow> e \<in> set es \<Longrightarrow> e \<notin> set es' \<Longrightarrow> en_name e \<in> set ns"
  by (induction removable ns es rule: remove_fragments.induct) (auto split: if_splits)

lemma sublist_concat: "x \<in> set xs \<Longrightarrow> sublist x (concat xs)"
  by (auto dest!: split_list)

lemma render_bodies:
  assumes "f \<in> set fs" and "fr_section f \<in> set met"
  shows "contains_str (render met fs v) (fr_body f)"
proof -
  let ?b = "\<lambda>s. concat (map (\<lambda>f. fr_body f @ [NL]) (filter (\<lambda>x. fr_section x = s) fs))"
  let ?g = "\<lambda>s. [NL] @ ''### '' @ s @ [NL, NL] @ ?b s"
  have "sublist (fr_body f @ [NL]) (?b (fr_section f))"
    using assms(1) by (intro sublist_concat) auto
  then have "sublist (fr_body f) (?b (fr_section f))"
    using sublist_order.order_trans sublist_append_rightI by blast
  also have "sublist (?b (fr_section f)) (([NL] @ ''### '' @ fr_section f @ [NL, NL]) @ ?b (fr_section f))"
    by (rule sublist_append_leftI)
  also have "\<dots> = ?g (fr_section f)" by simp
  also have "sublist (?g (fr_section f)) (concat (map ?g (section_order met)))"
    using assms(2) by (intro sublist_concat) (simp only: set_map set_section_order image_eqI)
  also have "sublist (concat (map ?g (section_order met))) (render met fs v)"
    unfolding render_def Let_def append_assoc[symmetric] by (rule sublist_append_leftI)
  finally show ?thesis .
qed

lemma parse_names_member:
  "parse_names es ns = Inr fs \<Longrightarrow> n \<in> set ns \<Longrightarrow>
     \<exists>e body f. find (\<lambda>e. en_name e = n) es = Some e \<and> en_data e = Some body \<and>
       parse_fragment n body = Inr f \<and> f \<in> set fs"
proof (induction ns arbitrary: fs)
  case (Cons m ns)
  then obtain e body f fs' where m: "find (\<lambda>e. en_name e = m) es = Some e" "en_data e = Some body"
      "parse_fragment m body = Inr f" "parse_names es ns = Inr fs'" "fs = f # fs'"
    by (auto split: option.splits sum.splits)
  show ?case
  proof (cases "n = m")
    case False
    then show ?thesis using Cons.IH[OF m(4)] Cons.prems(2) m(5) by auto
  qed (use m in auto)
qed simp

lemma find_distinct:
  "distinct (map en_name es) \<Longrightarrow> e \<in> set es \<Longrightarrow> find (\<lambda>x. en_name x = en_name e) es = Some e"
  by (induction es) auto

section \<open>Properties\<close>

text \<open>The section the fragments add up to does not depend on the order in which the loop over
  the map meets the headings, and under its headings every fragment stands exactly once.\<close>

theorem render_order_irrelevant:
  assumes "distinct met" "distinct met'"
    and "set met = fr_section ` set fragments" "set met' = fr_section ` set fragments"
  shows "render met fragments v = render met' fragments v \<and>
    mset (concat (map (\<lambda>s. filter (\<lambda>f. fr_section f = s) fragments) (section_order met))) = mset fragments"
proof
  have "section_order met = section_order met'" using assms by (intro section_order_set_eq) auto
  then show "render met fragments v = render met' fragments v" by (simp only: render_def)
  have "filter_mset (\<lambda>f. fr_section f \<in> set met) (mset fragments) = mset fragments"
    unfolding filter_mset_eq_conv using assms(3) by auto
  then show "mset (concat (map (\<lambda>s. filter (\<lambda>f. fr_section f = s) fragments) (section_order met))) = mset fragments"
    using assms by (simp add: mset_concat_classes distinct_section_order)
qed

definition demo_fragments :: "fragment list" where
  "demo_fragments =
     [\<lparr>fr_name = ''1.md'', fr_section = ''Fixed'', fr_body = ''- a''\<rparr>,
      \<lparr>fr_name = ''2.md'', fr_section = ''Breaking'', fr_body = ''- b''\<rparr>,
      \<lparr>fr_name = ''3.md'', fr_section = ''Fixed'', fr_body = ''- c''\<rparr>]"

theorem render_order_irrelevant_witness:
  "render [''Fixed'', ''Breaking''] demo_fragments ''1.0'' = render [''Breaking'', ''Fixed''] demo_fragments ''1.0'' \<and>
   section_order [''Fixed'', ''Breaking''] = [''Breaking'', ''Fixed'']"
proof -
  have "distinct [''Fixed'', ''Breaking'']" "distinct [''Breaking'', ''Fixed'']"
    "set [''Fixed'', ''Breaking''] = fr_section ` set demo_fragments"
    "set [''Breaking'', ''Fixed''] = fr_section ` set demo_fragments"
    by (auto simp: demo_fragments_def)
  from render_order_irrelevant[OF this, of "''1.0''"]
  have "render [''Fixed'', ''Breaking''] demo_fragments ''1.0'' = render [''Breaking'', ''Fixed''] demo_fragments ''1.0''" ..
  moreover have "section_order [''Fixed'', ''Breaking''] = [''Breaking'', ''Fixed'']" by code_simp
  ultimately show ?thesis ..
qed

text \<open>Splicing cuts the changelog at its first line that opens with "## " and puts the section
  there: everything from that line on is kept byte for byte, and of the text above only the line
  breaks it ends in change.\<close>

theorem splice_keeps_text:
  assumes "splice log sect = Inr out"
  shows "\<exists>pre post. log = pre @ post \<and> has_prefix post ''## '' \<and> (pre = [] \<or> last pre = NL) \<and>
    (\<forall>l \<in> set (butlast (lines_of pre)). \<not> has_prefix l ''## '') \<and>
    out = trim_right_cut pre [NL] @ [NL, NL] @ sect @ [NL] @ post"
  using assms by (rule splice_Inr) blast

definition demo_log :: string where
  "demo_log = unlines [''# Changelog'', [], [], ''## [1.0]'', ''- x'']"

theorem splice_keeps_text_witness:
  "splice demo_log ''S'' = Inr (unlines [''# Changelog'', [], ''S'', ''## [1.0]'', ''- x'']) \<and>
   (\<exists>pre post. demo_log = pre @ post \<and> has_prefix post ''## '')"
proof -
  have h: "splice demo_log ''S'' = Inr (unlines [''# Changelog'', [], ''S'', ''## [1.0]'', ''- x''])"
    by code_simp
  from splice_keeps_text[OF h] show ?thesis using h by blast
qed

text \<open>C28. A run never loses an entry: whatever fails, a file of changelog.d that is gone after the
  run was a fragment that parses, and its body stands in the CHANGELOG.md the run leaves.\<close>

theorem run_keeps_fragments:
  assumes "run_changelog met writable removable fl ck = (res, ck')"
    and "ck_fragments ck = Some es" "ck_fragments ck' = Some es'" "distinct (map en_name es)"
    and "\<And>fs. fr_section ` set fs \<subseteq> set (met fs)"
    and "e \<in> set es" "e \<notin> set es'"
  shows "\<exists>body f log. en_data e = Some body \<and> parse_fragment (en_name e) body = Inr f \<and>
    ck_log ck' = Some log \<and> contains_str log (fr_body f)"
proof -
  have "es' \<noteq> es" using assms(6,7) by blast
  then obtain fs before out er where fs: "parse_names es (fragment_names es) = Inr fs"
    and sp: "splice before (render (met fs) fs (cf_version fl)) = Inr out"
    and rm: "remove_fragments removable (map fr_name fs) es = (er, es')"
    and log: "ck_log ck' = Some out"
    using assms(1-3)
    by (auto simp: run_changelog_def read_fragments_def Let_def
        split: if_splits sum.splits option.splits prod.splits)
  have "en_name e \<in> set (fragment_names es)"
    using remove_fragments_keeps[OF rm assms(6,7)] read_fragments_names[OF fs] by simp
  from parse_names_member[OF fs this] obtain body f
    where f: "en_data e = Some body" "parse_fragment (en_name e) body = Inr f" "f \<in> set fs"
    using find_distinct[OF assms(4,6)] by auto
  have "sublist (fr_body f) (render (met fs) fs (cf_version fl))"
    using f(3) assms(5) by (intro render_bodies) auto
  moreover obtain a b where "out = a @ render (met fs) fs (cf_version fl) @ b"
    using sp by (rule splice_Inr) (metis append.assoc)
  ultimately have "sublist (fr_body f) out"
    using sublist_order.order_trans sublist_appendI by metis
  with f log show ?thesis by blast
qed

theorem run_keeps_fragments_witness:
  "parse_fragment ''1.md'' (unlines [''### Fixed'', [], ''- a'']) = Inr \<lparr>fr_name = ''1.md'', fr_section = ''Fixed'', fr_body = ''- a''\<rparr>
   \<and> (\<exists>log. snd (run_changelog (map fr_section) True (\<lambda>_. True) \<lparr>cf_write = True, cf_version = [], cf_extra = 0\<rparr>
        \<lparr>ck_fragments = Some [\<lparr>en_name = ''1.md'', en_dir = False, en_data = Some (unlines [''### Fixed'', [], ''- a''])\<rparr>],
         ck_log = Some demo_log\<rparr>) = \<lparr>ck_fragments = Some [], ck_log = Some log\<rparr> \<and> contains_str log ''- a'')"
proof -
  let ?e = "\<lparr>en_name = ''1.md'', en_dir = False, en_data = Some (unlines [''### Fixed'', [], ''- a''])\<rparr>"
  let ?log = "unlines [''# Changelog'', [], ''## [Unreleased]'', [], ''### Fixed'', [], ''- a'', [], ''## [1.0]'', ''- x'']"
  have r: "run_changelog (map fr_section) True (\<lambda>_. True) \<lparr>cf_write = True, cf_version = [], cf_extra = 0\<rparr>
      \<lparr>ck_fragments = Some [?e], ck_log = Some demo_log\<rparr> = (Inr None, \<lparr>ck_fragments = Some [], ck_log = Some ?log\<rparr>)"
    by code_simp
  have f: "parse_fragment ''1.md'' (unlines [''### Fixed'', [], ''- a'']) = Inr \<lparr>fr_name = ''1.md'', fr_section = ''Fixed'', fr_body = ''- a''\<rparr>"
    by code_simp
  from run_keeps_fragments[OF r, of "[?e]" "[]" ?e] have "contains_str ?log ''- a''"
    by (auto simp: f)
  with r f show ?thesis by auto
qed

end
