(* ===== verification/Release.thy ===== *)
theory Release imports GoStrings GoPath GoRegexp begin

text \<open>
  \<open>tools/release/main.go\<close>: the release tool.  Git and the disk are an environment: what its two
  queries print, what the files hold, and which mutating steps fail.  A run returns its error and
  the mutating steps it attempted, in order; the progress messages are not modelled.
\<close>

section \<open>The expressions\<close>

abbreviation num1 :: re where "num1 \<equiv> plusC True is_digit"

definition semver :: re where
  "semver = seqs [num1, Lit ''.'', num1, Lit ''.'', num1,
     opt (Seq (Lit ''-'') (plusC True (\<lambda>c. is_lower c \<or> is_upper c \<or> is_digit c \<or> c = CHR ''.'' \<or> c = CHR ''_'')))]"

definition moduleName :: re where
  "moduleName = seqs [BolM, StarC True space_byte,
     Lit (''name = '' @ [DQ] @ ''rules_typescript'' @ [DQ] @ '','')]"

definition versionKV :: re where
  "versionKV = seqs
     [Grp 1 (Seq (StarC True space_byte) (Lit (''version = '' @ [DQ]))),
      Grp 2 (StarC True (\<lambda>c. c \<noteq> DQ)), Grp 3 (Seq (Lit [DQ]) (opt (Lit '','')))]"

definition toolsVersion :: re where
  "toolsVersion = seqs [BolM, Lit (''TOOLS_VERSION = '' @ [DQ]), Grp 1 num1, Lit [DQ], EolM]"

section \<open>The files\<close>

datatype release_error =
    BadUsage | InvalidVersion string | NoRoot | GitFailed | TagExists string | NotClean
  | Unreadable string | WrongModule | NoVersionField | StepFailed | NoToolsLine
  | LockDiffers string string

definition locked_tools_version :: "string \<Rightarrow> release_error + string" where
  "locked_tools_version src =
     (case search toolsVersion src of
        None \<Rightarrow> Inl NoToolsLine
      | Some (_, _, m) \<Rightarrow> Inr (cap m 1))"

text \<open>The loop over the lines of MODULE.bazel with its two flags: the lines after, and the old
  version.\<close>

fun bump :: "bool \<Rightarrow> bool \<Rightarrow> string \<Rightarrow> string list \<Rightarrow> release_error + (string list \<times> string)" where
  "bump in_module saw v [] = Inl NoVersionField"
| "bump in_module saw v (l # ls) =
     (let inm = (if has_prefix l ''module('' then True
                 else if in_module \<and> has_prefix l '')'' then False else in_module);
          keep = (\<lambda>r. case r of Inl e \<Rightarrow> Inl e | Inr (ls', old) \<Rightarrow> Inr (l # ls', old))
      in if \<not> inm then keep (bump inm saw v ls)
         else
           let saw' = (saw \<or> match_string moduleName l) in
           case submatch versionKV l of
             None \<Rightarrow> keep (bump inm saw' v ls)
           | Some m \<Rightarrow>
               if \<not> saw' then Inl WrongModule
               else Inr ((cap m 1 @ v @ cap m 3) # ls, cap m 2))"

definition set_module_version :: "string \<Rightarrow> string \<Rightarrow> release_error + (string \<times> string)" where
  "set_module_version src v =
     (case bump False False v (lines_of src) of
        Inl e \<Rightarrow> Inl e
      | Inr (ls, old) \<Rightarrow> Inr (unlines ls, old))"

text \<open>\<open>repoRoot\<close>: the directories from \<open>dir\<close> up to the one that is its own parent.\<close>

definition up_measure :: "string \<Rightarrow> nat" where
  "up_measure d = (if d = ''.'' then 0 else Suc (length d))"

lemma up_measure_dir: "path_dir d \<noteq> d \<Longrightarrow> up_measure (path_dir d) < up_measure d"
proof -
  assume n: "path_dir d \<noteq> d"
  have "path_dir [SL] = [SL]" by code_simp
  moreover have "path_dir ''.'' = ''.''" by code_simp
  ultimately show ?thesis using n path_dir_shorter[of d] by (auto simp: up_measure_def)
qed

function search_up :: "(string \<Rightarrow> bool) \<Rightarrow> string \<Rightarrow> string option" where
  "search_up ok dir =
     (if ok dir then Some dir
      else let parent = path_dir dir in if parent = dir then None else search_up ok parent)"
  by pat_completeness auto
termination
  by (relation "measure (\<lambda>(ok, d). up_measure d)") (auto intro: up_measure_dir)

declare search_up.simps [simp del]

definition repo_root :: "(string \<Rightarrow> string option) \<Rightarrow> string option \<Rightarrow> string \<Rightarrow> string option" where
  "repo_root read_file getwd working_dir =
     (case (if working_dir = [] then getwd else Some working_dir) of
        None \<Rightarrow> None
      | Some dir \<Rightarrow>
          search_up (\<lambda>d. case read_file (path_join [d, ''MODULE.bazel'']) of
             None \<Rightarrow> False | Some body \<Rightarrow> match_string moduleName body) dir)"

section \<open>The steps\<close>

datatype step = WriteModule string | GitStep "string list"

record repo_env =
  re_root :: "string option"
  re_module :: "string option"
  re_lock :: "string option"
  re_tags :: "string \<Rightarrow> string option"  \<comment> \<open>what \<open>git tag --list\<close> prints\<close>
  re_status :: "string option"
  re_fails :: "step \<Rightarrow> bool"

type_synonym outcome = "release_error option \<times> step list"

definition attempt_step :: "repo_env \<Rightarrow> step \<Rightarrow> step list \<Rightarrow> outcome" where
  "attempt_step env s log = (if re_fails env s then Some StepFailed else None, log @ [s])"

definition git_write :: "repo_env \<Rightarrow> bool \<Rightarrow> string list \<Rightarrow> step list \<Rightarrow> outcome" where
  "git_write env dry args log = (if dry then (None, log) else attempt_step env (GitStep args) log)"

definition and_then :: "outcome \<Rightarrow> (step list \<Rightarrow> outcome) \<Rightarrow> outcome" where
  "and_then r k = (case r of (Some e, log) \<Rightarrow> (Some e, log) | (None, log) \<Rightarrow> k log)"

definition require_clean :: "repo_env \<Rightarrow> release_error option" where
  "require_clean env =
     (case re_status env of
        None \<Rightarrow> Some GitFailed
      | Some out \<Rightarrow> if trim_space out \<noteq> [] then Some NotClean else None)"

definition require_no_tag :: "repo_env \<Rightarrow> string \<Rightarrow> release_error option" where
  "require_no_tag env tag =
     (case re_tags env tag of
        None \<Rightarrow> Some GitFailed
      | Some out \<Rightarrow> if trim_space out \<noteq> [] then Some (TagExists tag) else None)"

definition push_tag :: "repo_env \<Rightarrow> bool \<Rightarrow> string \<Rightarrow> string \<Rightarrow> step list \<Rightarrow> outcome" where
  "push_tag env dry remote tag log = git_write env dry [''push'', remote, tag] log"

record release_flags =
  rf_dry :: bool
  rf_push :: bool
  rf_remote :: string

definition tag_step :: "string \<Rightarrow> string \<Rightarrow> string list" where
  "tag_step tag message = [''tag'', ''-a'', tag, ''-m'', message]"

definition finish :: "repo_env \<Rightarrow> release_flags \<Rightarrow> string \<Rightarrow> step list \<Rightarrow> outcome" where
  \<comment> \<open>the push, if asked for, after the tag\<close>
  "finish env fl tag log =
     (if rf_push fl then push_tag env (rf_dry fl) (rf_remote fl) tag log else (None, log))"

definition run_tools :: "repo_env \<Rightarrow> release_flags \<Rightarrow> string \<Rightarrow> outcome" where
  "run_tools env fl n =
     (if \<not> match_string toolsVersion (''TOOLS_VERSION = '' @ [DQ] @ n @ [DQ]) then (Some (InvalidVersion n), [])
      else
        let tag = ''tools-v'' @ n in
        if re_root env = None then (Some NoRoot, [])
        else case re_lock env of
          None \<Rightarrow> (Some (Unreadable ''ts/private/tools_lock.bzl''), [])
        | Some lock \<Rightarrow>
            (case locked_tools_version lock of
               Inl e \<Rightarrow> (Some e, [])
             | Inr locked \<Rightarrow>
                 if locked \<noteq> n then (Some (LockDiffers locked n), [])
                 else case require_no_tag env tag of
                   Some e \<Rightarrow> (Some e, [])
                 | None \<Rightarrow>
                     (case require_clean env of
                        Some e \<Rightarrow> (Some e, [])
                      | None \<Rightarrow>
                          and_then (git_write env (rf_dry fl) (tag_step tag (''rules_typescript tools '' @ n)) [])
                            (finish env fl tag))))"

definition run_module :: "repo_env \<Rightarrow> release_flags \<Rightarrow> string \<Rightarrow> outcome" where
  "run_module env fl version =
     (if submatch semver version = None then (Some (InvalidVersion version), [])
      else
        let tag = ''v'' @ version in
        if re_root env = None then (Some NoRoot, [])
        else case require_no_tag env tag of
          Some e \<Rightarrow> (Some e, [])
        | None \<Rightarrow>
            (case require_clean env of
               Some e \<Rightarrow> (Some e, [])
             | None \<Rightarrow>
                 (case re_module env of
                    None \<Rightarrow> (Some (Unreadable ''MODULE.bazel''), [])
                  | Some before \<Rightarrow>
                      (case set_module_version before version of
                         Inl e \<Rightarrow> (Some e, [])
                       | Inr (after, old) \<Rightarrow>
                           and_then
                             (if old = version then (None, [])
                              else and_then
                                (if rf_dry fl then (None, []) else attempt_step env (WriteModule after) [])
                                (\<lambda>log. and_then (git_write env (rf_dry fl) [''add'', ''MODULE.bazel''] log)
                                   (git_write env (rf_dry fl) [''commit'', ''-m'', ''chore: release '' @ tag])))
                             (\<lambda>log. and_then
                                (git_write env (rf_dry fl) (tag_step tag (''rules_typescript '' @ version)) log)
                                (finish env fl tag))))))"

text \<open>\<open>run\<close> on the positional words and the flags that its re-parsing loop collects.\<close>

definition run_release :: "repo_env \<Rightarrow> release_flags \<Rightarrow> string list \<Rightarrow> outcome" where
  "run_release env fl positional =
     (case positional of
        [a, n] \<Rightarrow> if a = ''tools'' then run_tools env fl n else (Some BadUsage, [])
      | [version] \<Rightarrow> run_module env fl version
      | _ \<Rightarrow> (Some BadUsage, []))"

section \<open>The version line\<close>

lemma versionKV_line:
  assumes "submatch versionKV l = Some m"
  obtains ws where "l = cap m 1 @ cap m 2 @ cap m 3" "cap m 1 = ws @ ''version = '' @ [DQ]"
    "\<forall>c \<in> set ws. space_byte c" "DQ \<notin> set (cap m 2)" "cap m 3 \<in> {[DQ], [DQ, CHR '','']}"
proof -
  have high: "\<not> 128 \<le> byte DQ" by (simp add: byte_def)
  from assms obtain z where "mt (Seq versionKV Eot) ([], l) [] z m"
    unfolding submatch_def using match_here_sound by blast
  then obtain z1 cs1 z2 cs2 z3 where
      g1: "mt (Grp 1 (Seq (StarC True space_byte) (Lit (''version = '' @ [DQ])))) ([], l) [] z1 cs1"
    and g2: "mt (Grp 2 (StarC True (\<lambda>c. c \<noteq> DQ))) z1 cs1 z2 cs2"
    and g3: "mt (Grp 3 (Seq (Lit [DQ]) (opt (Lit '','')))) z2 cs2 z3 m" and e: "snd z3 = []"
    unfolding versionKV_def seqs.simps by (auto elim!: mt_SeqE mt_EotE)
  from mt_Grp_consumes[OF g1] obtain w1 c1 where w1: "l = w1 @ snd z1" "cs1 = (1, w1) # c1"
    "mt (Seq (StarC True space_byte) (Lit (''version = '' @ [DQ]))) ([], l) [] z1 c1" by auto
  from w1(3) obtain y cy where y1: "mt (StarC True space_byte) ([], l) [] y cy"
    "mt (Lit (''version = '' @ [DQ])) y cy z1 c1" by (rule mt_SeqE)
  from mt_Star_consumes_ascii[OF y1(1)] mt_Lit_consumes[OF y1(2)]
  obtain ws where ws: "l = ws @ (''version = '' @ [DQ]) @ snd z1" "c1 = []" "\<forall>c \<in> set ws. space_byte c"
    by (auto simp: space_byte_ascii)
  from mt_Grp_consumes[OF g2] obtain w2 c2 where w2: "snd z1 = w2 @ snd z2" "cs2 = (2, w2) # c2"
    "mt (StarC True (\<lambda>c. c \<noteq> DQ)) z1 cs1 z2 c2" by auto
  from mt_Star_consumes[OF w2(3)] w2(1) have d: "c2 = cs1" "\<forall>c \<in> set w2. c \<noteq> DQ \<or> 128 \<le> byte c" by auto
  from mt_Grp_consumes[OF g3] obtain w3 c3 where w3: "snd z2 = w3 @ snd z3" "m = (3, w3) # c3"
    "mt (Seq (Lit [DQ]) (opt (Lit '',''))) z2 cs2 z3 c3" by auto
  obtain y cy where y: "mt (Lit [DQ]) z2 cs2 y cy" "mt (opt (Lit '','')) y cy z3 c3"
    using w3(3) by (rule mt_SeqE)
  have "snd y = snd z3 \<and> c3 = cy \<or> snd y = '','' @ snd z3 \<and> c3 = cy"
    using y(2) unfolding opt_def by (elim mt_AltE mt_EpsE) (auto dest: mt_Lit_consumes)
  then have t: "c3 = cs2" "w3 \<in> {[DQ], [DQ, CHR '','']}"
    using w3(1) mt_Lit_consumes[OF y(1)] by auto
  show thesis
  proof (rule that[of ws])
    show "l = cap m 1 @ cap m 2 @ cap m 3" "cap m 3 \<in> {[DQ], [DQ, CHR '','']}"
      using w1 w2 w3 d t e by (auto simp: cap_def)
    show "cap m 1 = ws @ ''version = '' @ [DQ]"
      using w1 w2 w3 d t ws by (simp add: cap_def)
    show "DQ \<notin> set (cap m 2)" using w2 w3 d t high by (auto simp: cap_def)
  qed (rule ws(3))
qed

text \<open>A version without quotes or bytes above ASCII reads back from the line it is written into.\<close>

definition plain_version :: "string \<Rightarrow> bool" where
  "plain_version v \<longleftrightarrow> (\<forall>c \<in> set v. c \<noteq> DQ \<and> c \<noteq> NL \<and> byte c < 128)"

lemma first_quote_unique:
  "a @ DQ # b = a' @ DQ # b' \<Longrightarrow> DQ \<notin> set a \<Longrightarrow> DQ \<notin> set a' \<Longrightarrow> a = a' \<and> b = b'"
proof -
  assume h: "a @ DQ # b = a' @ DQ # b'" "DQ \<notin> set a" "DQ \<notin> set a'"
  have "takeWhile (\<lambda>c. c \<noteq> DQ) (a @ DQ # b) = a"
    using h(2) by (intro takeWhile_append_stop) auto
  moreover have "takeWhile (\<lambda>c. c \<noteq> DQ) (a' @ DQ # b') = a'"
    using h(3) by (intro takeWhile_append_stop) auto
  ultimately have "a = a'" using h(1) by simp
  with h(1) show ?thesis by simp
qed

lemma versionKV_parses:
  assumes "\<forall>c \<in> set ws. space_byte c" "plain_version v" "t = [DQ] \<or> t = [DQ, CHR '','']"
  shows "submatch versionKV ((ws @ ''version = '' @ [DQ]) @ v @ t) \<noteq> None"
proof -
  let ?h = "''version = '' @ [DQ]"
  have s: "mt (Seq (StarC True space_byte) (Lit ?h)) ([], (ws @ ?h) @ v @ t) cs (rev (ws @ ?h), v @ t) cs" for cs
    using mt_StarI[of ws space_byte True "[]" "?h @ v @ t" cs] mt_LitI[of ?h "rev ws" "v @ t" cs] assms(1)
    by (auto simp: space_byte_ascii intro: mt_Seq)
  have v: "mt (StarC True (\<lambda>c. c \<noteq> DQ)) (b, v @ t) cs (rev v @ b, t) cs" for b cs
    using assms(2) by (intro mt_StarI) (auto simp: plain_version_def)
  have "mt (opt (Lit '','')) (b, drop 1 t) cs (rev (drop 1 t) @ b, []) cs" for b cs
    using assms(3) mt_LitI[of "'',''" b "[]" cs] by (auto simp: opt_def intro: mt_AltL mt_AltR[OF mt_Eps])
  then have t: "mt (Seq (Lit [DQ]) (opt (Lit '',''))) (b, t) cs (rev t @ b, []) cs" for b cs
    using assms(3) mt_Seq[OF mt_LitI[of "[DQ]" b "drop 1 t" cs]] by fastforce
  have t': "mt (Grp 3 (Seq (Lit [DQ]) (opt (Lit '','')))) (b, t) cs (rev t @ b, []) ((3, t) # cs)" for b cs
    using mt_GrpI[where r = "[]" and w = t, simplified, OF t] .
  show ?thesis
    unfolding submatch_def versionKV_def seqs.simps
    by (rule match_here_complete)
      (rule mt_Seq[OF mt_Seq[OF mt_GrpI[OF s] mt_Seq[OF mt_GrpI[OF v] t']] mt_EotI])
qed

lemma versionKV_rereads:
  assumes "submatch versionKV l = Some m" and "plain_version v"
  obtains m' where "submatch versionKV (cap m 1 @ v @ cap m 3) = Some m'"
    "cap m' 1 = cap m 1" "cap m' 2 = v" "cap m' 3 = cap m 3"
proof -
  from versionKV_line[OF assms(1)] obtain ws where m: "cap m 1 = ws @ ''version = '' @ [DQ]"
    "\<forall>c \<in> set ws. space_byte c" "cap m 3 \<in> {[DQ], [DQ, CHR '','']}" .
  let ?l = "cap m 1 @ v @ cap m 3"
  obtain m' where m': "submatch versionKV ?l = Some m'"
    using versionKV_parses[OF m(2) assms(2), of "cap m 3"] m(1,3) by auto
  from versionKV_line[OF m'] obtain ws' where l: "?l = cap m' 1 @ cap m' 2 @ cap m' 3"
    "cap m' 1 = ws' @ ''version = '' @ [DQ]" "\<forall>c \<in> set ws'. space_byte c"
    "DQ \<notin> set (cap m' 2)" "cap m' 3 \<in> {[DQ], [DQ, CHR '','']}" .
  obtain t t' where t: "cap m 3 = DQ # t" "cap m' 3 = DQ # t'" using m(3) l(5) by auto
  have "\<not> space_byte DQ" by (simp add: space_byte_def)
  then have ws: "DQ \<notin> set (ws @ ''version = '')" "DQ \<notin> set (ws' @ ''version = '')" using m(2) l(3) by auto
  have e: "(ws @ ''version = '') @ DQ # v @ DQ # t = (ws' @ ''version = '') @ DQ # cap m' 2 @ DQ # t'"
    using l(1) unfolding m(1) l(2) t by simp
  from first_quote_unique[OF e ws] have w: "ws = ws'" "v @ DQ # t = cap m' 2 @ DQ # t'" by auto
  have "DQ \<notin> set v" using assms(2) by (auto simp: plain_version_def)
  from first_quote_unique[OF w(2) this l(4)] have "cap m' 2 = v" "t' = t" by auto
  then show thesis using that[OF m'] m(1) l(2) w(1) t by simp
qed

lemma version_line_not_name:
  assumes "submatch versionKV l = Some m" and "NL \<notin> set l"
  shows "\<not> match_string moduleName l"
proof
  assume "match_string moduleName l"
  then obtain w t z cs where l: "l = w @ t" "mt moduleName (rev w, t) [] z cs"
    using match_string_sound by blast
  have "line_start (rev w, t)" using l(2) unfolding moduleName_def seqs.simps
    by (auto elim!: mt_SeqE mt_BolME)
  then have "w = []" using assms(2) l(1) by (cases w rule: rev_cases) (auto simp: line_start_def)
  then obtain y cy where y: "mt (StarC True space_byte) ([], l) [] y cy"
    "mt (Lit (''name = '' @ [DQ] @ ''rules_typescript'' @ [DQ] @ '','')) y cy z cs"
    using l unfolding moduleName_def seqs.simps by (auto elim!: mt_SeqE mt_BolME)
  from mt_Star_consumes_ascii[OF y(1)] mt_Lit_consumes[OF y(2)]
  obtain s r where s: "l = s @ CHR ''n'' # r" "\<forall>c \<in> set s. space_byte c" by (auto simp: space_byte_ascii)
  from versionKV_line[OF assms(1)] obtain ws where ws: "l = ws @ CHR ''v'' # (tl (''version = '' @ [DQ]) @ cap m 2 @ cap m 3)"
    "\<forall>c \<in> set ws. space_byte c" by (metis append.assoc append_Cons list.sel(3))
  have "\<not> space_byte CHR ''n''" "\<not> space_byte CHR ''v''" by (auto simp: space_byte_def)
  then have "takeWhile space_byte (s @ CHR ''n'' # r) = s"
      "takeWhile space_byte (ws @ CHR ''v'' # (tl (''version = '' @ [DQ]) @ cap m 2 @ cap m 3)) = ws"
    using s(2) ws(2) by (auto intro!: takeWhile_append_stop)
  then have "s = ws" unfolding s(1)[symmetric] ws(1)[symmetric] by simp
  with s(1) ws(1) show False by simp
qed

lemma prefix_append_long: "length p \<le> length a \<Longrightarrow> prefix p (a @ x) \<longleftrightarrow> prefix p a"
  by (metis prefix_length_prefix prefixI prefix_order.trans)

lemma bump_rereads:
  assumes "bump inm saw v ls = Inr (out, old)" and "plain_version v" and "\<forall>l \<in> set ls. NL \<notin> set l"
  shows "\<exists>pre l post m. ls = pre @ l # post \<and> submatch versionKV l = Some m \<and> old = cap m 2 \<and>
    out = pre @ (cap m 1 @ v @ cap m 3) # post \<and>
    (\<forall>w. bump inm saw w out = Inr (pre @ (cap m 1 @ w @ cap m 3) # post, v))"
  using assms(1,3)
proof (induction ls arbitrary: inm saw out)
  case (Cons l ls)
  let ?inm = "if has_prefix l ''module('' then True else if inm \<and> has_prefix l '')'' then False else inm"
  let ?saw = "saw \<or> match_string moduleName l"
  show ?case
  proof (cases "?inm \<and> submatch versionKV l \<noteq> None")
    case True
    then obtain m where m: "submatch versionKV l = Some m" by blast
    have nm: "\<not> match_string moduleName l" using version_line_not_name[OF m] Cons.prems(2) by simp
    have o: "saw" "out = (cap m 1 @ v @ cap m 3) # ls" "old = cap m 2"
      using Cons.prems(1) True m nm by (auto simp: Let_def split: if_splits)
    let ?l = "cap m 1 @ v @ cap m 3"
    from versionKV_line[OF m] obtain ws where ws: "l = cap m 1 @ cap m 2 @ cap m 3"
      "cap m 1 = ws @ ''version = '' @ [DQ]" .
    then have len: "length ''module('' \<le> length (cap m 1)" "length '')'' \<le> length (cap m 1)" by simp_all
    have p: "has_prefix ?l ''module('' = has_prefix l ''module(''" "has_prefix ?l '')'' = has_prefix l '')''"
      using prefix_append_long[OF len(1)] prefix_append_long[OF len(2)] ws(1) by metis+
    from versionKV_rereads[OF m assms(2)] obtain m' where m': "submatch versionKV ?l = Some m'"
      "cap m' 1 = cap m 1" "cap m' 2 = v" "cap m' 3 = cap m 3" .
    have "bump inm saw w (?l # ls) = Inr ((cap m 1 @ w @ cap m 3) # ls, v)" for w
      using True o(1) m' by (auto simp: Let_def p simp del: One_nat_def split: if_splits)
    then show ?thesis using m o by (intro exI[of _ "[]"] exI[of _ l] exI[of _ ls] exI[of _ m]) simp
  next
    case False
    define saw' where "saw' = (if ?inm then ?saw else saw)"
    have step: "bump inm saw w (l # xs) =
        (case bump ?inm saw' w xs of Inl e \<Rightarrow> Inl e | Inr (ls', o') \<Rightarrow> Inr (l # ls', o'))" for w xs
      using False by (auto simp: Let_def saw'_def)
    from Cons.prems(1) obtain out' where o: "bump ?inm saw' v ls = Inr (out', old)" "out = l # out'"
      unfolding step by (auto split: sum.splits prod.splits)
    from Cons.IH[OF o(1)] Cons.prems(2) obtain pre l0 post m where
      h: "ls = pre @ l0 # post" "submatch versionKV l0 = Some m" "old = cap m 2"
        "out' = pre @ (cap m 1 @ v @ cap m 3) # post"
        "\<And>w. bump ?inm saw' w out' = Inr (pre @ (cap m 1 @ w @ cap m 3) # post, v)" by auto
    have "bump inm saw w out = Inr ((l # pre) @ (cap m 1 @ w @ cap m 3) # post, v)" for w
      unfolding o(2) step h(5) by simp
    then show ?thesis using h o(2)
      by (intro exI[of _ "l # pre"] exI[of _ l0] exI[of _ post] exI[of _ m]) simp
  qed
qed simp

text \<open>A version the tool accepts has only letters, digits and the three marks.\<close>

lemma semver_plain: "submatch semver v \<noteq> None \<Longrightarrow> plain_version v"
proof -
  let ?ok = "\<lambda>c. c \<noteq> DQ \<and> c \<noteq> NL \<and> byte c < 128"
  assume "submatch semver v \<noteq> None"
  then obtain z cs where m: "mt (Seq semver Eot) ([], v) [] z cs"
    unfolding submatch_def using match_here_sound by fastforce
  have cls: "is_digit c \<Longrightarrow> ?ok c" "is_lower c \<Longrightarrow> ?ok c" "is_upper c \<Longrightarrow> ?ok c"
    "c = CHR ''.'' \<Longrightarrow> ?ok c" "c = CHR ''_'' \<Longrightarrow> ?ok c" for c
    by (auto simp: is_digit_def is_lower_def is_upper_def byte_def)
  then have "re_only ?ok (Seq semver Eot)"
    unfolding semver_def seqs.simps opt_def plusC_def re_only.simps by (auto simp: byte_def)
  from mt_only[OF m this] obtain w where "v = w @ snd z" "\<forall>c \<in> set w. ?ok c" by auto
  moreover have "snd z = []" using m by (auto elim!: mt_SeqE mt_EotE)
  ultimately show ?thesis by (simp add: plain_version_def)
qed

lemma set_module_version_rereads_aux:
  assumes "set_module_version src v = Inr (out, old)" and "plain_version v"
  shows "\<exists>pre l post m. lines_of src = pre @ l # post \<and> l = cap m 1 @ old @ cap m 3 \<and>
    out = unlines (pre @ (cap m 1 @ v @ cap m 3) # post) \<and>
    (\<forall>w. set_module_version out w = Inr (unlines (pre @ (cap m 1 @ w @ cap m 3) # post), v))"
proof -
  obtain ls where b: "bump False False v (lines_of src) = Inr (ls, old)" "out = unlines ls"
    using assms(1) by (auto simp: set_module_version_def split: sum.splits)
  from bump_rereads[OF b(1) assms(2)] lines_of_no_NL obtain pre l post m where
    h: "lines_of src = pre @ l # post" "submatch versionKV l = Some m" "old = cap m 2"
      "ls = pre @ (cap m 1 @ v @ cap m 3) # post"
      "\<And>w. bump False False w ls = Inr (pre @ (cap m 1 @ w @ cap m 3) # post, v)" by blast
  from versionKV_line[OF h(2)] have l: "l = cap m 1 @ old @ cap m 3" using h(3) by blast
  have nl: "NL \<notin> set x" if "x \<in> set ls" for x
  proof -
    have "NL \<notin> set y" if "y \<in> set (pre @ l # post)" for y
      using that h(1) lines_of_no_NL by metis
    then show ?thesis using \<open>x \<in> set ls\<close> h(4) l assms(2) by (fastforce simp: plain_version_def)
  qed
  then have "lines_of out = ls" unfolding b(2) using h(4) by (intro unlines_lines) auto
  then have "set_module_version out w = Inr (unlines (pre @ (cap m 1 @ w @ cap m 3) # post), v)" for w
    by (simp add: set_module_version_def h(5))
  then show ?thesis using h(1,4) l b(2) by blast
qed

section \<open>The order of the steps\<close>

text \<open>What a log promises: the tag it makes is new, the tree was clean, only the last step may
  have failed, and a push follows its tag.\<close>

definition log_ok :: "repo_env \<Rightarrow> release_flags \<Rightarrow> string \<Rightarrow> outcome \<Rightarrow> bool" where
  "log_ok env fl tag r \<longleftrightarrow>
     (case r of (e, log) \<Rightarrow>
        log \<noteq> [] \<longrightarrow>
          \<not> rf_dry fl \<and> require_no_tag env tag = None \<and> require_clean env = None \<and>
          (\<forall>s \<in> set (butlast log). \<not> re_fails env s) \<and> (re_fails env (last log) \<longleftrightarrow> e \<noteq> None) \<and>
          (\<forall>remote t. GitStep [''push'', remote, t] \<in> set log \<longrightarrow>
             rf_push fl \<and> remote = rf_remote fl \<and> t = tag \<and> last log = GitStep [''push'', remote, t] \<and>
             (\<exists>msg. GitStep (tag_step tag msg) \<in> set (butlast log))) \<and>
          (e = None \<longrightarrow> (\<exists>msg. GitStep (tag_step tag msg) \<in> set log) \<and>
             (rf_push fl \<longrightarrow> GitStep [''push'', rf_remote fl, tag] \<in> set log)))"

lemmas step_defs = and_then_def git_write_def attempt_step_def finish_def push_tag_def

lemma run_tools_log_ok: "log_ok env fl (''tools-v'' @ n) (run_tools env fl n)"
  by (auto simp: run_tools_def log_ok_def step_defs tag_step_def Let_def
      split: option.splits sum.splits if_splits)

lemma run_module_log_ok: "log_ok env fl (''v'' @ v) (run_module env fl v)"
  by (auto simp: run_module_def log_ok_def step_defs tag_step_def Let_def
      split: option.splits sum.splits if_splits)

lemma run_tools_checks:
  assumes "snd (run_tools env fl n) \<noteq> []"
  shows "\<exists>lock. re_lock env = Some lock \<and> locked_tools_version lock = Inr n"
  using assms by (auto simp: run_tools_def Let_def split: option.splits sum.splits if_splits)

lemma run_module_checks: "snd (run_module env fl v) \<noteq> [] \<Longrightarrow> submatch semver v \<noteq> None"
  by (auto simp: run_module_def split: if_splits)

section \<open>Properties\<close>

text \<open>Writing an accepted version into MODULE.bazel replaces the version of one line and keeps
  every other line, and the text written gives that version back when it is read again.\<close>

theorem set_module_version_rereads:
  assumes "set_module_version src v = Inr (out, old)" and "submatch semver v \<noteq> None"
  shows "\<exists>pre post a b. lines_of src = pre @ (a @ old @ b) # post \<and>
    out = unlines (pre @ (a @ v @ b) # post) \<and>
    (\<forall>w. set_module_version out w = Inr (unlines (pre @ (a @ w @ b) # post), v))"
  using set_module_version_rereads_aux[OF assms(1) semver_plain[OF assms(2)]] by blast

definition demo_module :: "string \<Rightarrow> string" where
  "demo_module v = unlines
     [''module('', ''    name = '' @ [DQ] @ ''rules_typescript'' @ [DQ] @ '','',
      ''    version = '' @ [DQ] @ v @ [DQ] @ '','', '')'',
      ''bazel_dep(name = '' @ [DQ] @ ''x'' @ [DQ] @ '', version = '' @ [DQ] @ ''9'' @ [DQ] @ '')'']"

theorem set_module_version_rereads_witness:
  "set_module_version (demo_module ''0.1.0'') ''0.2.0'' = Inr (demo_module ''0.2.0'', ''0.1.0'') \<and>
   (\<exists>back. set_module_version (demo_module ''0.2.0'') ''0.1.0'' = Inr (back, ''0.2.0''))"
proof -
  have s: "submatch semver ''0.2.0'' \<noteq> None" by code_simp
  have h: "set_module_version (demo_module ''0.1.0'') ''0.2.0'' = Inr (demo_module ''0.2.0'', ''0.1.0'')"
    by code_simp
  from set_module_version_rereads[OF h s] h show ?thesis by blast
qed

text \<open>C26. The steps a run attempts are guarded: none is attempted in a dry run, or before the
  version is a semantic version (for tools, the locked number), the tag is known to be new and
  the tree to be clean; only the last step attempted may have failed, which is when the run
  fails; and the one push allowed is the last step, of the tag made before it.\<close>

theorem release_guarded:
  "\<exists>tag. log_ok env fl tag (run_release env fl ws) \<and>
    (snd (run_release env fl ws) \<noteq> [] \<longrightarrow>
       (\<exists>v. ws = [v] \<and> tag = ''v'' @ v \<and> submatch semver v \<noteq> None) \<or>
       (\<exists>n lock. ws = [''tools'', n] \<and> tag = ''tools-v'' @ n \<and> re_lock env = Some lock \<and>
          locked_tools_version lock = Inr n))"
proof -
  have bad: "log_ok env fl t (Some BadUsage, [])" for t by (simp add: log_ok_def)
  consider (one) v where "ws = [v]" | (tools) n where "ws = [''tools'', n]"
    | (other) "run_release env fl ws = (Some BadUsage, [])"
  proof -
    have "(\<exists>v. ws = [v]) \<or> (\<exists>n. ws = [''tools'', n]) \<or> run_release env fl ws = (Some BadUsage, [])"
      by (auto simp: run_release_def split: list.splits)
    then show thesis using that by blast
  qed
  then show ?thesis
  proof cases
    case one
    then show ?thesis
      using run_module_log_ok[of env fl v] run_module_checks[of env fl v]
      by (intro exI[of _ "''v'' @ v"]) (auto simp: run_release_def)
  next
    case tools
    then show ?thesis
      using run_tools_log_ok[of env fl n] run_tools_checks[of env fl n]
      by (intro exI[of _ "''tools-v'' @ n"]) (auto simp: run_release_def)
  next
    case other
    then show ?thesis using bad by simp
  qed
qed

definition demo_repo :: repo_env where
  "demo_repo = \<lparr>re_root = Some ''/r'', re_module = Some (demo_module ''0.1.0''), re_lock = None,
     re_tags = (\<lambda>_. Some []), re_status = Some [NL], re_fails = (\<lambda>_. False)\<rparr>"

theorem release_guarded_witness:
  "run_release demo_repo \<lparr>rf_dry = False, rf_push = True, rf_remote = ''origin''\<rparr> [''0.2.0''] =
     (None, [WriteModule (demo_module ''0.2.0''), GitStep [''add'', ''MODULE.bazel''],
       GitStep [''commit'', ''-m'', ''chore: release v0.2.0''],
       GitStep (tag_step ''v0.2.0'' ''rules_typescript 0.2.0''), GitStep [''push'', ''origin'', ''v0.2.0'']]) \<and>
   log_ok demo_repo \<lparr>rf_dry = False, rf_push = True, rf_remote = ''origin''\<rparr> ''v0.2.0''
     (run_release demo_repo \<lparr>rf_dry = False, rf_push = True, rf_remote = ''origin''\<rparr> [''0.2.0''])"
proof
  let ?fl = "\<lparr>rf_dry = False, rf_push = True, rf_remote = ''origin''\<rparr>"
  show r: "run_release demo_repo ?fl [''0.2.0''] =
     (None, [WriteModule (demo_module ''0.2.0''), GitStep [''add'', ''MODULE.bazel''],
       GitStep [''commit'', ''-m'', ''chore: release v0.2.0''],
       GitStep (tag_step ''v0.2.0'' ''rules_typescript 0.2.0''), GitStep [''push'', ''origin'', ''v0.2.0'']])"
    by code_simp
  have "snd (run_release demo_repo ?fl [''0.2.0'']) \<noteq> []" by (simp add: r)
  then show "log_ok demo_repo ?fl ''v0.2.0'' (run_release demo_repo ?fl [''0.2.0''])"
    using release_guarded[of demo_repo ?fl "[''0.2.0'']"] by auto
qed

end
