(* ===== verification/Launcher.thy ===== *)
theory Launcher imports GoStrings GoPath Layering "HOL-Library.AList" "HOL-Library.Multiset" begin

text \<open>
  The launcher's values, \<open>tools/launcher/\<close>: the config and its validation (config.go), the plan's
  environment and the child's (plan.go, run.go), shards and coverage paths (vitest.go), the report
  of reads (reads.go), argument handling (vitest.go, devserver.go) and the supervision loop
  (run.go).  What the process environment and the disk answer are arguments.
\<close>

section \<open>Config\<close>

record node_config =
  nc_entry :: string
  nc_nodeModules :: string
  nc_optionalDeps :: nat  \<comment> \<open>how many there are\<close>

record vitest_config =
  vc_inTree :: string
  vc_configFile :: string
  vc_testFilesList :: string
  vc_nodeModules :: "string list"
  vc_readsHook :: string
  vc_rootRel :: string
  vc_stage :: "(string \<times> string) list"

record node_test_config =
  nt_testFilesList :: string
  nt_nodeModules :: "string list"
  nt_resolveHook :: string

record dev_server_config =
  ds_packageDir :: string
  ds_configFile :: string
  ds_nodeModules :: string
  ds_serverBinary :: string
  ds_serverInTree :: string
  ds_argv :: "string list"
  ds_runsInJsRuntime :: bool
  ds_plugin :: string
  ds_userConfig :: string
  ds_scratchDir :: string
  ds_port :: int

record config =
  c_label :: string
  c_mode :: string
  c_workspace :: string
  c_runtime :: string
  c_runArgs :: "string list"
  c_env :: "(string \<times> string) list"
  c_runtimeModules :: "string list"
  c_nativeViewAnchor :: string
  c_node :: "node_config option"
  c_vitest :: "vitest_config option"
  c_nodeTest :: "node_test_config option"
  c_devServer :: "dev_server_config option"

datatype config_error =
    SectionMissing string | FieldMissing string | OneServer | ModeMissing | ModeUnknown string

definition validate :: "config \<Rightarrow> config_error option" where
  "validate c =
     (if c_mode c = ''node'' then
        (case c_node c of
           None \<Rightarrow> Some (SectionMissing ''node'')
         | Some n \<Rightarrow> if nc_entry n = [] then Some (FieldMissing ''node.entry'') else None)
      else if c_mode c = ''vitest'' then
        (case c_vitest c of
           None \<Rightarrow> Some (SectionMissing ''vitest'')
         | Some v \<Rightarrow> if vc_configFile v = [] \<or> vc_testFilesList v = []
                     then Some (FieldMissing ''vitest.config_file'') else None)
      else if c_mode c = ''node_test'' then
        (case c_nodeTest c of
           None \<Rightarrow> Some (SectionMissing ''node_test'')
         | Some n \<Rightarrow> if nt_testFilesList n = [] then Some (FieldMissing ''node_test.test_files_list'') else None)
      else if c_mode c = ''devserver'' then
        (case c_devServer c of
           None \<Rightarrow> Some (SectionMissing ''dev_server'')
         | Some d \<Rightarrow>
             if ds_configFile d = [] then Some (FieldMissing ''dev_server.config_file'')
             else if (ds_serverBinary d = []) = (ds_serverInTree d = []) then Some OneServer else None)
      else if c_mode c = [] then Some ModeMissing
      else Some (ModeUnknown (c_mode c)))"

text \<open>\<open>candidateArgv0\<close> and \<open>configPath\<close>: \<open>cwd\<close> is what \<open>Getwd\<close> gives, \<open>runfile\<close> the resolver's
  \<open>Path\<close> (None without a resolver, or when the lookup fails).\<close>

definition candidate_argv0 :: "string option \<Rightarrow> string \<Rightarrow> string list" where
  "candidate_argv0 cwd argv0 =
     argv0 # (if \<not> is_abs argv0 then (case cwd of Some d \<Rightarrow> [path_join [d, argv0]] | None \<Rightarrow> []) else [])"

definition config_path ::
    "string \<Rightarrow> string option \<Rightarrow> (string \<Rightarrow> string option) \<Rightarrow> (string \<Rightarrow> bool) \<Rightarrow> string \<Rightarrow> string option" where
  "config_path from_env cwd runfile regular argv0 =
     (if from_env \<noteq> [] then Some from_env
      else if argv0 = [] then None
      else
        let name = path_base argv0 @ ''.json'' in
        case runfile name of
          Some p \<Rightarrow>
            if regular p then Some p
            else find regular (map (\<lambda>base. base @ ''.json'') (candidate_argv0 cwd argv0))
        | None \<Rightarrow> find regular (map (\<lambda>base. base @ ''.json'') (candidate_argv0 cwd argv0)))"

text \<open>\<open>ParseConfig\<close> over the JSON decoder, a parameter.\<close>

definition parse_config :: "(string \<Rightarrow> config option) \<Rightarrow> string \<Rightarrow> config option" where
  "parse_config decode data =
     (case decode data of
        None \<Rightarrow> None
      | Some c \<Rightarrow> (if validate c = None then Some c else None))"

definition load_config ::
    "(string \<Rightarrow> config option) \<Rightarrow> (string \<Rightarrow> string option) \<Rightarrow> string option \<Rightarrow> config option" where
  "load_config decode read_file path =
     (case path of None \<Rightarrow> None | Some p \<Rightarrow>
        (case read_file p of None \<Rightarrow> None | Some data \<Rightarrow> parse_config decode data))"

section \<open>Environments\<close>

type_synonym overrides = "(string \<times> string) list"

definition set_env :: "string \<Rightarrow> string \<Rightarrow> overrides \<Rightarrow> overrides" where
  "set_env k v env = AList.update k v env"

definition prepend_path :: "(string \<Rightarrow> string) \<Rightarrow> string \<Rightarrow> string \<Rightarrow> overrides \<Rightarrow> overrides" where
  "prepend_path getenv k v env =
     (let existing = (case map_of env k of Some cur \<Rightarrow> cur | None \<Rightarrow> getenv k) in
      if existing = [] then set_env k v env else set_env k (v @ '':'' @ existing) env)"

text \<open>\<open>Environ\<close>: the map and the order of its keys are one association list, which an update
  changes in place and a new key extends.\<close>

definition env_set :: "string \<Rightarrow> overrides \<Rightarrow> overrides" where
  "env_set entry m =
     (case cut_at entry ''='' of (k, v, found) \<Rightarrow> if found then AList.update k v m else m)"

definition environ :: "string list \<Rightarrow> string list \<Rightarrow> overrides \<Rightarrow> string list" where
  "environ os_env runfiles_env env =
     (let m = fold env_set (os_env @ runfiles_env) [];
          entries = map (\<lambda>k. k @ ''='' @ the (map_of env k)) (sort_strings (map fst env));
          m' = fold env_set entries m
      in map (\<lambda>(k, v). k @ ''='' @ v) m')"

fun runfiles_env :: "string list \<Rightarrow> string \<Rightarrow> string" where
  "runfiles_env [] name = []"
| "runfiles_env (e # es) name =
     (case cut_prefix e (name @ ''='') of Some v \<Rightarrow> v | None \<Rightarrow> runfiles_env es name)"

text \<open>\<open>runfilesDir\<close>: the first of the two variables that is set and names a directory.\<close>

definition runfiles_dir :: "(string \<Rightarrow> string option) \<Rightarrow> (string \<Rightarrow> bool) \<Rightarrow> string list \<Rightarrow> string" where
  "runfiles_dir absolute is_dir env =
     (if runfiles_env env ''RUNFILES_MANIFEST_FILE'' \<noteq> [] then []
      else
        case find (\<lambda>v. v \<noteq> [] \<and> (case absolute v of None \<Rightarrow> False | Some a \<Rightarrow> is_dir a))
               [runfiles_env env ''RUNFILES_DIR'', runfiles_env env ''TEST_SRCDIR''] of
          None \<Rightarrow> []
        | Some v \<Rightarrow> the (absolute v))"

section \<open>Shards\<close>

record shard =
  sh_index :: int
  sh_total :: int

definition parse_shard :: "string \<Rightarrow> string \<Rightarrow> shard option" where
  "parse_shard idx tot =
     (case (if idx = [] then Some 0 else atoi idx) of
        None \<Rightarrow> None
      | Some i \<Rightarrow>
          (case (if tot = [] then Some 1 else atoi tot) of
             None \<Rightarrow> None
           | Some t \<Rightarrow>
               if t < 1 \<or> i < 0 \<or> i \<ge> t then None else Some \<lparr>sh_index = i, sh_total = t\<rparr>))"

record test_file =
  tf_rlocation :: string
  tf_path :: string

fun insert_file :: "test_file \<Rightarrow> test_file list \<Rightarrow> test_file list" where
  "insert_file x [] = [x]"
| "insert_file x (y # ys) =
     (if bytes_le (tf_rlocation x) (tf_rlocation y) then x # y # ys else y # insert_file x ys)"

definition shard_files :: "test_file list \<Rightarrow> shard \<Rightarrow> test_file list" where
  "shard_files files s =
     (let sorted = foldr insert_file files [] in
      map snd (filter (\<lambda>(i, f). int i mod sh_total s = sh_index s) (enumerate 0 sorted)))"

fun test_files :: "(string \<Rightarrow> string option) \<Rightarrow> string list \<Rightarrow> test_file list option" where
  "test_files path [] = Some []"
| "test_files path (l # ls) =
     (let line = trim_space l in
      if line = [] then test_files path ls
      else case path line of
        None \<Rightarrow> None
      | Some p \<Rightarrow>
          (case test_files path ls of
             None \<Rightarrow> None
           | Some fs \<Rightarrow> Some (\<lparr>tf_rlocation = line, tf_path = p\<rparr> # fs)))"

section \<open>Arguments\<close>

definition split_reads_flag :: "string list \<Rightarrow> bool \<times> string list" where
  "split_reads_flag args =
     (let rest = filter (\<lambda>a. a \<noteq> ''--reads'') args in (length rest < length args, rest))"

text \<open>The scan that refuses \<open>--changed\<close> before a bare \<open>--\<close>.\<close>

fun refuses_changed :: "string list \<Rightarrow> bool" where
  "refuses_changed [] = False"
| "refuses_changed (a # as) =
     (if a = ''--'' then False
      else if a = ''--changed'' \<or> has_prefix a ''--changed='' then True
      else refuses_changed as)"

definition port_flag :: "string \<Rightarrow> bool" where
  "port_flag f \<longleftrightarrow> f = ''-p'' \<or> f = ''--port''"

fun port_override :: "int \<Rightarrow> string list \<Rightarrow> int \<times> string list" where
  "port_override port [] = (port, [])"
| "port_override port (a # as) =
     (case str_index a ''='' of
        Some eq \<Rightarrow>
          if port_flag (take eq a)
          then port_override (case atoi (drop (Suc eq) a) of Some n \<Rightarrow> n | None \<Rightarrow> port) as
          else (case port_override port as of (p, kept) \<Rightarrow> (p, a # kept))
      | None \<Rightarrow>
          if \<not> port_flag a then (case port_override port as of (p, kept) \<Rightarrow> (p, a # kept))
          else case as of
            [] \<Rightarrow> (case atoi [] of Some n \<Rightarrow> n | None \<Rightarrow> port, [])
          | v # rest \<Rightarrow> port_override (case atoi v of Some n \<Rightarrow> n | None \<Rightarrow> port) rest)"

section \<open>Coverage paths\<close>

definition package_path_under_bazel_out :: "string \<Rightarrow> string option" where
  "package_path_under_bazel_out p =
     (case str_last_index p ''/bazel-out/'' of
        None \<Rightarrow> None
      | Some i \<Rightarrow>
          (let parts = split_n SL 3 (drop (i + length ''/bazel-out/'') p) in
           if length parts \<noteq> 3 \<or> parts ! 1 \<noteq> ''bin'' \<or> contains_str (parts ! 2) ''.runfiles/''
           then None else Some (parts ! 2)))"

definition rewrite_line :: "string \<Rightarrow> string \<Rightarrow> string \<Rightarrow> string" where
  "rewrite_line tree root line =
     (case cut_prefix line ''SF:'' of
        None \<Rightarrow> line
      | Some rest \<Rightarrow>
          (let p = path_clean (if \<not> is_abs rest \<and> root \<noteq> [] then path_join [root, rest] else rest) in
           if tree \<noteq> [] \<and> has_prefix p tree then ''SF:'' @ trim_prefix p tree
           else case package_path_under_bazel_out p of
             Some pkg \<Rightarrow> ''SF:'' @ pkg
           | None \<Rightarrow> line))"

definition rewrite_lcov :: "string \<Rightarrow> string \<Rightarrow> string \<Rightarrow> string \<Rightarrow> string" where
  "rewrite_lcov data workspace run_dir root =
     (let tree = (if run_dir \<noteq> [] \<and> workspace \<noteq> [] then run_dir @ ''/'' @ workspace @ ''/'' else [])
      in unlines (map (rewrite_line tree root) (lines_of data)))"

definition coverage_flags :: "string \<Rightarrow> string list" where
  "coverage_flags dir =
     (if dir = [] then []
      else [''--coverage.enabled'', ''true'', ''--coverage.reporter'', ''lcov'',
            ''--coverage.reportsDirectory'', path_join [dir, ''vitest'']])"

section \<open>The report of reads\<close>

definition has_build_file :: "(string \<Rightarrow> bool) \<Rightarrow> string \<Rightarrow> string \<Rightarrow> bool" where
  "has_build_file regular workspace pkg \<longleftrightarrow>
     list_ex (\<lambda>n. regular (path_join [workspace, pkg, n])) [''BUILD.bazel'', ''BUILD'']"

text \<open>The walk up from the file's directory; a rooted path has no \<open>.\<close> above it, and the loop
  would not leave the root, which \<open>None\<close> stands for.\<close>

function data_package :: "(string \<Rightarrow> bool) \<Rightarrow> string \<Rightarrow> string \<Rightarrow> string option" where
  "data_package regular workspace pkg =
     (if pkg = ''.'' \<or> has_build_file regular workspace pkg then Some pkg
      else if pkg = [SL] then None
      else data_package regular workspace (path_dir pkg))"
  by pat_completeness auto
termination
proof (relation "measure (\<lambda>(r, w, p). if p = ''.'' then 0 else Suc (length p))")
  fix regular :: "string \<Rightarrow> bool" and workspace pkg
  assume "\<not> (pkg = ''.'' \<or> has_build_file regular workspace pkg)" "pkg \<noteq> [SL]"
  then show "((regular, workspace, path_dir pkg), regular, workspace, pkg)
      \<in> measure (\<lambda>(r, w, p). if p = ''.'' then 0 else Suc (length p))"
    using path_dir_shorter[of pkg] by auto
qed simp

declare data_package.simps [simp del]

definition data_label :: "(string \<Rightarrow> bool) \<Rightarrow> string \<Rightarrow> string \<Rightarrow> string option" where
  "data_label regular workspace rel =
     (case data_package regular workspace (path_dir rel) of
        None \<Rightarrow> None
      | Some pkg \<Rightarrow>
          Some (if pkg = ''.'' then ''//:'' @ rel
                else ''//'' @ pkg @ '':'' @ trim_prefix rel (pkg @ ''/'')))"

text \<open>\<open>ReadsReport\<close>: the loop with the paths seen and the lines so far; None when a label's walk
  does not end.\<close>

fun reads_loop :: "(string \<Rightarrow> bool) \<Rightarrow> string \<Rightarrow> string list \<Rightarrow> string list \<Rightarrow> string list \<Rightarrow> string list option" where
  "reads_loop regular workspace [] seen out = Some out"
| "reads_loop regular workspace (r # rs) seen out =
     (let rel = trim_space r in
      if rel = [] \<or> rel \<in> set seen then reads_loop regular workspace rs seen out
      else if \<not> regular (path_join [workspace, rel]) then reads_loop regular workspace rs (rel # seen) out
      else case data_label regular workspace rel of
        None \<Rightarrow> None
      | Some l \<Rightarrow> reads_loop regular workspace rs (rel # seen) (out @ [rel @ [TAB] @ l]))"

definition reads_report :: "(string \<Rightarrow> bool) \<Rightarrow> string \<Rightarrow> string list \<Rightarrow> string list option" where
  "reads_report regular workspace recorded = map_option sort_strings (reads_loop regular workspace recorded [] [])"

section \<open>Supervision\<close>

datatype signal = SIGHUP | SIGINT | SIGQUIT | SIGTERM | SIGUSR1 | SIGUSR2 | SIGWINCH | SIGCONT

text \<open>What waiting for the child gave: an exit code, a death by signal, an exit error that is
  neither, or another error.\<close>

datatype waited = WaitOk | WaitCode nat | WaitSignaled nat | WaitExitError | WaitError

definition exit_code :: "waited \<Rightarrow> nat \<times> bool" where
  \<comment> \<open>the code, and whether an error comes with it\<close>
  "exit_code w =
     (case w of WaitOk \<Rightarrow> (0, False) | WaitCode c \<Rightarrow> (c, False) | WaitSignaled s \<Rightarrow> (128 + s, False)
      | WaitExitError \<Rightarrow> (1, False) | WaitError \<Rightarrow> (1, True))"

record supervise_options =
  so_ignoreTerm :: bool
  so_exitZeroOnInterrupt :: bool
  so_terminateOnInterrupt :: bool
  so_stdoutToStderr :: bool

datatype event = Sig signal | Exited waited

text \<open>The select loop over the events in the order it takes them: the signals forwarded to the
  child, and the result once the child has exited.\<close>

fun supervise :: "supervise_options \<Rightarrow> bool \<Rightarrow> event list \<Rightarrow> signal list \<times> (nat \<times> bool) option" where
  "supervise opts interrupted [] = ([], None)"
| "supervise opts interrupted (Exited w # es) =
     ([], Some (if so_exitZeroOnInterrupt opts \<and> interrupted then (0, False) else exit_code w))"
| "supervise opts interrupted (Sig s # es) =
     (if s = SIGTERM \<and> so_ignoreTerm opts then supervise opts interrupted es
      else
        let brk = (s = SIGINT \<or> s = SIGHUP);
            s' = (if brk \<and> so_terminateOnInterrupt opts then SIGTERM else s)
        in case supervise opts (interrupted \<or> brk) es of (fwd, r) \<Rightarrow> (s' # fwd, r))"

definition dev_supervision :: supervise_options where
  \<comment> \<open>the options of \<open>planDevServer\<close>\<close>
  "dev_supervision = \<lparr>so_ignoreTerm = True, so_exitZeroOnInterrupt = True,
     so_terminateOnInterrupt = True, so_stdoutToStderr = False\<rparr>"

section \<open>Shards partition the files\<close>

lemma mset_insert_file [simp]: "mset (insert_file x ys) = add_mset x (mset ys)"
  by (induction ys) auto

lemma mset_sorted_files: "mset (foldr insert_file fs []) = mset fs"
  by (induction fs) auto

lemma enumerate_snd: "mset (map snd (filter (\<lambda>_. True) (enumerate n xs))) = mset xs"
  by simp

lemma shards_cover:
  assumes "0 < t"
  shows "mset (concat (map (\<lambda>i. shard_files files \<lparr>sh_index = i, sh_total = t\<rparr>) [0..t - 1])) = mset files"
proof -
  let ?s = "foldr insert_file files []" and ?f = "\<lambda>(i, x). int i mod t"
  let ?e = "enumerate 0 ?s"
  have "concat (map (\<lambda>i. shard_files files \<lparr>sh_index = i, sh_total = t\<rparr>) [0..t - 1]) =
      map snd (concat (map (\<lambda>k. filter (\<lambda>x. ?f x = k) ?e) [0..t - 1]))"
    by (simp add: shard_files_def Let_def map_concat comp_def case_prod_unfold)
  moreover have "mset (concat (map (\<lambda>k. filter (\<lambda>x. ?f x = k) ?e) [0..t - 1])) =
      filter_mset (\<lambda>x. ?f x \<in> set [0..t - 1]) (mset ?e)"
    by (rule mset_concat_classes) simp
  moreover have "\<dots> = mset ?e" unfolding filter_mset_eq_conv using assms by auto
  ultimately have "mset (concat (map (\<lambda>i. shard_files files \<lparr>sh_index = i, sh_total = t\<rparr>) [0..t - 1])) =
      image_mset snd (mset ?e)" by simp
  also have "\<dots> = mset ?s" unfolding mset_map[symmetric] by simp
  finally show ?thesis by (simp add: mset_sorted_files)
qed

section \<open>The child's environment\<close>

definition entry_value :: "string \<Rightarrow> string \<Rightarrow> string option" where
  "entry_value k entry =
     (case cut_at entry ''='' of (k', v, found) \<Rightarrow> if found \<and> k' = k then Some v else None)"

lemma env_set_lookup:
  "map_of (env_set e m) k = (case entry_value k e of Some v \<Rightarrow> Some v | None \<Rightarrow> map_of m k)"
  by (auto simp: env_set_def entry_value_def update_conv' split: prod.splits)

lemma fold_env_set_lookup:
  "map_of (fold env_set es m) k = (case last_set (entry_value k) es of Some v \<Rightarrow> Some v | None \<Rightarrow> map_of m k)"
  by (induction es rule: rev_induct) (auto simp: env_set_lookup split: option.split)

lemma fold_env_set_distinct: "distinct (map fst m) \<Longrightarrow> distinct (map fst (fold env_set es m))"
  by (induction es arbitrary: m) (auto simp: env_set_def distinct_update split: prod.splits)

lemma cut_entry: "CHR ''='' \<notin> set k \<Longrightarrow> cut_at (k @ ''='' @ v) ''='' = (k, v, True)"
  by (simp add: cut_at_def str_index_char)

lemma last_set_entries:
  assumes "distinct ks" and "\<forall>k \<in> set ks. CHR ''='' \<notin> set k"
  shows "last_set (entry_value k) (map (\<lambda>k. k @ ''='' @ f k) ks) = (if k \<in> set ks then Some (f k) else None)"
  using assms
proof (induction ks rule: rev_induct)
  case (snoc x ks)
  then have "entry_value k (x @ ''='' @ f x) = (if x = k then Some (f x) else None)"
    using cut_entry[of x "f x"] by (simp add: entry_value_def)
  with snoc show ?case by auto
qed simp

section \<open>Port overrides\<close>

definition no_port :: "string \<Rightarrow> bool" where
  "no_port a \<longleftrightarrow> \<not> port_flag (case str_index a ''='' of Some eq \<Rightarrow> take eq a | None \<Rightarrow> a)"

lemma port_override_Cons:
  "port_override p (a # as) =
     (if no_port a then (case port_override p as of (q, kept) \<Rightarrow> (q, a # kept))
      else if str_index a ''='' \<noteq> None
        then port_override (case atoi (drop (Suc (the (str_index a ''=''))) a) of Some n \<Rightarrow> n | None \<Rightarrow> p) as
      else case as of
        [] \<Rightarrow> (case atoi [] of Some n \<Rightarrow> n | None \<Rightarrow> p, [])
      | v # rest \<Rightarrow> port_override (case atoi v of Some n \<Rightarrow> n | None \<Rightarrow> p) rest)"
  by (cases "str_index a ''=''") (auto simp: no_port_def)

lemma port_override_kept:
  "port_override p args = (q, kept) \<Longrightarrow> list_all no_port kept \<and> subseq kept args"
proof (induction args arbitrary: p kept rule: length_induct)
  case (1 args)
  show ?case
  proof (cases args)
    case (Cons a as)
    have IH: "list_all no_port k \<and> subseq k xs"
      if "length xs < length args" "port_override p' xs = (q, k)" for xs p' k
      using that "1.IH" by blast
    note prem = "1.prems"[unfolded Cons port_override_Cons]
    show ?thesis
    proof (cases "no_port a")
      case True
      then obtain k where "port_override p as = (q, k)" "kept = a # k"
        using prem by (auto split: prod.splits)
      with IH[of as p k] Cons True show ?thesis by simp
    next
      case False
      then have "(\<exists>xs p'. port_override p' xs = (q, kept) \<and> subseq xs as \<and> length xs \<le> length as) \<or> kept = []"
      proof (cases "str_index a ''='' \<noteq> None")
        case True
        with prem False show ?thesis by (intro disjI1 exI[of _ as]) auto
      next
        case nEq: False
        show ?thesis
        proof (cases as)
          case (Cons v rest)
          with prem False nEq show ?thesis by (intro disjI1 exI[of _ rest]) auto
        qed (use prem False nEq in auto)
      qed
      then show ?thesis
      proof
        assume "\<exists>xs p'. port_override p' xs = (q, kept) \<and> subseq xs as \<and> length xs \<le> length as"
        then obtain xs p' where x: "port_override p' xs = (q, kept)" "subseq xs as" "length xs \<le> length as" by blast
        then have "list_all no_port kept \<and> subseq kept xs" using IH[of xs p' kept] Cons by simp
        then show ?thesis using x(2) Cons by (auto intro: list_emb_Cons subseq_order.order_trans)
      qed simp
    qed
  qed (use "1.prems" in simp)
qed

lemma port_override_none: "list_all no_port args \<Longrightarrow> port_override p args = (p, args)"
  by (induction args) (auto simp: no_port_def split: option.splits)

section \<open>Properties\<close>

text \<open>However many shards a run has, each test file of the list runs in exactly one of them, as
  often as it is listed.\<close>

theorem shards_partition:
  assumes "parse_shard idx tot = Some s"
  shows "0 \<le> sh_index s \<and> sh_index s < sh_total s \<and>
    mset (concat (map (\<lambda>i. shard_files files (s\<lparr>sh_index := i\<rparr>)) [0..sh_total s - 1])) = mset files"
proof -
  have "0 \<le> sh_index s \<and> sh_index s < sh_total s \<and> 0 < sh_total s"
    using assms by (auto simp: parse_shard_def split: option.splits if_splits)
  moreover have u: "s\<lparr>sh_index := i\<rparr> = \<lparr>sh_index = i, sh_total = sh_total s\<rparr>" for i by simp
  ultimately show ?thesis using shards_cover[of "sh_total s" files] unfolding u by blast
qed

definition demo_files :: "test_file list" where
  "demo_files = map (\<lambda>n. \<lparr>tf_rlocation = n, tf_path = ''/r/'' @ n\<rparr>) [''c'', ''a'', ''b'']"

theorem shards_partition_witness:
  "map tf_rlocation (shard_files demo_files \<lparr>sh_index = 0, sh_total = 2\<rparr>) = [''a'', ''c''] \<and>
   mset (concat (map (\<lambda>i. shard_files demo_files \<lparr>sh_index = i, sh_total = 2\<rparr>) [0, 1])) = mset demo_files"
proof -
  have s: "parse_shard ''1'' ''2'' = Some \<lparr>sh_index = 1, sh_total = 2\<rparr>" by code_simp
  have u: "[0..1] = [0, 1 :: int]" by code_simp
  have "map tf_rlocation (shard_files demo_files \<lparr>sh_index = 0, sh_total = 2\<rparr>) = [''a'', ''c'']" by code_simp
  with shards_partition[OF s, of demo_files] show ?thesis by (simp add: u)
qed

text \<open>The child's environment has each key once; a key of the rule's env attribute has that
  value, any other the value of the last entry that sets it, the runfiles variables after the
  launcher's own.\<close>

theorem environ_precedence:
  assumes "distinct (map fst env)" and "\<forall>k \<in> fst ` set env. CHR ''='' \<notin> set k"
  shows "\<exists>m. environ os_env rf_env env = map (\<lambda>(k, v). k @ ''='' @ v) m \<and> distinct (map fst m) \<and>
    (\<forall>k. map_of m k = (case map_of env k of Some v \<Rightarrow> Some v
       | None \<Rightarrow> last_set (entry_value k) (os_env @ rf_env)))"
proof -
  let ?entries = "map (\<lambda>k. k @ ''='' @ the (map_of env k)) (sort_strings (map fst env))"
  let ?m = "fold env_set ?entries (fold env_set (os_env @ rf_env) [])"
  have "environ os_env rf_env env = map (\<lambda>(k, v). k @ ''='' @ v) ?m" by (simp add: environ_def Let_def)
  moreover have "distinct (map fst ?m)" by (intro fold_env_set_distinct) simp
  moreover have "map_of ?m k = (case map_of env k of Some v \<Rightarrow> Some v
      | None \<Rightarrow> last_set (entry_value k) (os_env @ rf_env))" for k
  proof -
    have "last_set (entry_value k) ?entries = (if k \<in> fst ` set env then Some (the (map_of env k)) else None)"
      using last_set_entries[of "sort_strings (map fst env)" k "\<lambda>k. the (map_of env k)"] assms by simp
    moreover have "k \<in> fst ` set env \<longleftrightarrow> map_of env k \<noteq> None"
      by (metis domIff dom_map_of_conv_image_fst)
    ultimately show ?thesis
      unfolding fold_env_set_lookup[of ?entries] fold_env_set_lookup[of "os_env @ rf_env"]
      by (auto split: option.splits)
  qed
  ultimately show ?thesis by blast
qed

theorem environ_precedence_witness:
  "environ [''A=1'', ''B=2'', ''A=3''] [''R=x''] [(''B'', ''9'')] = [''A=3'', ''B=9'', ''R=x''] \<and>
   (\<exists>m. environ [''A=1'', ''B=2'', ''A=3''] [''R=x''] [(''B'', ''9'')] = map (\<lambda>(k, v). k @ ''='' @ v) m \<and>
      map_of m ''B'' = Some ''9'')"
proof
  show "environ [''A=1'', ''B=2'', ''A=3''] [''R=x''] [(''B'', ''9'')] = [''A=3'', ''B=9'', ''R=x'']"
    by code_simp
  have "distinct (map fst [(''B'', ''9'')])" "\<forall>k \<in> fst ` set [(''B'', ''9'')]. CHR ''='' \<notin> set k" by auto
  from environ_precedence[OF this, of "[''A=1'', ''B=2'', ''A=3'']" "[''R=x'']"] obtain m where
    "environ [''A=1'', ''B=2'', ''A=3''] [''R=x''] [(''B'', ''9'')] = map (\<lambda>(k, v). k @ ''='' @ v) m"
    "map_of m ''B'' = (case map_of [(''B'', ''9'')] ''B'' of Some v \<Rightarrow> Some v
       | None \<Rightarrow> last_set (entry_value ''B'') ([''A=1'', ''B=2'', ''A=3''] @ [''R=x'']))" by blast
  then show "\<exists>m. environ [''A=1'', ''B=2'', ''A=3''] [''R=x''] [(''B'', ''9'')] = map (\<lambda>(k, v). k @ ''='' @ v) m \<and>
      map_of m ''B'' = Some ''9''"
    by (intro exI[of _ m]) simp
qed

text \<open>A supervised dev server outlives every SIGTERM: none is passed on, each Ctrl-C or hangup
  reaches it as one, every other signal as itself, and the launcher's status is 0 when one of
  those came before the exit and the child's own otherwise.\<close>

theorem supervise_dev_server:
  "supervise dev_supervision False (map Sig sigs @ Exited w # es) =
     (map (\<lambda>s. if s = SIGINT \<or> s = SIGHUP then SIGTERM else s) (filter (\<lambda>s. s \<noteq> SIGTERM) sigs),
      Some (if SIGINT \<in> set sigs \<or> SIGHUP \<in> set sigs then (0, False) else exit_code w))"
proof -
  have "supervise dev_supervision i (map Sig sigs @ Exited w # es) =
     (map (\<lambda>s. if s = SIGINT \<or> s = SIGHUP then SIGTERM else s) (filter (\<lambda>s. s \<noteq> SIGTERM) sigs),
      Some (if i \<or> SIGINT \<in> set sigs \<or> SIGHUP \<in> set sigs then (0, False) else exit_code w))" for i
    by (induction sigs arbitrary: i) (auto simp: dev_supervision_def Let_def)
  from this[of False] show ?thesis by simp
qed

text \<open>Taking the port flags out of the arguments leaves none: what is kept is a subsequence of
  the arguments without a port flag in either spelling, on which the override does nothing.\<close>

theorem port_override_strips:
  assumes "port_override port args = (q, kept)"
  shows "subseq kept args \<and> list_all no_port kept \<and> port_override q kept = (q, kept)"
  using port_override_kept[OF assms] port_override_none by blast

theorem port_override_strips_witness:
  "port_override 5173 [''--host'', ''-p'', ''80'', ''--port=81'', ''--open=x''] = (81, [''--host'', ''--open=x'']) \<and>
   port_override 81 [''--host'', ''--open=x''] = (81, [''--host'', ''--open=x''])"
proof -
  have h: "port_override 5173 [''--host'', ''-p'', ''80'', ''--port=81'', ''--open=x''] = (81, [''--host'', ''--open=x''])"
    by code_simp
  from port_override_strips[OF h] h show ?thesis by blast
qed

end
