(* ===== verification/LauncherPlan.thy ===== *)
theory LauncherPlan imports Launcher GoRegexp begin

text \<open>
  How the launcher turns a config into a plan and runs it: plan.go, node.go, nodetest.go,
  vitest.go, devserver.go and cleanup.go of \<open>tools/launcher/\<close>.  A planner is a function on a
  world, the plan under construction and the trace of what it did to the disk; the answers of the
  process environment, the disk and the runfiles library are the host, an argument.
\<close>

section \<open>Paths a runfile may have\<close>




section \<open>The host and the world\<close>


datatype act =
    Made string
  | Removed string
  | Linked string string
  | MadeDir string
  | Wrote string
  | Staged string
  | PlacedNpm string
  | Unlinked string

record host =
  h_getenv :: "string \<Rightarrow> string"
  h_getwd :: "string option"
  h_abs :: "string \<Rightarrow> string option"
  h_eval :: "string \<Rightarrow> string option"
  h_isDir :: "string \<Rightarrow> bool"
  h_isFile :: "string \<Rightarrow> bool"
  h_exists :: "string \<Rightarrow> bool"  \<comment> \<open>\<open>Lstat\<close> finds it\<close>
  h_readlink :: "string \<Rightarrow> string option"
  h_aliased :: "string \<Rightarrow> bool"  \<comment> \<open>a symbolic link to a directory\<close>
  h_lines :: "string \<Rightarrow> string list option"
  h_mktemp :: "string \<Rightarrow> string option"
  h_fails :: "act \<Rightarrow> bool"

record plan =
  pl_label :: string
  pl_mode :: string
  pl_argv :: "string list"
  pl_dir :: string
  pl_env :: overrides
  pl_exitEarly :: bool
  pl_useExec :: bool
  pl_runfilesEnv :: "string list"
  pl_supervise :: supervise_options
  pl_cleanup :: "(string \<times> bool) list"
  pl_postRun :: "string list"  \<comment> \<open>the steps after the child, by name\<close>

record world =
  w_plan :: plan
  w_trace :: "act list"

datatype plan_error = PlanError string

type_synonym 'a m = "world \<Rightarrow> (plan_error + 'a) \<times> world"






section \<open>Resolver\<close>






section \<open>Owned paths\<close>

definition remove_owned :: "unit m" where
  \<comment> \<open>\<open>Cleanup\<close>; a failed removal is only reported\<close>
  "remove_owned w = (Inr (), w\<lparr>w_trace := w_trace w @ map (\<lambda>(p, _). Removed p) (pl_cleanup (w_plan w))\<rparr>)"



section \<open>Shared steps\<close>







section \<open>Node and node:test\<close>




section \<open>Vitest\<close>










section \<open>The dev server\<close>




section \<open>Planning and running\<close>






section \<open>Owned paths are removed\<close>

text \<open>A path that was made is removed or owned; \<open>pend t\<close> excepts the path just made.\<close>

definition disposed :: "host \<Rightarrow> world \<Rightarrow> string \<Rightarrow> bool" where
  "disposed h w p \<longleftrightarrow> Removed p \<in> set (w_trace w) \<or>
     (\<exists>a. h_abs h p = Some a \<and> (Removed a \<in> set (w_trace w) \<or> a \<in> fst ` set (pl_cleanup (w_plan w))))"








































text \<open>After the removal of what is owned, a disposed path is removed.\<close>

lemma remove_owned_disposed:
  "disposed h w p \<Longrightarrow> let t = set (w_trace (snd (remove_owned w))) in
     Removed p \<in> t \<or> (\<exists>a. h_abs h p = Some a \<and> Removed a \<in> t)"
  by (auto simp: remove_owned_def disposed_def Let_def)

















section \<open>Properties\<close>





end
