(* ===== verification/Spec2Isabelle.thy ===== *)
theory Spec2Isabelle
  imports Jsonc Tsconfig ExplainFiles ListingCache Incremental Owner SourceScan NpmLabels
    Keep Proto Emission ResolveRule MinimizeExact StrictDeps Exclude ShowConfig PackageManifest LcovMerger Changelog Release Launcher LauncherPlan
begin

text \<open>
  A verification development for the Go programs of rules_typescript.

  \<^bold>\<open>The programs.\<close>  rules_typescript is a Bazel rule set.  Its Go code is a Gazelle extension
  (gazelle/), which asks the TypeScript compiler what each tsconfig.json compiles and writes BUILD
  files from the answer; the tools that run inside Bazel actions (ts/tools/); the launcher that
  starts a test or a server from its runfiles (tools/launcher/); and release tooling (tools/changelog,
  tools/release, tools/lcov_merger).  Gazelle reads a configuration with ts/tools/tsconfig, which
  reads JSON with comments through ts/tools/jsonc; it reads the compiler's listing with
  ts/tools/explainfiles, caches it (listing_cache.go), patches a cached one after an edit
  (listing_patch.go), and decides from the listings which package owns which file (owner.go).
  gazelle/incremental decides whether a run is needed at all.

  \<^bold>\<open>Shared theories.\<close>  Prelude: bytes, lists, folds.  GoStrings: the functions of Go's package
  strings the sources call, and bytewise sorting.  GoPath: path.Clean, Dir, Base, Ext, Join.
  GoRegexp: regular expressions as a datatype with leftmost-first matching, for the patterns the
  sources compile.  Layering: a locale of layered records (an override with a unit), interpreted by
  Tsconfig.  Closure: a locale of a search over a finite graph, interpreted on the worklist loop
  that listing_patch.go runs.  WalkUp: the loop from a directory to the root over parentDir.

  \<^bold>\<open>Components.\<close>
  Jsonc (ts/tools/jsonc/jsonc.go): strip is the byte scanner Strip, with dropTrailingComma on its
  output; the lemmas show it equals removing the comments and then the commas, that it keeps every
  line break, and that plain JSON passes unchanged.
  Tsconfig (ts/tools/tsconfig/tsconfig.go): a disk of decoded files; resolve is the recursion over
  extends with its stack of open files, override the merge of two layers.  The lemmas show that a
  chain resolves to the fold of override over its layers, that each option is the last one set, and
  that resolving fails exactly when a config it asks for is refused admission or the leaf cannot be
  read; the recursion is bounded by the files not yet on the stack.
  ExplainFiles (ts/tools/explainfiles/explainfiles.go): the parser of a listing, with the state of
  Parse as a record and one step per line.  The lemmas show what a parsed listing's edges name, that
  every closed trace is recorded once and every trace that starts ends, and that the literal check
  in front of a reason's expression changes no result.
  ListingCache (gazelle/listing_cache.go, listing_patch.go): the key and fingerprint of a cached
  listing, reachable, patchListing with each refusal as a value, and loadListing.  Map iteration
  order is the parameter order, so the results hold for each.  The lemmas show that reachable is
  the closure, that a patched listing has exactly the files its edges reach, and which edges the changed
  files have.
  Incremental (gazelle/incremental/record.go, snapshot.go): the record of a run, Unchanged, Changed
  and the walk of the tree.  The lemmas show when a run may be skipped.
  Owner (gazelle/owner.go): the store of a run, owner, srcs and the report on files nobody owns.
  The lemmas show that a file belongs to the nearest package or to none, that the loop ends, and
  that no file is a source of two packages.
  SourceScan (gazelle/incremental/signature.go): the token scanner over the record of the Go struct,
  Signature and Specifiers.  The lemmas show that the scanner ends on every source, what a successful
  scan leaves, and that no slice of Specifiers panics.
  PnpmLock, NpmLabels (gazelle/pnpm_lock.go, npm.go): the line reader of pnpm-lock.yaml and what the
  labels of packages and importers are.  The lemmas show that rendered importers read back, that
  package keys read back, that the walk to the importer that declares a name ends at the nearest one
  and when the members are independent of map iteration order.
  BuildRules, Keep (gazelle/labels.go, keep.go, the kinds of language.go): rules, labels and keep
  comments as the extension reads them, and what a regeneration drops and reports.  Gazelle's label
  package is the record label_api.
  ProtoGraph, Proto (gazelle/proto_graph.go, proto.go): the graph of native proto libraries with its
  recursive visits as loops over the calls still to make, the identities of a package, the wrappers
  and the search for the wrapper of a generated file.  The lemmas show that the owners found are the
  nearest nodes with sources, that the wrappers are closed under native dependencies, that the output
  roots of a package stay apart, and that the wrappers of a run's observations, every native library
  among them, have names and files of their own.
  EmissionStore, Emission (gazelle/emission.go): the store of rules and BUILD files with its versions
  and its memo of registered files, and the walk that turns emission on.  The lemmas show that the
  memo changes nothing that is stored, that a walk without an error turns on the emission of every needed
  rule Gazelle maintains and lets no raw TypeScript pass in the others, and that an export
  pattern matches as Node substitutes.
  Producers, SourceImports (gazelle/resolve.go): the outputs a rule declares, the index of a package
  and the scan that stores rules as it meets them, the codegen trees above a file; the files behind a
  rule's sources through filegroups and aliases, the imports a managed rule selects, and the rule
  that holds a file.  The store is threaded through every question that observes a package.  The
  lemmas show that index and scan give the nearest producer and the deepest tree, that a complete
  projection holds exactly the files the literal sources mean (an inductive predicate on the BUILD
  files), and that the rule that holds a file does
  not depend on map iteration order.
  Inputs, Exports (gazelle/owner.go, manifest.go, generate.go): whether a file is authored, generated,
  unknown or missing, the package.json above it, the scope it requires, what a new package would cut
  off, and who may read an exported file.  Every question may observe BUILD files, so it is a function
  on the store, and log.Fatal is a fault; the lemmas show that a question on a store that holds what
  the files declare leaves it unchanged, that a required scope is an authored file, and that a new
  package without a conflict has no declared target strictly below it.
  EdgeDep, ResolveEdges, ResolveRule (gazelle/resolve.go): what one edge of the listing needs
  (generatedDep, edgeDep), the walk over the edges with its queue, and the attributes of a rule with
  its runtime scopes.  The walk's loop ends because a file's edges join the queue once.  The lemmas
  show that no import of a first-party file is lost, that the walk records exactly the needs of the
  edges that are due (an inductive predicate), and that these needs are among the dependencies the rule is given.
  Minimize, MinimizeExact (gazelle/resolve.go): what the dependencies of a program supply, and the
  loop of minimizeDependencies with its counts over a fixed supply.  The owners' modes change as
  they are asked for, so sourceOwner is a parameter on a state; an invariant ties the
  counts and indexes to the retained dependencies.  The lemmas show that the counts keep exactly the
  dependencies that computing the supply anew for every candidate keeps.
  ActionPaths (ts/tools/tsaction/showconfig.go, tsgo.go): the path functions the actions share.
  StrictDeps (check.go): the ownership manifest and the check of the compiler's listing against it.
  Exclude (exclude.go): the expression of an exclude entry.  ShowConfig (showconfig.go): the config
  of an action, with the disk and tsgo --showConfig as parameters and the acts on the disk as a list.
  The lemmas show that a relative path leads back to its target, that the check reports exactly the
  undeclared edges, that an exclude entry excludes what its glob names, that every source is an
  include entry of the config unless tsgo printed it as a root, and that no options are written
  without a checked config.
  ManifestTargets, PackageManifest (manifest.go): the targets of a package.json, their escapes and
  their projection on runtime modules; the token machine that rewrites the file, as a step over the
  stack of open frames, and the check of a runtime scope.  The lemmas show that a projected target
  names the runtime module of each source it stood for, that the machine writes the document with its
  targets transformed, and that an accepted scope resolves every projected target.
  LcovMerger, Changelog, Release (tools/): the whole of each tool on values, with the world as a
  parameter and the acts on it as a log.  The lemmas show that the merged report holds the selected
  records, that a removed changelog fragment stands in the new section, and that no mutating step of
  a release runs before its checks.
  Launcher, LauncherPlan (tools/launcher/): the configuration, the environment, shards and
  supervision as functions on values; the planners over a host that answers for the disk, their acts
  as a trace.  The lemmas show that the shards partition the tests, the precedence of environment
  keys, how a supervised server ends, and that every temporary directory and link a planner makes is
  removed (the cache directories of a dev server stay in the output tree).

  \<^bold>\<open>Termination and fuel.\<close>  Scanners recurse on the bytes left; extends on the files not on the
  stack; the worklist on the edges and queue left; the walks over the proto graph and over the rules
  on the keys not yet marked; the walk to the root on the length of the path.  Where the Go loop
  would not end (a walk from an absolute path stays at the slash), the model gives None or Spins, and
  the theorems show that callers never get it.  Only the mutually recursive procedures of SourceScan
  run by fuel: one unit per call, where twice the length of the source plus one suffices, because a
  call either consumes a byte or returns; the theorem on the scanner proves it for every source.

  \<^bold>\<open>Not modelled.\<close>  The compiler, Gazelle's own libraries, encoding/json, regexp.Compile, process
  creation and the file system are parameters.  Of resolve.go the walk over the program of a test
  config with the worker pool it may need, configSrcLabels, removeSuppliedProgramInputs and
  retainSourceImporters are left out: they edit rule objects of Gazelle in place.  So is rule
  generation (generate.go), the merge of rules (language.go) and the directives of config.go.  The
  compiler runs of program.go, most of tsaction (the layout of an action's files, the editor config),
  runtimeview, toolpack, quickstart and copy_to_workspace act on the disk with little logic of their
  own; goroutine scheduling (workers_pool.go, prefetch.go) changes no result; the test harness is not
  part of the program.
\<close>

end
